(* ===== verification/LKV_Prelude.thy ===== *)
theory LKV_Prelude
  imports Main "HOL-Library.Word" "HOL-Library.Multiset"
begin

text \<open>
  Shared vocabulary of the LiteKV development: the type synonyms that name the C++ types
  of the program, the conversion between characters and 8-bit words, the collections of
  theorems that the component theories extend, and generic lemmas on lists, association
  lists and words used by several components.

  A C++ \<open>char\<close> is one byte; it is a HOL \<open>char\<close> (256 values), and a
  \<open>std::string\<close>, a \<open>std::vector<char>\<close> or a character array is a HOL
  \<open>string\<close>, that is, a list of characters. Embedded NUL bytes are ordinary elements.
\<close>

unbundle bit_operations_syntax

section \<open>Theorem collections\<close>

named_theorems codec_simps \<open>equations of encoders and decoders on their own output\<close>
named_theorems dstr_simps \<open>effect of a DynamicString operation on its contents\<close>
named_theorems hash_simps \<open>effect of a hash table operation on the abstract map\<close>
named_theorems dlist_simps \<open>effect of a DList operation on the abstract list\<close>
named_theorems inv_intros \<open>preservation of the component invariants\<close>

section \<open>Types\<close>

type_synonym bytes = string
type_synonym u8 = "8 word"
type_synonym u32 = "32 word"
type_synonym u64 = "64 word"

text \<open>
  The limits of the signed integer types, and the reduction of a mathematical integer to
  the value a 64-bit (32-bit) two's complement variable holds.
\<close>

abbreviation INT64_MAX :: int where "INT64_MAX \<equiv> 9223372036854775807"
abbreviation INT64_MIN :: int where "INT64_MIN \<equiv> - 9223372036854775808"
abbreviation INT32_MAX :: int where "INT32_MAX \<equiv> 2147483647"
abbreviation INT32_MIN :: int where "INT32_MIN \<equiv> - 2147483648"
abbreviation UINT64_MAX :: int where "UINT64_MAX \<equiv> 18446744073709551615"

definition in_int64 :: "int \<Rightarrow> bool" where
  "in_int64 i \<longleftrightarrow> INT64_MIN \<le> i \<and> i \<le> INT64_MAX"

definition in_int32 :: "int \<Rightarrow> bool" where
  "in_int32 i \<longleftrightarrow> INT32_MIN \<le> i \<and> i \<le> INT32_MAX"

definition wrap64 :: "int \<Rightarrow> int" where
  "wrap64 i = sint (word_of_int i :: u64)"

definition wrap32 :: "int \<Rightarrow> int" where
  "wrap32 i = sint (word_of_int i :: u32)"

lemma wrap32_id: "in_int32 i \<Longrightarrow> wrap32 i = i"
  by (simp add: wrap32_def in_int32_def signed_of_int signed_take_bit_int_eq_self)

lemma wrap64_id: "in_int64 i \<Longrightarrow> wrap64 i = i"
  by (simp add: wrap64_def in_int64_def signed_of_int signed_take_bit_int_eq_self)

section \<open>Characters and bytes\<close>

text \<open>
  \<open>ord8\<close> is the reading of a character as an \<open>unsigned char\<close>, \<open>chr8\<close> the
  reading of a byte as a character.
\<close>

definition ord8 :: "char \<Rightarrow> u8" where
  "ord8 c = of_char c"

definition chr8 :: "u8 \<Rightarrow> char" where
  "chr8 w = char_of (unat w)"

lemma unat_of_char [simp]: "unat (of_char c :: u8) = (of_char c :: nat)"
proof -
  have "unat (of_char c :: u8) = unat (of_nat (of_char c) :: u8)"
    by (simp only: of_nat_of_char)
  also have "\<dots> = of_char c" by (simp only: unat_of_nat) simp
  finally show ?thesis .
qed

lemma chr8_ord8 [simp]: "chr8 (ord8 c) = c"
  by (simp add: chr8_def ord8_def)

lemma ord8_chr8 [simp]: "ord8 (chr8 w) = w"
proof -
  have "unat (ord8 (chr8 w)) = unat w mod 256"
    by (simp add: chr8_def ord8_def)
  also have "\<dots> = unat w" using unsigned_less [of w, where ?'a = nat] by simp
  finally show ?thesis by (rule word_unat_eq_iff [THEN iffD2])
qed

text \<open>
  The bits of the masks the byte codecs use. The simplifier reads a bit of a word numeral
  off the integer of the same digits (\<open>bit_numeral_word_iff\<close>).
\<close>

lemma bit_int_255 [simp]: "bit (255 :: int) n \<longleftrightarrow> n < 8"
proof -
  have "(255 :: int) = mask 8" by (simp add: mask_eq_exp_minus_1)
  then show ?thesis by (simp only: bit_mask_iff) (simp add: bit_mask_iff)
qed

lemma bit_int_127 [simp]: "bit (127 :: int) n \<longleftrightarrow> n < 7"
proof -
  have "(127 :: int) = mask 7" by (simp add: mask_eq_exp_minus_1)
  then show ?thesis by (simp only: bit_mask_iff) (simp add: bit_mask_iff)
qed

lemma bit_int_128 [simp]: "bit (128 :: int) n \<longleftrightarrow> n = 7"
proof -
  have "(128 :: int) = 2 ^ 7" by simp
  then show ?thesis by (simp only: bit_exp_iff) auto
qed

lemma ord8_inject [simp]: "ord8 a = ord8 b \<longleftrightarrow> a = b"
  by (metis chr8_ord8)

lemma chr8_inject [simp]: "chr8 a = chr8 b \<longleftrightarrow> a = b"
  by (metis ord8_chr8)

section \<open>Sequences of calls\<close>

text \<open>
  Running a sequence of calls on an object: the final state and the results in order. The
  locale states that an implementation refines a specification one call at a time, on states
  with the invariant and calls the abstract state allows (\<open>ok\<close>), and extends it to
  sequences of calls.
\<close>

fun run_calls :: "('s \<Rightarrow> 'op \<Rightarrow> 's \<times> 'r) \<Rightarrow> 's \<Rightarrow> 'op list \<Rightarrow> 's \<times> 'r list" where
  "run_calls step s [] = (s, [])"
| "run_calls step s (c # cs) =
     (case step s c of (s', r) \<Rightarrow> case run_calls step s' cs of (s'', rs) \<Rightarrow> (s'', r # rs))"

fun calls_ok :: "('a \<Rightarrow> 'op \<Rightarrow> bool) \<Rightarrow> ('a \<Rightarrow> 'op \<Rightarrow> 'a \<times> 'r) \<Rightarrow> 'a \<Rightarrow> 'op list \<Rightarrow> bool" where
  "calls_ok ok spec a [] \<longleftrightarrow> True"
| "calls_ok ok spec a (c # cs) \<longleftrightarrow> ok a c \<and> calls_ok ok spec (fst (spec a c)) cs"

lemma calls_ok_True [simp]: "calls_ok (\<lambda>a c. True) spec a cs"
  by (induction cs arbitrary: a) auto

locale call_refinement =
  fixes abs :: "'s \<Rightarrow> 'a"
    and inv :: "'s \<Rightarrow> bool"
    and ok :: "'a \<Rightarrow> 'op \<Rightarrow> bool"
    and step :: "'s \<Rightarrow> 'op \<Rightarrow> 's \<times> 'r"
    and spec :: "'a \<Rightarrow> 'op \<Rightarrow> 'a \<times> 'r"
  assumes step_inv: "inv s \<Longrightarrow> ok (abs s) c \<Longrightarrow> step s c = (s', r) \<Longrightarrow> inv s'"
    and step_spec: "inv s \<Longrightarrow> ok (abs s) c \<Longrightarrow> step s c = (s', r) \<Longrightarrow> spec (abs s) c = (abs s', r)"
begin

lemma run_refines:
  assumes "inv s" "calls_ok ok spec (abs s) cs" "run_calls step s cs = (s', rs)"
  shows "inv s' \<and> run_calls spec (abs s) cs = (abs s', rs)"
  using assms
proof (induction cs arbitrary: s s' rs)
  case (Cons c cs)
  obtain s1 r where c: "step s c = (s1, r)" by fastforce
  obtain s2 rs2 where cs: "run_calls step s1 cs = (s2, rs2)" by fastforce
  have 1: "inv s1" "spec (abs s) c = (abs s1, r)"
    using Cons.prems c step_inv step_spec by auto
  show ?case using Cons.IH [OF 1(1) _ cs] Cons.prems c cs 1(2) by simp
qed simp

end

end
