(* ===== verification/CStd.thy ===== *)
theory CStd
  imports LKV_Prelude
begin

text \<open>
  The parts of the C and C++ standard libraries the program calls, as HOL functions:
  decimal printing (\<open>std::to_string\<close>, stream insertion of integers), the decimal
  parsers \<open>strtoll\<close>, \<open>std::stoll\<close>, \<open>std::stoi\<close>, \<open>std::stoull\<close>, the
  reading of a C string up to its first NUL, \<open>::tolower\<close> and \<open>std::search\<close>. The lemmas give
  printing and parsing as inverses.
\<close>

section \<open>Definitions\<close>

text \<open>What a function that takes a NUL-terminated string sees of a character sequence.\<close>

definition c_str :: "string \<Rightarrow> string" where
  "c_str s = takeWhile (\<lambda>c. c \<noteq> CHR 0x00) s"

definition digit_char :: "nat \<Rightarrow> char" where
  "digit_char d = char_of (48 + d)"

definition is_digit :: "char \<Rightarrow> bool" where
  "is_digit c \<longleftrightarrow> 48 \<le> (of_char c :: nat) \<and> (of_char c :: nat) \<le> 57"

definition digit_val :: "char \<Rightarrow> nat" where
  "digit_val c = of_char c - 48"

definition is_space :: "char \<Rightarrow> bool" where
  "is_space c \<longleftrightarrow> (of_char c :: nat) = 32 \<or> (9 \<le> (of_char c :: nat) \<and> (of_char c :: nat) \<le> 13)"

fun to_string_nat :: "nat \<Rightarrow> string" where
  "to_string_nat n =
     (if n < 10 then [digit_char n] else to_string_nat (n div 10) @ [digit_char (n mod 10)])"

declare to_string_nat.simps [simp del]

definition std_to_string :: "int \<Rightarrow> string" where
  "std_to_string i =
     (if i < 0 then CHR ''-'' # to_string_nat (nat (- i)) else to_string_nat (nat i))"

definition digits_val :: "string \<Rightarrow> nat" where
  "digits_val s = foldl (\<lambda>a c. 10 * a + digit_val c) 0 s"

text \<open>
  The subject sequence of the \<open>strto*\<close> functions: leading white space, an optional
  sign, and the longest run of digits. The result is the length of white space and sign,
  whether the sign is a minus, and the digits.
\<close>

definition strto_scan :: "string \<Rightarrow> nat \<times> bool \<times> string" where
  "strto_scan s =
     (let ws = length (takeWhile is_space s);
          s1 = drop ws s;
          sg = (if s1 \<noteq> [] \<and> (hd s1 = CHR ''-'' \<or> hd s1 = CHR ''+'') then 1 else 0);
          neg = (s1 \<noteq> [] \<and> hd s1 = CHR ''-'')
      in (ws + sg, neg, takeWhile is_digit (drop sg s1)))"

text \<open>Number of characters the scan accepts before it looks at the character that stops it.\<close>

definition strto_span :: "string \<Rightarrow> nat" where
  "strto_span s = (case strto_scan s of (pre, neg, ds) \<Rightarrow> pre + length ds)"

text \<open>
  \<open>strtoll (s, &end, 10)\<close>: the value, clamped to the limits of \<open>long long\<close>; the
  distance \<open>end - s\<close>, which is 0 when there are no digits; and whether \<open>errno\<close> is
  set to \<open>ERANGE\<close>.
\<close>

definition strtoll :: "string \<Rightarrow> int \<times> nat \<times> bool" where
  "strtoll s =
     (case strto_scan s of (pre, neg, ds) \<Rightarrow>
        if ds = [] then (0, 0, False)
        else let m = int (digits_val ds); v = (if neg then - m else m)
             in (max INT64_MIN (min INT64_MAX v), pre + length ds, \<not> in_int64 v))"

datatype std_exception = invalid_argument | out_of_range | overflow_error

definition std_stoll :: "string \<Rightarrow> std_exception + int" where
  "std_stoll s =
     (case strtoll (c_str s) of (v, step, erange) \<Rightarrow>
        if step = 0 then Inl invalid_argument else if erange then Inl out_of_range else Inr v)"

definition std_stoi :: "string \<Rightarrow> std_exception + int" where
  "std_stoi s =
     (case strtoll (c_str s) of (v, step, erange) \<Rightarrow>
        if step = 0 then Inl invalid_argument
        else if erange \<or> \<not> in_int32 v then Inl out_of_range else Inr v)"

text \<open>\<open>std::stoull\<close> accepts a minus sign and negates modulo \<open>2 ^ 64\<close>.\<close>

definition std_stoull :: "string \<Rightarrow> std_exception + u64" where
  "std_stoull s =
     (case strto_scan (c_str s) of (pre, neg, ds) \<Rightarrow>
        if ds = [] then Inl invalid_argument
        else let m = int (digits_val ds)
             in if UINT64_MAX < m then Inl out_of_range
                else Inr (if neg then - word_of_int m else word_of_int m))"

definition c_tolower :: "char \<Rightarrow> char" where
  "c_tolower c =
     (if 65 \<le> (of_char c :: nat) \<and> (of_char c :: nat) \<le> 90 then char_of ((of_char c :: nat) + 32) else c)"

text \<open>
  \<open>std::search\<close>: the offset of the first occurrence of a pattern; \<open>None\<close> stands for
  the end iterator.
\<close>

fun std_search :: "string \<Rightarrow> string \<Rightarrow> nat option" where
  "std_search pat [] = (if pat = [] then Some 0 else None)"
| "std_search pat (c # cs) =
     (if take (length pat) (c # cs) = pat then Some 0 else map_option Suc (std_search pat cs))"

text \<open>
  \<open>memcmp\<close> and \<open>strcmp\<close> compare bytes as unsigned characters; only the sign of the
  result is used. \<open>strcmp\<close> takes what is before the first NUL of both arguments and
  compares the terminators too, so a proper prefix is smaller.
\<close>

fun byte_cmp :: "string \<Rightarrow> string \<Rightarrow> int" where
  "byte_cmp (a # as) (b # bs) =
     (if a = b then byte_cmp as bs
      else if (of_char a :: nat) < of_char b then - 1 else 1)"
| "byte_cmp _ _ = 0"

definition c_memcmp :: "string \<Rightarrow> string \<Rightarrow> nat \<Rightarrow> int" where
  "c_memcmp a b n = byte_cmp (take n a) (take n b)"

definition c_strcmp :: "string \<Rightarrow> string \<Rightarrow> int" where
  "c_strcmp a b = byte_cmp (c_str a @ [CHR 0x00]) (c_str b @ [CHR 0x00])"

text \<open>
  \<open>memcpy (b + off, s, length s)\<close>. Writing past the end of \<open>b\<close> makes the result
  longer than \<open>b\<close>: an invariant that fixes the length of a buffer excludes it.
\<close>

definition c_memcpy :: "string \<Rightarrow> nat \<Rightarrow> string \<Rightarrow> string" where
  "c_memcpy b off s = take off b @ s @ drop (off + length s) b"

section \<open>Lemmas\<close>

lemma length_c_memcpy [simp]: "off + length s \<le> length b \<Longrightarrow> length (c_memcpy b off s) = length b"
  by (simp add: c_memcpy_def)

lemma take_c_memcpy:
  "off \<le> length b \<Longrightarrow> take (off + length s) (c_memcpy b off s) = take off b @ s"
  by (simp add: c_memcpy_def)

lemma take_c_memcpy_before: "n \<le> off \<Longrightarrow> off \<le> length b \<Longrightarrow> take n (c_memcpy b off s) = take n b"
  by (simp add: c_memcpy_def min_def)

lemma byte_cmp_eq_0: "length a = length b \<Longrightarrow> byte_cmp a b = 0 \<longleftrightarrow> a = b"
  by (induction a b rule: list_induct2) auto

lemma byte_cmp_append: "length a = length b \<Longrightarrow> byte_cmp (a @ c) (b @ d) = (if a = b then byte_cmp c d else byte_cmp a b)"
  by (induction a b rule: list_induct2) auto

lemma byte_cmp_sym: "byte_cmp b a = - byte_cmp a b"
proof (induction a b rule: byte_cmp.induct)
  case (1 a as b bs)
  show ?case
  proof (cases "a = b")
    case True
    from "1.IH" [OF this] True show ?thesis by (simp only: byte_cmp.simps if_True refl)
  next
    case False
    then have "(of_char a :: nat) \<noteq> of_char b" by (metis char_of_char)
    with False show ?thesis by auto
  qed
qed auto

lemma of_char_digit_char [simp]: "d < 10 \<Longrightarrow> (of_char (digit_char d) :: nat) = 48 + d"
  by (simp add: digit_char_def)

lemma is_digit_digit_char [simp]: "d < 10 \<Longrightarrow> is_digit (digit_char d)"
  by (simp add: is_digit_def)

lemma digit_val_digit_char [simp]: "d < 10 \<Longrightarrow> digit_val (digit_char d) = d"
  by (simp add: digit_val_def)

lemma set_to_string_nat: "c \<in> set (to_string_nat n) \<Longrightarrow> is_digit c"
proof (induction n rule: to_string_nat.induct)
  case (1 n)
  then show ?case by (subst (asm) (2) to_string_nat.simps) (auto split: if_splits)
qed

lemma to_string_nat_nonempty [simp]: "to_string_nat n \<noteq> []"
  by (subst to_string_nat.simps) simp

lemma digits_val_snoc [simp]: "digits_val (s @ [c]) = 10 * digits_val s + digit_val c"
  by (simp add: digits_val_def)

lemma digits_val_to_string [simp]: "digits_val (to_string_nat n) = n"
proof (induction n rule: to_string_nat.induct)
  case (1 n)
  then show ?case
    by (cases "n < 10") (simp_all add: to_string_nat.simps [of n] digits_val_def)
qed

lemma length_to_string_nat_le: "length (to_string_nat n) \<le> Suc k \<longleftrightarrow> n < 10 ^ Suc k"
proof (induction n arbitrary: k rule: to_string_nat.induct)
  case (1 n)
  show ?case
  proof (cases "n < 10")
    case True
    moreover have "(10 :: nat) \<le> 10 ^ Suc k" by simp
    ultimately have "n < 10 ^ Suc k" by linarith
    with True show ?thesis by (simp add: to_string_nat.simps [of n])
  next
    case False
    show ?thesis
    proof (cases k)
      case 0
      then show ?thesis using False by (simp add: to_string_nat.simps [of n])
    next
      case (Suc j)
      then have "length (to_string_nat n) \<le> Suc k \<longleftrightarrow> n div 10 < 10 ^ Suc j"
        using False "1.IH" [of j] by (simp add: to_string_nat.simps [of n])
      also have "\<dots> \<longleftrightarrow> n < 10 ^ Suc k"
        using Suc by (simp add: div_less_iff_less_mult mult.commute)
      finally show ?thesis .
    qed
  qed
qed

lemma is_digit_not_special:
  "is_digit c \<Longrightarrow> \<not> is_space c \<and> c \<noteq> CHR ''-'' \<and> c \<noteq> CHR ''+'' \<and> c \<noteq> CHR 0x00"
  by (auto simp: is_digit_def is_space_def)

lemma minus_not_special [simp]: "\<not> is_space CHR ''-''" "\<not> is_digit CHR ''-''" "\<not> is_digit CHR 0x0D"
  by (simp_all add: is_space_def is_digit_def)

lemma hd_to_string_nat: "is_digit (hd (to_string_nat n @ rest))"
  using set_to_string_nat [of "hd (to_string_nat n)" n] by simp

lemma takeWhile_digits_to_string:
  "(rest = [] \<or> \<not> is_digit (hd rest)) \<Longrightarrow>
   takeWhile is_digit (to_string_nat n @ rest) = to_string_nat n"
  by (cases rest) (auto simp: takeWhile_append set_to_string_nat)

lemma takeWhile_space_to_string: "takeWhile is_space (to_string_nat n @ rest) = []"
  using hd_to_string_nat [of n rest] is_digit_not_special
  by (cases "to_string_nat n @ rest") auto

lemma strto_scan_to_string:
  assumes "rest = [] \<or> \<not> is_digit (hd rest)"
  shows "strto_scan (std_to_string i @ rest) =
    (if i < 0 then 1 else 0, i < 0, to_string_nat (nat \<bar>i\<bar>))"
proof (cases "i < 0")
  case True
  then show ?thesis
    using takeWhile_digits_to_string [OF assms]
    by (simp add: std_to_string_def strto_scan_def)
next
  case False
  then show ?thesis
    using takeWhile_digits_to_string [OF assms, of "nat i"] takeWhile_space_to_string [of "nat i" rest]
      is_digit_not_special [OF hd_to_string_nat [of "nat i" rest]]
    by (simp add: std_to_string_def strto_scan_def)
qed

lemma length_std_to_string: "length (std_to_string i) = (if i < 0 then 1 else 0) + length (to_string_nat (nat \<bar>i\<bar>))"
  by (simp add: std_to_string_def)

lemma strtoll_to_string [codec_simps]:
  assumes "in_int64 i" and "rest = [] \<or> \<not> is_digit (hd rest)"
  shows "strtoll (std_to_string i @ rest) = (i, length (std_to_string i), False)"
  using assms(1) strto_scan_to_string [OF assms(2), of i]
  by (auto simp: strtoll_def length_std_to_string in_int64_def Let_def)

lemma set_std_to_string: "c \<in> set (std_to_string i) \<Longrightarrow> c \<noteq> CHR 0x00"
  using is_digit_not_special set_to_string_nat by (auto simp: std_to_string_def split: if_splits)

lemma c_str_id: "(\<forall>c \<in> set s. c \<noteq> CHR 0x00) \<Longrightarrow> c_str s = s"
  by (simp add: c_str_def takeWhile_eq_all_conv)

lemma c_str_std_to_string [simp]: "c_str (std_to_string i) = std_to_string i"
  by (rule c_str_id) (auto dest: set_std_to_string)

lemma set_c_str: "c \<in> set (c_str s) \<Longrightarrow> c \<noteq> CHR 0x00 \<and> c \<in> set s"
  unfolding c_str_def by (auto dest: set_takeWhileD)

lemma c_str_idem [simp]: "c_str (c_str s) = c_str s"
  by (rule c_str_id) (auto dest: set_c_str)

lemma length_std_to_string_int64: "in_int64 i \<Longrightarrow> length (std_to_string i) \<le> 20"
  using length_to_string_nat_le [of "nat \<bar>i\<bar>" 18]
  by (auto simp: length_std_to_string in_int64_def)

lemma std_to_string_nonempty [simp]: "std_to_string i \<noteq> []"
  by (simp add: std_to_string_def)

lemma std_to_string_inject [simp]: "std_to_string i = std_to_string j \<longleftrightarrow> i = j"
proof
  assume eq: "std_to_string i = std_to_string j"
  have "strto_scan (std_to_string i) = strto_scan (std_to_string j)" using eq by simp
  then have "(i < 0) = (j < 0)" and "to_string_nat (nat \<bar>i\<bar>) = to_string_nat (nat \<bar>j\<bar>)"
    using strto_scan_to_string [of "[]"] by (auto split: if_splits)
  moreover from this(2) have "nat \<bar>i\<bar> = nat \<bar>j\<bar>" by (metis digits_val_to_string)
  ultimately show "i = j" by linarith
qed simp

lemma std_search_append_crlf:
  "CHR 0x0D \<notin> set s \<Longrightarrow> std_search [CHR 0x0D, CHR 0x0A] (s @ CHR 0x0D # CHR 0x0A # rest) = Some (length s)"
  by (induction s) auto

end
