(* ===== verification/Encoding.thy ===== *)
theory Encoding
  imports LKV_Prelude
begin

text \<open>
  \<open>src/src/encoding.h\<close> and \<open>src/src/encoding.cpp\<close>: Bernstein's string hash, the
  variable-length encoding of 64-bit integers (seven payload bits per byte, the high bit
  set on every byte but the last) and the fixed eight-byte encoding. Integers are 64-bit
  words, so shifts and wrap-around are those of the machine. An output buffer is
  \<open>None\<close> for \<open>nullptr\<close> and \<open>Some b\<close> for a buffer holding the bytes \<open>b\<close>.
\<close>

section \<open>Definitions\<close>

text \<open>
  \<open>(unsigned)str[i]\<close> converts a plain \<open>char\<close>, which is signed on the platforms the
  project builds for, to a 32-bit unsigned integer: the byte is sign-extended to 32 bits
  and then zero-extended to the 64 bits of \<open>hash\<close>.
\<close>

definition char_to_unsigned :: "char \<Rightarrow> u64" where
  "char_to_unsigned c = ucast (scast (ord8 c) :: u32)"

fun Time33Hash_loop :: "u64 \<Rightarrow> bytes \<Rightarrow> u64" where
  "Time33Hash_loop hash [] = hash"
| "Time33Hash_loop hash (c # cs) =
     Time33Hash_loop ((push_bit 5 hash + hash) + char_to_unsigned c) cs"

definition Time33Hash :: "bytes \<Rightarrow> u64" where
  "Time33Hash str = Time33Hash_loop 5381 str"

function encode_var_loop :: "u64 \<Rightarrow> bytes" where
  "encode_var_loop value =
     (if 128 \<le> value
      then chr8 (ucast (value OR 128)) # encode_var_loop (drop_bit 7 value)
      else [chr8 (ucast value)])"
  by pat_completeness auto
termination
  by (relation "measure unat") (auto simp: unat_div word_le_nat_alt drop_bit_eq_div)

declare encode_var_loop.simps [simp del]

definition EncodeVarUnsignedInt64 :: "u64 \<Rightarrow> bytes option \<Rightarrow> bytes option \<times> u8" where
  "EncodeVarUnsignedInt64 value buf =
     (case buf of
        None \<Rightarrow> (None, 0)
      | Some b \<Rightarrow>
          let e = encode_var_loop value
          in (Some (e @ drop (length e) b), of_nat (length e)))"

text \<open>
  The decoding loop runs while \<open>shift <= 63 && i < 10\<close>; \<open>None\<close> is a read past the end
  of the buffer.
\<close>

fun decode_var_loop :: "nat \<Rightarrow> nat \<Rightarrow> u64 \<Rightarrow> bytes \<Rightarrow> u64 option" where
  "decode_var_loop shift i value bs =
     (if shift \<le> 63 \<and> i < 10
      then (case bs of
              [] \<Rightarrow> None
            | c # cs \<Rightarrow>
                let byte = ucast (ord8 c) :: u64
                in if byte AND 128 \<noteq> 0
                   then decode_var_loop (shift + 7) (i + 1)
                          (value OR push_bit shift (byte AND 127)) cs
                   else Some (value OR push_bit shift byte))
      else Some value)"

declare decode_var_loop.simps [simp del]

definition DecodeVarUnsignedInt64 :: "bytes option \<Rightarrow> u64 option" where
  "DecodeVarUnsignedInt64 enc =
     (case enc of None \<Rightarrow> Some 0 | Some bs \<Rightarrow> decode_var_loop 0 0 0 bs)"

definition EstimateUnsignedIntBytes :: "u64 \<Rightarrow> u8" where
  "EstimateUnsignedIntBytes value =
     (if value \<le> push_bit 7 1 - 1 then 1
      else if value \<le> push_bit 14 1 - 1 then 2
      else if value \<le> push_bit 21 1 - 1 then 3
      else if value \<le> push_bit 28 1 - 1 then 4
      else if value \<le> push_bit 35 1 - 1 then 5
      else if value \<le> push_bit 42 1 - 1 then 6
      else if value \<le> push_bit 49 1 - 1 then 7
      else if value \<le> push_bit 56 1 - 1 then 8
      else if value \<le> push_bit 63 1 - 1 then 9
      else 10)"

text \<open>
  A signed value is converted to \<open>uint64_t\<close> on the way in and back to \<open>int64_t\<close> on
  the way out.
\<close>

definition EncodeVarSignedInt64 :: "int \<Rightarrow> bytes option \<Rightarrow> bytes option \<times> u8" where
  "EncodeVarSignedInt64 value buf = EncodeVarUnsignedInt64 (word_of_int value) buf"

definition DecodeVarSignedInt64 :: "bytes option \<Rightarrow> int option" where
  "DecodeVarSignedInt64 buf = map_option sint (DecodeVarUnsignedInt64 buf)"

text \<open>
  The \<open>memcpy\<close> of the object representation of a 64-bit integer on a little-endian
  machine: byte \<open>k\<close> holds bits \<open>8 k\<close> to \<open>8 k + 7\<close>.
\<close>

definition le64_bytes :: "u64 \<Rightarrow> bytes" where
  "le64_bytes w = map (\<lambda>k. chr8 (ucast (drop_bit (8 * k) w))) [0..<8]"

fun le64_value :: "bytes \<Rightarrow> u64" where
  "le64_value [] = 0"
| "le64_value (c # cs) = ucast (ord8 c) OR push_bit 8 (le64_value cs)"

definition EncodeFixed64BitInteger :: "int \<Rightarrow> bytes option \<Rightarrow> bytes option" where
  "EncodeFixed64BitInteger value buf =
     (case buf of
        None \<Rightarrow> None
      | Some b \<Rightarrow> Some (le64_bytes (word_of_int value) @ drop 8 b))"

definition DecodeFixed64BitInteger :: "bytes option \<Rightarrow> int option" where
  "DecodeFixed64BitInteger buf =
     (case buf of
        None \<Rightarrow> Some 0
      | Some b \<Rightarrow> if length b < 8 then None else Some (sint (le64_value (take 8 b))))"

section \<open>Lemmas\<close>

lemma ucast_low_byte [simp]: "(ucast (ucast (w :: u64) :: u8) :: u64) = w AND 255"
  by (rule bit_word_eqI) (auto simp: bit_simps)

lemma unat_drop_bit7: "unat (drop_bit 7 w) = unat (w :: u64) div 128"
  by (simp add: unat_div drop_bit_eq_div)

lemma high_bit_of_small: "\<not> 128 \<le> (v :: u64) \<Longrightarrow> v AND 128 = 0"
proof (rule bit_word_eqI)
  fix n assume "\<not> 128 \<le> v" "n < LENGTH(64)"
  then have "unat v < 2 ^ 7" by (simp add: word_le_nat_alt)
  then have "\<not> bit (unat v) 7" by (simp add: bit_iff_odd)
  then have "\<not> bit v 7" by (simp add: bit_unsigned_iff)
  then show "bit (v AND 128) n = bit 0 n" by (auto simp: bit_simps)
qed

lemma low_byte_of_small: "\<not> 128 \<le> (v :: u64) \<Longrightarrow> v AND 255 = v"
proof -
  assume "\<not> 128 \<le> v"
  then have "unat v < 2 ^ 8" by (simp add: word_le_nat_alt)
  then have "unat (take_bit 8 v) = unat v"
    by (simp add: unsigned_take_bit_eq take_bit_nat_eq_self_iff)
  then have "take_bit 8 v = v" by (rule word_unat_eq_iff [THEN iffD2])
  moreover have "v AND 255 = take_bit 8 v" by (rule bit_word_eqI) (auto simp: bit_simps)
  ultimately show ?thesis by simp
qed

lemma high_bit_of_marked: "((v OR 128) AND 255) AND 128 \<noteq> (0 :: u64)"
proof -
  have "bit (((v OR 128) AND 255) AND 128 :: u64) 7" by (simp add: bit_simps)
  then show ?thesis by (metis bit_0_eq bot_apply bot_bool_def)
qed

lemma payload_of_marked: "((v OR 128) AND 255) AND 127 = (v AND 127 :: u64)"
  by (rule bit_word_eqI) (auto simp: bit_simps)

lemma push_split7: "push_bit s (v AND 127) OR push_bit (s + 7) (drop_bit 7 v) = push_bit s (v :: u64)"
proof (rule bit_word_eqI)
  fix n assume "n < LENGTH(64)"
  moreover have "7 + (n - (s + 7)) = n - s" if "s + 7 \<le> n" using that by simp
  ultimately show "bit (push_bit s (v AND 127) OR push_bit (s + 7) (drop_bit 7 v)) n \<longleftrightarrow>
      bit (push_bit s v) n"
    by (cases "s + 7 \<le> n") (auto simp: bit_simps)
qed

lemma decode_encode_var_loop [codec_simps]:
  "unat v * 2 ^ (7 * i) < 2 ^ 64 \<Longrightarrow> i \<le> 9 \<Longrightarrow>
   decode_var_loop (7 * i) i acc (encode_var_loop v @ rest) = Some (acc OR push_bit (7 * i) v)"
proof (induction v arbitrary: i acc rule: encode_var_loop.induct)
  case (1 v)
  show ?case
  proof (cases "128 \<le> v")
    case True
    then have big: "128 \<le> unat v" by (simp add: word_le_nat_alt)
    have "2 ^ (7 * i + 7) \<le> unat v * 2 ^ (7 * i)"
      using big by (simp add: power_add)
    then have "(2 :: nat) ^ (7 * i + 7) < 2 ^ 64" using "1.prems"(1) by linarith
    then have "7 * i + 7 < 64" by (rule power_less_imp_less_exp [rotated]) simp
    then have i: "i + 1 \<le> 9" by simp
    have "unat v div 128 * 128 \<le> unat v" by (rule div_times_less_eq_dividend)
    then have "unat (drop_bit 7 v) * 2 ^ (7 * (i + 1)) \<le> unat v * 2 ^ (7 * i)"
      by (simp add: unat_drop_bit7 power_add)
    then have "unat (drop_bit 7 v) * 2 ^ (7 * (i + 1)) < 2 ^ 64" using "1.prems"(1) by linarith
    note IH = "1.IH" [OF True this i, of "acc OR push_bit (7 * i) (v AND 127)"]
    have "decode_var_loop (7 * i) i acc (encode_var_loop v @ rest) =
        decode_var_loop (7 * i + 7) (i + 1) (acc OR push_bit (7 * i) (v AND 127))
          (encode_var_loop (drop_bit 7 v) @ rest)"
      using True i
      by (simp add: encode_var_loop.simps [of v] decode_var_loop.simps [of "7 * i"]
          high_bit_of_marked payload_of_marked Let_def del: push_bit_and)
    also have "\<dots> = Some (acc OR (push_bit (7 * i) (v AND 127) OR push_bit (7 * i + 7) (drop_bit 7 v)))"
      using IH by (simp add: or.assoc add.commute)
    finally have "decode_var_loop (7 * i) i acc (encode_var_loop v @ rest) =
        Some (acc OR (push_bit (7 * i) (v AND 127) OR push_bit (7 * i + 7) (drop_bit 7 v)))" .
    then show ?thesis by (simp only: push_split7)
  next
    case False
    then show ?thesis using "1.prems"(2)
      by (simp add: encode_var_loop.simps [of v] decode_var_loop.simps [of "7 * i"]
          high_bit_of_small low_byte_of_small Let_def)
  qed
qed

lemma encode_var_loop_nonempty: "1 \<le> length (encode_var_loop v)"
  by (subst encode_var_loop.simps) simp

lemma length_encode_var_loop_le:
  "length (encode_var_loop v) \<le> Suc k \<longleftrightarrow> unat v < 128 ^ Suc k"
proof (induction v arbitrary: k rule: encode_var_loop.induct)
  case (1 v)
  show ?case
  proof (cases "128 \<le> v")
    case True
    then have big: "128 \<le> unat v" by (simp add: word_le_nat_alt)
    have len: "length (encode_var_loop v) = Suc (length (encode_var_loop (drop_bit 7 v)))"
      using True by (simp add: encode_var_loop.simps [of v])
    show ?thesis
    proof (cases k)
      case 0
      then show ?thesis using len big encode_var_loop_nonempty [of "drop_bit 7 v"] by auto
    next
      case (Suc j)
      have "length (encode_var_loop v) \<le> Suc k \<longleftrightarrow> unat v div 128 < 128 ^ Suc j"
        using len Suc "1.IH" [OF True, of j] by (simp add: unat_drop_bit7)
      also have "\<dots> \<longleftrightarrow> unat v < 128 ^ Suc k"
        using Suc by (simp add: div_less_iff_less_mult mult.commute)
      finally show ?thesis .
    qed
  next
    case False
    then have "unat v < 128" by (simp add: word_le_nat_alt)
    moreover have "(128 :: nat) \<le> 128 ^ Suc k" by simp
    ultimately have "unat v < 128 ^ Suc k" by linarith
    then show ?thesis using False by (simp add: encode_var_loop.simps [of v])
  qed
qed

lemma length_encode_var_loop_le_10: "length (encode_var_loop v) \<le> 10"
proof -
  have "unat v < 2 ^ 64" using unsigned_less [of v, where ?'a = nat] by simp
  also have "(2 :: nat) ^ 64 < 128 ^ Suc 9" by simp
  finally show ?thesis using length_encode_var_loop_le [of v 9] by simp
qed

lemma take_encode_var [simp]:
  "EncodeVarUnsignedInt64 v (Some b) = (Some r, cnt) \<Longrightarrow> take (unat cnt) r = encode_var_loop v"
  using length_encode_var_loop_le_10 [of v]
  by (auto simp: EncodeVarUnsignedInt64_def Let_def unat_of_nat)

lemma decode_encode_var [codec_simps]:
  "decode_var_loop 0 0 0 (encode_var_loop v @ rest) = Some v"
proof -
  have "unat v * 2 ^ (7 * 0) < 2 ^ 64" using unsigned_less [of v, where ?'a = nat] by simp
  from decode_encode_var_loop [OF this, of 0 rest] show ?thesis by simp
qed

lemma le64_value_bytes_aux:
  "le64_value (map (\<lambda>k. chr8 (ucast (drop_bit (8 * k) w))) [j..<8]) = drop_bit (8 * j) w"
  if "j \<le> 8" for w :: u64
  using that
proof (induction "8 - j" arbitrary: j)
  case 0
  then show ?case by (simp add: drop_bit_word_beyond)
next
  case (Suc d)
  then have "j < 8" by simp
  then have "[j..<8] = j # [Suc j..<8]" by (rule upt_conv_Cons)
  moreover have "le64_value (map (\<lambda>k. chr8 (ucast (drop_bit (8 * k) w))) [Suc j..<8]) =
      drop_bit (8 * Suc j) w"
    using Suc by simp
  moreover have "(drop_bit (8 * j) w AND 255) OR push_bit 8 (drop_bit (8 * Suc j) w) =
      drop_bit (8 * j) w"
  proof (rule bit_word_eqI)
    fix n
    show "bit ((drop_bit (8 * j) w AND 255) OR push_bit 8 (drop_bit (8 * Suc j) w)) n =
        bit (drop_bit (8 * j) w) n" if "n < LENGTH(64)"
      using that by (cases "8 \<le> n") (auto simp: bit_simps algebra_simps)
  qed
  ultimately show ?case by simp
qed

lemma le64_value_bytes [codec_simps]: "le64_value (le64_bytes w) = w"
  using le64_value_bytes_aux [of 0 w] by (simp add: le64_bytes_def)

lemma length_le64_bytes [simp]: "length (le64_bytes w) = 8"
  by (simp add: le64_bytes_def)

lemma sint_word_of_int64 [codec_simps]: "in_int64 i \<Longrightarrow> sint (word_of_int i :: u64) = i"
  by (simp add: in_int64_def signed_of_int signed_take_bit_int_eq_self)

lemma in_int64_sint: "in_int64 (sint (w :: u64))"
  using sint_range_size [of w] by (simp add: in_int64_def word_size)

lemma encode_var_unsigned_Some:
  "EncodeVarUnsignedInt64 v (Some b) =
     (Some (encode_var_loop v @ drop (length (encode_var_loop v)) b),
      of_nat (length (encode_var_loop v)))"
  by (simp add: EncodeVarUnsignedInt64_def Let_def)

lemma unat_encode_count: "unat (of_nat (length (encode_var_loop v)) :: u8) = length (encode_var_loop v)"
  using length_encode_var_loop_le_10 [of v] by (simp add: unat_of_nat)

lemma length_encode_var_eq:
  "length (encode_var_loop v) = Suc k \<longleftrightarrow> (k = 0 \<or> 128 ^ k \<le> unat v) \<and> unat v < 128 ^ Suc k"
proof (cases k)
  case 0
  then show ?thesis using length_encode_var_loop_le [of v 0] encode_var_loop_nonempty [of v] by auto
next
  case (Suc j)
  have "length (encode_var_loop v) = Suc k \<longleftrightarrow>
      length (encode_var_loop v) \<le> Suc k \<and> \<not> length (encode_var_loop v) \<le> Suc j"
    using Suc by auto
  then show ?thesis using Suc by (simp only: length_encode_var_loop_le) auto
qed

lemma word_le_pow2_minus_1: "(v :: u64) \<le> push_bit n 1 - 1 \<longleftrightarrow> unat v < 2 ^ n" if "n < 64"
proof -
  have "uint (push_bit n 1 - 1 :: u64) = 2 ^ n - 1"
    using that uint_mask_eq [of n, where ?'a = 64]
    by (simp add: mask_eq_exp_minus_1 push_bit_eq_mult)
  then have "v \<le> push_bit n 1 - 1 \<longleftrightarrow> uint v < 2 ^ n" by (simp add: word_le_def)
  also have "\<dots> \<longleftrightarrow> int (unat v) < int (2 ^ n)" by simp
  finally show ?thesis by (simp only: of_nat_less_iff)
qed

lemma estimate_is_length:
  "unat (EstimateUnsignedIntBytes v) = length (encode_var_loop v)"
proof -
  note le = length_encode_var_eq [of v]
  have two: "length (encode_var_loop v) = 2 \<longleftrightarrow> 128 \<le> unat v \<and> unat v < 16384"
    using le [of 1] by (simp add: numeral_2_eq_2)
  have len: "length (encode_var_loop v) = (
      if unat v < 2 ^ 7 then 1 else if unat v < 2 ^ 14 then 2 else if unat v < 2 ^ 21 then 3
      else if unat v < 2 ^ 28 then 4 else if unat v < 2 ^ 35 then 5 else if unat v < 2 ^ 42 then 6
      else if unat v < 2 ^ 49 then 7 else if unat v < 2 ^ 56 then 8 else if unat v < 2 ^ 63 then 9
      else 10)"
    using le [of 0] two le [of 2] le [of 3] le [of 4] le [of 5] le [of 6] le [of 7] le [of 8]
      le [of 9] unsigned_less [of v, where ?'a = nat]
    by simp
  have "EstimateUnsignedIntBytes v = (
      if unat v < 2 ^ 7 then 1 else if unat v < 2 ^ 14 then 2 else if unat v < 2 ^ 21 then 3
      else if unat v < 2 ^ 28 then 4 else if unat v < 2 ^ 35 then 5 else if unat v < 2 ^ 42 then 6
      else if unat v < 2 ^ 49 then 7 else if unat v < 2 ^ 56 then 8 else if unat v < 2 ^ 63 then 9
      else 10)"
    unfolding EstimateUnsignedIntBytes_def by (subst word_le_pow2_minus_1, simp)+ (rule refl)
  then show ?thesis by (simp only: len if_distrib [of unat]) simp
qed

section \<open>Properties\<close>

text \<open>
  C32. Encoding a 64-bit value into a buffer and decoding that buffer returns the value,
  whatever the buffer held before and whatever bytes follow the encoding.
\<close>

theorem var_unsigned_roundtrip:
  assumes "EncodeVarUnsignedInt64 v (Some b) = (Some r, cnt)"
  shows "DecodeVarUnsignedInt64 (Some (take (unat cnt) r @ rest)) = Some v \<and>
    DecodeVarUnsignedInt64 (Some r) = Some v"
  using assms unat_encode_count [of v]
  by (auto simp: encode_var_unsigned_Some DecodeVarUnsignedInt64_def codec_simps)

theorem var_unsigned_roundtrip_witness:
  "DecodeVarUnsignedInt64 (Some (chr8 172 # chr8 2 # replicate 8 (chr8 0))) = Some 300"
proof -
  have "EncodeVarUnsignedInt64 300 (Some (replicate 10 (chr8 0))) =
      (Some (chr8 172 # chr8 2 # replicate 8 (chr8 0)), 2)"
    by code_simp
  from var_unsigned_roundtrip [OF this] show ?thesis by blast
qed

text \<open>
  The number of bytes the encoder reports is the one \<open>EstimateUnsignedIntBytes\<close>
  computes from its threshold table; it is between 1 and 10, so an encoding never
  overruns the ten-byte scratch buffers of the callers: the buffer keeps its length.
\<close>

theorem var_unsigned_length:
  assumes "EncodeVarUnsignedInt64 v (Some b) = (Some r, cnt)"
  shows "cnt = EstimateUnsignedIntBytes v \<and> 1 \<le> unat cnt \<and> unat cnt \<le> 10 \<and>
    (10 \<le> length b \<longrightarrow> length r = length b)"
proof -
  have cnt: "unat cnt = length (encode_var_loop v)" and
    r: "r = encode_var_loop v @ drop (length (encode_var_loop v)) b"
    using assms unat_encode_count [of v] by (auto simp: encode_var_unsigned_Some)
  have "cnt = EstimateUnsignedIntBytes v"
    using cnt estimate_is_length [of v] by (metis word_unat_eq_iff)
  then show ?thesis
    using cnt r encode_var_loop_nonempty [of v] length_encode_var_loop_le_10 [of v] by simp
qed

theorem var_unsigned_length_witness: "(2 :: u8) = EstimateUnsignedIntBytes 300"
proof -
  have "EncodeVarUnsignedInt64 300 (Some (replicate 10 (chr8 0))) =
      (Some (chr8 172 # chr8 2 # replicate 8 (chr8 0)), 2)"
    by code_simp
  from var_unsigned_length [OF this] show ?thesis by blast
qed

text \<open>
  The signed and the fixed-width encodings are inverted by their decoders for every
  64-bit signed value, negative ones included; the fixed encoding is eight bytes.
\<close>

theorem signed_and_fixed_roundtrip:
  assumes "in_int64 i" and "10 \<le> length b"
  shows "DecodeVarSignedInt64 (fst (EncodeVarSignedInt64 i (Some b))) = Some i \<and>
    DecodeFixed64BitInteger (EncodeFixed64BitInteger i (Some b)) = Some i \<and>
    (\<exists>r. EncodeFixed64BitInteger i (Some b) = Some r \<and> length r = length b)"
  using assms
  by (auto simp: EncodeVarSignedInt64_def DecodeVarSignedInt64_def encode_var_unsigned_Some
      DecodeVarUnsignedInt64_def EncodeFixed64BitInteger_def DecodeFixed64BitInteger_def codec_simps)

theorem signed_and_fixed_roundtrip_witness:
  "DecodeFixed64BitInteger (EncodeFixed64BitInteger (- 5) (Some (replicate 10 (chr8 0)))) = Some (- 5)"
  using signed_and_fixed_roundtrip [of "- 5" "replicate 10 (chr8 0)"] by (simp add: in_int64_def)

end
