(* ===== verification/Str.thy ===== *)
theory Str
  imports CStd Encoding
begin

text \<open>
  \<open>src/src/str.h\<close> and \<open>src/src/str.cpp\<close>: the two string classes and the conversions
  from strings to integers.

  A \<open>DynamicString\<close> is its three fields \<open>len_\<close>, \<open>alloc_\<close> (32-bit) and \<open>buf_\<close>
  (here \<open>ds_len\<close>, \<open>ds_alloc\<close>, \<open>ds_buf\<close>)
  (\<open>None\<close> for \<open>nullptr\<close>, otherwise the allocated block). \<open>ds_abs\<close> forgets the
  representation: \<open>None\<close> for a null string and \<open>Some s\<close> for a string with contents
  \<open>s\<close>; \<open>ds_inv\<close> is the representation invariant. The locale \<open>string_buffer\<close>
  states what the containers rely on, and is interpreted on the class's operations.
  Memory allocation is assumed to succeed; fresh memory is filled with NUL bytes, which
  no operation reads before it writes them.
\<close>

section \<open>DynamicString\<close>

record dstr =
  ds_len :: u32
  ds_alloc :: u32
  ds_buf :: "string option"

definition malloc :: "nat \<Rightarrow> string" where
  "malloc n = replicate n CHR 0x00"

definition realloc :: "string \<Rightarrow> nat \<Rightarrow> string" where
  "realloc b n = take n b @ replicate (n - length b) CHR 0x00"

text \<open>Writing the terminator \<open>b[i] = '\0'\<close>.\<close>

definition put_nul :: "string \<Rightarrow> nat \<Rightarrow> string" where
  "put_nul b i = c_memcpy b i [CHR 0x00]"

definition DynamicString_default :: dstr where
  "DynamicString_default = \<lparr>ds_len = 0, ds_alloc = 0, ds_buf = None\<rparr>"

definition DynamicString_cstr :: "string option \<Rightarrow> u32 \<Rightarrow> dstr" where
  "DynamicString_cstr str len =
     (case str of
        None \<Rightarrow> DynamicString_default
      | Some s \<Rightarrow>
          let alloc = len + 1;
              b = c_memcpy (malloc (unat alloc)) 0 (take (unat len) s)
          in \<lparr>ds_len = len, ds_alloc = alloc, ds_buf = Some (put_nul b (unat len))\<rparr>)"

definition DynamicString_std :: "string \<Rightarrow> dstr" where
  "DynamicString_std str =
     (let alloc = of_nat (length str + 1);
          len = of_nat (length str);
          b = c_memcpy (malloc (unat alloc)) 0 (take (unat len) str)
      in \<lparr>ds_len = len, ds_alloc = alloc, ds_buf = Some (put_nul b (unat len))\<rparr>)"

text \<open>The move constructor: the new object and what is left of the source.\<close>

definition DynamicString_move :: "dstr \<Rightarrow> dstr \<times> dstr" where
  "DynamicString_move ds =
     (case ds_buf ds of
        None \<Rightarrow> (DynamicString_default, ds)
      | Some b \<Rightarrow>
          (\<lparr>ds_len = ds_len ds, ds_alloc = ds_alloc ds, ds_buf = Some b\<rparr>,
           ds\<lparr>ds_len := 0, ds_alloc := 0, ds_buf := None\<rparr>))"

definition DynamicString_copy :: "dstr \<Rightarrow> dstr" where
  "DynamicString_copy x =
     (case ds_buf x of
        None \<Rightarrow> DynamicString_default
      | Some b \<Rightarrow>
          let b' = c_memcpy (malloc (unat (ds_alloc x))) 0 (take (unat (ds_len x)) b)
          in \<lparr>ds_len = ds_len x, ds_alloc = ds_alloc x, ds_buf = Some (put_nul b' (unat (ds_len x)))\<rparr>)"

text \<open>\<open>operator=\<close> for two distinct objects.\<close>

definition DynamicString_assign :: "dstr \<Rightarrow> dstr \<Rightarrow> dstr" where
  "DynamicString_assign this x =
     (let src = (case ds_buf x of None \<Rightarrow> [] | Some b \<Rightarrow> b);
          b' = c_memcpy (malloc (unat (ds_alloc x))) 0 (take (unat (ds_len x)) src)
      in this\<lparr>ds_alloc := ds_alloc x, ds_len := ds_len x, ds_buf := Some (put_nul b' (unat (ds_len x)))\<rparr>)"

definition DynamicString_Hash :: "dstr \<Rightarrow> u64" where
  "DynamicString_Hash ds = Time33Hash (case ds_buf ds of None \<Rightarrow> [] | Some b \<Rightarrow> take (unat (ds_len ds)) b)"

definition DynamicString_Available :: "dstr \<Rightarrow> u32" where
  "DynamicString_Available ds = ds_alloc ds - ds_len ds - 1"

definition DynamicString_Empty :: "dstr \<Rightarrow> bool" where
  "DynamicString_Empty ds \<longleftrightarrow> ds_len ds = 0"

definition DynamicString_NoLenButNotNull :: "dstr \<Rightarrow> bool" where
  "DynamicString_NoLenButNotNull ds \<longleftrightarrow> ds_len ds = 0 \<and> ds_alloc ds \<noteq> 0"

definition DynamicString_Null :: "dstr \<Rightarrow> bool" where
  "DynamicString_Null ds \<longleftrightarrow> ds_len ds = 0 \<and> ds_alloc ds = 0"

definition DynamicString_ToStdString :: "dstr \<Rightarrow> string" where
  "DynamicString_ToStdString ds =
     (case ds_buf ds of None \<Rightarrow> [] | Some b \<Rightarrow> take (unat (ds_len ds)) b)"

text \<open>Stream insertion prints the buffer as a C string.\<close>

definition DynamicString_print :: "dstr \<Rightarrow> string" where
  "DynamicString_print ds = (case ds_buf ds of None \<Rightarrow> [] | Some b \<Rightarrow> c_str b)"

text \<open>
  \<open>uint32_t((ds_len + addlen) * kBufGrowFactor + 1)\<close> is computed in single precision.
  \<open>float_round\<close> rounds a natural number to 24 significant bits, ties to even; the
  intermediate results below are kept in units of one half, which every value that occurs
  is a multiple of.
\<close>

fun float_exp :: "nat \<Rightarrow> nat" where
  "float_exp x = (if x < 2 ^ 24 then 0 else Suc (float_exp (x div 2)))"

declare float_exp.simps [simp del]

definition float_round :: "nat \<Rightarrow> nat" where
  "float_round x =
     (let e = float_exp x; q = x div 2 ^ e; r = x mod 2 ^ e
      in if 2 * r > 2 ^ e \<or> (2 * r = 2 ^ e \<and> odd q) then (q + 1) * 2 ^ e else q * 2 ^ e)"

definition grow_alloc :: "u32 \<Rightarrow> u32" where
  "grow_alloc n =
     (let product = float_round (3 * float_round (unat n));
          sum = float_round (product + 2)
      in of_nat (sum div 2))"

definition DynamicString_Append :: "dstr \<Rightarrow> string \<Rightarrow> u32 \<Rightarrow> dstr" where
  "DynamicString_Append ds str addlen =
     (let ds1 = (case ds_buf ds of
                   None \<Rightarrow> ds\<lparr>ds_alloc := addlen + 1, ds_buf := Some (malloc (unat (addlen + 1)))\<rparr>
                 | Some _ \<Rightarrow> ds);
          src = take (unat addlen) str;
          free_bytes = ds_alloc ds1 - ds_len ds1 - 1;
          ds2 = (if free_bytes \<ge> addlen
                 then ds1\<lparr>ds_buf := Some (c_memcpy (the (ds_buf ds1)) (unat (ds_len ds1)) src)\<rparr>
                 else let alloc = grow_alloc (ds_len ds1 + addlen);
                          tmp = realloc (the (ds_buf ds1)) (unat alloc)
                      in ds1\<lparr>ds_alloc := alloc,
                             ds_buf := Some (c_memcpy tmp (unat (ds_len ds1)) src)\<rparr>);
          ds3 = ds2\<lparr>ds_len := ds_len ds2 + addlen\<rparr>
      in ds3\<lparr>ds_buf := Some (put_nul (the (ds_buf ds3)) (unat (ds_len ds3)))\<rparr>)"

definition DynamicString_Append_std :: "dstr \<Rightarrow> string \<Rightarrow> dstr" where
  "DynamicString_Append_std ds str = DynamicString_Append ds str (of_nat (length str))"

definition DynamicString_Append_ds :: "dstr \<Rightarrow> dstr \<Rightarrow> dstr" where
  "DynamicString_Append_ds ds x =
     DynamicString_Append ds (case ds_buf x of None \<Rightarrow> [] | Some b \<Rightarrow> b) (ds_len x)"

definition DynamicString_Clear :: "dstr \<Rightarrow> dstr" where
  "DynamicString_Clear ds =
     (case ds_buf ds of
        None \<Rightarrow> ds
      | Some b \<Rightarrow>
          if ds_len ds = 0 \<or> ds_alloc ds = 0 then ds
          else ds\<lparr>ds_len := 0,
                  ds_buf := Some (put_nul (c_memcpy b 0 (replicate (unat (ds_alloc ds)) CHR 0x00)) 0)\<rparr>)"

definition DynamicString_Reset :: "dstr \<Rightarrow> string \<Rightarrow> u32 \<Rightarrow> dstr" where
  "DynamicString_Reset ds str len =
     (let ds1 = (case ds_buf ds of
                   None \<Rightarrow> ds\<lparr>ds_alloc := len + 1, ds_buf := Some (malloc (unat (len + 1)))\<rparr>
                 | Some _ \<Rightarrow> ds)
      in DynamicString_Append (DynamicString_Clear ds1) str len)"

definition DynamicString_Reset_std :: "dstr \<Rightarrow> string \<Rightarrow> dstr" where
  "DynamicString_Reset_std ds str = DynamicString_Reset ds str (of_nat (length str))"

definition DynamicString_Reset_ds :: "dstr \<Rightarrow> dstr \<Rightarrow> dstr" where
  "DynamicString_Reset_ds ds x =
     DynamicString_Reset ds (case ds_buf x of None \<Rightarrow> [] | Some b \<Rightarrow> b) (ds_len x)"

definition DynamicString_Shrink :: "dstr \<Rightarrow> dstr" where
  "DynamicString_Shrink ds =
     (case ds_buf ds of
        None \<Rightarrow> ds
      | Some b \<Rightarrow> ds\<lparr>ds_alloc := ds_len ds + 1, ds_buf := Some (realloc b (unat (ds_len ds + 1)))\<rparr>)"

text \<open>
  \<open>operator[]\<close>: the offset of the element it refers to. \<open>(int)ds_len\<close> reinterprets the
  length as a signed 32-bit integer.
\<close>

definition DynamicString_index :: "dstr \<Rightarrow> int \<Rightarrow> int" where
  "DynamicString_index ds idx =
     (if 0 \<le> idx
      then (if sint (ds_len ds) \<le> idx then uint (ds_len ds) else idx)
      else if sint (ds_len ds) < \<bar>idx\<bar> then uint (ds_len ds) else uint (ds_len ds) + idx)"

definition ds_data :: "dstr \<Rightarrow> string" where
  "ds_data ds = (case ds_buf ds of None \<Rightarrow> [] | Some b \<Rightarrow> b)"

definition DynamicString_eq :: "dstr \<Rightarrow> dstr \<Rightarrow> bool" where
  "DynamicString_eq a b \<longleftrightarrow>
     ds_len a = ds_len b \<and> c_memcmp (ds_data a) (ds_data b) (unat (ds_len a)) = 0"

definition DynamicString_neq :: "dstr \<Rightarrow> dstr \<Rightarrow> bool" where
  "DynamicString_neq a b \<longleftrightarrow>
     ds_len a \<noteq> ds_len b \<or> c_memcmp (ds_data a) (ds_data b) (unat (ds_len a)) \<noteq> 0"

definition DynamicString_less :: "dstr \<Rightarrow> dstr \<Rightarrow> bool" where
  "DynamicString_less a b =
     (let ans1 = c_memcmp (ds_data a) (ds_data b) (unat (min (ds_len a) (ds_len b)))
      in if ans1 = 0 then ds_len a < ds_len b else ans1 < 0)"

definition DynamicString_greater :: "dstr \<Rightarrow> dstr \<Rightarrow> bool" where
  "DynamicString_greater a b =
     (let ans1 = c_memcmp (ds_data a) (ds_data b) (unat (min (ds_len a) (ds_len b)))
      in if ans1 = 0 then ds_len b < ds_len a else 0 < ans1)"

text \<open>
  \<open>TryConvertToInt64\<close> reads \<open>errno\<close> without clearing it first: \<open>erange0\<close> tells
  whether it already was \<open>ERANGE\<close>.
\<close>

definition DynamicString_TryConvertToInt64 :: "bool \<Rightarrow> dstr \<Rightarrow> std_exception + int" where
  "DynamicString_TryConvertToInt64 erange0 ds =
     (case ds_buf ds of
        None \<Rightarrow> Inl invalid_argument
      | Some b \<Rightarrow>
          if ds_len ds > 20 then Inl overflow_error
          else case strtoll (c_str b) of (ans, step, erange) \<Rightarrow>
            if (ans = INT64_MAX \<and> (erange0 \<or> erange)) \<or> (ans = INT64_MIN \<and> (erange0 \<or> erange))
            then Inl overflow_error
            else if length (std_to_string ans) \<noteq> unat (ds_len ds) then Inl invalid_argument
            else Inr ans)"

section \<open>Serialization\<close>

text \<open>\<open>SerializeCharBuf\<close>: the extended output vector and the returned size.\<close>

definition SerializeCharBuf :: "string \<Rightarrow> nat \<Rightarrow> bytes \<Rightarrow> bytes \<times> nat" where
  "SerializeCharBuf data len buf =
     (if len = 0 then (buf @ [CHR 0x00], 1)
      else case EncodeVarUnsignedInt64 (of_nat len) (Some (replicate 10 CHR 0x00)) of (enc, cnt) \<Rightarrow>
        let buf' = buf @ take (unat cnt) (the enc) @ take len data
        in (buf', length buf'))"

definition DynamicString_Serialize :: "dstr \<Rightarrow> bytes \<Rightarrow> bytes \<times> nat" where
  "DynamicString_Serialize ds buf = SerializeCharBuf (ds_data ds) (unat (ds_len ds)) buf"

section \<open>StaticString\<close>

record sstr =
  s_len :: nat
  s_buf :: "string option"

definition StaticString_default :: sstr where
  "StaticString_default = \<lparr>s_len = 0, s_buf = None\<rparr>"

definition StaticString_len :: "string option \<Rightarrow> nat \<Rightarrow> sstr" where
  "StaticString_len str len =
     (case str of
        None \<Rightarrow> StaticString_default
      | Some s \<Rightarrow> \<lparr>s_len = len, s_buf = Some (put_nul (c_memcpy (malloc (len + 1)) 0 (take len s)) len)\<rparr>)"

definition StaticString_cstr :: "string \<Rightarrow> sstr" where
  "StaticString_cstr s = StaticString_len (Some (c_str s)) (length (c_str s))"

text \<open>\<open>StaticString(const std::string &)\<close> goes through \<open>c_str()\<close>.\<close>

definition StaticString_std :: "string \<Rightarrow> sstr" where
  "StaticString_std s = StaticString_cstr s"

definition StaticString_copy :: "sstr \<Rightarrow> sstr" where
  "StaticString_copy x = (case s_buf x of None \<Rightarrow> StaticString_default | Some b \<Rightarrow> StaticString_len (Some b) (s_len x))"

definition StaticString_Empty :: "sstr \<Rightarrow> bool" where
  "StaticString_Empty s \<longleftrightarrow> s_len s = 0 \<and> s_buf s = None"

definition StaticString_ToStdString :: "sstr \<Rightarrow> string" where
  "StaticString_ToStdString s = (case s_buf s of None \<Rightarrow> [] | Some b \<Rightarrow> c_str b)"

definition ss_data :: "sstr \<Rightarrow> string" where
  "ss_data s = (case s_buf s of None \<Rightarrow> [] | Some b \<Rightarrow> b)"

definition StaticString_eq :: "sstr \<Rightarrow> sstr \<Rightarrow> bool" where
  "StaticString_eq a b \<longleftrightarrow> c_strcmp (ss_data a) (ss_data b) = 0 \<and> s_len a = s_len b"

definition StaticString_neq :: "sstr \<Rightarrow> sstr \<Rightarrow> bool" where
  "StaticString_neq a b \<longleftrightarrow> c_strcmp (ss_data a) (ss_data b) \<noteq> 0 \<and> s_len a \<noteq> s_len b"

definition StaticString_Hash :: "sstr \<Rightarrow> u64" where
  "StaticString_Hash s = Time33Hash (take (s_len s) (ss_data s))"

definition StaticString_Serialize :: "sstr \<Rightarrow> bytes \<Rightarrow> bytes \<times> nat" where
  "StaticString_Serialize s buf = SerializeCharBuf (ss_data s) (s_len s) buf"

section \<open>Conversions\<close>

text \<open>\<open>None\<close> is the return value \<open>false\<close>, \<open>Some v\<close> is \<open>true\<close> with the output \<open>v\<close>.\<close>

definition CanConvertToInt64 :: "string \<Rightarrow> int option" where
  "CanConvertToInt64 str =
     (if str = [] \<or> length str > 20 then None
      else case std_stoll str of
             Inl ex \<Rightarrow> None
           | Inr tmp \<Rightarrow> if std_to_string tmp = str then Some tmp else None)"

definition CanConvertToInt32 :: "string \<Rightarrow> int option" where
  "CanConvertToInt32 str =
     (if str = [] \<or> length str > 20 then None
      else case std_stoi str of
             Inl ex \<Rightarrow> None
           | Inr tmp \<Rightarrow> if std_to_string tmp = str then Some tmp else None)"

definition CanConvertToUInt64 :: "string \<Rightarrow> u64 option" where
  "CanConvertToUInt64 str =
     (if str = [] then None
      else case std_stoull str of Inl ex \<Rightarrow> None | Inr val \<Rightarrow> Some val)"

section \<open>Specification: histories of operations\<close>

text \<open>
  One mutating call on a \<open>DynamicString\<close>, its effect on the object, and what it is
  meant to do to the contents (\<open>None\<close> for a null string).
\<close>

datatype ds_op = OpAppend string | OpReset string | OpClear | OpShrink

fun ds_step :: "dstr \<Rightarrow> ds_op \<Rightarrow> dstr" where
  "ds_step ds (OpAppend s) = DynamicString_Append_std ds s"
| "ds_step ds (OpReset s) = DynamicString_Reset_std ds s"
| "ds_step ds OpClear = DynamicString_Clear ds"
| "ds_step ds OpShrink = DynamicString_Shrink ds"

definition contents :: "string option \<Rightarrow> string" where
  "contents v = (case v of None \<Rightarrow> [] | Some s \<Rightarrow> s)"

fun ds_spec :: "string option \<Rightarrow> ds_op \<Rightarrow> string option" where
  "ds_spec v (OpAppend s) = Some (contents v @ s)"
| "ds_spec v (OpReset s) = Some s"
| "ds_spec v OpClear = map_option (\<lambda>_. []) v"
| "ds_spec v OpShrink = v"

text \<open>Every string along the history has at most \<open>2 ^ 31\<close> bytes.\<close>

fun ds_bounded :: "string option \<Rightarrow> ds_op list \<Rightarrow> bool" where
  "ds_bounded v [] = True"
| "ds_bounded v (op # ops) =
     (length (contents (ds_spec v op)) \<le> 2 ^ 31 \<and> ds_bounded (ds_spec v op) ops)"

section \<open>Abstraction and invariant\<close>

definition ds_abs :: "dstr \<Rightarrow> string option" where
  "ds_abs ds = map_option (take (unat (ds_len ds))) (ds_buf ds)"

definition ds_inv :: "dstr \<Rightarrow> bool" where
  "ds_inv ds \<longleftrightarrow>
     (case ds_buf ds of
        None \<Rightarrow> ds_len ds = 0 \<and> ds_alloc ds = 0
      | Some b \<Rightarrow> ds_len ds < ds_alloc ds \<and> length b = unat (ds_alloc ds) \<and>
                  b ! unat (ds_len ds) = CHR 0x00)"

abbreviation ds_str :: "dstr \<Rightarrow> string" where
  "ds_str ds \<equiv> DynamicString_ToStdString ds"

section \<open>Lemmas\<close>

subsection \<open>The single-precision growth computation\<close>

lemma float_exp_bounds:
  "x < 2 ^ (24 + float_exp x) \<and> (float_exp x \<noteq> 0 \<longrightarrow> 2 ^ (23 + float_exp x) \<le> x)"
proof (induction x rule: float_exp.induct)
  case (1 x)
  show ?case
  proof (cases "x < 2 ^ 24")
    case True
    then show ?thesis by (simp add: float_exp.simps [of x])
  next
    case False
    have lo: "2 * (x div 2) \<le> x" by simp
    have "x < 2 * (x div 2) + 2" by simp
    moreover have "(2 :: nat) ^ (23 + Suc (float_exp (x div 2))) = 2 * 2 ^ (23 + float_exp (x div 2))"
      "(2 :: nat) ^ (24 + Suc (float_exp (x div 2))) = 2 * 2 ^ (24 + float_exp (x div 2))"
      by (simp_all add: power_add)
    moreover have "float_exp (x div 2) = 0 \<Longrightarrow> 2 ^ 23 \<le> x div 2" using False by simp
    ultimately show ?thesis using "1.IH" [OF False] False
      by (cases "float_exp (x div 2) = 0")
        (simp_all add: float_exp.simps [of x] order_trans [OF mult_le_mono2 lo])
  qed
qed

lemma float_round_error:
  "2 ^ 24 * x \<le> 2 ^ 24 * float_round x + x" "2 ^ 24 * float_round x \<le> 2 ^ 24 * x + x"
proof -
  define e q r where "e = float_exp x" and "q = x div 2 ^ e" and "r = x mod 2 ^ e"
  have x: "x = q * 2 ^ e + r" by (simp only: q_def r_def div_mult_mod_eq)
  have r: "r < 2 ^ e" by (simp add: r_def)
  have half: "2 ^ 24 * d \<le> x" if "2 * d \<le> 2 ^ e" "e \<noteq> 0" for d
  proof -
    have "2 ^ 24 * d = 2 ^ 23 * (2 * d)" by simp
    also have "\<dots> \<le> 2 ^ 23 * 2 ^ e" using that(1) by (rule mult_left_mono) simp
    also have "\<dots> \<le> x" using float_exp_bounds [of x] that(2) by (simp add: e_def power_add)
    finally show ?thesis .
  qed
  have fr: "float_round x = (if 2 * r > 2 ^ e \<or> (2 * r = 2 ^ e \<and> odd q) then (q + 1) * 2 ^ e else q * 2 ^ e)"
    by (simp add: float_round_def e_def q_def r_def Let_def)
  show "2 ^ 24 * x \<le> 2 ^ 24 * float_round x + x"
  proof (cases "e = 0 \<or> 2 * r > 2 ^ e \<or> (2 * r = 2 ^ e \<and> odd q)")
    case True
    then have "x \<le> float_round x" using x r fr by auto
    then show ?thesis by simp
  next
    case False
    then have "float_round x = q * 2 ^ e" "2 * r \<le> 2 ^ e" using fr by auto
    then show ?thesis using x half [of r] False by simp
  qed
  show "2 ^ 24 * float_round x \<le> 2 ^ 24 * x + x"
  proof (cases "e \<noteq> 0 \<and> (2 * r > 2 ^ e \<or> (2 * r = 2 ^ e \<and> odd q))")
    case True
    then have "float_round x = x + (2 ^ e - r)" "2 * (2 ^ e - r) \<le> 2 ^ e" using fr x r by auto
    then show ?thesis using half [of "2 ^ e - r"] True by simp
  next
    case False
    then have "float_round x \<le> x" using fr x r by auto
    then show ?thesis by simp
  qed
qed

lemma float_round_small [simp]: "x < 2 ^ 24 \<Longrightarrow> float_round x = x"
  by (simp add: float_round_def float_exp.simps [of x])

lemma grow_alloc_bounds:
  assumes "1 \<le> unat n" "unat n \<le> 2 ^ 31"
  shows "unat n < unat (grow_alloc n)"
proof -
  define a y z where "a = float_round (unat n)" and "y = float_round (3 * a)" and "z = float_round (y + 2)"
  note A = float_round_error [of "unat n", folded a_def]
    and Y = float_round_error [of "3 * a", folded y_def]
    and Z = float_round_error [of "y + 2", folded z_def]
  have up: "z div 2 < 2 ^ 32"
  proof -
    have "z < 2 ^ 33" using A(2) Y(2) Z(2) assms(2) by simp
    then show ?thesis by simp
  qed
  have "unat n + 1 \<le> z div 2"
  proof (cases "unat n < 4")
    case True
    then have "z = 3 * unat n + 2" by (simp add: a_def y_def z_def)
    then show ?thesis using assms(1) True by simp
  next
    case False
    then have "2 * unat n + 2 \<le> z" using A(1) Y(1) Z(1) assms(2) by simp
    then show ?thesis by simp
  qed
  moreover have "unat (grow_alloc n) = z div 2"
    using up by (simp add: grow_alloc_def a_def y_def z_def Let_def unat_of_nat)
  ultimately show ?thesis by simp
qed

subsection \<open>Operations on the representation\<close>

lemma length_malloc [simp]: "length (malloc n) = n"
  by (simp add: malloc_def)

lemma length_realloc [simp]: "length (realloc b n) = n"
  by (simp add: realloc_def)

lemma take_realloc: "k \<le> length b \<Longrightarrow> k \<le> n \<Longrightarrow> take k (realloc b n) = take k b"
  by (simp add: realloc_def)

lemma put_nul_facts:
  assumes "i < length b"
  shows "length (put_nul b i) = length b" "put_nul b i ! i = CHR 0x00" "take i (put_nul b i) = take i b"
  using assms by (auto simp: put_nul_def c_memcpy_def nth_append)

text \<open>A buffer of \<open>alloc\<close> bytes whose first \<open>off\<close> bytes are followed by \<open>s\<close> and a NUL.\<close>

lemma write_and_terminate:
  assumes "off + length s < length b"
  shows "length (put_nul (c_memcpy b off s) (off + length s)) = length b"
    and "put_nul (c_memcpy b off s) (off + length s) ! (off + length s) = CHR 0x00"
    and "take (off + length s) (put_nul (c_memcpy b off s) (off + length s)) = take off b @ s"
  using assms put_nul_facts [of "off + length s" "c_memcpy b off s"]
  by (simp_all add: take_c_memcpy)

lemma unat_add_small: "unat (a :: u32) + unat b < 2 ^ 32 \<Longrightarrow> unat (a + b) = unat a + unat b"
  by (simp add: unat_word_ariths)

lemma unat_sub_suc: "b < a \<Longrightarrow> unat (a - b - 1 :: u32) = unat a - unat b - 1"
proof -
  assume "b < a"
  then have "b \<le> a" "(1 :: u32) \<le> a - b"
    by (simp_all add: word_le_nat_alt word_less_nat_alt unat_sub)
  then show ?thesis by (simp add: unat_sub)
qed

lemma append_to_allocated:
  assumes inv: "ds_inv ds" and buf: "ds_buf ds = Some b"
    and len: "unat k = length s" and small: "unat (ds_len ds) + length s \<le> 2 ^ 31"
  shows "ds_inv (DynamicString_Append ds s k)"
    and "ds_abs (DynamicString_Append ds s k) = Some (take (unat (ds_len ds)) b @ s)"
proof -
  have lt: "ds_len ds < ds_alloc ds" and lb: "length b = unat (ds_alloc ds)"
    using inv buf by (auto simp: ds_inv_def)
  have sum: "unat (ds_len ds + k) = unat (ds_len ds) + length s"
    using small len by (simp add: unat_add_small)
  define fits where "fits \<longleftrightarrow> k \<le> ds_alloc ds - ds_len ds - 1"
  define alloc where "alloc = (if fits then ds_alloc ds else grow_alloc (ds_len ds + k))"
  define base where "base = (if fits then b else realloc b (unat alloc))"
  have room: "unat (ds_len ds) + length s < unat alloc"
  proof (cases fits)
    case True
    then have "unat k \<le> unat (ds_alloc ds) - unat (ds_len ds) - 1"
      using unat_sub_suc [OF lt] by (simp add: fits_def word_le_nat_alt)
    then show ?thesis using True lt len by (simp add: alloc_def word_less_nat_alt)
  next
    case False
    then have "k \<noteq> 0" by (auto simp: fits_def)
    then have "1 \<le> unat (ds_len ds + k)" using sum len
      by (metis One_nat_def Suc_leI add_gr_0 unat_gt_0 word_neq_0_conv)
    then show ?thesis using False sum small grow_alloc_bounds [of "ds_len ds + k"]
      by (simp add: alloc_def)
  qed
  have base: "length base = unat alloc" "take (unat (ds_len ds)) base = take (unat (ds_len ds)) b"
    using lb lt room
    by (auto simp: base_def alloc_def word_less_nat_alt take_realloc split: if_splits)
  have res: "DynamicString_Append ds s k =
      ds\<lparr>ds_len := ds_len ds + k, ds_alloc := alloc,
        ds_buf := Some (put_nul (c_memcpy base (unat (ds_len ds)) s) (unat (ds_len ds) + length s))\<rparr>"
    using buf sum len
    by (cases ds) (auto simp: DynamicString_Append_def Let_def fits_def alloc_def base_def)
  show "ds_inv (DynamicString_Append ds s k)"
    using room base write_and_terminate [of "unat (ds_len ds)" s base]
    by (simp add: res ds_inv_def sum word_less_nat_alt)
  show "ds_abs (DynamicString_Append ds s k) = Some (take (unat (ds_len ds)) b @ s)"
    using room base write_and_terminate [of "unat (ds_len ds)" s base]
    by (simp add: res ds_abs_def sum)
qed

lemma ds_str_abs: "ds_str ds = (case ds_abs ds of None \<Rightarrow> [] | Some s \<Rightarrow> s)"
  by (simp add: DynamicString_ToStdString_def ds_abs_def split: option.splits)

lemma fresh_buffer_inv:
  assumes "unat k < 2 ^ 32 - 1"
  shows "ds_inv \<lparr>ds_len = 0, ds_alloc = k + 1, ds_buf = Some (malloc (unat (k + 1)))\<rparr>"
proof -
  have "unat (k + 1) = unat k + 1" using assms unat_add_small [of k 1] by simp
  then show ?thesis by (simp add: ds_inv_def word_less_nat_alt malloc_def)
qed

text \<open>Append on any string, and the two overloads.\<close>

lemma Append_correct [dstr_simps]:
  assumes "ds_inv ds" "unat k = length s" "length (ds_str ds) + length s \<le> 2 ^ 31"
  shows "ds_inv (DynamicString_Append ds s k)"
    and "ds_abs (DynamicString_Append ds s k) = Some (ds_str ds @ s)"
proof -
  have "ds_inv (DynamicString_Append ds s k) \<and>
      ds_abs (DynamicString_Append ds s k) = Some (ds_str ds @ s)"
  proof (cases "ds_buf ds")
    case None
    define d0 where "d0 = \<lparr>ds_len = 0, ds_alloc = k + 1, ds_buf = Some (malloc (unat (k + 1)))\<rparr>"
    have "ds = \<lparr>ds_len = 0, ds_alloc = 0, ds_buf = None\<rparr>"
      using assms(1) None by (cases ds) (simp add: ds_inv_def)
    then have "DynamicString_Append ds s k = DynamicString_Append d0 s k"
      by (simp add: DynamicString_Append_def d0_def Let_def)
    moreover have "ds_inv d0"
      unfolding d0_def by (rule fresh_buffer_inv) (use assms in simp)
    ultimately show ?thesis
      using append_to_allocated [of d0 "malloc (unat (k + 1))" k s] assms None
      by (simp add: d0_def DynamicString_ToStdString_def)
  next
    case (Some b)
    then have "unat (ds_len ds) \<le> length b"
      using assms(1) by (auto simp: ds_inv_def word_less_nat_alt)
    then show ?thesis
      using append_to_allocated [OF assms(1) Some assms(2)] assms(3) Some
      by (simp add: DynamicString_ToStdString_def)
  qed
  then show "ds_inv (DynamicString_Append ds s k)"
    and "ds_abs (DynamicString_Append ds s k) = Some (ds_str ds @ s)" by simp_all
qed

lemma Clear_correct [dstr_simps]:
  assumes "ds_inv ds"
  shows "ds_inv (DynamicString_Clear ds)"
    and "ds_abs (DynamicString_Clear ds) = map_option (\<lambda>_. []) (ds_buf ds)"
proof (atomize (full), cases "ds_buf ds")
  case None
  then show "ds_inv (DynamicString_Clear ds) \<and>
      ds_abs (DynamicString_Clear ds) = map_option (\<lambda>_. []) (ds_buf ds)"
    using assms by (simp add: DynamicString_Clear_def ds_abs_def)
next
  case (Some b)
  then have "ds_len ds < ds_alloc ds" "length b = unat (ds_alloc ds)"
    using assms by (auto simp: ds_inv_def)
  moreover from this have "0 < ds_alloc ds"
    by (metis word_coorder.not_eq_extremum word_not_simps(1))
  moreover have "length (put_nul (c_memcpy b 0 (replicate (unat (ds_alloc ds)) CHR 0x00)) 0) = length b"
    if "0 < length b" "length b = unat (ds_alloc ds)"
    using that put_nul_facts(1) [of 0 "c_memcpy b 0 (replicate (unat (ds_alloc ds)) CHR 0x00)"] by simp
  ultimately show "ds_inv (DynamicString_Clear ds) \<and>
      ds_abs (DynamicString_Clear ds) = map_option (\<lambda>_. []) (ds_buf ds)"
    using Some assms
    by (auto simp: DynamicString_Clear_def ds_abs_def ds_inv_def word_less_nat_alt put_nul_facts)
qed

lemma Reset_correct [dstr_simps]:
  assumes "ds_inv ds" "unat k = length s" "length s \<le> 2 ^ 31"
  shows "ds_inv (DynamicString_Reset ds s k)"
    and "ds_abs (DynamicString_Reset ds s k) = Some s"
proof (atomize (full), cases "ds_buf ds")
  case None
  define d0 where "d0 = \<lparr>ds_len = 0, ds_alloc = k + 1, ds_buf = Some (malloc (unat (k + 1)))\<rparr>"
  have "ds = \<lparr>ds_len = 0, ds_alloc = 0, ds_buf = None\<rparr>"
    using assms(1) None by (cases ds) (simp add: ds_inv_def)
  then have "DynamicString_Reset ds s k = DynamicString_Append d0 s k"
    by (simp add: DynamicString_Reset_def DynamicString_Clear_def d0_def)
  moreover have "ds_inv d0"
    unfolding d0_def by (rule fresh_buffer_inv) (use assms in simp)
  ultimately show "ds_inv (DynamicString_Reset ds s k) \<and> ds_abs (DynamicString_Reset ds s k) = Some s"
    using Append_correct [of d0 k s] assms by (simp add: d0_def DynamicString_ToStdString_def)
next
  case (Some b)
  have "ds_str (DynamicString_Clear ds) = []"
    using Clear_correct(2) [OF assms(1)] by (simp add: ds_str_abs Some)
  then show "ds_inv (DynamicString_Reset ds s k) \<and> ds_abs (DynamicString_Reset ds s k) = Some s"
    using Append_correct [OF Clear_correct(1) [OF assms(1)] assms(2)] assms(3) Some
    by (simp add: DynamicString_Reset_def)
qed

lemma unat_of_nat_len: "length (s :: string) \<le> 2 ^ 31 \<Longrightarrow> unat (of_nat (length s) :: u32) = length s"
  by (simp add: unat_of_nat)

lemma Shrink_correct [dstr_simps]:
  assumes "ds_inv ds"
  shows "ds_inv (DynamicString_Shrink ds)" and "ds_abs (DynamicString_Shrink ds) = ds_abs ds"
proof (atomize (full), cases "ds_buf ds")
  case None
  then show "ds_inv (DynamicString_Shrink ds) \<and> ds_abs (DynamicString_Shrink ds) = ds_abs ds"
    using assms by (simp add: DynamicString_Shrink_def)
next
  case (Some b)
  then have lt: "ds_len ds < ds_alloc ds" and b: "length b = unat (ds_alloc ds)"
    "b ! unat (ds_len ds) = CHR 0x00"
    using assms by (auto simp: ds_inv_def)
  have "unat (ds_len ds + 1) = unat (ds_len ds) + 1"
    using lt unsigned_less [of "ds_alloc ds", where ?'a = nat]
    by (intro trans [OF unat_add_small]) (simp_all add: word_less_nat_alt)
  then show "ds_inv (DynamicString_Shrink ds) \<and> ds_abs (DynamicString_Shrink ds) = ds_abs ds"
    using Some lt b
    by (auto simp: DynamicString_Shrink_def ds_inv_def ds_abs_def word_less_nat_alt realloc_def)
qed

lemma std_ctor_correct [dstr_simps]:
  assumes "length s \<le> 2 ^ 31"
  shows "ds_inv (DynamicString_std s)" and "ds_abs (DynamicString_std s) = Some s"
proof -
  have u: "unat (of_nat (length s + 1) :: u32) = length s + 1" "unat (of_nat (length s) :: u32) = length s"
    by (simp_all only: unat_of_nat) (use assms in simp_all)
  note w = write_and_terminate [of 0 s "malloc (length s + 1)"]
  show "ds_inv (DynamicString_std s)"
    using w u by (simp add: DynamicString_std_def ds_inv_def Let_def word_less_nat_alt del: of_nat_add)
  show "ds_abs (DynamicString_std s) = Some s"
    using w u by (simp add: DynamicString_std_def ds_abs_def Let_def del: of_nat_add)
qed

lemma copy_correct [dstr_simps]:
  assumes "ds_inv ds"
  shows "ds_inv (DynamicString_copy ds)" and "ds_abs (DynamicString_copy ds) = ds_abs ds"
proof (atomize (full), cases "ds_buf ds")
  case None
  then show "ds_inv (DynamicString_copy ds) \<and> ds_abs (DynamicString_copy ds) = ds_abs ds"
    by (simp add: DynamicString_copy_def DynamicString_default_def ds_inv_def ds_abs_def)
next
  case (Some b)
  then have lt: "ds_len ds < ds_alloc ds" and b: "length b = unat (ds_alloc ds)"
    using assms by (auto simp: ds_inv_def)
  note w = write_and_terminate [of 0 "take (unat (ds_len ds)) b" "malloc (unat (ds_alloc ds))"]
  show "ds_inv (DynamicString_copy ds) \<and> ds_abs (DynamicString_copy ds) = ds_abs ds"
    using Some lt b w
    by (simp add: DynamicString_copy_def ds_inv_def ds_abs_def Let_def word_less_nat_alt min_def)
qed

lemma move_correct [dstr_simps]:
  assumes "ds_inv ds" "DynamicString_move ds = (d, rest)"
  shows "ds_inv d" and "ds_inv rest" and "ds_abs d = ds_abs ds" and "ds_abs rest = None"
  using assms
  by (auto simp: DynamicString_move_def DynamicString_default_def ds_inv_def ds_abs_def split: option.splits)

lemma ds_str_eq_contents: "ds_str ds = contents (ds_abs ds)"
  by (simp add: ds_str_abs contents_def)

lemma ds_step_refines:
  assumes "ds_inv ds" "length (contents (ds_spec (ds_abs ds) op)) \<le> 2 ^ 31"
  shows "ds_inv (ds_step ds op) \<and> ds_abs (ds_step ds op) = ds_spec (ds_abs ds) op"
proof (cases op)
  case (OpAppend s)
  then have "length (ds_str ds) + length s \<le> 2 ^ 31"
    using assms(2) by (simp add: ds_str_eq_contents contents_def)
  then show ?thesis
    using Append_correct [OF assms(1) unat_of_nat_len, of s] OpAppend
    by (simp add: DynamicString_Append_std_def ds_str_eq_contents)
next
  case (OpReset s)
  then have "length s \<le> 2 ^ 31" using assms(2) by (simp add: contents_def)
  then show ?thesis
    using Reset_correct [OF assms(1) unat_of_nat_len] OpReset
    by (simp add: DynamicString_Reset_std_def)
next
  case OpClear
  then show ?thesis using Clear_correct [OF assms(1)] by (simp add: ds_abs_def option.map_comp o_def)
next
  case OpShrink
  then show ?thesis using Shrink_correct [OF assms(1)] by simp
qed

subsection \<open>The contract of a string buffer\<close>

text \<open>
  What the containers use of \<open>DynamicString\<close>: a fresh object is null, \<open>Reset\<close> makes
  any object hold exactly the given bytes whatever it held before, \<open>Append\<close> extends
  the contents, moving out leaves a null string. The contents type \<open>string option\<close> is
  what the container theories use for the elements they store.
\<close>

locale string_buffer =
  fixes abs :: "'d \<Rightarrow> string option"
    and inv :: "'d \<Rightarrow> bool"
    and fresh :: "'d"
    and reset :: "'d \<Rightarrow> string \<Rightarrow> 'd"
    and append :: "'d \<Rightarrow> string \<Rightarrow> 'd"
    and limit :: nat
  assumes fresh: "inv fresh" "abs fresh = None"
    and reset: "inv d \<Longrightarrow> length s \<le> limit \<Longrightarrow> inv (reset d s) \<and> abs (reset d s) = Some s"
    and append: "inv d \<Longrightarrow> length (contents (abs d)) + length s \<le> limit \<Longrightarrow>
      inv (append d s) \<and> abs (append d s) = Some (contents (abs d) @ s)"
begin

lemma append_many:
  assumes "inv d" "abs d = Some s" "length s + length (concat ss) \<le> limit"
  shows "inv (foldl append d ss) \<and> abs (foldl append d ss) = Some (s @ concat ss)"
  using assms
proof (induction ss arbitrary: d s)
  case Nil
  then show ?case by simp
next
  case (Cons a ss)
  then have "inv (append d a) \<and> abs (append d a) = Some (s @ a)"
    using append [of d a] by (simp add: contents_def)
  with Cons.prems show ?case using Cons.IH [of "append d a" "s @ a"] by simp
qed

lemma reset_then_append:
  assumes "inv d" "length s + length (concat ss) \<le> limit"
  shows "inv (foldl append (reset d s) ss) \<and> abs (foldl append (reset d s) ss) = Some (s @ concat ss)"
  using append_many [of "reset d s" s ss] reset [of d s] assms by simp

end

interpretation dynstr: string_buffer ds_abs ds_inv DynamicString_default
  DynamicString_Reset_std DynamicString_Append_std "2 ^ 31"
proof
  show "ds_inv DynamicString_default" "ds_abs DynamicString_default = None"
    by (simp_all add: DynamicString_default_def ds_inv_def ds_abs_def)
  show "ds_inv (DynamicString_Reset_std d s) \<and> ds_abs (DynamicString_Reset_std d s) = Some s"
    if "ds_inv d" "length s \<le> 2 ^ 31" for d s
    using ds_step_refines [of d "OpReset s"] that by (simp add: contents_def)
  show "ds_inv (DynamicString_Append_std d s) \<and>
      ds_abs (DynamicString_Append_std d s) = Some (contents (ds_abs d) @ s)"
    if "ds_inv d" "length (contents (ds_abs d)) + length s \<le> 2 ^ 31" for d s
    using ds_step_refines [of d "OpAppend s"] that by (simp add: contents_def)
qed

subsection \<open>Comparison operators\<close>

text \<open>The lexicographic order on byte strings, bytes being unsigned.\<close>

definition byte_less :: "(char \<times> char) set" where
  "byte_less = {(c, d). (of_char c :: nat) < of_char d}"

lemma in_byte_less [simp]: "(c, d) \<in> byte_less \<longleftrightarrow> (of_char c :: nat) < of_char d"
  by (simp add: byte_less_def)

lemma byte_cmp_lexord:
  "(let r = byte_cmp (take (min (length a) (length b)) a) (take (min (length a) (length b)) b)
    in if r = 0 then length a < length b else r < 0) \<longleftrightarrow> (a, b) \<in> lexord byte_less"
proof (induction a arbitrary: b)
  case Nil
  then show ?case by (cases b) auto
next
  case (Cons x a)
  show ?case
  proof (cases b)
    case Nil
    then show ?thesis by simp
  next
    case (Cons y bs)
    have "x = y" if "(of_char x :: nat) = of_char y" using that by (metis char_of_char)
    then show ?thesis using Cons.IH [of bs] Cons by (auto simp: Let_def)
  qed
qed

lemma length_ds_str: "ds_inv ds \<Longrightarrow> length (ds_str ds) = unat (ds_len ds)"
  by (auto simp: ds_inv_def DynamicString_ToStdString_def word_less_nat_alt split: option.splits)

lemma take_ds_data: "ds_inv ds \<Longrightarrow> n \<le> unat (ds_len ds) \<Longrightarrow> take n (ds_data ds) = take n (ds_str ds)"
  by (auto simp: ds_inv_def ds_data_def DynamicString_ToStdString_def min_def split: option.splits)

lemma unat_min: "unat (min a b :: u32) = min (unat a) (unat b)"
  by (simp add: min_def word_le_nat_alt)

lemma memcmp_ds:
  assumes "ds_inv a" "ds_inv b"
  shows "c_memcmp (ds_data a) (ds_data b) (unat (min (ds_len a) (ds_len b))) =
    byte_cmp (take (min (length (ds_str a)) (length (ds_str b))) (ds_str a))
      (take (min (length (ds_str a)) (length (ds_str b))) (ds_str b))"
  using assms by (simp add: c_memcmp_def unat_min length_ds_str take_ds_data)

lemma less_lexord:
  assumes "ds_inv a" "ds_inv b"
  shows "DynamicString_less a b \<longleftrightarrow> (ds_str a, ds_str b) \<in> lexord byte_less"
  using byte_cmp_lexord [of "ds_str a" "ds_str b"] memcmp_ds [OF assms]
  by (auto simp: DynamicString_less_def word_less_nat_alt length_ds_str [OF assms(1)]
      length_ds_str [OF assms(2)] Let_def split: if_splits)

lemma greater_less:
  assumes "ds_inv a" "ds_inv b"
  shows "DynamicString_greater a b \<longleftrightarrow> DynamicString_less b a"
proof -
  define r where "r = c_memcmp (ds_data a) (ds_data b) (unat (min (ds_len a) (ds_len b)))"
  have "c_memcmp (ds_data b) (ds_data a) (unat (min (ds_len b) (ds_len a))) = - r"
    unfolding r_def c_memcmp_def by (simp only: min.commute [of "ds_len b"]) (rule byte_cmp_sym)
  then show ?thesis
    by (auto simp: DynamicString_greater_def DynamicString_less_def r_def [symmetric] Let_def)
qed

lemma eq_contents:
  assumes "ds_inv a" "ds_inv b"
  shows "DynamicString_eq a b \<longleftrightarrow> ds_str a = ds_str b"
proof (cases "ds_len a = ds_len b")
  case True
  then show ?thesis
    using memcmp_ds [OF assms] byte_cmp_eq_0 [of "ds_str a" "ds_str b"] length_ds_str assms
    by (simp add: DynamicString_eq_def)
next
  case False
  then show ?thesis
    using length_ds_str [OF assms(1)] length_ds_str [OF assms(2)]
    by (metis DynamicString_eq_def word_unat_eq_iff)
qed

lemma neq_not_eq: "DynamicString_neq a b \<longleftrightarrow> \<not> DynamicString_eq a b"
  by (auto simp: DynamicString_neq_def DynamicString_eq_def)

subsection \<open>Integer conversions\<close>

lemma std_stoll_to_string: "in_int64 v \<Longrightarrow> std_stoll (std_to_string v) = Inr v"
  using strtoll_to_string [of v "[]"] by (simp add: std_stoll_def)

lemma std_stoi_to_string: "in_int32 v \<Longrightarrow> std_stoi (std_to_string v) = Inr v"
  using strtoll_to_string [of v "[]"] by (auto simp: std_stoi_def in_int64_def in_int32_def)

lemma std_stoll_range: "std_stoll s = Inr v \<Longrightarrow> in_int64 v"
  by (auto simp: std_stoll_def strtoll_def in_int64_def Let_def split: prod.splits if_splits)

lemma std_stoi_range: "std_stoi s = Inr v \<Longrightarrow> in_int32 v"
  by (auto simp: std_stoi_def split: prod.splits if_splits)

lemma CanConvertToInt64_iff: "CanConvertToInt64 s = Some v \<longleftrightarrow> in_int64 v \<and> s = std_to_string v"
proof
  assume "CanConvertToInt64 s = Some v"
  then have "std_stoll s = Inr v" "std_to_string v = s"
    by (auto simp: CanConvertToInt64_def split: if_splits sum.splits)
  then show "in_int64 v \<and> s = std_to_string v" using std_stoll_range by blast
next
  assume v: "in_int64 v \<and> s = std_to_string v"
  then show "CanConvertToInt64 s = Some v"
    using length_std_to_string_int64 [of v] std_stoll_to_string [of v]
    by (simp add: CanConvertToInt64_def)
qed

lemma in_int32_in_int64: "in_int32 v \<Longrightarrow> in_int64 v"
  by (simp add: in_int32_def in_int64_def)

lemma CanConvertToInt32_iff: "CanConvertToInt32 s = Some v \<longleftrightarrow> in_int32 v \<and> s = std_to_string v"
proof
  assume "CanConvertToInt32 s = Some v"
  then have "std_stoi s = Inr v" "std_to_string v = s"
    by (auto simp: CanConvertToInt32_def split: if_splits sum.splits)
  then show "in_int32 v \<and> s = std_to_string v" using std_stoi_range by blast
next
  assume v: "in_int32 v \<and> s = std_to_string v"
  then show "CanConvertToInt32 s = Some v"
    using length_std_to_string_int64 [OF in_int32_in_int64, of v] std_stoi_to_string [of v]
    by (simp add: CanConvertToInt32_def)
qed

lemma strtoll_no_digit: "\<not> is_digit c \<Longrightarrow> strtoll (c_str [c]) = (0, 0, False)"
  by (auto simp: strtoll_def strto_scan_def c_str_def Let_def)

lemma c_str_std_ctor: "c \<noteq> CHR 0x00 \<Longrightarrow> ds_buf (DynamicString_std [c]) = Some [c, CHR 0x00]"
  by (simp add: DynamicString_std_def Let_def malloc_def c_memcpy_def put_nul_def numeral_2_eq_2)

subsection \<open>StaticString\<close>

lemma StaticString_std_fields:
  "s_len (StaticString_std s) = length (c_str s) \<and> ss_data (StaticString_std s) = c_str s @ [CHR 0x00]"
  by (simp add: StaticString_std_def StaticString_cstr_def StaticString_len_def ss_data_def
      malloc_def c_memcpy_def put_nul_def)

lemma c_str_append_nul: "c_str (c_str s @ [CHR 0x00]) = c_str s"
proof -
  have "\<forall>c \<in> set (c_str s). c \<noteq> CHR 0x00" by (auto dest: set_c_str)
  then show ?thesis by (simp add: c_str_def takeWhile_append2)
qed

lemma c_strcmp_eq_0: "c_strcmp a b = 0 \<longleftrightarrow> c_str a = c_str b"
proof -
  have "byte_cmp (x @ [CHR 0x00]) (y @ [CHR 0x00]) = 0 \<longleftrightarrow> x = y"
    if "\<forall>c \<in> set x. c \<noteq> CHR 0x00" "\<forall>c \<in> set y. c \<noteq> CHR 0x00" for x y
    using that
  proof (induction x arbitrary: y)
    case Nil
    then show ?case by (cases y) auto
  next
    case (Cons c x)
    then show ?case by (cases y) auto
  qed
  then show ?thesis unfolding c_strcmp_def by (metis set_c_str)
qed

section \<open>Properties\<close>

text \<open>
  C31. Whatever sequence of \<open>Append\<close>, \<open>Reset\<close>, \<open>Clear\<close> and \<open>Shrink\<close> calls a
  \<open>DynamicString\<close> receives, as long as no string along the way exceeds \<open>2 ^ 31\<close>
  bytes, the object holds exactly the bytes the calls specify and stays well formed: the
  terminator is inside the allocated block, whose size is \<open>alloc_\<close>, so no write is out
  of bounds, in spite of the single-precision computation of the new capacity.
\<close>

theorem dynamic_string_history:
  assumes "ds_inv ds" and "ds_bounded (ds_abs ds) ops"
  shows "ds_inv (foldl ds_step ds ops) \<and> ds_abs (foldl ds_step ds ops) = foldl ds_spec (ds_abs ds) ops"
  using assms
proof (induction ops arbitrary: ds)
  case Nil
  then show ?case by simp
next
  case (Cons op ops)
  then show ?case using ds_step_refines [of ds op] by simp
qed

theorem dynamic_string_history_witness:
  "ds_abs (foldl ds_step DynamicString_default [OpAppend ''ab'', OpAppend ''cd'', OpReset ''x'', OpShrink])
     = Some ''x''"
proof -
  have "ds_inv DynamicString_default"
    "ds_bounded (ds_abs DynamicString_default) [OpAppend ''ab'', OpAppend ''cd'', OpReset ''x'', OpShrink]"
    by (simp_all add: DynamicString_default_def ds_inv_def ds_abs_def contents_def)
  from dynamic_string_history [OF this] show ?thesis
    by (simp add: DynamicString_default_def ds_abs_def)
qed

text \<open>
  The conversions accept exactly the canonical decimal notation of the numbers in
  range: no leading zeros, plus signs, white space or trailing characters, and every
  64-bit (32-bit) signed value is accepted.
\<close>

theorem integer_conversions_canonical:
  "(CanConvertToInt64 s = Some v \<longleftrightarrow> in_int64 v \<and> s = std_to_string v) \<and>
   (CanConvertToInt32 s = Some w \<longleftrightarrow> in_int32 w \<and> s = std_to_string w)"
  by (simp add: CanConvertToInt64_iff CanConvertToInt32_iff)

text \<open>
  The comparison operators of \<open>DynamicString\<close> are equality, disequality and the
  lexicographic order (bytes unsigned, a proper prefix smaller) on the contents,
  independent of the spare capacity of the two objects.
\<close>

theorem dynamic_string_order:
  assumes "ds_inv a" and "ds_inv b"
  shows "(DynamicString_eq a b \<longleftrightarrow> ds_str a = ds_str b) \<and>
    (DynamicString_neq a b \<longleftrightarrow> \<not> DynamicString_eq a b) \<and>
    (DynamicString_less a b \<longleftrightarrow> (ds_str a, ds_str b) \<in> lexord byte_less) \<and>
    (DynamicString_greater a b \<longleftrightarrow> (ds_str b, ds_str a) \<in> lexord byte_less)"
  using eq_contents [OF assms] less_lexord [OF assms] greater_less [OF assms]
    less_lexord [OF assms(2) assms(1)] neq_not_eq [of a b]
  by simp

theorem dynamic_string_order_witness:
  "DynamicString_less (DynamicString_std ''ab'') (DynamicString_std ''abc'')"
proof -
  have "ds_inv (DynamicString_std ''ab'')" "ds_inv (DynamicString_std ''abc'')"
    by (simp_all add: std_ctor_correct(1))
  from dynamic_string_order [OF this] show ?thesis
    by (simp add: ds_str_abs std_ctor_correct(2))
qed

text \<open>
  \<open>TryConvertToInt64\<close> compares only lengths when it checks that the whole string was
  a number, so every one-character string that is not a digit converts to 0 instead of
  raising \<open>invalid_argument\<close>.
\<close>

theorem try_convert_accepts_single_nondigit:
  assumes "\<not> is_digit c" and "c \<noteq> CHR 0x00"
  shows "DynamicString_TryConvertToInt64 e (DynamicString_std [c]) = Inr 0"
proof -
  have "c_str [c, CHR 0x00] = c_str [c]" using assms(2) by (simp add: c_str_def)
  moreover have "ds_len (DynamicString_std [c]) = 1"
    by (simp add: DynamicString_std_def Let_def)
  moreover have "length (std_to_string 0) = 1"
    by (simp add: std_to_string_def to_string_nat.simps)
  ultimately show ?thesis
    using strtoll_no_digit [OF assms(1)] c_str_std_ctor [OF assms(2)]
    by (simp add: DynamicString_TryConvertToInt64_def)
qed

theorem try_convert_accepts_single_nondigit_witness:
  "DynamicString_TryConvertToInt64 False (DynamicString_std ''x'') = Inr 0"
  using try_convert_accepts_single_nondigit [of "CHR ''x''" False] by (simp add: is_digit_def)

text \<open>
  A \<open>Key\<close> built from a \<open>std::string\<close> holds the bytes before the first NUL, and
  \<open>operator==\<close> is equality of these; \<open>operator!=\<close> is not its negation: it also
  requires the lengths to differ, so two different keys of the same length are neither
  equal nor unequal.
\<close>

theorem static_string_equality:
  "(StaticString_eq (StaticString_std a) (StaticString_std b) \<longleftrightarrow> c_str a = c_str b) \<and>
   (StaticString_neq (StaticString_std a) (StaticString_std b) \<longleftrightarrow>
      c_str a \<noteq> c_str b \<and> length (c_str a) \<noteq> length (c_str b))"
  using StaticString_std_fields [of a] StaticString_std_fields [of b]
  by (auto simp: StaticString_eq_def StaticString_neq_def c_strcmp_eq_0 c_str_append_nul)

end
