(* ===== verification/HashStruct.thy ===== *)
theory HashStruct
  imports Complex_Main Str
begin

text \<open>
  \<open>src/src/hash.h\<close> and \<open>src/src/rehashable.h\<close>: the chained hash table shared by the
  hash and set values, and its incremental rehashing.

  A table is the array of its chains (\<open>table_\<close>, each chain the list of its entries from
  the head), with \<open>slot_size_\<close>, \<open>count_\<close> and \<open>rehashing_idx_\<close>. The template
  parameter \<open>EntryType\<close> is the type variable \<open>'e\<close>; what the template uses of it, the
  member \<open>key\<close>, is the argument \<open>key_of\<close>. A key is the contents of its
  \<open>DynamicString\<close>: \<open>dstr_as_key\<close> shows that hashing and comparing the objects is hashing
  and comparing the contents. \<open>cur_ht_\<close> is never null outside the destructor and is
  not an option; \<open>backup_ht_\<close> is one. The quotient \<open>LoadFactor\<close> is the real quotient:
  slot counts are powers of two, so the division of the source is exact.

  The locale \<open>rehash_impl\<close> is the interface \<open>Rehashable<ImplType>\<close> relies on: what
  \<open>AddEntry\<close> does with an entry whose key the table does not hold. Everything about
  rehashing is proved inside it once, and \<open>HashDict\<close> and \<open>HashSet\<close> interpret it.
\<close>

section \<open>HashStructBase\<close>

abbreviation (input) UNDEFINED :: int where "UNDEFINED \<equiv> - 1"
abbreviation (input) NEW_ADDED :: int where "NEW_ADDED \<equiv> 0"
abbreviation (input) UPDATED :: int where "UPDATED \<equiv> 1"
abbreviation (input) EXISTED :: int where "EXISTED \<equiv> 2"
abbreviation (input) ERASED :: int where "ERASED \<equiv> 1"
abbreviation (input) NOT_ERASED :: int where "NOT_ERASED \<equiv> 0"

record 'e htable =
  ht_table :: "'e list list"
  slot_size :: nat
  ht_count :: nat
  rehashing_idx :: int

definition HashStructBase :: "nat \<Rightarrow> 'e htable" where
  "HashStructBase init_size =
     \<lparr>ht_table = replicate init_size [], slot_size = init_size, ht_count = 0, rehashing_idx = - 1\<rparr>"

definition CalculateSlotIndex :: "'e htable \<Rightarrow> string \<Rightarrow> nat" where
  "CalculateSlotIndex ht key = unat (Time33Hash key) mod slot_size ht"

text \<open>Unlinking the first entry with the key from a chain; \<open>None\<close> when there is none.\<close>

fun unlink_entry :: "('e \<Rightarrow> string) \<Rightarrow> string \<Rightarrow> 'e list \<Rightarrow> 'e list option" where
  "unlink_entry key_of key [] = None"
| "unlink_entry key_of key (e # es) =
     (if key_of e = key then Some es else map_option ((#) e) (unlink_entry key_of key es))"

definition EraseKey :: "('e \<Rightarrow> string) \<Rightarrow> 'e htable \<Rightarrow> string \<Rightarrow> 'e htable \<times> int" where
  "EraseKey key_of ht key =
     (let slot_idx = CalculateSlotIndex ht key
      in case unlink_entry key_of key (ht_table ht ! slot_idx) of
           None \<Rightarrow> (ht, NOT_ERASED)
         | Some chain \<Rightarrow>
             (ht\<lparr>ht_table := (ht_table ht)[slot_idx := chain], ht_count := ht_count ht - 1\<rparr>, ERASED))"

definition AllEntries :: "'e htable \<Rightarrow> 'e list" where
  "AllEntries ht =
     (if ht_count ht = 0 then [] else concat (map (\<lambda>i. ht_table ht ! i) [0..<slot_size ht]))"

definition AllKeys :: "('e \<Rightarrow> string) \<Rightarrow> 'e htable \<Rightarrow> string list" where
  "AllKeys key_of ht =
     (if ht_count ht = 0 then [] else concat (map (\<lambda>i. map key_of (ht_table ht ! i)) [0..<slot_size ht]))"

definition FindEntry :: "('e \<Rightarrow> string) \<Rightarrow> 'e htable \<Rightarrow> string \<Rightarrow> 'e option" where
  "FindEntry key_of ht key = List.find (\<lambda>e. key_of e = key) (ht_table ht ! CalculateSlotIndex ht key)"

definition CheckExists :: "('e \<Rightarrow> string) \<Rightarrow> 'e htable \<Rightarrow> string \<Rightarrow> bool" where
  "CheckExists key_of ht key \<longleftrightarrow> FindEntry key_of ht key \<noteq> None"

definition LoadFactor :: "'e htable \<Rightarrow> real" where
  "LoadFactor ht = real (ht_count ht) / real (slot_size ht)"

text \<open>The loop that looks for the next occupied slot from index \<open>i\<close> on.\<close>

function occupied_from :: "'e list list \<Rightarrow> nat \<Rightarrow> nat \<Rightarrow> int" where
  "occupied_from tbl i n =
     (if i < n then (if tbl ! i \<noteq> [] then int i else occupied_from tbl (i + 1) n) else - 1)"
  by auto
termination by (relation "measure (\<lambda>(tbl, i, n). n - i)") auto

declare occupied_from.simps [simp del]

definition NextOccupiedSlotIdx :: "'e htable \<Rightarrow> nat \<Rightarrow> int" where
  "NextOccupiedSlotIdx ht begin_idx = occupied_from (ht_table ht) (begin_idx + 1) (slot_size ht)"

definition StepRehashingIdx :: "'e htable \<Rightarrow> 'e htable" where
  "StepRehashingIdx ht =
     ht\<lparr>rehashing_idx := occupied_from (ht_table ht) (nat (rehashing_idx ht + 1)) (slot_size ht)\<rparr>"

definition RehashDone :: "'e htable \<Rightarrow> bool" where
  "RehashDone ht \<longleftrightarrow> rehashing_idx ht = - 1"

definition EnsureAllSlotsEmpty :: "'e htable \<Rightarrow> bool" where
  "EnsureAllSlotsEmpty ht \<longleftrightarrow> (\<forall>i \<in> set [0..<slot_size ht]. ht_table ht ! i = [])"

section \<open>Rehashable\<close>

abbreviation (input) kGrowFactor :: nat where "kGrowFactor \<equiv> 2"

record 'e rehashable =
  cur_ht :: "'e htable"
  backup_ht :: "'e htable option"
  max_load_factor :: real

definition Rehashable :: "real \<Rightarrow> 'e rehashable" where
  "Rehashable mlf = \<lparr>cur_ht = HashStructBase 16, backup_ht = None, max_load_factor = mlf\<rparr>"

text \<open>
  \<open>CheckNeedRehash\<close> is declared \<open>const\<close> but steps the index of the table it points to.
\<close>

definition CheckNeedRehash :: "'e rehashable \<Rightarrow> 'e rehashable \<times> bool" where
  "CheckNeedRehash rh =
     (let cur = cur_ht rh;
          need_rehash = (rehashing_idx cur = - 1 \<and> LoadFactor cur > max_load_factor rh) \<or>
                        rehashing_idx cur \<noteq> - 1
      in (if need_rehash \<and> rehashing_idx cur = - 1
          then rh\<lparr>cur_ht := StepRehashingIdx cur\<rparr> else rh, need_rehash))"

text \<open>
  One step of rehashing: the chain at \<open>rehashing_idx_\<close> is taken off \<open>cur_ht_\<close> and its
  entries are handed to \<open>backup_ht_->AddEntry\<close> in order; when \<open>cur_ht_\<close> is empty the
  tables are exchanged.
\<close>

definition move_entry ::
    "('e htable \<Rightarrow> 'e \<Rightarrow> 'e htable \<times> int) \<Rightarrow> 'e \<Rightarrow> 'e htable \<times> 'e htable \<Rightarrow> 'e htable \<times> 'e htable" where
  "move_entry AddEntry e = (\<lambda>(cur, backup). (cur\<lparr>ht_count := ht_count cur - 1\<rparr>, fst (AddEntry backup e)))"

definition PerformRehash ::
    "('e htable \<Rightarrow> 'e \<Rightarrow> 'e htable \<times> int) \<Rightarrow> 'e rehashable \<Rightarrow> 'e rehashable \<times> bool" where
  "PerformRehash AddEntry rh =
     (let cur = cur_ht rh;
          backup = (case backup_ht rh of
                      None \<Rightarrow> HashStructBase (slot_size cur * kGrowFactor)
                    | Some b \<Rightarrow> b);
          (cur1, backup1) =
            (if \<not> RehashDone cur
             then let idx = nat (rehashing_idx cur);
                      head = ht_table cur ! idx;
                      (cur', backup') = fold (move_entry AddEntry) head
                         (cur\<lparr>ht_table := (ht_table cur)[idx := []]\<rparr>, backup)
                  in (StepRehashingIdx cur', backup')
             else (cur, backup))
      in if RehashDone cur1 \<and> EnsureAllSlotsEmpty cur1
         then (rh\<lparr>cur_ht := backup1, backup_ht := None\<rparr>, True)
         else (rh\<lparr>cur_ht := cur1, backup_ht := Some backup1\<rparr>, False))"

function RehashMoveSlots ::
    "('e htable \<Rightarrow> 'e \<Rightarrow> 'e htable \<times> int) \<Rightarrow> 'e rehashable \<Rightarrow> int \<Rightarrow> 'e rehashable" where
  "RehashMoveSlots AddEntry rh n =
     (case PerformRehash AddEntry rh of (rh', finished) \<Rightarrow>
        if finished then rh'
        else if n - 1 > 0 then RehashMoveSlots AddEntry rh' (n - 1) else rh')"
  by auto
termination by (relation "measure (\<lambda>(a, rh, n). nat n)") auto

declare RehashMoveSlots.simps [simp del]

text \<open>The two lines every operation of the subclasses starts with.\<close>

definition RehashIfNeeded ::
    "('e htable \<Rightarrow> 'e \<Rightarrow> 'e htable \<times> int) \<Rightarrow> 'e rehashable \<Rightarrow> 'e rehashable" where
  "RehashIfNeeded AddEntry rh =
     (case CheckNeedRehash rh of (rh', need) \<Rightarrow>
        if need then fst (PerformRehash AddEntry rh') else rh')"

definition Rehashable_Erase ::
    "('e htable \<Rightarrow> 'e \<Rightarrow> 'e htable \<times> int) \<Rightarrow> ('e \<Rightarrow> string) \<Rightarrow> 'e rehashable \<Rightarrow> string \<Rightarrow> 'e rehashable \<times> int" where
  "Rehashable_Erase AddEntry key_of rh key =
     (let rh1 = RehashIfNeeded AddEntry rh;
          (cur', r) = EraseKey key_of (cur_ht rh1) key
      in if r = ERASED then (rh1\<lparr>cur_ht := cur'\<rparr>, ERASED)
         else let rh2 = rh1\<lparr>cur_ht := cur'\<rparr>
              in case backup_ht rh2 of
                   None \<Rightarrow> (rh2, NOT_ERASED)
                 | Some b \<Rightarrow>
                     (case EraseKey key_of b key of (b', r') \<Rightarrow>
                        (rh2\<lparr>backup_ht := Some b'\<rparr>, if r' = ERASED then ERASED else NOT_ERASED)))"

definition Rehashable_Count :: "'e rehashable \<Rightarrow> nat" where
  "Rehashable_Count rh =
     (case backup_ht rh of
        None \<Rightarrow> ht_count (cur_ht rh)
      | Some b \<Rightarrow> ht_count (cur_ht rh) + ht_count b)"

definition Rehashable_AllKeys :: "('e \<Rightarrow> string) \<Rightarrow> 'e rehashable \<Rightarrow> string list" where
  "Rehashable_AllKeys key_of rh =
     (if Rehashable_Count rh = 0 then []
      else AllKeys key_of (cur_ht rh) @
           (case backup_ht rh of None \<Rightarrow> [] | Some b \<Rightarrow> AllKeys key_of b))"

definition Rehashable_CheckExists :: "('e \<Rightarrow> string) \<Rightarrow> 'e rehashable \<Rightarrow> string \<Rightarrow> bool" where
  "Rehashable_CheckExists key_of rh key \<longleftrightarrow>
     CheckExists key_of (cur_ht rh) key \<or>
     (case backup_ht rh of None \<Rightarrow> False | Some b \<Rightarrow> CheckExists key_of b key)"

definition Rehashable_AllEntries :: "'e rehashable \<Rightarrow> 'e list" where
  "Rehashable_AllEntries rh =
     (if Rehashable_Count rh = 0 then []
      else AllEntries (cur_ht rh) @
           (case backup_ht rh of None \<Rightarrow> [] | Some b \<Rightarrow> AllEntries b))"

section \<open>Invariants\<close>

text \<open>
  \<open>ht_inv\<close>: every entry is in the slot of its key, no key occurs twice, \<open>count_\<close> is the
  number of entries. \<open>rh_inv\<close>: between operations either there is no backup and no
  rehashing, or the slots of \<open>cur_ht_\<close> below \<open>rehashing_idx_\<close> are empty and the two
  tables share no key.
\<close>

definition ht_entries :: "'e htable \<Rightarrow> 'e list" where
  "ht_entries ht = concat (ht_table ht)"

definition ht_inv :: "('e \<Rightarrow> string) \<Rightarrow> 'e htable \<Rightarrow> bool" where
  "ht_inv key_of ht \<longleftrightarrow>
     0 < slot_size ht \<and> length (ht_table ht) = slot_size ht \<and>
     ht_count ht = length (ht_entries ht) \<and> distinct (map key_of (ht_entries ht)) \<and>
     (\<forall>i < slot_size ht. \<forall>e \<in> set (ht_table ht ! i). CalculateSlotIndex ht (key_of e) = i)"

definition moved_below :: "'e htable \<Rightarrow> bool" where
  "moved_below ht \<longleftrightarrow>
     0 \<le> rehashing_idx ht \<and> rehashing_idx ht < int (slot_size ht) \<and>
     (\<forall>i < nat (rehashing_idx ht). ht_table ht ! i = [])"

definition disjoint_keys :: "('e \<Rightarrow> string) \<Rightarrow> 'e htable \<Rightarrow> 'e htable \<Rightarrow> bool" where
  "disjoint_keys key_of a b \<longleftrightarrow> key_of ` set (ht_entries a) \<inter> key_of ` set (ht_entries b) = {}"

definition rh_inv :: "('e \<Rightarrow> string) \<Rightarrow> 'e rehashable \<Rightarrow> bool" where
  "rh_inv key_of rh \<longleftrightarrow> ht_inv key_of (cur_ht rh) \<and>
     (case backup_ht rh of
        None \<Rightarrow> rehashing_idx (cur_ht rh) = - 1
      | Some b \<Rightarrow> ht_inv key_of b \<and> rehashing_idx b = - 1 \<and> moved_below (cur_ht rh) \<and>
                  disjoint_keys key_of (cur_ht rh) b)"

definition rh_entries :: "'e rehashable \<Rightarrow> 'e list" where
  "rh_entries rh = ht_entries (cur_ht rh) @ (case backup_ht rh of None \<Rightarrow> [] | Some b \<Rightarrow> ht_entries b)"


text \<open>Adding an entry at the head of the chain of its key.\<close>

definition push_entry :: "('e \<Rightarrow> string) \<Rightarrow> 'e htable \<Rightarrow> 'e \<Rightarrow> 'e htable" where
  "push_entry key_of ht e =
     (let i = CalculateSlotIndex ht (key_of e)
      in ht\<lparr>ht_table := (ht_table ht)[i := e # ht_table ht ! i], ht_count := ht_count ht + 1\<rparr>)"

section \<open>Lemmas on one table\<close>

lemma dstr_as_key:
  assumes "ds_inv a" "ds_inv b"
  shows "DynamicString_Hash a = Time33Hash (ds_str a)"
    and "DynamicString_eq a b \<longleftrightarrow> ds_str a = ds_str b"
    and "DynamicString_neq a b \<longleftrightarrow> ds_str a \<noteq> ds_str b"
  using eq_contents [OF assms] neq_not_eq
  by (auto simp: DynamicString_Hash_def DynamicString_ToStdString_def split: option.splits)

lemma concat_update_split:
  assumes "i < length t"
  obtains A B where "concat t = A @ t ! i @ B" "\<And>c. concat (t[i := c]) = A @ c @ B"
proof
  show "concat t = concat (take i t) @ t ! i @ concat (drop (Suc i) t)"
    using id_take_nth_drop [OF assms] by (metis concat.simps(2) concat_append)
  show "\<And>c. concat (t[i := c]) = concat (take i t) @ c @ concat (drop (Suc i) t)"
    by (simp add: upd_conv_take_nth_drop [OF assms])
qed

lemma slot_less [simp]: "ht_inv key_of ht \<Longrightarrow> CalculateSlotIndex ht k < slot_size ht"
  by (simp add: ht_inv_def CalculateSlotIndex_def)

lemma slot_less_length [simp]: "ht_inv key_of ht \<Longrightarrow> CalculateSlotIndex ht k < length (ht_table ht)"
  by (simp add: ht_inv_def CalculateSlotIndex_def)

lemma slot_update [simp]:
  "CalculateSlotIndex (ht\<lparr>ht_table := t\<rparr>) k = CalculateSlotIndex ht k"
  "CalculateSlotIndex (ht\<lparr>ht_count := n\<rparr>) k = CalculateSlotIndex ht k"
  "CalculateSlotIndex (ht\<lparr>rehashing_idx := r\<rparr>) k = CalculateSlotIndex ht k"
  by (simp_all add: CalculateSlotIndex_def)

lemma ht_entries_update [simp]:
  "ht_entries (ht\<lparr>ht_count := n\<rparr>) = ht_entries ht"
  "ht_entries (ht\<lparr>rehashing_idx := r\<rparr>) = ht_entries ht"
  by (simp_all add: ht_entries_def)

lemma ht_inv_rehashing_idx [simp]: "ht_inv key_of (ht\<lparr>rehashing_idx := r\<rparr>) = ht_inv key_of ht"
  by (simp add: ht_inv_def)

lemma ht_inv_new [inv_intros]: "0 < n \<Longrightarrow> ht_inv key_of (HashStructBase n)"
  by (simp add: ht_inv_def HashStructBase_def ht_entries_def)

lemma ht_entries_new [simp]: "ht_entries (HashStructBase n) = []"
  by (simp add: ht_entries_def HashStructBase_def)

lemma rehashing_idx_new [simp]: "rehashing_idx (HashStructBase n) = - 1"
  by (simp add: HashStructBase_def)

lemma count_entries: "ht_inv key_of ht \<Longrightarrow> ht_count ht = length (ht_entries ht)"
  by (simp add: ht_inv_def)

lemma table_as_map: "length t = n \<Longrightarrow> map ((!) t) [0..<n] = t"
  using map_nth [of t] by simp

lemma AllEntries_entries: "ht_inv key_of ht \<Longrightarrow> AllEntries ht = ht_entries ht"
  by (auto simp: AllEntries_def ht_inv_def ht_entries_def table_as_map)

lemma AllKeys_entries: "ht_inv key_of ht \<Longrightarrow> AllKeys key_of ht = map key_of (ht_entries ht)"
  using arg_cong [OF table_as_map [of "ht_table ht" "slot_size ht"], of "\<lambda>t. concat (map (map key_of) t)"]
  by (auto simp: AllKeys_def ht_inv_def ht_entries_def map_concat comp_def)

lemma entry_in_its_slot:
  assumes "ht_inv key_of ht" "e \<in> set (ht_entries ht)"
  shows "e \<in> set (ht_table ht ! CalculateSlotIndex ht (key_of e))"
proof -
  obtain i where "i < length (ht_table ht)" "e \<in> set (ht_table ht ! i)"
    using assms(2) by (auto simp: ht_entries_def in_set_conv_nth [of _ "ht_table ht"])
  then show ?thesis using assms(1) by (auto simp: ht_inv_def)
qed

lemma slot_in_entries:
  "ht_inv key_of ht \<Longrightarrow> e \<in> set (ht_table ht ! CalculateSlotIndex ht k) \<Longrightarrow> e \<in> set (ht_entries ht)"
  using slot_less_length [of key_of ht k] nth_mem by (fastforce simp: ht_entries_def)

lemma unique_key:
  "distinct (map f xs) \<Longrightarrow> e \<in> set xs \<Longrightarrow> e' \<in> set xs \<Longrightarrow> f e = f e' \<Longrightarrow> e = e'"
  by (auto simp: distinct_map inj_on_def)

lemma FindEntry_iff:
  assumes "ht_inv key_of ht"
  shows "FindEntry key_of ht k = Some e \<longleftrightarrow> e \<in> set (ht_entries ht) \<and> key_of e = k"
proof
  assume "FindEntry key_of ht k = Some e"
  then have "e \<in> set (ht_table ht ! CalculateSlotIndex ht k)" "key_of e = k"
    by (auto simp: FindEntry_def find_Some_iff in_set_conv_nth)
  then show "e \<in> set (ht_entries ht) \<and> key_of e = k" using slot_in_entries assms by fast
next
  assume e: "e \<in> set (ht_entries ht) \<and> key_of e = k"
  then have "e \<in> set (ht_table ht ! CalculateSlotIndex ht k)" using entry_in_its_slot assms by fast
  then obtain e' where e': "FindEntry key_of ht k = Some e'" "key_of e' = k"
    "e' \<in> set (ht_table ht ! CalculateSlotIndex ht k)"
    using e by (cases "FindEntry key_of ht k")
      (auto simp: FindEntry_def find_None_iff find_Some_iff in_set_conv_nth)
  then have "e' = e" using e unique_key [of key_of "ht_entries ht"] assms slot_in_entries [OF assms e'(3)]
    by (auto simp: ht_inv_def)
  then show "FindEntry key_of ht k = Some e" using e' by simp
qed

lemma FindEntry_None:
  assumes "ht_inv key_of ht"
  shows "FindEntry key_of ht k = None \<longleftrightarrow> k \<notin> key_of ` set (ht_entries ht)"
proof (cases "FindEntry key_of ht k")
  case None
  then have "\<not> (e \<in> set (ht_entries ht) \<and> key_of e = k)" for e
    using FindEntry_iff [OF assms, of k e] by simp
  then show ?thesis using None by auto
next
  case (Some e)
  then show ?thesis using FindEntry_iff [OF assms, of k e] by auto
qed

lemma CheckExists_iff [hash_simps]:
  "ht_inv key_of ht \<Longrightarrow> CheckExists key_of ht k \<longleftrightarrow> k \<in> key_of ` set (ht_entries ht)"
  by (simp add: CheckExists_def FindEntry_None)

text \<open>Replacing one chain by another with the same slot keeps the invariant.\<close>

lemma ht_inv_replace_chain:
  assumes "ht_inv key_of ht" "i < slot_size ht"
    and "\<And>e. e \<in> set c \<Longrightarrow> CalculateSlotIndex ht (key_of e) = i"
    and "n = length (concat ((ht_table ht)[i := c]))"
    and "distinct (map key_of (concat ((ht_table ht)[i := c])))"
  shows "ht_inv key_of (ht\<lparr>ht_table := (ht_table ht)[i := c], ht_count := n\<rparr>)"
  using assms by (auto simp: ht_inv_def ht_entries_def nth_list_update)

lemma push_entry_correct [hash_simps]:
  assumes "ht_inv key_of ht" "key_of e \<notin> key_of ` set (ht_entries ht)"
  shows "ht_inv key_of (push_entry key_of ht e)"
    and "mset (ht_entries (push_entry key_of ht e)) = add_mset e (mset (ht_entries ht))"
    and "rehashing_idx (push_entry key_of ht e) = rehashing_idx ht"
    and "slot_size (push_entry key_of ht e) = slot_size ht"
proof -
  let ?i = "CalculateSlotIndex ht (key_of e)"
  have i: "?i < length (ht_table ht)" using assms by simp
  obtain A B where AB: "concat (ht_table ht) = A @ ht_table ht ! ?i @ B"
    "\<And>c. concat ((ht_table ht)[?i := c]) = A @ c @ B"
    using concat_update_split [OF i] by blast
  show "ht_inv key_of (push_entry key_of ht e)"
    unfolding push_entry_def Let_def
  proof (rule ht_inv_replace_chain [OF assms(1)])
    show "?i < slot_size ht" using assms by simp
    show "CalculateSlotIndex ht (key_of x) = ?i" if "x \<in> set (e # ht_table ht ! ?i)" for x
      using that assms(1) i by (auto simp: ht_inv_def)
    show "ht_count ht + 1 = length (concat ((ht_table ht)[?i := e # ht_table ht ! ?i]))"
      using assms(1) AB by (auto simp: ht_inv_def ht_entries_def)
    show "distinct (map key_of (concat ((ht_table ht)[?i := e # ht_table ht ! ?i])))"
      using assms AB by (auto simp: ht_inv_def ht_entries_def)
  qed
  show "mset (ht_entries (push_entry key_of ht e)) = add_mset e (mset (ht_entries ht))"
    by (simp add: push_entry_def Let_def ht_entries_def AB)
qed (simp_all add: push_entry_def Let_def)

lemma filter_mset_absent_key: "k \<notin> f ` set xs \<Longrightarrow> filter_mset (\<lambda>e. f e \<noteq> k) (mset xs) = mset xs"
  by (induction xs) auto

lemma unlink_entry_None: "unlink_entry f k c = None \<longleftrightarrow> k \<notin> f ` set c"
  by (induction c) auto

lemma unlink_entry_Some:
  "unlink_entry f k c = Some c' \<Longrightarrow> \<exists>e. f e = k \<and> mset c = add_mset e (mset c')"
  by (induction c arbitrary: c') (auto split: if_splits)

text \<open>Replacing the chain of a key by the chain without one of its entries.\<close>

lemma shorter_chain:
  assumes inv: "ht_inv key_of ht" and e: "mset (ht_table ht ! CalculateSlotIndex ht (key_of e)) = add_mset e (mset c)"
    and ht': "ht' = ht\<lparr>ht_table := (ht_table ht)[CalculateSlotIndex ht (key_of e) := c], ht_count := ht_count ht - 1\<rparr>"
  shows "ht_inv key_of ht'" "mset (ht_entries ht) = add_mset e (mset (ht_entries ht'))" "key_of e \<notin> key_of ` set (ht_entries ht')"
proof -
  let ?i = "CalculateSlotIndex ht (key_of e)"
  have i: "?i < length (ht_table ht)" "?i < slot_size ht" using inv by simp_all
  obtain A B where AB: "concat (ht_table ht) = A @ ht_table ht ! ?i @ B" "\<And>c. concat ((ht_table ht)[?i := c]) = A @ c @ B"
    using concat_update_split [OF i(1)] by blast
  show ms: "mset (ht_entries ht) = add_mset e (mset (ht_entries ht'))" using AB e by (simp add: ht_entries_def ht')
  then have "mset (map key_of (e # ht_entries ht')) = mset (map key_of (ht_entries ht))" by simp
  then have d: "distinct (map key_of (e # ht_entries ht'))" using inv unfolding ht_inv_def by (metis mset_eq_imp_distinct_iff)
  then show "key_of e \<notin> key_of ` set (ht_entries ht')" by simp
  have count: "ht_count ht - 1 = length (ht_entries ht')" using inv ms by (metis ht_inv_def size_add_mset size_mset diff_Suc_1)
  have "set (ht_table ht ! ?i) = insert e (set c)" using e by (metis set_mset_add_mset_insert set_mset_mset)
  then have "CalculateSlotIndex ht (key_of x) = ?i" if "x \<in> set c" for x using that inv i(2) unfolding ht_inv_def by blast
  then show "ht_inv key_of ht'" unfolding ht'
    by (rule ht_inv_replace_chain [OF inv i(2)]) (use count d in \<open>simp_all add: ht_entries_def ht'\<close>)
qed

lemma EraseKey_absent:
  assumes "ht_inv key_of ht" "k \<notin> key_of ` set (ht_entries ht)"
  shows "EraseKey key_of ht k = (ht, NOT_ERASED)"
proof -
  have "k \<notin> key_of ` set (ht_table ht ! CalculateSlotIndex ht k)" using assms slot_in_entries [OF assms(1)] by auto
  then show ?thesis by (simp add: EraseKey_def Let_def unlink_entry_None [THEN iffD2])
qed

lemma EraseKey_present:
  assumes "ht_inv key_of ht" "e \<in> set (ht_entries ht)"
  obtains e' c where "key_of e' = key_of e" "mset (ht_table ht ! CalculateSlotIndex ht (key_of e')) = add_mset e' (mset c)"
    "EraseKey key_of ht (key_of e) =
      (ht\<lparr>ht_table := (ht_table ht)[CalculateSlotIndex ht (key_of e') := c], ht_count := ht_count ht - 1\<rparr>, ERASED)"
proof -
  have "e \<in> set (ht_table ht ! CalculateSlotIndex ht (key_of e))" using entry_in_its_slot [OF assms] by simp
  then obtain c where c: "unlink_entry key_of (key_of e) (ht_table ht ! CalculateSlotIndex ht (key_of e)) = Some c"
    using unlink_entry_None [of key_of "key_of e"] by (cases "unlink_entry key_of (key_of e) (ht_table ht ! CalculateSlotIndex ht (key_of e))") auto
  from unlink_entry_Some [OF c] obtain e' where "key_of e' = key_of e"
    "mset (ht_table ht ! CalculateSlotIndex ht (key_of e)) = add_mset e' (mset c)" by blast
  then show ?thesis using that c by (simp add: EraseKey_def)
qed

lemma EraseKey_correct [hash_simps]:
  assumes inv: "ht_inv key_of ht" and r: "EraseKey key_of ht k = (ht', r)"
  shows "ht_inv key_of ht'" "rehashing_idx ht' = rehashing_idx ht" "slot_size ht' = slot_size ht"
    and "r = (if k \<in> key_of ` set (ht_entries ht) then ERASED else NOT_ERASED)"
    and "mset (ht_entries ht') = filter_mset (\<lambda>e. key_of e \<noteq> k) (mset (ht_entries ht))"
    and "\<And>i. ht_table ht ! i = [] \<Longrightarrow> i < slot_size ht \<Longrightarrow> ht_table ht' ! i = []"
proof -
  consider (absent) "k \<notin> key_of ` set (ht_entries ht)" | (present) e where "e \<in> set (ht_entries ht)" "k = key_of e" by blast
  then have "ht_inv key_of ht' \<and> rehashing_idx ht' = rehashing_idx ht \<and> slot_size ht' = slot_size ht \<and>
    r = (if k \<in> key_of ` set (ht_entries ht) then ERASED else NOT_ERASED) \<and>
    mset (ht_entries ht') = filter_mset (\<lambda>e. key_of e \<noteq> k) (mset (ht_entries ht)) \<and>
    (\<forall>i. ht_table ht ! i = [] \<longrightarrow> i < slot_size ht \<longrightarrow> ht_table ht' ! i = [])"
  proof cases
    case absent
    then show ?thesis using EraseKey_absent [OF inv absent] filter_mset_absent_key [OF absent] inv r by simp
  next
    case (present e)
    obtain e' c where e': "key_of e' = key_of e" "mset (ht_table ht ! CalculateSlotIndex ht (key_of e')) = add_mset e' (mset c)"
      "EraseKey key_of ht (key_of e) =
        (ht\<lparr>ht_table := (ht_table ht)[CalculateSlotIndex ht (key_of e') := c], ht_count := ht_count ht - 1\<rparr>, ERASED)"
      using EraseKey_present [OF inv present(1)] by metis
    have ht': "ht' = ht\<lparr>ht_table := (ht_table ht)[CalculateSlotIndex ht (key_of e') := c], ht_count := ht_count ht - 1\<rparr>" "r = ERASED"
      using r e'(3) present(2) by simp_all
    note ch = shorter_chain [OF inv e'(2) ht'(1)]
    have "mset (ht_entries ht') = filter_mset (\<lambda>e. key_of e \<noteq> k) (mset (ht_entries ht))"
      using ch(2) filter_mset_absent_key [OF ch(3)] e'(1) present(2) by simp
    moreover have "ht_table ht ! CalculateSlotIndex ht (key_of e') \<noteq> []" using e'(2) by auto
    then have "\<forall>i. ht_table ht ! i = [] \<longrightarrow> i < slot_size ht \<longrightarrow> ht_table ht' ! i = []"
      unfolding ht'(1) by (simp, metis nth_list_update_neq)
    ultimately show ?thesis using ht' ch(1) present by simp
  qed
  then show "ht_inv key_of ht'" "rehashing_idx ht' = rehashing_idx ht" "slot_size ht' = slot_size ht"
    "r = (if k \<in> key_of ` set (ht_entries ht) then ERASED else NOT_ERASED)"
    "mset (ht_entries ht') = filter_mset (\<lambda>e. key_of e \<noteq> k) (mset (ht_entries ht))"
    "\<And>i. ht_table ht ! i = [] \<Longrightarrow> i < slot_size ht \<Longrightarrow> ht_table ht' ! i = []"
    by blast+
qed

section \<open>Rehashing\<close>

lemma occupied_from_none: "occupied_from t i n = - 1 \<longleftrightarrow> (\<forall>j. i \<le> j \<and> j < n \<longrightarrow> t ! j = [])"
proof (induction t i n rule: occupied_from.induct)
  case (1 t i n)
  show ?case
  proof (cases "i < n \<and> t ! i = []")
    case True
    have "(i \<le> j \<and> j < n \<longrightarrow> t ! j = []) \<longleftrightarrow> (i + 1 \<le> j \<and> j < n \<longrightarrow> t ! j = [])" for j
      using True by (cases "j = i") auto
    then show ?thesis using 1 True by (simp add: occupied_from.simps [of t i])
  qed (auto simp: occupied_from.simps [of t i])
qed

lemma occupied_from_some:
  "occupied_from t i n \<noteq> - 1 \<Longrightarrow>
   \<exists>m. occupied_from t i n = int m \<and> i \<le> m \<and> m < n \<and> (\<forall>j. i \<le> j \<and> j < m \<longrightarrow> t ! j = [])"
proof (induction t i n rule: occupied_from.induct)
  case (1 t i n)
  show ?case
  proof (cases "i < n \<and> t ! i = []")
    case True
    then obtain m where "occupied_from t (i + 1) n = int m" "i + 1 \<le> m" "m < n"
      "\<forall>j. i + 1 \<le> j \<and> j < m \<longrightarrow> t ! j = []"
      using 1 by (auto simp: occupied_from.simps [of t i])
    moreover have "t ! j = []" if "i \<le> j" "j < m" for j
      using that True calculation(4) by (cases "j = i") auto
    ultimately show ?thesis using True by (intro exI [of _ m]) (simp add: occupied_from.simps [of t i])
  next
    case False
    then show ?thesis using 1 by (auto simp: occupied_from.simps [of t i] split: if_splits)
  qed
qed

lemma step_correct:
  assumes inv: "ht_inv key_of ht" and idx: "rehashing_idx ht = int i" and e: "\<forall>j \<le> i. ht_table ht ! j = []"
  shows "if rehashing_idx (StepRehashingIdx ht) = - 1 then ht_entries ht = []
         else moved_below (StepRehashingIdx ht) \<and> int i < rehashing_idx (StepRehashingIdx ht)"
proof (cases "occupied_from (ht_table ht) (Suc i) (slot_size ht) = - 1")
  case True
  have "ht_table ht ! j = []" if "j < slot_size ht" for j
    using that e True by (cases "j \<le> i") (auto simp: occupied_from_none)
  then have "ht_entries ht = []" using inv by (auto simp: ht_inv_def ht_entries_def all_set_conv_all_nth)
  then show ?thesis using True idx by (simp add: StepRehashingIdx_def nat_add_distrib)
next
  case False
  then obtain m where m: "occupied_from (ht_table ht) (Suc i) (slot_size ht) = int m" "Suc i \<le> m"
    "m < slot_size ht" "\<forall>j. Suc i \<le> j \<and> j < m \<longrightarrow> ht_table ht ! j = []"
    using occupied_from_some [OF False] by auto
  have "ht_table ht ! j = []" if "j < m" for j using that e m by (cases "j \<le> i") auto
  then show ?thesis using m idx by (simp add: StepRehashingIdx_def nat_add_distrib moved_below_def)
qed

lemma EnsureAllSlotsEmpty_iff: "ht_inv key_of ht \<Longrightarrow> EnsureAllSlotsEmpty ht \<longleftrightarrow> ht_entries ht = []"
  by (auto simp: EnsureAllSlotsEmpty_def ht_inv_def ht_entries_def all_set_conv_all_nth)

text \<open>The state \<open>PerformRehash\<close> is called in.\<close>

definition rehash_ready :: "('e \<Rightarrow> string) \<Rightarrow> 'e rehashable \<Rightarrow> bool" where
  "rehash_ready key_of rh \<longleftrightarrow> ht_inv key_of (cur_ht rh) \<and>
     (if rehashing_idx (cur_ht rh) = - 1 then ht_entries (cur_ht rh) = [] else moved_below (cur_ht rh)) \<and>
     (case backup_ht rh of
        None \<Rightarrow> True
      | Some b \<Rightarrow> ht_inv key_of b \<and> rehashing_idx b = - 1 \<and> disjoint_keys key_of (cur_ht rh) b)"

lemma CheckNeedRehash_ready:
  assumes "rh_inv key_of rh" "CheckNeedRehash rh = (rh', need)"
  shows "if need then rehash_ready key_of rh' \<and> rh_entries rh' = rh_entries rh \<and>
             max_load_factor rh' = max_load_factor rh
         else rh' = rh"
proof (cases "need \<and> rehashing_idx (cur_ht rh) = - 1")
  case True
  let ?ht = "cur_ht rh"
  have rh': "rh' = rh\<lparr>cur_ht := StepRehashingIdx ?ht\<rparr>" "backup_ht rh = None" "ht_inv key_of ?ht"
    using True assms by (auto simp: CheckNeedRehash_def Let_def rh_inv_def moved_below_def split: option.splits)
  let ?o = "occupied_from (ht_table ?ht) 0 (slot_size ?ht)"
  have "if ?o = - 1 then ht_entries ?ht = [] else moved_below (StepRehashingIdx ?ht)"
  proof (cases "?o = - 1")
    case none: True
    then show ?thesis using rh'(3)
      by (auto simp: occupied_from_none ht_inv_def ht_entries_def all_set_conv_all_nth)
  next
    case False
    then show ?thesis using occupied_from_some [OF False] True
      by (auto simp: moved_below_def StepRehashingIdx_def)
  qed
  then show ?thesis using rh' True
    by (auto simp: rehash_ready_def StepRehashingIdx_def rh_entries_def split: if_splits)
next
  case False
  then show ?thesis using assms
    by (auto simp: CheckNeedRehash_def Let_def rehash_ready_def rh_inv_def split: option.splits if_splits)
qed

text \<open>The read-only operations, on a state between operations.\<close>

lemma Rehashable_Count_entries [hash_simps]: "rh_inv key_of rh \<Longrightarrow> Rehashable_Count rh = length (rh_entries rh)"
  by (auto simp: Rehashable_Count_def rh_inv_def rh_entries_def count_entries split: option.splits)

lemma Rehashable_AllEntries_entries [hash_simps]: "rh_inv key_of rh \<Longrightarrow> Rehashable_AllEntries rh = rh_entries rh"
  using Rehashable_Count_entries [of key_of rh]
  by (auto simp: Rehashable_AllEntries_def rh_inv_def rh_entries_def AllEntries_entries [of key_of] split: option.splits)

lemma Rehashable_AllKeys_entries [hash_simps]:
  "rh_inv key_of rh \<Longrightarrow> Rehashable_AllKeys key_of rh = map key_of (rh_entries rh)"
  using Rehashable_Count_entries [of key_of rh]
  by (auto simp: Rehashable_AllKeys_def rh_inv_def rh_entries_def AllKeys_entries split: option.splits)

lemma Rehashable_CheckExists_iff [hash_simps]:
  "rh_inv key_of rh \<Longrightarrow> Rehashable_CheckExists key_of rh k \<longleftrightarrow> k \<in> key_of ` set (rh_entries rh)"
  by (auto simp: Rehashable_CheckExists_def rh_inv_def rh_entries_def CheckExists_iff split: option.splits)

lemma rh_entries_distinct: "rh_inv key_of rh \<Longrightarrow> distinct (map key_of (rh_entries rh))"
  by (auto simp: rh_inv_def rh_entries_def ht_inv_def disjoint_keys_def split: option.splits)

lemma rh_inv_new [inv_intros]: "rh_inv key_of (Rehashable mlf)"
  by (simp add: rh_inv_def Rehashable_def ht_inv_new)

lemma rh_entries_new [simp]: "rh_entries (Rehashable mlf) = []"
  by (simp add: rh_entries_def Rehashable_def)

text \<open>What one step of rehashing promises; the two cases of the step are proved one by one.\<close>

definition rehashed :: "('e \<Rightarrow> string) \<Rightarrow> 'e rehashable \<Rightarrow> 'e rehashable \<Rightarrow> bool \<Rightarrow> bool" where
  "rehashed key_of rh rh' finished \<longleftrightarrow> rh_inv key_of rh' \<and> mset (rh_entries rh') = mset (rh_entries rh) \<and>
     max_load_factor rh' = max_load_factor rh \<and> (finished \<longleftrightarrow> backup_ht rh' = None) \<and>
     (backup_ht rh' \<noteq> None \<longrightarrow> slot_size (cur_ht rh') = slot_size (cur_ht rh) \<and> rehashing_idx (cur_ht rh) < rehashing_idx (cur_ht rh'))"

definition rehash_target :: "'e rehashable \<Rightarrow> 'e htable" where
  "rehash_target rh = (case backup_ht rh of None \<Rightarrow> HashStructBase (slot_size (cur_ht rh) * kGrowFactor) | Some b \<Rightarrow> b)"

locale rehash_impl =
  fixes key_of :: "'e \<Rightarrow> string"
    and AddEntry :: "'e htable \<Rightarrow> 'e \<Rightarrow> 'e htable \<times> int"
  assumes AddEntry_fresh:
    "ht_inv key_of ht \<Longrightarrow> key_of e \<notin> key_of ` set (ht_entries ht) \<Longrightarrow>
     AddEntry ht e = (push_entry key_of ht e, NEW_ADDED)"
begin

lemma move_chain:
  assumes "ht_inv key_of b" "distinct (map key_of c)"
    "key_of ` set c \<inter> key_of ` set (ht_entries b) = {}"
  shows "\<exists>b'. fold (move_entry AddEntry) c (cur, b) = (cur\<lparr>ht_count := ht_count cur - length c\<rparr>, b') \<and>
    ht_inv key_of b' \<and> mset (ht_entries b') = mset c + mset (ht_entries b) \<and>
    rehashing_idx b' = rehashing_idx b \<and> slot_size b' = slot_size b"
  using assms
proof (induction c arbitrary: cur b)
  case (Cons e c)
  let ?b = "push_entry key_of b e" and ?cur = "cur\<lparr>ht_count := ht_count cur - 1\<rparr>"
  have fresh: "key_of e \<notin> key_of ` set (ht_entries b)" using Cons.prems by auto
  note push = push_entry_correct [OF Cons.prems(1) fresh]
  have "set (ht_entries ?b) = insert e (set (ht_entries b))"
    using push(2) by (metis set_mset_add_mset_insert set_mset_mset)
  then have "key_of ` set c \<inter> key_of ` set (ht_entries ?b) = {}" using Cons.prems by auto
  then obtain b' where "fold (move_entry AddEntry) c (?cur, ?b) =
      (?cur\<lparr>ht_count := ht_count ?cur - length c\<rparr>, b')" "ht_inv key_of b'"
      "mset (ht_entries b') = mset c + mset (ht_entries ?b)" "rehashing_idx b' = rehashing_idx ?b"
      "slot_size b' = slot_size ?b"
    using Cons.IH [OF push(1), of ?cur] Cons.prems by auto
  moreover have "move_entry AddEntry e (cur, b) = (?cur, ?b)"
    by (simp add: move_entry_def AddEntry_fresh [OF Cons.prems(1) fresh])
  ultimately show ?case using push by (intro exI [of _ b']) simp
qed simp

text \<open>Moving the chain at the rehashing index and stepping the index.\<close>

lemma move_slot:
  assumes cur: "ht_inv key_of cur" "moved_below cur"
    and b: "ht_inv key_of b" "disjoint_keys key_of cur b"
    and i: "i = nat (rehashing_idx cur)"
    and f: "fold (move_entry AddEntry) (ht_table cur ! i) (cur\<lparr>ht_table := (ht_table cur)[i := []]\<rparr>, b) = (cur', b')"
  shows "ht_inv key_of cur'" "ht_inv key_of b'" "disjoint_keys key_of cur' b'"
    and "mset (ht_entries cur') + mset (ht_entries b') = mset (ht_entries cur) + mset (ht_entries b)"
    and "rehashing_idx b' = rehashing_idx b" "slot_size b' = slot_size b"
    and "slot_size cur' = slot_size cur" "rehashing_idx cur' = rehashing_idx cur"
    and "\<forall>j \<le> i. ht_table cur' ! j = []"
proof -
  let ?c = "ht_table cur ! i"
  have il: "i < length (ht_table cur)" "i < slot_size cur" using cur i by (auto simp: moved_below_def ht_inv_def)
  obtain A B where AB: "concat (ht_table cur) = A @ ?c @ B" "\<And>c. concat ((ht_table cur)[i := c]) = A @ c @ B"
    using concat_update_split [OF il(1)] by blast
  have dA: "distinct (map key_of (A @ ?c @ B))" using cur AB by (simp add: ht_inv_def ht_entries_def)
  have dB: "key_of ` set (A @ ?c @ B) \<inter> key_of ` set (ht_entries b) = {}"
    using b(2) AB by (simp add: disjoint_keys_def ht_entries_def)
  obtain b'' where mv: "fold (move_entry AddEntry) ?c (cur\<lparr>ht_table := (ht_table cur)[i := []]\<rparr>, b) =
      (cur\<lparr>ht_table := (ht_table cur)[i := []], ht_count := ht_count cur - length ?c\<rparr>, b'')"
    "ht_inv key_of b''" "mset (ht_entries b'') = mset ?c + mset (ht_entries b)"
    "rehashing_idx b'' = rehashing_idx b" "slot_size b'' = slot_size b"
    using move_chain [OF b(1), of ?c "cur\<lparr>ht_table := (ht_table cur)[i := []]\<rparr>"] dA dB by auto
  then have r: "cur' = cur\<lparr>ht_table := (ht_table cur)[i := []], ht_count := ht_count cur - length ?c\<rparr>"
    "b' = b''" using f by auto
  show "ht_inv key_of cur'" unfolding r
    by (rule ht_inv_replace_chain [OF cur(1) il(2)])
      (use dA AB count_entries [OF cur(1)] in \<open>auto simp: ht_entries_def\<close>)
  have s: "set (ht_entries b') = set ?c \<union> set (ht_entries b)"
    using mv(3) r by (metis set_mset_mset set_mset_union)
  have e: "ht_entries cur' = A @ B" using r AB by (simp add: ht_entries_def)
  show "disjoint_keys key_of cur' b'" using dA dB s e by (auto simp: disjoint_keys_def)
  show "mset (ht_entries cur') + mset (ht_entries b') = mset (ht_entries cur) + mset (ht_entries b)"
    using mv(3) r e AB by (simp add: ht_entries_def)
  show "\<forall>j \<le> i. ht_table cur' ! j = []"
    using cur(2) il r i by (auto simp: moved_below_def nth_list_update)
  show "ht_inv key_of b'" "rehashing_idx b' = rehashing_idx b" "slot_size b' = slot_size b"
    "slot_size cur' = slot_size cur" "rehashing_idx cur' = rehashing_idx cur"
    using mv r by simp_all
qed

lemma rehash_target_ready:
  assumes "rehash_ready key_of rh"
  shows "ht_inv key_of (cur_ht rh)" "ht_inv key_of (rehash_target rh)" "rehashing_idx (rehash_target rh) = - 1"
    "disjoint_keys key_of (cur_ht rh) (rehash_target rh)" "rh_entries rh = ht_entries (cur_ht rh) @ ht_entries (rehash_target rh)"
proof -
  show cur: "ht_inv key_of (cur_ht rh)" using assms by (simp add: rehash_ready_def)
  show "ht_inv key_of (rehash_target rh)" "rehashing_idx (rehash_target rh) = - 1"
    "disjoint_keys key_of (cur_ht rh) (rehash_target rh)" "rh_entries rh = ht_entries (cur_ht rh) @ ht_entries (rehash_target rh)"
    using assms cur by (auto simp: rehash_ready_def rehash_target_def ht_inv_new disjoint_keys_def rh_entries_def
        ht_inv_def [of _ "cur_ht rh"] split: option.splits)
qed

lemma PerformRehash_empty:
  assumes "rehash_ready key_of rh" "PerformRehash AddEntry rh = (rh', finished)" "rehashing_idx (cur_ht rh) = - 1"
  shows "rehashed key_of rh rh' finished"
proof -
  note t = rehash_target_ready [OF assms(1)]
  have "ht_entries (cur_ht rh) = []" using assms(1,3) by (simp add: rehash_ready_def)
  then show ?thesis using assms(2,3) t EnsureAllSlotsEmpty_iff [OF t(1)]
    by (auto simp: PerformRehash_def RehashDone_def rehash_target_def [symmetric] rehashed_def rh_inv_def rh_entries_def)
qed

lemma PerformRehash_moves:
  assumes ready: "rehash_ready key_of rh" and p: "PerformRehash AddEntry rh = (rh', finished)" and idx0: "rehashing_idx (cur_ht rh) \<noteq> - 1"
  shows "rehashed key_of rh rh' finished"
proof -
  let ?cur = "cur_ht rh" and ?b = "rehash_target rh"
  note t = rehash_target_ready [OF ready]
  define i where "i = nat (rehashing_idx ?cur)"
  have mb: "moved_below ?cur" using ready idx0 by (simp add: rehash_ready_def)
  obtain cur' b' where f: "fold (move_entry AddEntry) (ht_table ?cur ! i) (?cur\<lparr>ht_table := (ht_table ?cur)[i := []]\<rparr>, ?b) = (cur', b')"
    by fastforce
  note mv = move_slot [OF t(1) mb t(2,4) i_def f]
  let ?s = "StepRehashingIdx cur'"
  have idx: "rehashing_idx cur' = int i" using mv(8) mb by (simp add: i_def moved_below_def)
  note step = step_correct [OF mv(1) idx mv(9)]
  have p': "(rh', finished) = (if rehashing_idx ?s = - 1 \<and> EnsureAllSlotsEmpty ?s
      then (rh\<lparr>cur_ht := b', backup_ht := None\<rparr>, True) else (rh\<lparr>cur_ht := ?s, backup_ht := Some b'\<rparr>, False))"
    using p idx0 f unfolding PerformRehash_def RehashDone_def rehash_target_def [symmetric] Let_def by (simp add: i_def)
  have s: "ht_inv key_of ?s" "disjoint_keys key_of ?s b'" "ht_entries ?s = ht_entries cur'"
    using mv by (simp_all add: StepRehashingIdx_def disjoint_keys_def)
  show ?thesis
  proof (cases "rehashing_idx ?s = - 1")
    case True
    then show ?thesis using p' step s mv t EnsureAllSlotsEmpty_iff [OF s(1)] by (auto simp: rehashed_def rh_inv_def rh_entries_def)
  next
    case False
    then show ?thesis using p' step s mv t idx by (auto simp: rehashed_def rh_inv_def rh_entries_def StepRehashingIdx_def)
  qed
qed

lemma PerformRehash_correct:
  assumes ready: "rehash_ready key_of rh" and p: "PerformRehash AddEntry rh = (rh', finished)"
  shows "rh_inv key_of rh'" "mset (rh_entries rh') = mset (rh_entries rh)"
    and "max_load_factor rh' = max_load_factor rh"
    and "finished \<longleftrightarrow> backup_ht rh' = None"
    and "backup_ht rh' \<noteq> None \<Longrightarrow> slot_size (cur_ht rh') = slot_size (cur_ht rh) \<and>
           rehashing_idx (cur_ht rh) < rehashing_idx (cur_ht rh')"
  using PerformRehash_empty [OF assms] PerformRehash_moves [OF assms]
  by (cases "rehashing_idx (cur_ht rh) = - 1"; simp add: rehashed_def)+

lemma RehashIfNeeded_correct [inv_intros]:
  assumes "rh_inv key_of rh"
  shows "rh_inv key_of (RehashIfNeeded AddEntry rh)"
    and "mset (rh_entries (RehashIfNeeded AddEntry rh)) = mset (rh_entries rh)"
    and "max_load_factor (RehashIfNeeded AddEntry rh) = max_load_factor rh"
proof -
  obtain rh' need where c: "CheckNeedRehash rh = (rh', need)" by fastforce
  note ready = CheckNeedRehash_ready [OF assms c]
  obtain rh'' fin where p: "PerformRehash AddEntry rh' = (rh'', fin)" by fastforce
  have r: "RehashIfNeeded AddEntry rh = (if need then rh'' else rh')"
    using c p by (simp add: RehashIfNeeded_def)
  show "rh_inv key_of (RehashIfNeeded AddEntry rh)"
    "mset (rh_entries (RehashIfNeeded AddEntry rh)) = mset (rh_entries rh)"
    "max_load_factor (RehashIfNeeded AddEntry rh) = max_load_factor rh"
    using PerformRehash_correct [OF _ p] ready r assms by (cases need; simp)+
qed

text \<open>A rehashing in progress moves at least one slot per call and so finishes.\<close>

lemma RehashMoveSlots_correct:
  assumes "rh_inv key_of rh" "backup_ht rh \<noteq> None"
  shows "rh_inv key_of (RehashMoveSlots AddEntry rh n) \<and>
    mset (rh_entries (RehashMoveSlots AddEntry rh n)) = mset (rh_entries rh) \<and>
    (int (slot_size (cur_ht rh)) - rehashing_idx (cur_ht rh) \<le> n \<longrightarrow>
      backup_ht (RehashMoveSlots AddEntry rh n) = None)"
  using assms
proof (induction "nat n" arbitrary: rh n rule: less_induct)
  case less
  obtain rh' fin where p: "PerformRehash AddEntry rh = (rh', fin)" by fastforce
  have ready: "rehash_ready key_of rh" using less.prems
    by (auto simp: rh_inv_def rehash_ready_def moved_below_def)
  note pr = PerformRehash_correct [OF ready p]
  show ?case
  proof (cases fin)
    case True
    then show ?thesis using pr p by (simp add: RehashMoveSlots.simps [of _ rh])
  next
    case False
    then have b: "backup_ht rh' \<noteq> None" using pr(4) by simp
    have "rehashing_idx (cur_ht rh') < int (slot_size (cur_ht rh'))"
      using pr(1) b by (auto simp: rh_inv_def moved_below_def)
    then show ?thesis using pr p False b less.hyps [of "n - 1" rh']
      by (auto simp: RehashMoveSlots.simps [of _ rh])
  qed
qed

text \<open>Erasing behind the rehashing step, in one table and in two.\<close>

lemma erased_entries:
  assumes "ht_inv key_of ht" "EraseKey key_of ht k = (ht', r)"
  shows "set (ht_entries ht') = {e \<in> set (ht_entries ht). key_of e \<noteq> k}"
  using EraseKey_correct(5) [OF assms] by (metis set_mset_filter set_mset_mset)

lemma erase_two_tables:
  assumes inv: "rh_inv key_of rh" and b: "backup_ht rh = Some b"
    and c': "EraseKey key_of (cur_ht rh) k = (c', r1)" and b': "EraseKey key_of b k = (b', r2)"
    and rh': "rh' = (if r1 = ERASED then rh\<lparr>cur_ht := c'\<rparr> else rh\<lparr>cur_ht := c', backup_ht := Some b'\<rparr>)"
  shows "rh_inv key_of rh' \<and> mset (rh_entries rh') = filter_mset (\<lambda>e. key_of e \<noteq> k) (mset (rh_entries rh))"
proof -
  have i: "ht_inv key_of (cur_ht rh)" "ht_inv key_of b" "disjoint_keys key_of (cur_ht rh) b" "moved_below (cur_ht rh)" "rehashing_idx b = - 1"
    using inv b by (simp_all add: rh_inv_def)
  note ec = EraseKey_correct [OF i(1) c'] and eb = EraseKey_correct [OF i(2) b']
  have disj: "disjoint_keys key_of c' b" "disjoint_keys key_of c' b'"
    using i(3) erased_entries [OF i(1) c'] erased_entries [OF i(2) b'] by (auto simp: disjoint_keys_def)
  have mb: "moved_below c'" using i(4) ec by (auto simp: moved_below_def)
  show ?thesis
  proof (cases "r1 = ERASED")
    case True
    have "k \<notin> key_of ` set (ht_entries b)" using True ec(4) i(3) by (auto simp: disjoint_keys_def split: if_splits)
    from filter_mset_absent_key [OF this] show ?thesis using True rh' ec(1,5) i b mb disj by (simp add: rh_inv_def rh_entries_def)
  next
    case False
    then show ?thesis using rh' ec(1,5) eb(1,2,5) i b mb disj by (simp add: rh_inv_def rh_entries_def)
  qed
qed

lemma Rehashable_Erase_correct [hash_simps]:
  assumes inv: "rh_inv key_of rh" and r: "Rehashable_Erase AddEntry key_of rh k = (rh', r)"
  shows "rh_inv key_of rh'"
    and "mset (rh_entries rh') = filter_mset (\<lambda>e. key_of e \<noteq> k) (mset (rh_entries rh))"
    and "r = (if k \<in> key_of ` set (rh_entries rh) then ERASED else NOT_ERASED)"
proof -
  define rh1 where "rh1 = RehashIfNeeded AddEntry rh"
  have 1: "rh_inv key_of rh1" "mset (rh_entries rh1) = mset (rh_entries rh)"
    using RehashIfNeeded_correct [OF inv] by (simp_all add: rh1_def)
  have s: "set (rh_entries rh1) = set (rh_entries rh)" using 1(2) by (metis set_mset_mset)
  obtain c' r1 where c: "EraseKey key_of (cur_ht rh1) k = (c', r1)" by fastforce
  have cinv: "ht_inv key_of (cur_ht rh1)" using 1 by (simp add: rh_inv_def)
  note ec = EraseKey_correct [OF cinv c]
  have "rh_inv key_of rh' \<and> mset (rh_entries rh') = filter_mset (\<lambda>e. key_of e \<noteq> k) (mset (rh_entries rh1)) \<and>
    r = (if k \<in> key_of ` set (rh_entries rh1) then ERASED else NOT_ERASED)"
  proof (cases "backup_ht rh1")
    case None
    then show ?thesis using r c ec 1(1) unfolding Rehashable_Erase_def rh1_def [symmetric]
      by (auto simp: rh_inv_def rh_entries_def split: if_splits)
  next
    case (Some b)
    obtain b' r2 where b: "EraseKey key_of b k = (b', r2)" by fastforce
    have binv: "ht_inv key_of b" using 1 Some by (simp add: rh_inv_def)
    have rh': "rh' = (if r1 = ERASED then rh1\<lparr>cur_ht := c'\<rparr> else rh1\<lparr>cur_ht := c', backup_ht := Some b'\<rparr>)"
      "r = (if r1 = ERASED then ERASED else r2)"
      using r c b Some EraseKey_correct(4) [OF binv b] by (auto simp: Rehashable_Erase_def rh1_def [symmetric] split: if_splits)
    then have "r = (if k \<in> key_of ` set (rh_entries rh1) then ERASED else NOT_ERASED)"
      using ec(4) EraseKey_correct(4) [OF binv b] Some by (auto simp: rh_entries_def split: if_splits)
    then show ?thesis using erase_two_tables [OF 1(1) Some c b rh'(1)] by blast
  qed
  then show "rh_inv key_of rh'" "mset (rh_entries rh') = filter_mset (\<lambda>e. key_of e \<noteq> k) (mset (rh_entries rh))"
    "r = (if k \<in> key_of ` set (rh_entries rh) then ERASED else NOT_ERASED)"
    using 1(2) s by simp_all
qed

end

end
