(* ===== verification/HashDict.thy ===== *)
theory HashDict
  imports HashStruct
begin

text \<open>
  \<open>src/src/hashdict.h\<close> and \<open>src/src/hashdict.cpp\<close>: the hash value, a
  \<open>Rehashable<HashTable>\<close>. An \<open>HTEntry\<close> is the pair of the contents of its key and
  value. The abstraction of a dictionary is the finite map \<open>dict_map\<close>;
  \<open>hd_op\<close>, \<open>hd_step\<close> and \<open>hd_spec\<close> are the histories of calls, the effect of a call
  on the object and what it is meant to do to the map.
\<close>

section \<open>HashTable\<close>

record htentry =
  hkey :: string
  hvalue :: string

type_synonym hashtable = "htentry htable"

text \<open>\<open>entry->value->Reset(val)\<close> on the entry \<open>FindEntry\<close> returns.\<close>

fun reset_value :: "string \<Rightarrow> string \<Rightarrow> htentry list \<Rightarrow> htentry list" where
  "reset_value key val [] = []"
| "reset_value key val (e # es) =
     (if hkey e = key then e\<lparr>hvalue := val\<rparr> # es else e # reset_value key val es)"

definition reset_found :: "hashtable \<Rightarrow> string \<Rightarrow> string \<Rightarrow> hashtable" where
  "reset_found ht key val =
     (let i = CalculateSlotIndex ht key
      in ht\<lparr>ht_table := (ht_table ht)[i := reset_value key val (ht_table ht ! i)]\<rparr>)"

definition HashTable_UpdateKV :: "hashtable \<Rightarrow> string \<Rightarrow> string \<Rightarrow> hashtable \<times> int" where
  "HashTable_UpdateKV ht key val =
     (let slot_idx = CalculateSlotIndex ht key; head = ht_table ht ! slot_idx
      in if head = []
         then (ht\<lparr>ht_table := (ht_table ht)[slot_idx := [\<lparr>hkey = key, hvalue = val\<rparr>]],
                  ht_count := ht_count ht + 1\<rparr>, NEW_ADDED)
         else case FindEntry hkey ht key of
                None \<Rightarrow> (ht\<lparr>ht_table := (ht_table ht)[slot_idx := \<lparr>hkey = key, hvalue = val\<rparr> # head],
                            ht_count := ht_count ht + 1\<rparr>, NEW_ADDED)
              | Some entry \<Rightarrow> (reset_found ht key val, UPDATED))"

definition HashTable_AddEntry :: "hashtable \<Rightarrow> htentry \<Rightarrow> hashtable \<times> int" where
  "HashTable_AddEntry ht new_entry =
     (let slot_idx = CalculateSlotIndex ht (hkey new_entry); head = ht_table ht ! slot_idx
      in if head = []
         then (ht\<lparr>ht_table := (ht_table ht)[slot_idx := [new_entry]], ht_count := ht_count ht + 1\<rparr>, NEW_ADDED)
         else case FindEntry hkey ht (hkey new_entry) of
                None \<Rightarrow> (ht\<lparr>ht_table := (ht_table ht)[slot_idx := new_entry # head],
                            ht_count := ht_count ht + 1\<rparr>, NEW_ADDED)
              | Some entry \<Rightarrow> (reset_found ht (hkey new_entry) (hvalue new_entry), UPDATED))"

definition HashTable_AllValues :: "hashtable \<Rightarrow> string list" where
  "HashTable_AllValues ht =
     (if ht_count ht = 0 then [] else concat (map (\<lambda>i. map hvalue (ht_table ht ! i)) [0..<slot_size ht]))"

text \<open>\<open>At\<close> throws \<open>std::out_of_range\<close> when the key is absent.\<close>

definition HashTable_At :: "hashtable \<Rightarrow> string \<Rightarrow> std_exception + string" where
  "HashTable_At ht key =
     (case FindEntry hkey ht key of None \<Rightarrow> Inl out_of_range | Some entry \<Rightarrow> Inr (hvalue entry))"

section \<open>HashDict\<close>

type_synonym hashdict = "htentry rehashable"

definition HashDict_new :: "real \<Rightarrow> hashdict" where
  "HashDict_new mlf = Rehashable mlf"

definition HashDict_Update :: "hashdict \<Rightarrow> string \<Rightarrow> string \<Rightarrow> hashdict \<times> int" where
  "HashDict_Update d key val =
     (let d1 = RehashIfNeeded HashTable_AddEntry d
      in if RehashDone (cur_ht d1)
         then case HashTable_UpdateKV (cur_ht d1) key val of (ht, r) \<Rightarrow> (d1\<lparr>cur_ht := ht\<rparr>, r)
         else case FindEntry hkey (cur_ht d1) key of
                Some entry \<Rightarrow> (d1\<lparr>cur_ht := reset_found (cur_ht d1) key val\<rparr>, UPDATED)
              | None \<Rightarrow>
                  (case backup_ht d1 of
                     Some b \<Rightarrow> (case HashTable_UpdateKV b key val of (b', r) \<Rightarrow> (d1\<lparr>backup_ht := Some b'\<rparr>, r))
                   | None \<Rightarrow> (d1, UNDEFINED)))"

definition HashDict_AllValues :: "hashdict \<Rightarrow> string list" where
  "HashDict_AllValues d =
     (if Rehashable_Count d = 0 then []
      else HashTable_AllValues (cur_ht d) @
           (case backup_ht d of None \<Rightarrow> [] | Some b \<Rightarrow> HashTable_AllValues b))"

definition HashDict_At :: "hashdict \<Rightarrow> string \<Rightarrow> hashdict \<times> (std_exception + string)" where
  "HashDict_At d key =
     (let d1 = RehashIfNeeded HashTable_AddEntry d
      in (d1, case HashTable_At (cur_ht d1) key of
                Inr v \<Rightarrow> Inr v
              | Inl ex \<Rightarrow>
                  (case backup_ht d1 of
                     Some b \<Rightarrow> HashTable_At b key
                   | None \<Rightarrow> Inl out_of_range)))"

definition HashDict_Erase :: "hashdict \<Rightarrow> string \<Rightarrow> hashdict \<times> int" where
  "HashDict_Erase d key = Rehashable_Erase HashTable_AddEntry hkey d key"

text \<open>Appending one serialized string to the output vector.\<close>

definition put_str :: "string \<Rightarrow> bytes \<Rightarrow> bytes" where
  "put_str s buf = fst (SerializeCharBuf s (length s) buf)"

text \<open>Appending a length in variable-length encoding to the output vector.\<close>

definition put_count :: "nat \<Rightarrow> bytes \<Rightarrow> bytes" where
  "put_count n buf =
     (case EncodeVarUnsignedInt64 (of_nat n) (Some (replicate 10 CHR 0x00)) of (enc, cnt) \<Rightarrow>
        buf @ take (unat cnt) (the enc))"

definition HashDict_Serialize :: "hashdict \<Rightarrow> bytes \<Rightarrow> bytes \<times> nat" where
  "HashDict_Serialize d buf =
     (let len = Rehashable_Count d
      in if len = 0 then (buf, 0)
         else let out = fold (\<lambda>e out. put_str (hvalue e) (put_str (hkey e) out))
                          (Rehashable_AllEntries d) (put_count len buf)
              in (out, length out))"

section \<open>Specification\<close>

definition kv_of :: "htentry \<Rightarrow> string \<times> string" where
  "kv_of e = (hkey e, hvalue e)"

definition dict_map :: "hashdict \<Rightarrow> (string \<rightharpoonup> string)" where
  "dict_map d = map_of (map kv_of (rh_entries d))"

datatype hd_op = HdUpdate string string | HdErase string | HdAt string

datatype hd_result = Code int | Value "std_exception + string"

fun hd_step :: "hashdict \<Rightarrow> hd_op \<Rightarrow> hashdict \<times> hd_result" where
  "hd_step d (HdUpdate k v) = (case HashDict_Update d k v of (d', r) \<Rightarrow> (d', Code r))"
| "hd_step d (HdErase k) = (case HashDict_Erase d k of (d', r) \<Rightarrow> (d', Code r))"
| "hd_step d (HdAt k) = (case HashDict_At d k of (d', r) \<Rightarrow> (d', Value r))"

fun hd_spec :: "(string \<rightharpoonup> string) \<Rightarrow> hd_op \<Rightarrow> (string \<rightharpoonup> string) \<times> hd_result" where
  "hd_spec m (HdUpdate k v) = (m(k \<mapsto> v), Code (if m k = None then NEW_ADDED else UPDATED))"
| "hd_spec m (HdErase k) = (m(k := None), Code (if m k = None then NOT_ERASED else ERASED))"
| "hd_spec m (HdAt k) = (m, Value (case m k of None \<Rightarrow> Inl out_of_range | Some v \<Rightarrow> Inr v))"

section \<open>Lemmas\<close>

lemma HashTable_AddEntry_fresh:
  "ht_inv hkey ht \<Longrightarrow> hkey e \<notin> hkey ` set (ht_entries ht) \<Longrightarrow>
   HashTable_AddEntry ht e = (push_entry hkey ht e, NEW_ADDED)"
  by (auto simp: HashTable_AddEntry_def push_entry_def Let_def FindEntry_None [THEN iffD2])

interpretation dict_impl: rehash_impl hkey HashTable_AddEntry
  by unfold_locales (rule HashTable_AddEntry_fresh)


definition upd_value :: "string \<Rightarrow> string \<Rightarrow> htentry \<Rightarrow> htentry" where
  "upd_value k v e = (if hkey e = k then e\<lparr>hvalue := v\<rparr> else e)"

lemma hkey_upd_value [simp]: "hkey (upd_value k v e) = hkey e"
  by (simp add: upd_value_def)

lemma map_upd_value_absent: "k \<notin> hkey ` set es \<Longrightarrow> map (upd_value k v) es = es"
  by (induction es) (auto simp: upd_value_def)

lemma reset_value_map: "distinct (map hkey es) \<Longrightarrow> reset_value k v es = map (upd_value k v) es"
  by (induction es) (auto simp: upd_value_def map_upd_value_absent)

lemma distinct_chain: "ht_inv key_of ht \<Longrightarrow> i < slot_size ht \<Longrightarrow> distinct (map key_of (ht_table ht ! i))"
  using concat_update_split [of i "ht_table ht"] by (metis distinct_append ht_entries_def ht_inv_def map_append)

lemma reset_found_table:
  assumes inv: "ht_inv hkey ht"
  shows "ht_table (reset_found ht k v) = map (map (upd_value k v)) (ht_table ht)"
proof (rule nth_equalityI)
  let ?i = "CalculateSlotIndex ht k"
  show "length (ht_table (reset_found ht k v)) = length (map (map (upd_value k v)) (ht_table ht))"
    by (simp add: reset_found_def Let_def)
  fix j assume "j < length (ht_table (reset_found ht k v))"
  then have j: "j < length (ht_table ht)" "j < slot_size ht" using inv by (auto simp: reset_found_def Let_def ht_inv_def)
  show "ht_table (reset_found ht k v) ! j = map (map (upd_value k v)) (ht_table ht) ! j"
  proof (cases "j = ?i")
    case True
    then show ?thesis using j distinct_chain [OF inv j(2)]
      by (simp add: reset_found_def Let_def reset_value_map)
  next
    case False
    then have "k \<notin> hkey ` set (ht_table ht ! j)" using inv j by (auto simp: ht_inv_def)
    then show ?thesis using False j by (simp add: reset_found_def Let_def map_upd_value_absent)
  qed
qed

lemma reset_found_correct [hash_simps]:
  assumes inv: "ht_inv hkey ht"
  shows "ht_inv hkey (reset_found ht k v)"
    and "ht_entries (reset_found ht k v) = map (upd_value k v) (ht_entries ht)"
    and "rehashing_idx (reset_found ht k v) = rehashing_idx ht"
    and "slot_size (reset_found ht k v) = slot_size ht"
    and "moved_below ht \<Longrightarrow> moved_below (reset_found ht k v)"
proof -
  let ?ht = "reset_found ht k v"
  show e: "ht_entries ?ht = map (upd_value k v) (ht_entries ht)"
    by (simp add: ht_entries_def reset_found_table [OF inv] map_concat)
  show s: "rehashing_idx ?ht = rehashing_idx ht" "slot_size ?ht = slot_size ht"
    by (simp_all add: reset_found_def Let_def)
  have c: "ht_count ?ht = ht_count ht" by (simp add: reset_found_def Let_def)
  show "ht_inv hkey ?ht" using inv c s
    by (auto simp: ht_inv_def e comp_def reset_found_table [OF inv] CalculateSlotIndex_def)
  show "moved_below ht \<Longrightarrow> moved_below ?ht" using s inv
    by (auto simp: moved_below_def reset_found_table [OF inv] ht_inv_def)
qed

lemma HashTable_UpdateKV_eq:
  assumes "ht_inv hkey ht"
  shows "HashTable_UpdateKV ht k v =
    (if k \<in> hkey ` set (ht_entries ht) then (reset_found ht k v, UPDATED)
     else (push_entry hkey ht \<lparr>hkey = k, hvalue = v\<rparr>, NEW_ADDED))"
proof (cases "k \<in> hkey ` set (ht_entries ht)")
  case True
  then obtain e where e: "FindEntry hkey ht k = Some e" using FindEntry_None [OF assms] by (cases "FindEntry hkey ht k") auto
  then have "ht_table ht ! CalculateSlotIndex ht k \<noteq> []" by (auto simp: FindEntry_def)
  then show ?thesis using True e by (simp add: HashTable_UpdateKV_def Let_def)
next
  case False
  then show ?thesis using FindEntry_None [OF assms, THEN iffD2, OF False]
    by (simp add: HashTable_UpdateKV_def push_entry_def Let_def)
qed

lemma map_of_mset_eq: "distinct (map fst xs) \<Longrightarrow> mset xs = mset ys \<Longrightarrow> map_of xs = map_of ys"
  by (metis map_of_inject_set mset_eq_imp_distinct_iff mset_map set_mset_mset)

lemma fst_kv_of [simp]: "fst (kv_of e) = hkey e"
  by (simp add: kv_of_def)

lemma map_fst_kv_of [simp]: "map (fst \<circ> kv_of) es = map hkey es"
  by (simp add: comp_def)

lemma zip_key_value: "zip (map hkey es) (map hvalue es) = map kv_of es"
  by (induction es) (simp_all add: kv_of_def)

lemma distinct_kv: "rh_inv hkey d \<Longrightarrow> distinct (map fst (map kv_of (rh_entries d)))"
  using rh_entries_distinct [of hkey d] by simp

lemma dict_map_mset:
  assumes "rh_inv hkey d" "mset (rh_entries d') = mset (rh_entries d)"
  shows "dict_map d' = dict_map d"
  unfolding dict_map_def by (rule map_of_mset_eq [OF distinct_kv [OF assms(1)], symmetric]) (simp add: assms(2))

lemma dict_map_None: "dict_map d k = None \<longleftrightarrow> k \<notin> hkey ` set (rh_entries d)"
  by (simp add: dict_map_def map_of_eq_None_iff image_image)

lemma dict_map_Some:
  "rh_inv hkey d \<Longrightarrow> dict_map d k = Some v \<longleftrightarrow> (\<exists>e \<in> set (rh_entries d). hkey e = k \<and> hvalue e = v)"
  unfolding dict_map_def using map_of_eq_Some_iff [OF distinct_kv, of d k v]
  by (auto simp: kv_of_def image_iff)

lemma dict_map_add:
  assumes "rh_inv hkey d'" "mset (rh_entries d') = add_mset \<lparr>hkey = k, hvalue = v\<rparr> (mset (rh_entries d))"
  shows "dict_map d' = (dict_map d)(k \<mapsto> v)"
proof -
  have "dict_map d' = map_of (map kv_of (\<lparr>hkey = k, hvalue = v\<rparr> # rh_entries d))"
    unfolding dict_map_def by (rule map_of_mset_eq [OF distinct_kv [OF assms(1)]]) (simp add: assms(2))
  then show ?thesis by (simp add: dict_map_def kv_of_def)
qed

lemma map_of_upd_value:
  assumes "k \<in> hkey ` set es"
  shows "map_of (map kv_of (map (upd_value k v) es)) = (map_of (map kv_of es))(k \<mapsto> v)"
  using assms
proof (induction es)
  case (Cons e es)
  show ?case
  proof (cases "k \<in> hkey ` set es")
    case True
    then show ?thesis using Cons by (auto simp: upd_value_def kv_of_def fun_upd_twist)
  next
    case False
    have "map_of (map kv_of (map (upd_value k v) (e # es))) = (map_of (map kv_of es))(k \<mapsto> v)"
      using Cons.prems False by (simp only: list.map map_upd_value_absent [OF False])
        (auto simp: kv_of_def upd_value_def)
    also have "\<dots> = (map_of (map kv_of (e # es)))(k \<mapsto> v)" using Cons.prems False by (simp add: kv_of_def image_iff)
    finally show ?thesis .
  qed
qed simp

text \<open>
  The effect of an update on the entries, after the rehashing step: either the value of an
  entry is replaced or an entry is added.
\<close>

definition updated_entries :: "hashdict \<Rightarrow> hashdict \<Rightarrow> string \<Rightarrow> string \<Rightarrow> int \<Rightarrow> bool" where
  "updated_entries d d' k v r \<longleftrightarrow>
     (if k \<in> hkey ` set (rh_entries d)
      then rh_entries d' = map (upd_value k v) (rh_entries d) \<and> r = UPDATED
      else mset (rh_entries d') = add_mset \<lparr>hkey = k, hvalue = v\<rparr> (mset (rh_entries d)) \<and> r = NEW_ADDED)"

lemma update_idle:
  assumes inv: "rh_inv hkey d" and idle: "backup_ht d = None"
    and u: "HashTable_UpdateKV (cur_ht d) k v = (ht, r)"
  shows "rh_inv hkey (d\<lparr>cur_ht := ht\<rparr>) \<and> updated_entries d (d\<lparr>cur_ht := ht\<rparr>) k v r"
proof -
  have c: "ht_inv hkey (cur_ht d)" using inv by (simp add: rh_inv_def)
  show ?thesis
    using u inv idle reset_found_correct [OF c, of k v] push_entry_correct [OF c, of "\<lparr>hkey = k, hvalue = v\<rparr>"]
    by (cases "k \<in> hkey ` set (ht_entries (cur_ht d))")
      (auto simp: HashTable_UpdateKV_eq [OF c] rh_inv_def rh_entries_def updated_entries_def)
qed

lemma update_rehashing_cur:
  assumes inv: "rh_inv hkey d" and b: "backup_ht d = Some b" and k: "k \<in> hkey ` set (ht_entries (cur_ht d))"
    and d': "d' = d\<lparr>cur_ht := reset_found (cur_ht d) k v\<rparr>"
  shows "rh_inv hkey d' \<and> updated_entries d d' k v UPDATED"
proof -
  have c: "ht_inv hkey (cur_ht d)" using inv by (simp add: rh_inv_def)
  have "k \<notin> hkey ` set (ht_entries b)" using inv b k by (auto simp: rh_inv_def disjoint_keys_def)
  then show ?thesis
    using inv b k reset_found_correct [OF c, of k v]
    by (simp add: d' rh_inv_def rh_entries_def updated_entries_def disjoint_keys_def
        image_Un image_image map_upd_value_absent)
qed

lemma update_rehashing_backup:
  assumes inv: "rh_inv hkey d" and b: "backup_ht d = Some b" and k: "k \<notin> hkey ` set (ht_entries (cur_ht d))"
    and u: "HashTable_UpdateKV b k v = (b', r)"
    and d': "d' = d\<lparr>backup_ht := Some b'\<rparr>"
  shows "rh_inv hkey d' \<and> updated_entries d d' k v r"
proof -
  have c: "ht_inv hkey b" using inv b by (simp add: rh_inv_def)
  show ?thesis
  proof (cases "k \<in> hkey ` set (ht_entries b)")
    case True
    then show ?thesis
      using inv b k u reset_found_correct [OF c, of k v]
      by (simp add: HashTable_UpdateKV_eq [OF c] d' rh_inv_def rh_entries_def updated_entries_def
          disjoint_keys_def image_Un image_image map_upd_value_absent)
  next
    case False
    let ?b = "push_entry hkey b \<lparr>hkey = k, hvalue = v\<rparr>"
    note push = push_entry_correct [OF c, of "\<lparr>hkey = k, hvalue = v\<rparr>"]
    have "set (ht_entries ?b) = insert \<lparr>hkey = k, hvalue = v\<rparr> (set (ht_entries b))"
      using push(2) False by (metis htentry.select_convs(1) set_mset_add_mset_insert set_mset_mset)
    then show ?thesis
      using False inv b k u push
      by (simp add: HashTable_UpdateKV_eq [OF c] d' rh_inv_def rh_entries_def updated_entries_def
          disjoint_keys_def image_Un)
  qed
qed

lemma updated_entries_map:
  assumes "rh_inv hkey d'" "updated_entries d d' k v r"
  shows "dict_map d' = (dict_map d)(k \<mapsto> v)" "r = (if dict_map d k = None then NEW_ADDED else UPDATED)"
proof -
  show "dict_map d' = (dict_map d)(k \<mapsto> v)"
  proof (cases "k \<in> hkey ` set (rh_entries d)")
    case True
    then show ?thesis using assms(2) map_of_upd_value [OF True, of v] by (simp add: updated_entries_def dict_map_def)
  next
    case False
    then show ?thesis using assms dict_map_add [OF assms(1)] by (simp add: updated_entries_def)
  qed
  show "r = (if dict_map d k = None then NEW_ADDED else UPDATED)"
    using assms(2) by (auto simp: updated_entries_def dict_map_None split: if_splits)
qed

lemma HashDict_Update_correct [hash_simps]:
  assumes inv: "rh_inv hkey d" and u: "HashDict_Update d k v = (d', r)"
  shows "rh_inv hkey d'" "dict_map d' = (dict_map d)(k \<mapsto> v)"
    and "r = (if dict_map d k = None then NEW_ADDED else UPDATED)"
proof -
  define d1 where "d1 = RehashIfNeeded HashTable_AddEntry d"
  have 1: "rh_inv hkey d1" "dict_map d1 = dict_map d"
    using dict_impl.RehashIfNeeded_correct [OF inv] dict_map_mset [OF inv, of d1] by (simp_all add: d1_def)
  have c: "ht_inv hkey (cur_ht d1)" using 1 by (simp add: rh_inv_def)
  have "rh_inv hkey d' \<and> updated_entries d1 d' k v r"
  proof (cases "backup_ht d1")
    case None
    then have "RehashDone (cur_ht d1)" using 1 by (simp add: rh_inv_def RehashDone_def)
    then show ?thesis using u update_idle [OF 1(1) None]
      by (auto simp: HashDict_Update_def d1_def [symmetric] split: prod.splits)
  next
    case (Some b)
    then have nd: "\<not> RehashDone (cur_ht d1)" using 1 by (auto simp: rh_inv_def RehashDone_def moved_below_def)
    show ?thesis
    proof (cases "FindEntry hkey (cur_ht d1) k")
      case None
      then have "k \<notin> hkey ` set (ht_entries (cur_ht d1))" using FindEntry_None [OF c] by blast
      then show ?thesis using u nd Some None update_rehashing_backup [OF 1(1) Some]
        by (auto simp: HashDict_Update_def d1_def [symmetric] split: prod.splits)
    next
      case found: (Some e)
      then have "k \<in> hkey ` set (ht_entries (cur_ht d1))" using FindEntry_iff [OF c] by auto
      then show ?thesis using u nd found update_rehashing_cur [OF 1(1) Some]
        by (auto simp: HashDict_Update_def d1_def [symmetric])
    qed
  qed
  then show "rh_inv hkey d'" "dict_map d' = (dict_map d)(k \<mapsto> v)"
    "r = (if dict_map d k = None then NEW_ADDED else UPDATED)"
    using updated_entries_map [of d' d1 k v r] 1(2) by simp_all
qed

lemma HashTable_At_eq:
  "ht_inv hkey ht \<Longrightarrow> HashTable_At ht k =
     (case map_of (map kv_of (ht_entries ht)) k of None \<Rightarrow> Inl out_of_range | Some v \<Rightarrow> Inr v)"
proof -
  assume inv: "ht_inv hkey ht"
  show ?thesis
  proof (cases "FindEntry hkey ht k")
    case None
    then have "map_of (map kv_of (ht_entries ht)) k = None"
      using FindEntry_None [OF inv] by (simp add: map_of_eq_None_iff image_image)
    then show ?thesis using None by (simp add: HashTable_At_def)
  next
    case (Some e)
    then have "map_of (map kv_of (ht_entries ht)) k = Some (hvalue e)"
      using FindEntry_iff [OF inv] inv
      by (intro map_of_is_SomeI) (auto simp: kv_of_def ht_inv_def comp_def)
    then show ?thesis using Some by (simp add: HashTable_At_def)
  qed
qed

lemma HashDict_At_correct [hash_simps]:
  assumes inv: "rh_inv hkey d" and a: "HashDict_At d k = (d', r)"
  shows "rh_inv hkey d'" "dict_map d' = dict_map d"
    and "r = (case dict_map d k of None \<Rightarrow> Inl out_of_range | Some v \<Rightarrow> Inr v)"
proof -
  have d': "d' = RehashIfNeeded HashTable_AddEntry d" using a by (simp add: HashDict_At_def Let_def)
  show 1: "rh_inv hkey d'" using dict_impl.RehashIfNeeded_correct [OF inv] by (simp add: d')
  show 2: "dict_map d' = dict_map d"
    using dict_impl.RehashIfNeeded_correct [OF inv] dict_map_mset [OF inv, of d'] by (simp add: d')
  have c: "ht_inv hkey (cur_ht d')" and b: "\<And>b. backup_ht d' = Some b \<Longrightarrow> ht_inv hkey b"
    using 1 by (auto simp: rh_inv_def)
  have "r = (case dict_map d' k of None \<Rightarrow> Inl out_of_range | Some v \<Rightarrow> Inr v)"
  proof (cases "map_of (map kv_of (ht_entries (cur_ht d'))) k")
    case None
    then show ?thesis using a b
      by (auto simp: HashDict_At_def d' [symmetric] HashTable_At_eq [OF c] HashTable_At_eq [OF b]
          dict_map_def rh_entries_def map_add_def split: option.splits)
  next
    case (Some v)
    have "dict_map d' k = Some v"
      using map_of_SomeD [OF Some] unfolding dict_map_Some [OF 1] by (force simp: rh_entries_def kv_of_def)
    then show ?thesis using a Some by (simp add: HashDict_At_def d' [symmetric] HashTable_At_eq [OF c])
  qed
  then show "r = (case dict_map d k of None \<Rightarrow> Inl out_of_range | Some v \<Rightarrow> Inr v)" by (simp add: 2)
qed

lemma HashDict_Erase_correct [hash_simps]:
  assumes inv: "rh_inv hkey d" and e: "HashDict_Erase d k = (d', r)"
  shows "rh_inv hkey d'" "dict_map d' = (dict_map d)(k := None)"
    and "r = (if dict_map d k = None then NOT_ERASED else ERASED)"
proof -
  note er = dict_impl.Rehashable_Erase_correct [OF inv e [unfolded HashDict_Erase_def]]
  show 1: "rh_inv hkey d'" using er by simp
  have s: "set (rh_entries d') = {e \<in> set (rh_entries d). hkey e \<noteq> k}"
    using er(2) by (metis set_mset_filter set_mset_mset)
  have "dict_map d' x = Some v \<longleftrightarrow> ((dict_map d)(k := None)) x = Some v" for x v
    using dict_map_Some [OF 1, of x v] dict_map_Some [OF inv, of x v] s by auto
  then have "dict_map d' x = ((dict_map d)(k := None)) x" for x
    by (metis not_None_eq)
  then show "dict_map d' = (dict_map d)(k := None)" by (rule ext)
  show "r = (if dict_map d k = None then NOT_ERASED else ERASED)"
    using er(3) by (auto simp: dict_map_None)
qed

lemma HashTable_AllValues_eq: "ht_inv hkey ht \<Longrightarrow> HashTable_AllValues ht = map hvalue (ht_entries ht)"
  using arg_cong [OF table_as_map [of "ht_table ht" "slot_size ht"], of "\<lambda>t. concat (map (map hvalue) t)"]
  by (auto simp: HashTable_AllValues_def ht_inv_def ht_entries_def map_concat comp_def)

lemma HashDict_AllValues_eq [hash_simps]: "rh_inv hkey d \<Longrightarrow> HashDict_AllValues d = map hvalue (rh_entries d)"
  using Rehashable_Count_entries [of hkey d]
  by (auto simp: HashDict_AllValues_def rh_inv_def rh_entries_def HashTable_AllValues_eq split: option.splits)

lemma dom_dict_map: "dom (dict_map d) = hkey ` set (rh_entries d)"
  using dict_map_None by (auto simp: dom_def)

lemma hd_step_correct:
  assumes "rh_inv hkey d" "hd_step d c = (d', r)"
  shows "rh_inv hkey d' \<and> hd_spec (dict_map d) c = (dict_map d', r)"
proof (cases c)
  case (HdUpdate k v)
  then obtain n where "HashDict_Update d k v = (d', n)" "r = Code n" using assms(2) by (auto split: prod.splits)
  then show ?thesis using HashDict_Update_correct [OF assms(1)] HdUpdate by simp
next
  case (HdErase k)
  then obtain n where "HashDict_Erase d k = (d', n)" "r = Code n" using assms(2) by (auto split: prod.splits)
  then show ?thesis using HashDict_Erase_correct [OF assms(1)] HdErase by simp
next
  case (HdAt k)
  then obtain n where "HashDict_At d k = (d', n)" "r = Value n" using assms(2) by (auto split: prod.splits)
  then show ?thesis using HashDict_At_correct [OF assms(1)] HdAt by simp
qed

interpretation dict_calls: call_refinement dict_map "rh_inv hkey" "\<lambda>m c. True" hd_step hd_spec
  by unfold_locales (use hd_step_correct in blast)+

section \<open>Properties\<close>

text \<open>
  C15. A \<open>HashDict\<close> behaves as a finite map whatever the load factor it was created with
  and however the calls interleave with the incremental rehashing: the results of every
  sequence of \<open>Update\<close>, \<open>Erase\<close> and \<open>At\<close> calls on a new dictionary are those of the map
  (\<open>NEW_ADDED\<close> or \<open>UPDATED\<close>, \<open>ERASED\<close> or not, the value or \<open>out_of_range\<close>; never
  \<open>UNDEFINED\<close>), and afterwards \<open>Count\<close> is the number of keys, \<open>AllKeys\<close> enumerates them
  without repetition, \<open>AllValues\<close> gives the values in the same order and
  \<open>CheckExists\<close> is membership.
\<close>

theorem hash_dict_history:
  "case run_calls hd_step (HashDict_new mlf) calls of (d, results) \<Rightarrow>
     run_calls hd_spec Map.empty calls = (dict_map d, results) \<and>
     Rehashable_Count d = card (dom (dict_map d)) \<and>
     distinct (Rehashable_AllKeys hkey d) \<and>
     set (Rehashable_AllKeys hkey d) = dom (dict_map d) \<and>
     map_of (zip (Rehashable_AllKeys hkey d) (HashDict_AllValues d)) = dict_map d \<and>
     length (HashDict_AllValues d) = Rehashable_Count d \<and>
     (\<forall>k. Rehashable_CheckExists hkey d k \<longleftrightarrow> dict_map d k \<noteq> None)"
proof -
  obtain d results where run: "run_calls hd_step (HashDict_new mlf) calls = (d, results)" by fastforce
  have new: "dict_map (HashDict_new mlf) = Map.empty" "rh_inv hkey (HashDict_new mlf)"
    by (simp_all add: dict_map_def HashDict_new_def rh_inv_new)
  have inv: "rh_inv hkey d" and spec: "run_calls hd_spec Map.empty calls = (dict_map d, results)"
    using dict_calls.run_refines [OF new(2) _ run] new(1) by simp_all
  have k: "Rehashable_AllKeys hkey d = map hkey (rh_entries d)" by (rule Rehashable_AllKeys_entries [OF inv])
  have card: "Rehashable_Count d = card (dom (dict_map d))"
    using distinct_card [OF rh_entries_distinct [OF inv]] by (simp add: dom_dict_map Rehashable_Count_entries [OF inv])
  have "map_of (zip (map hkey (rh_entries d)) (map hvalue (rh_entries d))) = dict_map d"
    by (simp add: dict_map_def zip_key_value)
  then have zip: "map_of (zip (Rehashable_AllKeys hkey d) (HashDict_AllValues d)) = dict_map d"
    by (simp only: k HashDict_AllValues_eq [OF inv])
  have dom: "distinct (Rehashable_AllKeys hkey d)" "set (Rehashable_AllKeys hkey d) = dom (dict_map d)"
    using rh_entries_distinct [OF inv] by (simp_all add: k dom_dict_map)
  have len: "length (HashDict_AllValues d) = Rehashable_Count d"
    by (simp add: HashDict_AllValues_eq [OF inv] Rehashable_Count_entries [OF inv])
  have ex: "Rehashable_CheckExists hkey d x \<longleftrightarrow> dict_map d x \<noteq> None" for x
    by (simp only: Rehashable_CheckExists_iff [OF inv] dict_map_None not_not)
  show ?thesis unfolding run prod.case by (intro conjI allI spec card dom zip len ex)
qed

text \<open>
  C28. Incremental rehashing of a dictionary always completes and loses nothing: while a
  rehashing is under way, as many \<open>PerformRehash\<close> calls as there are slots left install the
  new table (no backup table remains), and any number of calls leaves the map as it was.
\<close>

theorem hash_dict_rehash_completes:
  assumes "rh_inv hkey d" "backup_ht d \<noteq> None"
  shows "rh_inv hkey (RehashMoveSlots HashTable_AddEntry d n) \<and>
    dict_map (RehashMoveSlots HashTable_AddEntry d n) = dict_map d \<and>
    (int (slot_size (cur_ht d)) - rehashing_idx (cur_ht d) \<le> n \<longrightarrow>
       backup_ht (RehashMoveSlots HashTable_AddEntry d n) = None)"
  using dict_impl.RehashMoveSlots_correct [OF assms, of n] dict_map_mset [OF assms(1)] by blast

text \<open>A dictionary in the middle of a rehashing, for the instance below.\<close>

definition rehashing_dict :: hashdict where
  "rehashing_dict =
     \<lparr>cur_ht = \<lparr>ht_table = [[], [\<lparr>hkey = ''b'', hvalue = ''1''\<rparr>]], slot_size = 2, ht_count = 1, rehashing_idx = 1\<rparr>,
      backup_ht = Some (HashStructBase 4), max_load_factor = 1\<rparr>"

lemma hash_of_b: "unat (Time33Hash ''b'') mod 2 = 1"
  by (simp add: Time33Hash_def char_to_unsigned_def ord8_def)

lemma rehashing_dict_inv: "rh_inv hkey rehashing_dict"
  using hash_of_b ht_inv_new [of 4 hkey]
  by (auto simp: rehashing_dict_def rh_inv_def ht_inv_def [of _ "htable.make _ _ _ _", unfolded htable.defs]
      ht_entries_def moved_below_def disjoint_keys_def CalculateSlotIndex_def less_2_cases_iff HashStructBase_def)

lemma rehashing_dict_map: "dict_map rehashing_dict = [''b'' \<mapsto> ''1'']"
  by (simp add: rehashing_dict_def dict_map_def rh_entries_def ht_entries_def kv_of_def HashStructBase_def)

theorem hash_dict_rehash_completes_witness:
  "backup_ht (RehashMoveSlots HashTable_AddEntry rehashing_dict 1) = None \<and>
   dict_map (RehashMoveSlots HashTable_AddEntry rehashing_dict 1) = [''b'' \<mapsto> ''1'']"
proof -
  have "backup_ht rehashing_dict \<noteq> None"
    "int (slot_size (cur_ht rehashing_dict)) - rehashing_idx (cur_ht rehashing_dict) \<le> 1"
    by (simp_all add: rehashing_dict_def)
  then show ?thesis
    using hash_dict_rehash_completes [OF rehashing_dict_inv, of 1] rehashing_dict_map by simp
qed

end
