(* ===== verification/HashSet.thy ===== *)
theory HashSet
  imports HashDict
begin

text \<open>
  \<open>src/src/hashset.h\<close> and \<open>src/src/hashset.cpp\<close>: the set value, a
  \<open>Rehashable<HashSetImpl>\<close> whose entries hold a key only. Its abstraction is the set
  \<open>set_elems\<close> of its keys; \<open>hs_op\<close>, \<open>hs_step\<close> and \<open>hs_spec\<close> are the histories of
  calls.
\<close>

section \<open>HashSetImpl\<close>

record hsentry =
  skey :: string

type_synonym hashset_impl = "hsentry htable"

definition HashSetImpl_AddEntry :: "hashset_impl \<Rightarrow> hsentry \<Rightarrow> hashset_impl \<times> int" where
  "HashSetImpl_AddEntry ht new_entry =
     (let slot_idx = CalculateSlotIndex ht (skey new_entry); head = ht_table ht ! slot_idx
      in if head = []
         then (ht\<lparr>ht_table := (ht_table ht)[slot_idx := [new_entry]], ht_count := ht_count ht + 1\<rparr>, NEW_ADDED)
         else case FindEntry skey ht (skey new_entry) of
                None \<Rightarrow> (ht\<lparr>ht_table := (ht_table ht)[slot_idx := new_entry # head],
                            ht_count := ht_count ht + 1\<rparr>, NEW_ADDED)
              | Some entry \<Rightarrow> (ht, EXISTED))"

definition HashSetImpl_Add :: "hashset_impl \<Rightarrow> string \<Rightarrow> hashset_impl \<times> int" where
  "HashSetImpl_Add ht item =
     (let slot_idx = CalculateSlotIndex ht item; head = ht_table ht ! slot_idx
      in if head = []
         then (ht\<lparr>ht_table := (ht_table ht)[slot_idx := [\<lparr>skey = item\<rparr>]], ht_count := ht_count ht + 1\<rparr>, NEW_ADDED)
         else case FindEntry skey ht item of
                None \<Rightarrow> (ht\<lparr>ht_table := (ht_table ht)[slot_idx := \<lparr>skey = item\<rparr> # head],
                            ht_count := ht_count ht + 1\<rparr>, NEW_ADDED)
              | Some entry \<Rightarrow> (ht, EXISTED))"

section \<open>HashSet\<close>

type_synonym hashset = "hsentry rehashable"

definition HashSet_new :: "real \<Rightarrow> hashset" where
  "HashSet_new mlf = Rehashable mlf"

definition HashSet_Insert :: "hashset \<Rightarrow> string \<Rightarrow> hashset \<times> int" where
  "HashSet_Insert s item =
     (let s1 = RehashIfNeeded HashSetImpl_AddEntry s
      in if RehashDone (cur_ht s1)
         then case HashSetImpl_Add (cur_ht s1) item of (ht, r) \<Rightarrow> (s1\<lparr>cur_ht := ht\<rparr>, r)
         else case FindEntry skey (cur_ht s1) item of
                Some entry \<Rightarrow> (s1, EXISTED)
              | None \<Rightarrow>
                  (case backup_ht s1 of
                     Some b \<Rightarrow> (case HashSetImpl_Add b item of (b', r) \<Rightarrow> (s1\<lparr>backup_ht := Some b'\<rparr>, r))
                   | None \<Rightarrow> (s1, UNDEFINED)))"

definition HashSet_Erase :: "hashset \<Rightarrow> string \<Rightarrow> hashset \<times> int" where
  "HashSet_Erase s item = Rehashable_Erase HashSetImpl_AddEntry skey s item"

definition HashSet_Serialize :: "hashset \<Rightarrow> bytes \<Rightarrow> bytes \<times> nat" where
  "HashSet_Serialize s buf =
     (let count = Rehashable_Count s
      in if count = 0 then (buf, 0)
         else let out = fold (\<lambda>e out. put_str (skey e) out) (Rehashable_AllEntries s) (put_count count buf)
              in (out, length out))"

section \<open>Specification\<close>

definition set_elems :: "hashset \<Rightarrow> string set" where
  "set_elems s = skey ` set (rh_entries s)"

datatype hs_op = HsInsert string | HsErase string | HsExists string

fun hs_step :: "hashset \<Rightarrow> hs_op \<Rightarrow> hashset \<times> int" where
  "hs_step s (HsInsert x) = HashSet_Insert s x"
| "hs_step s (HsErase x) = HashSet_Erase s x"
| "hs_step s (HsExists x) = (s, if Rehashable_CheckExists skey s x then 1 else 0)"

fun hs_spec :: "string set \<Rightarrow> hs_op \<Rightarrow> string set \<times> int" where
  "hs_spec A (HsInsert x) = (insert x A, if x \<in> A then EXISTED else NEW_ADDED)"
| "hs_spec A (HsErase x) = (A - {x}, if x \<in> A then ERASED else NOT_ERASED)"
| "hs_spec A (HsExists x) = (A, if x \<in> A then 1 else 0)"

section \<open>Lemmas\<close>

lemma HashSetImpl_Add_eq:
  assumes "ht_inv skey ht"
  shows "HashSetImpl_Add ht x =
    (if x \<in> skey ` set (ht_entries ht) then (ht, EXISTED) else (push_entry skey ht \<lparr>skey = x\<rparr>, NEW_ADDED))"
proof (cases "FindEntry skey ht x")
  case None
  then show ?thesis using FindEntry_None [OF assms, THEN iffD1, OF None]
    by (simp add: HashSetImpl_Add_def push_entry_def Let_def)
next
  case (Some e)
  then have "ht_table ht ! CalculateSlotIndex ht x \<noteq> []" by (auto simp: FindEntry_def)
  moreover have "x \<in> skey ` set (ht_entries ht)" using Some FindEntry_iff [OF assms] by auto
  ultimately show ?thesis using Some by (simp add: HashSetImpl_Add_def Let_def)
qed

lemma hsentry_eta: "\<lparr>skey = skey e\<rparr> = e"
  by simp

lemma HashSetImpl_AddEntry_eq: "HashSetImpl_AddEntry ht e = HashSetImpl_Add ht (skey e)"
  by (simp only: HashSetImpl_AddEntry_def HashSetImpl_Add_def hsentry_eta)

interpretation set_impl: rehash_impl skey HashSetImpl_AddEntry
proof
  fix ht :: hashset_impl and e :: hsentry
  assume "ht_inv skey ht" "skey e \<notin> skey ` set (ht_entries ht)"
  then show "HashSetImpl_AddEntry ht e = (push_entry skey ht e, NEW_ADDED)"
    by (simp only: HashSetImpl_AddEntry_eq HashSetImpl_Add_eq hsentry_eta if_False)
qed

lemma set_push_entry:
  assumes "ht_inv skey ht" "x \<notin> skey ` set (ht_entries ht)"
  shows "set (ht_entries (push_entry skey ht \<lparr>skey = x\<rparr>)) = insert \<lparr>skey = x\<rparr> (set (ht_entries ht))"
  using push_entry_correct(2) [of skey ht "\<lparr>skey = x\<rparr>"] assms
  by (metis hsentry.select_convs(1) set_mset_add_mset_insert set_mset_mset)

lemma insert_idle:
  assumes inv: "rh_inv skey s" and idle: "backup_ht s = None" and u: "HashSetImpl_Add (cur_ht s) x = (ht, r)"
    and s': "s' = s\<lparr>cur_ht := ht\<rparr>"
  shows "rh_inv skey s' \<and> set_elems s' = insert x (set_elems s) \<and>
    r = (if x \<in> set_elems s then EXISTED else NEW_ADDED)"
proof -
  have c: "ht_inv skey (cur_ht s)" using inv by (simp add: rh_inv_def)
  show ?thesis
  proof (cases "x \<in> skey ` set (ht_entries (cur_ht s))")
    case True
    then show ?thesis using u inv idle
      by (auto simp: s' HashSetImpl_Add_eq [OF c] set_elems_def rh_entries_def)
  next
    case False
    then show ?thesis using u inv idle push_entry_correct [OF c, of "\<lparr>skey = x\<rparr>"] set_push_entry [OF c False]
      by (auto simp: s' HashSetImpl_Add_eq [OF c] set_elems_def rh_entries_def rh_inv_def)
  qed
qed

lemma insert_rehashing:
  assumes inv: "rh_inv skey s" and b: "backup_ht s = Some b" and k: "x \<notin> skey ` set (ht_entries (cur_ht s))"
    and u: "HashSetImpl_Add b x = (b', r)" and s': "s' = s\<lparr>backup_ht := Some b'\<rparr>"
  shows "rh_inv skey s' \<and> set_elems s' = insert x (set_elems s) \<and>
    r = (if x \<in> set_elems s then EXISTED else NEW_ADDED)"
proof -
  have c: "ht_inv skey b" using inv b by (simp add: rh_inv_def)
  show ?thesis
  proof (cases "x \<in> skey ` set (ht_entries b)")
    case True
    then show ?thesis using u inv b k
      by (auto simp: s' HashSetImpl_Add_eq [OF c] set_elems_def rh_entries_def rh_inv_def)
  next
    case False
    then show ?thesis using u inv b k push_entry_correct [OF c, of "\<lparr>skey = x\<rparr>"] set_push_entry [OF c False]
      by (simp add: s' HashSetImpl_Add_eq [OF c] set_elems_def rh_entries_def rh_inv_def disjoint_keys_def
          image_Un insert_commute)
  qed
qed

lemma set_elems_rehash:
  "rh_inv skey s \<Longrightarrow> set_elems (RehashIfNeeded HashSetImpl_AddEntry s) = set_elems s"
  using set_impl.RehashIfNeeded_correct(2) [of s] by (metis set_elems_def set_mset_mset)

lemma HashSet_Insert_correct [hash_simps]:
  assumes inv: "rh_inv skey s" and u: "HashSet_Insert s x = (s', r)"
  shows "rh_inv skey s' \<and> set_elems s' = insert x (set_elems s) \<and>
    r = (if x \<in> set_elems s then EXISTED else NEW_ADDED)"
proof -
  define s1 where "s1 = RehashIfNeeded HashSetImpl_AddEntry s"
  have 1: "rh_inv skey s1" "set_elems s1 = set_elems s"
    using set_impl.RehashIfNeeded_correct(1) [OF inv] set_elems_rehash [OF inv] by (simp_all add: s1_def)
  have c: "ht_inv skey (cur_ht s1)" using 1 by (simp add: rh_inv_def)
  show ?thesis
  proof (cases "backup_ht s1")
    case None
    then have "RehashDone (cur_ht s1)" using 1 by (simp add: rh_inv_def RehashDone_def)
    then obtain ht where ht: "HashSetImpl_Add (cur_ht s1) x = (ht, r)" "s' = s1\<lparr>cur_ht := ht\<rparr>"
      using u by (auto simp: HashSet_Insert_def s1_def [symmetric] split: prod.splits)
    show ?thesis using insert_idle [OF 1(1) None ht] 1(2) by simp
  next
    case (Some b)
    then have nd: "\<not> RehashDone (cur_ht s1)" using 1 by (auto simp: rh_inv_def RehashDone_def moved_below_def)
    show ?thesis
    proof (cases "FindEntry skey (cur_ht s1) x")
      case None
      then have x: "x \<notin> skey ` set (ht_entries (cur_ht s1))" using FindEntry_None [OF c] by blast
      obtain b' where b': "HashSetImpl_Add b x = (b', r)" "s' = s1\<lparr>backup_ht := Some b'\<rparr>"
        using u nd Some None by (auto simp: HashSet_Insert_def s1_def [symmetric] split: prod.splits)
      show ?thesis using insert_rehashing [OF 1(1) Some x b'] 1(2) by simp
    next
      case found: (Some e)
      then have "x \<in> set_elems s1" using FindEntry_iff [OF c] by (auto simp: set_elems_def rh_entries_def)
      then show ?thesis using u nd found 1
        by (auto simp: HashSet_Insert_def s1_def [symmetric])
    qed
  qed
qed

lemma HashSet_Erase_correct [hash_simps]:
  assumes inv: "rh_inv skey s" and e: "HashSet_Erase s x = (s', r)"
  shows "rh_inv skey s' \<and> set_elems s' = set_elems s - {x} \<and>
    r = (if x \<in> set_elems s then ERASED else NOT_ERASED)"
proof -
  note er = set_impl.Rehashable_Erase_correct [OF inv e [unfolded HashSet_Erase_def]]
  have "set (rh_entries s') = {e \<in> set (rh_entries s). skey e \<noteq> x}"
    using er(2) by (metis set_mset_filter set_mset_mset)
  then show ?thesis using er(1,3) by (auto simp: set_elems_def)
qed

interpretation set_calls: call_refinement set_elems "rh_inv skey" "\<lambda>A c. True" hs_step hs_spec
proof
  fix s c s' r
  assume inv: "rh_inv skey s" and step: "hs_step s c = (s', r)"
  have "rh_inv skey s' \<and> hs_spec (set_elems s) c = (set_elems s', r)"
    using inv step HashSet_Insert_correct [OF inv] HashSet_Erase_correct [OF inv]
    by (cases c) (auto simp: Rehashable_CheckExists_iff set_elems_def)
  then show "rh_inv skey s'" "hs_spec (set_elems s) c = (set_elems s', r)" by simp_all
qed

section \<open>Properties\<close>

text \<open>
  A \<open>HashSet\<close> behaves as a finite set for every sequence of \<open>Insert\<close>, \<open>Erase\<close> and
  \<open>CheckExists\<close> calls, whatever its load factor and the state of its rehashing: the
  results are \<open>NEW_ADDED\<close> or \<open>EXISTED\<close>, \<open>ERASED\<close> or \<open>NOT_ERASED\<close> and the membership as
  the set has them; \<open>Count\<close> is its cardinality and \<open>AllKeys\<close> lists it without repetition.
\<close>

theorem hash_set_history:
  "case run_calls hs_step (HashSet_new mlf) calls of (s, results) \<Rightarrow>
     run_calls hs_spec {} calls = (set_elems s, results) \<and>
     Rehashable_Count s = card (set_elems s) \<and>
     distinct (Rehashable_AllKeys skey s) \<and> set (Rehashable_AllKeys skey s) = set_elems s"
proof -
  obtain s results where run: "run_calls hs_step (HashSet_new mlf) calls = (s, results)" by fastforce
  have new: "set_elems (HashSet_new mlf) = {}" "rh_inv skey (HashSet_new mlf)"
    by (simp_all add: set_elems_def HashSet_new_def rh_inv_new)
  have inv: "rh_inv skey s" and spec: "run_calls hs_spec {} calls = (set_elems s, results)"
    using set_calls.run_refines [OF new(2) _ run] new(1) by simp_all
  have keys: "distinct (Rehashable_AllKeys skey s)" "set (Rehashable_AllKeys skey s) = set_elems s"
    using rh_entries_distinct [OF inv] by (simp_all add: Rehashable_AllKeys_entries [OF inv] set_elems_def)
  have card: "Rehashable_Count s = card (set_elems s)"
    using distinct_card [OF rh_entries_distinct [OF inv]]
    by (simp add: set_elems_def Rehashable_Count_entries [OF inv])
  show ?thesis unfolding run prod.case by (intro conjI spec card keys)
qed

end
