(* ===== verification/DList.thy ===== *)
theory DList
  imports HashDict "HOL-Library.Signed_Division"
begin

text \<open>
  \<open>src/src/dlist.h\<close> and \<open>src/src/dlist.cpp\<close>: the list value, a doubly linked chain of
  blocks of \<open>kBlockSize\<close> elements.

  The chain from \<open>head_\<close> to \<open>tail_\<close> is a list of nodes, a pointer to a node is its index
  in the chain (\<open>prev\<close> and \<open>next\<close> are the neighbours) and a pointer into a node is an
  offset into its \<open>data\<close> array; \<open>None\<close> is \<open>nullptr\<close>. An element is the contents of a
  \<open>DynamicString\<close>, \<open>None\<close> for a null (never written or moved-from) one. Following a null
  pointer, leaving an array and touching a deleted node are the error values
  \<open>NullDeref\<close>, \<open>OutOfBounds\<close> and \<open>UseAfterFree\<close>; \<open>OutOfRange\<close> is the exception of
  \<open>operator[]\<close>.

  The abstraction \<open>dl_abs\<close> is the list of the elements; it is read off a single array of
  slots, the concatenation of the blocks, so that the three cases of every push and pop are
  one step to the neighbouring slot.
\<close>

section \<open>Nodes and iterators\<close>

abbreviation (input) kBlockSize :: nat where "kBlockSize \<equiv> 128"
abbreviation (input) kRedundantFactor :: nat where "kRedundantFactor \<equiv> 2"

record dnode =
  nd_data :: "string option list"
  nd_occupied :: nat

record dl_iter =
  it_node :: nat
  it_ptr :: "nat option"

record dlist =
  dl_nodes :: "dnode list"
  dl_begin :: dl_iter
  dl_end :: dl_iter
  dl_len :: nat
  dl_n_nodes :: nat

datatype dl_error = OutOfRange | NullDeref | OutOfBounds | UseAfterFree

definition NewNode :: dnode where
  "NewNode = \<lparr>nd_data = replicate kBlockSize None, nd_occupied = 0\<rparr>"

definition DList_new :: dlist where
  "DList_new = \<lparr>dl_nodes = [NewNode, NewNode],
     dl_begin = \<lparr>it_node = 0, it_ptr = None\<rparr>, dl_end = \<lparr>it_node = 1, it_ptr = None\<rparr>,
     dl_len = 0, dl_n_nodes = 2\<rparr>"

definition DList_Empty :: "dlist \<Rightarrow> bool" where
  "DList_Empty d \<longleftrightarrow> dl_len d = 0"

definition occupied_at :: "dlist \<Rightarrow> nat \<Rightarrow> nat" where
  "occupied_at d n = nd_occupied (dl_nodes d ! n)"

text \<open>\<open>it.ptr->Reset(val, len); it.node->occupied++\<close>.\<close>

definition put_elem :: "dl_iter \<Rightarrow> string \<Rightarrow> dnode list \<Rightarrow> dnode list" where
  "put_elem it val ns =
     (let nd = ns ! it_node it
      in ns[it_node it := nd\<lparr>nd_data := (nd_data nd)[the (it_ptr it) := Some val],
                             nd_occupied := nd_occupied nd + 1\<rparr>])"

section \<open>Push and pop\<close>

text \<open>The first half of \<open>PushLeft\<close>: the begin iterator moves to the slot before it.\<close>

definition extend_left :: "dlist \<Rightarrow> dlist" where
  "extend_left d =
     (case it_ptr (dl_begin d) of
        None \<Rightarrow>
          let b = (dl_begin d)\<lparr>it_ptr := Some (kBlockSize - 1)\<rparr>
          in d\<lparr>dl_begin := b, dl_end := (if it_ptr (dl_end d) = None then b else dl_end d)\<rparr>
      | Some p \<Rightarrow>
          if p = 0
          then (if it_node (dl_begin d) = 0
                then d\<lparr>dl_nodes := NewNode # dl_nodes d, dl_n_nodes := dl_n_nodes d + 1,
                       dl_begin := \<lparr>it_node = 0, it_ptr = Some (kBlockSize - 1)\<rparr>,
                       dl_end := (dl_end d)\<lparr>it_node := it_node (dl_end d) + 1\<rparr>\<rparr>
                else d\<lparr>dl_begin := \<lparr>it_node = it_node (dl_begin d) - 1, it_ptr = Some (kBlockSize - 1)\<rparr>\<rparr>)
          else d\<lparr>dl_begin := (dl_begin d)\<lparr>it_ptr := Some (p - 1)\<rparr>\<rparr>)"

definition DList_PushLeft :: "dlist \<Rightarrow> string \<Rightarrow> dlist" where
  "DList_PushLeft d val =
     (let d1 = extend_left d
      in d1\<lparr>dl_nodes := put_elem (dl_begin d1) val (dl_nodes d1), dl_len := dl_len d1 + 1\<rparr>)"

text \<open>The first half of \<open>PushRight\<close>: the end iterator moves to the slot after it.\<close>

definition extend_right :: "dlist \<Rightarrow> dlist" where
  "extend_right d =
     (case it_ptr (dl_end d) of
        None \<Rightarrow>
          let e = (dl_end d)\<lparr>it_ptr := Some 0\<rparr>
          in d\<lparr>dl_end := e, dl_begin := (if it_ptr (dl_begin d) = None then e else dl_begin d)\<rparr>
      | Some p \<Rightarrow>
          if p = kBlockSize - 1
          then (if it_node (dl_end d) + 1 = length (dl_nodes d)
                then d\<lparr>dl_nodes := dl_nodes d @ [NewNode], dl_n_nodes := dl_n_nodes d + 1,
                       dl_end := \<lparr>it_node = it_node (dl_end d) + 1, it_ptr = Some 0\<rparr>\<rparr>
                else d\<lparr>dl_end := \<lparr>it_node = it_node (dl_end d) + 1, it_ptr = Some 0\<rparr>\<rparr>)
          else d\<lparr>dl_end := (dl_end d)\<lparr>it_ptr := Some (p + 1)\<rparr>\<rparr>)"

definition DList_PushRight :: "dlist \<Rightarrow> string \<Rightarrow> dlist" where
  "DList_PushRight d val =
     (let d1 = extend_right d
      in d1\<lparr>dl_nodes := put_elem (dl_end d1) val (dl_nodes d1), dl_len := dl_len d1 + 1\<rparr>)"

text \<open>\<open>it.node->occupied--\<close> and \<open>std::move(*it.ptr)\<close>, which leaves a null string behind.\<close>

definition dec_occupied :: "nat \<Rightarrow> dnode list \<Rightarrow> dnode list" where
  "dec_occupied n ns = ns[n := (ns ! n)\<lparr>nd_occupied := nd_occupied (ns ! n) - 1\<rparr>]"

definition move_elem :: "dl_iter \<Rightarrow> dnode list \<Rightarrow> dnode list \<times> string option" where
  "move_elem it ns =
     (let nd = ns ! it_node it; p = the (it_ptr it)
      in (ns[it_node it := nd\<lparr>nd_data := (nd_data nd)[p := None]\<rparr>], nd_data nd ! p))"

definition DList_PopLeft :: "dlist \<Rightarrow> dlist \<times> string option" where
  "DList_PopLeft d =
     (if DList_Empty d then (d, None)
      else let ret = dl_begin d; n = it_node ret; p = the (it_ptr ret);
               d1 = (if dl_begin d = dl_end d
                     then d\<lparr>dl_nodes := dec_occupied n (dl_nodes d),
                            dl_begin := ret\<lparr>it_ptr := None\<rparr>, dl_end := (dl_end d)\<lparr>it_ptr := None\<rparr>\<rparr>
                     else if p = kBlockSize - 1
                     then (if n + 1 < length (dl_nodes d)
                           then d\<lparr>dl_nodes := dec_occupied n (dl_nodes d),
                                  dl_begin := \<lparr>it_node = n + 1, it_ptr = Some 0\<rparr>\<rparr>
                           else d)
                     else d\<lparr>dl_begin := ret\<lparr>it_ptr := Some (p + 1)\<rparr>,
                            dl_nodes := dec_occupied n (dl_nodes d)\<rparr>);
               (ns, v) = move_elem ret (dl_nodes d1)
           in (d1\<lparr>dl_nodes := ns, dl_len := dl_len d1 - 1\<rparr>, v))"

definition DList_PopRight :: "dlist \<Rightarrow> dlist \<times> string option" where
  "DList_PopRight d =
     (if DList_Empty d then (d, None)
      else let ret = dl_end d; n = it_node ret; p = the (it_ptr ret);
               d1 = (if dl_begin d = dl_end d
                     then d\<lparr>dl_nodes := dec_occupied n (dl_nodes d),
                            dl_begin := (dl_begin d)\<lparr>it_ptr := None\<rparr>, dl_end := ret\<lparr>it_ptr := None\<rparr>\<rparr>
                     else if p = 0
                     then (if 0 < n
                           then d\<lparr>dl_nodes := dec_occupied n (dl_nodes d),
                                  dl_end := \<lparr>it_node = n - 1, it_ptr = Some (kBlockSize - 1)\<rparr>\<rparr>
                           else d)
                     else d\<lparr>dl_end := ret\<lparr>it_ptr := Some (p - 1)\<rparr>,
                            dl_nodes := dec_occupied n (dl_nodes d)\<rparr>);
               (ns, v) = move_elem ret (dl_nodes d1)
           in (d1\<lparr>dl_nodes := ns, dl_len := dl_len d1 - 1\<rparr>, v))"

section \<open>Access by index\<close>

text \<open>
  \<open>NodeAtIndex\<close> takes a \<open>size_t\<close> (the value \<open>idx\<close> modulo \<open>2^64\<close>) and computes with
  \<open>int\<close>. The node it returns may be null; a step from a null node is an error.
\<close>

definition NodeAtIndex :: "dlist \<Rightarrow> int \<Rightarrow> dl_error + (nat option \<times> int \<times> int)" where
  "NodeAtIndex d idx =
     (let b = it_node (dl_begin d); occ = int (occupied_at d b)
      in if occ > idx mod 2 ^ 64 then Inr (Some b, - 1, wrap32 idx)
         else let diff = wrap32 (idx - occ);
                  n_cross = diff sdiv int kBlockSize;
                  offset = diff smod int kBlockSize;
                  n = b + nat (n_cross + 1)
              in if n < length (dl_nodes d) then Inr (Some n, n_cross, offset)
                 else if n = length (dl_nodes d) then Inr (None, n_cross, offset)
                 else Inl NullDeref)"

text \<open>The element \<open>operator[]\<close> refers to, as node index and offset.\<close>

definition DList_elem :: "dlist \<Rightarrow> nat \<Rightarrow> dl_error + (nat \<times> nat)" where
  "DList_elem d idx =
     (if idx \<ge> dl_len d then Inl OutOfRange
      else let b = it_node (dl_begin d)
           in if occupied_at d b > idx
              then (case it_ptr (dl_begin d) of
                      None \<Rightarrow> Inl NullDeref
                    | Some p \<Rightarrow> if p + idx < kBlockSize then Inr (b, p + idx) else Inl OutOfBounds)
              else case NodeAtIndex d (int idx) of
                     Inl e \<Rightarrow> Inl e
                   | Inr (None, n_cross, offset) \<Rightarrow> Inl NullDeref
                   | Inr (Some n, n_cross, offset) \<Rightarrow>
                       if 0 \<le> offset \<and> offset < int kBlockSize then Inr (n, nat offset) else Inl OutOfBounds)"

definition DList_index :: "dlist \<Rightarrow> nat \<Rightarrow> dl_error + string option" where
  "DList_index d idx =
     (case DList_elem d idx of Inl e \<Rightarrow> Inl e | Inr (n, p) \<Rightarrow> Inr (nd_data (dl_nodes d ! n) ! p))"

text \<open>\<open>list[idx].Reset(val)\<close>, the only way the program writes through the reference.\<close>

definition DList_index_Reset :: "dlist \<Rightarrow> nat \<Rightarrow> string \<Rightarrow> dlist \<times> (dl_error + unit)" where
  "DList_index_Reset d idx val =
     (case DList_elem d idx of
        Inl e \<Rightarrow> (d, Inl e)
      | Inr (n, p) \<Rightarrow>
          (let nd = dl_nodes d ! n
           in d\<lparr>dl_nodes := (dl_nodes d)[n := nd\<lparr>nd_data := (nd_data nd)[p := Some val]\<rparr>]\<rparr>, Inr ()))"

section \<open>Ranges\<close>

text \<open>
  The loop of the full ranges over the nodes from \<open>begin_.node\<close>: \<open>occupied\<close> elements are
  read from offset \<open>off\<close> of the first node and from offset 0 of the others.
\<close>

fun range_all_loop :: "dnode list \<Rightarrow> nat \<Rightarrow> dl_error + string option list" where
  "range_all_loop [] off = Inr []"
| "range_all_loop (nd # nds) off =
     (if nd_occupied nd > 0
      then if off + nd_occupied nd \<le> kBlockSize
           then map_sum id (\<lambda>rest. take (nd_occupied nd) (drop off (nd_data nd)) @ rest) (range_all_loop nds 0)
           else Inl OutOfBounds
      else Inr [])"

definition DList_RangeAll :: "dlist \<Rightarrow> dl_error + string option list" where
  "DList_RangeAll d =
     (if DList_Empty d then Inr []
      else case it_ptr (dl_begin d) of
             None \<Rightarrow> Inr []
           | Some p \<Rightarrow> range_all_loop (drop (it_node (dl_begin d)) (dl_nodes d)) p)"

text \<open>The loop of the bounded ranges: \<open>distance\<close> elements from offset \<open>off\<close>.\<close>

fun range_loop :: "dnode list \<Rightarrow> int \<Rightarrow> int \<Rightarrow> dl_error + string option list" where
  "range_loop [] off distance = Inr []"
| "range_loop (nd # nds) off distance =
     (if nd_occupied nd > 0 \<and> distance > 0
      then if 0 \<le> off \<and> off \<le> int kBlockSize
           then let k = min (int kBlockSize - off) distance
                in map_sum id (\<lambda>rest. take (nat k) (drop (nat off) (nd_data nd)) @ rest)
                     (range_loop nds 0 (distance - k))
           else Inl OutOfBounds
      else Inr [])"

definition DList_Range :: "dlist \<Rightarrow> int \<Rightarrow> int \<Rightarrow> dl_error + string option list" where
  "DList_Range d start finish =
     (if DList_Empty d \<or> start > finish then Inr []
      else let fin = min finish (wrap32 (int (dl_len d) - 1));
               distance = wrap32 (fin - start + 1)
           in case NodeAtIndex d start of
                Inl e \<Rightarrow> Inl e
              | Inr (None, n_cross, offset) \<Rightarrow> Inl NullDeref
              | Inr (Some n, n_cross, offset) \<Rightarrow>
                  let elem = (if n = it_node (dl_begin d)
                              then (case it_ptr (dl_begin d) of None \<Rightarrow> 0 | Some p \<Rightarrow> int p) + offset
                              else offset)
                  in range_loop (drop n (dl_nodes d)) elem distance)"

section \<open>Freeing nodes and serialization\<close>

text \<open>
  The loops of \<open>FreeRedundantNodes\<close> at one end of the chain: \<open>keep\<close> is the distance of the
  iterator's node from that end. A node is deleted while it is empty and not the neighbour
  of the iterator's node; the statements after the deletion write through the next pointer
  and the loop condition reads the iterator's node.
\<close>

fun free_end :: "dnode list \<Rightarrow> nat \<Rightarrow> dl_error + dnode list \<times> nat" where
  "free_end [] keep = Inr ([], keep)"
| "free_end (nd # nds) keep =
     (if nd_occupied nd = 0 \<and> keep \<noteq> 1
      then if nds = [] then Inl NullDeref
           else if keep = 0 then Inl UseAfterFree
           else free_end nds (keep - 1)
      else Inr (nd # nds, keep))"

definition DList_FreeRedundantNodes :: "dlist \<Rightarrow> dl_error + dlist" where
  "DList_FreeRedundantNodes d =
     (let capacity = dl_n_nodes d * kBlockSize
      in if capacity \<ge> dl_len d * kRedundantFactor
         then case free_end (dl_nodes d) (it_node (dl_begin d)) of
                Inl e \<Rightarrow> Inl e
              | Inr (ns1, b1) \<Rightarrow>
                  let removed1 = length (dl_nodes d) - length ns1;
                      e1 = it_node (dl_end d) - removed1
                  in case free_end (rev ns1) (length ns1 - 1 - e1) of
                       Inl e \<Rightarrow> Inl e
                     | Inr (ns2, k2) \<Rightarrow>
                         Inr (d\<lparr>dl_nodes := rev ns2,
                                dl_begin := (dl_begin d)\<lparr>it_node := b1\<rparr>,
                                dl_end := (dl_end d)\<lparr>it_node := e1\<rparr>,
                                dl_n_nodes := dl_n_nodes d - (length (dl_nodes d) - length ns2)\<rparr>)
         else Inr d)"

fun serialize_nodes :: "dnode list \<Rightarrow> nat \<Rightarrow> bytes \<Rightarrow> dl_error + bytes" where
  "serialize_nodes [] off buf = Inr buf"
| "serialize_nodes (nd # nds) off buf =
     (if nd_occupied nd > 0
      then if off + nd_occupied nd \<le> kBlockSize
           then serialize_nodes nds 0
                  (fold (\<lambda>x out. put_str (contents x) out) (take (nd_occupied nd) (drop off (nd_data nd))) buf)
           else Inl OutOfBounds
      else Inr buf)"

definition DList_Serialize :: "dlist \<Rightarrow> bytes \<Rightarrow> dl_error + bytes \<times> nat" where
  "DList_Serialize d buf =
     (if DList_Empty d then Inr (buf, 0)
      else map_sum id (\<lambda>out. (out, length out))
             (serialize_nodes (drop (it_node (dl_begin d)) (dl_nodes d))
                (case it_ptr (dl_begin d) of None \<Rightarrow> 0 | Some p \<Rightarrow> p) (put_count (dl_len d) buf)))"

section \<open>Abstraction and invariant\<close>

text \<open>Slot \<open>p\<close> of the concatenated blocks, and the number of slots of \<open>[pb, pb + n)\<close> in block \<open>j\<close>.\<close>

definition slot :: "dnode list \<Rightarrow> nat \<Rightarrow> string option" where
  "slot ns p = nd_data (ns ! (p div kBlockSize)) ! (p mod kBlockSize)"

definition in_block :: "nat \<Rightarrow> nat \<Rightarrow> nat \<Rightarrow> nat" where
  "in_block pb n j = min (128 * j + 128) (pb + n) - max (128 * j) pb"

definition it_pos :: "dl_iter \<Rightarrow> nat" where
  "it_pos it = 128 * it_node it + the (it_ptr it)"

definition dl_slots :: "dlist \<Rightarrow> string option list" where
  "dl_slots d = map (\<lambda>i. slot (dl_nodes d) (it_pos (dl_begin d) + i)) [0..<dl_len d]"

definition dl_abs :: "dlist \<Rightarrow> string list" where
  "dl_abs d = map contents (dl_slots d)"

definition blocks_inv :: "dnode list \<Rightarrow> nat \<Rightarrow> nat \<Rightarrow> bool" where
  "blocks_inv ns pb n \<longleftrightarrow>
     (\<forall>j < length ns. length (nd_data (ns ! j)) = kBlockSize \<and> nd_occupied (ns ! j) = in_block pb n j) \<and>
     (\<forall>i < n. slot ns (pb + i) \<noteq> None)"

definition dl_inv :: "dlist \<Rightarrow> bool" where
  "dl_inv d \<longleftrightarrow>
     dl_n_nodes d = length (dl_nodes d) \<and>
     it_node (dl_begin d) < length (dl_nodes d) \<and> it_node (dl_end d) < length (dl_nodes d) \<and>
     blocks_inv (dl_nodes d) (it_pos (dl_begin d)) (dl_len d) \<and>
     (if dl_len d = 0 then it_ptr (dl_begin d) = None \<and> it_ptr (dl_end d) = None
      else (\<exists>b e. it_ptr (dl_begin d) = Some b \<and> it_ptr (dl_end d) = Some e \<and>
              b < kBlockSize \<and> e < kBlockSize \<and>
              it_pos (dl_begin d) + dl_len d = it_pos (dl_end d) + 1))"

section \<open>Specification\<close>

datatype dl_op = DlPushLeft string | DlPushRight string | DlPopLeft | DlPopRight
  | DlAt nat | DlReset nat string | DlFreeRedundant

datatype dl_result = Done | Popped "string option" | Elem "dl_error + string option" | Written "dl_error + unit"

fun dl_step :: "dlist \<Rightarrow> dl_op \<Rightarrow> dlist \<times> dl_result" where
  "dl_step d (DlPushLeft v) = (DList_PushLeft d v, Done)"
| "dl_step d (DlPushRight v) = (DList_PushRight d v, Done)"
| "dl_step d DlPopLeft = (case DList_PopLeft d of (d', v) \<Rightarrow> (d', Popped v))"
| "dl_step d DlPopRight = (case DList_PopRight d of (d', v) \<Rightarrow> (d', Popped v))"
| "dl_step d (DlAt i) = (d, Elem (DList_index d i))"
| "dl_step d (DlReset i v) = (case DList_index_Reset d i v of (d', r) \<Rightarrow> (d', Written r))"
| "dl_step d DlFreeRedundant =
     (case DList_FreeRedundantNodes d of Inl e \<Rightarrow> (d, Written (Inl e)) | Inr d' \<Rightarrow> (d', Done))"

fun dl_spec :: "string list \<Rightarrow> dl_op \<Rightarrow> string list \<times> dl_result" where
  "dl_spec xs (DlPushLeft v) = (v # xs, Done)"
| "dl_spec xs (DlPushRight v) = (xs @ [v], Done)"
| "dl_spec xs DlPopLeft = (tl xs, Popped (if xs = [] then None else Some (hd xs)))"
| "dl_spec xs DlPopRight = (butlast xs, Popped (if xs = [] then None else Some (last xs)))"
| "dl_spec xs (DlAt i) = (xs, Elem (if i < length xs then Inr (Some (xs ! i)) else Inl OutOfRange))"
| "dl_spec xs (DlReset i v) = (xs[i := v], Written (if i < length xs then Inr () else Inl OutOfRange))"
| "dl_spec xs DlFreeRedundant = (xs, Done)"

text \<open>
  Indices are \<open>int\<close> inside \<open>NodeAtIndex\<close>, and \<open>FreeRedundantNodes\<close> is only safe on a list
  with elements.
\<close>

fun dl_ok :: "string list \<Rightarrow> dl_op \<Rightarrow> bool" where
  "dl_ok xs (DlAt i) \<longleftrightarrow> length xs \<le> 2 ^ 31"
| "dl_ok xs (DlReset i v) \<longleftrightarrow> length xs \<le> 2 ^ 31"
| "dl_ok xs DlFreeRedundant \<longleftrightarrow> xs \<noteq> []"
| "dl_ok xs _ \<longleftrightarrow> True"

section \<open>Lemmas on the blocks\<close>

lemma in_block_0 [simp]: "in_block pb 0 j = 0"
  by (simp add: in_block_def)

lemma in_block_Suc_right: "in_block pb (Suc n) j = in_block pb n j + (if j = (pb + n) div 128 then 1 else 0)"
proof -
  define k where "k = (pb + n) div 128"
  then have "128 * k \<le> pb + n" "pb + n < 128 * k + 128" by simp_all
  then show ?thesis unfolding in_block_def k_def [symmetric]
    by (cases j k rule: linorder_cases) (auto simp: min_def max_def)
qed

lemma in_block_Suc_left: "in_block pb (Suc n) j = in_block (Suc pb) n j + (if j = pb div 128 then 1 else 0)"
proof -
  define k where "k = pb div 128"
  then have "128 * k \<le> pb" "pb < 128 * k + 128" by simp_all
  then show ?thesis unfolding in_block_def k_def [symmetric]
    by (cases j k rule: linorder_cases) (auto simp: min_def max_def)
qed

lemma in_block_shift: "in_block (128 + pb) n (Suc j) = in_block pb n j" "in_block (128 + pb) n 0 = 0"
  by (auto simp: in_block_def)

lemma in_block_beyond: "pb + n \<le> 128 * j \<Longrightarrow> in_block pb n j = 0"
  by (auto simp: in_block_def)

lemma pos_div_mod: "p < 128 \<Longrightarrow> (128 * k + p) div 128 = k" "p < 128 \<Longrightarrow> (128 * k + p) mod (128 :: nat) = p"
  by auto

text \<open>Changing one slot and the count of its block.\<close>

lemma slot_update_at:
  assumes "k < length ns" "p < 128" "length (nd_data (ns ! k)) = 128" "nd_data nd = (nd_data (ns ! k))[p := x]"
  shows "slot (ns[k := nd]) q = (if q = 128 * k + p then x else slot ns q)"
proof (cases "q div 128 = k")
  case True
  have "q = 128 * k + q mod 128" using True div_mult_mod_eq [of q 128] by linarith
  then have "q = 128 * k + p \<longleftrightarrow> q mod 128 = p" by linarith
  then show ?thesis using assms True by (simp add: slot_def nth_list_update)
next
  case False
  then have "q \<noteq> 128 * k + p" using assms(2) by auto
  then show ?thesis using False by (simp add: slot_def)
qed

lemma blocks_inv_update:
  assumes inv: "blocks_inv ns pb n" and k: "k < length ns" and p: "p < 128"
    and nd: "nd_data nd = (nd_data (ns ! k))[p := x]" "nd_occupied nd = in_block pb' n' k"
    and occ: "\<And>j. j \<noteq> k \<Longrightarrow> in_block pb' n' j = in_block pb n j"
    and vals: "\<And>i. i < n' \<Longrightarrow> (if pb' + i = 128 * k + p then x else slot ns (pb' + i)) \<noteq> None"
  shows "blocks_inv (ns[k := nd]) pb' n'"
proof -
  have len: "length (nd_data (ns ! k)) = 128" using inv k by (simp add: blocks_inv_def)
  show ?thesis unfolding blocks_inv_def
  proof (intro conjI allI impI)
    fix j assume "j < length (ns[k := nd])"
    then show "length (nd_data (ns[k := nd] ! j)) = 128" "nd_occupied (ns[k := nd] ! j) = in_block pb' n' j"
      using inv nd occ len k by (auto simp: blocks_inv_def nth_list_update)
  next
    fix i assume "i < n'"
    then show "slot (ns[k := nd]) (pb' + i) \<noteq> None"
      using vals slot_update_at [OF k p len nd(1)] by simp
  qed
qed

lemma put_right:
  assumes inv: "blocks_inv ns pb n" and k: "k < length ns" and p: "p < 128" and pos: "pb + n = 128 * k + p"
  shows "blocks_inv (put_elem \<lparr>it_node = k, it_ptr = Some p\<rparr> v ns) pb (Suc n)"
    and "slot (put_elem \<lparr>it_node = k, it_ptr = Some p\<rparr> v ns) q = (if q = pb + n then Some v else slot ns q)"
proof -
  let ?nd = "(ns ! k)\<lparr>nd_data := (nd_data (ns ! k))[p := Some v], nd_occupied := nd_occupied (ns ! k) + 1\<rparr>"
  have len: "length (nd_data (ns ! k)) = 128" using inv k by (simp add: blocks_inv_def)
  have "blocks_inv (ns[k := ?nd]) pb (Suc n)"
    by (rule blocks_inv_update [OF inv k p, where x = "Some v"])
      (use inv k p pos in \<open>auto simp: in_block_Suc_right blocks_inv_def less_Suc_eq\<close>)
  then show "blocks_inv (put_elem \<lparr>it_node = k, it_ptr = Some p\<rparr> v ns) pb (Suc n)"
    by (simp add: put_elem_def Let_def)
  show "slot (put_elem \<lparr>it_node = k, it_ptr = Some p\<rparr> v ns) q = (if q = pb + n then Some v else slot ns q)"
    using slot_update_at [OF k p len, of ?nd "Some v" q] pos by (simp add: put_elem_def Let_def)
qed

lemma put_left:
  assumes inv: "blocks_inv ns (Suc pb) n" and k: "k < length ns" and p: "p < 128" and pos: "pb = 128 * k + p"
  shows "blocks_inv (put_elem \<lparr>it_node = k, it_ptr = Some p\<rparr> v ns) pb (Suc n)"
    and "slot (put_elem \<lparr>it_node = k, it_ptr = Some p\<rparr> v ns) q = (if q = pb then Some v else slot ns q)"
proof -
  let ?nd = "(ns ! k)\<lparr>nd_data := (nd_data (ns ! k))[p := Some v], nd_occupied := nd_occupied (ns ! k) + 1\<rparr>"
  have len: "length (nd_data (ns ! k)) = 128" using inv k by (simp add: blocks_inv_def)
  have vals: "slot ns (pb + i) \<noteq> None" if "i < Suc n" "i \<noteq> 0" for i
    using inv that by (cases i) (auto simp: blocks_inv_def)
  have "blocks_inv (ns[k := ?nd]) pb (Suc n)"
    by (rule blocks_inv_update [OF inv k p, where x = "Some v"])
      (use inv k p pos vals in \<open>auto simp: in_block_Suc_left blocks_inv_def\<close>)
  then show "blocks_inv (put_elem \<lparr>it_node = k, it_ptr = Some p\<rparr> v ns) pb (Suc n)"
    by (simp add: put_elem_def Let_def)
  show "slot (put_elem \<lparr>it_node = k, it_ptr = Some p\<rparr> v ns) q = (if q = pb then Some v else slot ns q)"
    using slot_update_at [OF k p len, of ?nd "Some v" q] pos by (simp add: put_elem_def Let_def)
qed

text \<open>Taking the first or the last element out of its block.\<close>

lemma take_out:
  assumes inv: "blocks_inv ns pb (Suc n)" and k: "k < length ns" and p: "p < 128"
    and pos: "128 * k + p = pb \<and> pb' = Suc pb \<or> 128 * k + p = pb + n \<and> pb' = pb"
    and m: "move_elem \<lparr>it_node = k, it_ptr = Some p\<rparr> (dec_occupied k ns) = (ns', v)"
  shows "blocks_inv ns' pb' n" and "slot ns' q = (if q = 128 * k + p then None else slot ns q)"
    and "v = slot ns (128 * k + p)" and "length ns' = length ns"
proof -
  let ?nd = "(ns ! k)\<lparr>nd_data := (nd_data (ns ! k))[p := None], nd_occupied := nd_occupied (ns ! k) - 1\<rparr>"
  have len: "length (nd_data (ns ! k)) = 128" using inv k by (simp add: blocks_inv_def)
  have "ns' = ns[k := (ns ! k)\<lparr>nd_occupied := nd_occupied (ns ! k) - 1,
      nd_data := (nd_data (ns ! k))[p := None]\<rparr>]"
    using m k by (simp add: move_elem_def dec_occupied_def Let_def)
  then have ns': "ns' = ns[k := ?nd]" by (cases "ns ! k") simp
  show "v = slot ns (128 * k + p)" using m k p by (auto simp: move_elem_def dec_occupied_def Let_def slot_def pos_div_mod)
  show "length ns' = length ns" using ns' by simp
  show "slot ns' q = (if q = 128 * k + p then None else slot ns q)"
    unfolding ns' by (rule slot_update_at [OF k p len]) simp
  have vals: "slot ns (pb + i) \<noteq> None" if "i < Suc n" for i using inv that by (auto simp: blocks_inv_def)
  have dk: "(128 * k + p) div 128 = k" using p by simp
  have oc: "in_block pb (Suc n) j = in_block pb' n j + (if j = k then 1 else 0)" for j
    using pos dk in_block_Suc_right [of pb n j] in_block_Suc_left [of pb n j] by auto
  show "blocks_inv ns' pb' n" unfolding ns'
  proof (rule blocks_inv_update [OF inv k p, where x = None])
    show "nd_occupied ?nd = in_block pb' n k" using inv k oc [of k] by (simp add: blocks_inv_def)
    show "in_block pb' n j = in_block pb (Suc n) j" if "j \<noteq> k" for j using oc [of j] that by simp
    show "(if pb' + i = 128 * k + p then None else slot ns (pb' + i)) \<noteq> None" if "i < n" for i
      using pos vals [of i] vals [of "Suc i"] that by auto
  qed simp
qed

lemma blocks_inv_0: "blocks_inv ns pb 0 \<longleftrightarrow> blocks_inv ns pb' 0"
  by (simp add: blocks_inv_def)

lemma slot_snoc: "q < 128 * length ns \<Longrightarrow> slot (ns @ [nd]) q = slot ns q"
  by (simp add: slot_def nth_append less_mult_imp_div_less mult.commute)

lemma slot_cons: "slot (nd # ns) (128 + q) = slot ns q"
  by (simp add: slot_def)

lemma NewNode_fields [simp]: "length (nd_data NewNode) = 128" "nd_occupied NewNode = 0"
  by (simp_all add: NewNode_def)

lemma blocks_inv_snoc:
  assumes "blocks_inv ns pb n" "pb + n \<le> 128 * length ns"
  shows "blocks_inv (ns @ [NewNode]) pb n"
  using assms by (auto simp: blocks_inv_def nth_append less_Suc_eq in_block_beyond slot_snoc)

lemma blocks_inv_cons: "blocks_inv ns pb n \<Longrightarrow> blocks_inv (NewNode # ns) (128 + pb) n"
  by (auto simp: blocks_inv_def nth_Cons in_block_shift add.assoc slot_cons split: nat.split)

section \<open>Lemmas on the operations\<close>

lemma dl_inv_nonempty:
  assumes "dl_inv d" "dl_len d \<noteq> 0"
  obtains k b m e where "dl_begin d = \<lparr>it_node = k, it_ptr = Some b\<rparr>" "dl_end d = \<lparr>it_node = m, it_ptr = Some e\<rparr>"
    "k < length (dl_nodes d)" "m < length (dl_nodes d)" "b < 128" "e < 128"
    "128 * k + b + dl_len d = 128 * m + e + 1"
    "blocks_inv (dl_nodes d) (128 * k + b) (dl_len d)" "dl_n_nodes d = length (dl_nodes d)"
  using assms by (cases "dl_begin d"; cases "dl_end d") (auto simp: dl_inv_def it_pos_def)

text \<open>
  The state between the two halves of a push: \<open>it\<close> points to the slot that is written, one
  past (or one before) the elements.
\<close>

lemma extend_right_correct:
  assumes inv: "dl_inv d"
  obtains k b m e where "dl_begin (extend_right d) = \<lparr>it_node = k, it_ptr = Some b\<rparr>"
    "dl_end (extend_right d) = \<lparr>it_node = m, it_ptr = Some e\<rparr>"
    "k < length (dl_nodes (extend_right d))" "m < length (dl_nodes (extend_right d))" "b < 128" "e < 128"
    "128 * k + b + dl_len d = 128 * m + e"
    "blocks_inv (dl_nodes (extend_right d)) (128 * k + b) (dl_len d)"
    "dl_n_nodes (extend_right d) = length (dl_nodes (extend_right d))"
    "dl_len (extend_right d) = dl_len d" "dl_slots (extend_right d) = dl_slots d"
proof (cases "dl_len d = 0")
  case True
  then have "it_ptr (dl_begin d) = None" "it_ptr (dl_end d) = None" "it_node (dl_end d) < length (dl_nodes d)"
    "dl_n_nodes d = length (dl_nodes d)" "blocks_inv (dl_nodes d) (128 * it_node (dl_end d) + 0) 0"
    using inv blocks_inv_0 by (auto simp: dl_inv_def)
  then show ?thesis using True
    by (intro that [of "it_node (dl_end d)" 0 "it_node (dl_end d)" 0])
      (cases "dl_end d"; simp add: extend_right_def Let_def dl_slots_def)+
next
  case False
  then obtain k b m e where f: "dl_begin d = \<lparr>it_node = k, it_ptr = Some b\<rparr>"
    "dl_end d = \<lparr>it_node = m, it_ptr = Some e\<rparr>" "k < length (dl_nodes d)" "m < length (dl_nodes d)"
    "b < 128" "e < 128" "128 * k + b + dl_len d = 128 * m + e + 1"
    "blocks_inv (dl_nodes d) (128 * k + b) (dl_len d)" "dl_n_nodes d = length (dl_nodes d)"
    using dl_inv_nonempty [OF inv] by metis
  consider "e \<noteq> 127" | "e = 127" "m + 1 = length (dl_nodes d)" | "e = 127" "m + 1 \<noteq> length (dl_nodes d)" by blast
  then show ?thesis
  proof cases
    case 1
    then show ?thesis using f by (intro that [of k b m "e + 1"]) (simp_all add: extend_right_def dl_slots_def)
  next
    case 2
    then have "blocks_inv (dl_nodes d @ [NewNode]) (128 * k + b) (dl_len d)"
      using f by (intro blocks_inv_snoc) auto
    moreover have "dl_slots (extend_right d) = dl_slots d"
      using f 2 by (auto simp: extend_right_def dl_slots_def it_pos_def intro!: slot_snoc)
    ultimately show ?thesis using f 2
      by (intro that [of k b "m + 1" 0]) (simp_all add: extend_right_def)
  next
    case 3
    then show ?thesis using f by (intro that [of k b "m + 1" 0]) (simp_all add: extend_right_def dl_slots_def)
  qed
qed

lemma extend_left_correct:
  assumes inv: "dl_inv d"
  obtains k b m e where "dl_begin (extend_left d) = \<lparr>it_node = k, it_ptr = Some b\<rparr>"
    "dl_end (extend_left d) = \<lparr>it_node = m, it_ptr = Some e\<rparr>"
    "k < length (dl_nodes (extend_left d))" "m < length (dl_nodes (extend_left d))" "b < 128" "e < 128"
    "128 * k + b + dl_len d = 128 * m + e"
    "blocks_inv (dl_nodes (extend_left d)) (Suc (128 * k + b)) (dl_len d)"
    "dl_n_nodes (extend_left d) = length (dl_nodes (extend_left d))"
    "dl_len (extend_left d) = dl_len d"
    "map (\<lambda>i. slot (dl_nodes (extend_left d)) (Suc (128 * k + b) + i)) [0..<dl_len d] = dl_slots d"
proof (cases "dl_len d = 0")
  case True
  then have "it_ptr (dl_begin d) = None" "it_ptr (dl_end d) = None" "it_node (dl_begin d) < length (dl_nodes d)"
    "dl_n_nodes d = length (dl_nodes d)" "blocks_inv (dl_nodes d) (Suc (128 * it_node (dl_begin d) + 127)) 0"
    using inv blocks_inv_0 by (auto simp: dl_inv_def)
  then show ?thesis using True
    by (intro that [of "it_node (dl_begin d)" 127 "it_node (dl_begin d)" 127])
      (cases "dl_begin d"; simp add: extend_left_def Let_def dl_slots_def)+
next
  case False
  then obtain k b m e where f: "dl_begin d = \<lparr>it_node = k, it_ptr = Some b\<rparr>"
    "dl_end d = \<lparr>it_node = m, it_ptr = Some e\<rparr>" "k < length (dl_nodes d)" "m < length (dl_nodes d)"
    "b < 128" "e < 128" "128 * k + b + dl_len d = 128 * m + e + 1"
    "blocks_inv (dl_nodes d) (128 * k + b) (dl_len d)" "dl_n_nodes d = length (dl_nodes d)"
    using dl_inv_nonempty [OF inv] by metis
  consider "b \<noteq> 0" | "b = 0" "k = 0" | "b = 0" "k \<noteq> 0" by blast
  then show ?thesis
  proof cases
    case 1
    then show ?thesis using f
      by (intro that [of k "b - 1" m e]) (simp_all add: extend_left_def dl_slots_def it_pos_def)
  next
    case 2
    then have "blocks_inv (NewNode # dl_nodes d) (Suc 127) (dl_len d)"
      using f blocks_inv_cons [of "dl_nodes d" 0] by simp
    moreover have "slot (NewNode # dl_nodes d) (Suc (127 + i)) = slot (dl_nodes d) i" for i
      using slot_cons [of NewNode "dl_nodes d" i] by simp
    ultimately show ?thesis using f 2
      by (intro that [of 0 127 "m + 1" e]) (simp_all add: extend_left_def dl_slots_def it_pos_def)
  next
    case 3
    have "Suc (128 * (k - 1) + 127) = 128 * k" using 3(2) by (cases k) simp_all
    then show ?thesis using f 3
      by (intro that [of "k - 1" 127 m e]) (simp_all add: extend_left_def dl_slots_def it_pos_def)
  qed
qed

lemma length_put_elem [simp]: "length (put_elem it v ns) = length ns"
  by (simp add: put_elem_def Let_def)

lemma PushRight_correct [dlist_simps]:
  assumes inv: "dl_inv d"
  shows "dl_inv (DList_PushRight d v)" "dl_slots (DList_PushRight d v) = dl_slots d @ [Some v]"
proof -
  let ?d = "extend_right d"
  obtain k b m e where f: "dl_begin ?d = \<lparr>it_node = k, it_ptr = Some b\<rparr>"
    "dl_end ?d = \<lparr>it_node = m, it_ptr = Some e\<rparr>" "k < length (dl_nodes ?d)" "m < length (dl_nodes ?d)"
    "b < 128" "e < 128" "128 * k + b + dl_len d = 128 * m + e"
    "blocks_inv (dl_nodes ?d) (128 * k + b) (dl_len d)" "dl_n_nodes ?d = length (dl_nodes ?d)"
    "dl_len ?d = dl_len d" "dl_slots ?d = dl_slots d"
    using extend_right_correct [OF inv] .
  note put = put_right [OF f(8,4,6,7)]
  show "dl_inv (DList_PushRight d v)"
    using f put(1) [of v] by (simp add: DList_PushRight_def Let_def dl_inv_def it_pos_def)
  have "dl_slots (DList_PushRight d v) = dl_slots ?d @ [Some v]"
    using f by (simp add: DList_PushRight_def Let_def dl_slots_def it_pos_def put(2))
  then show "dl_slots (DList_PushRight d v) = dl_slots d @ [Some v]" by (simp add: f)
qed

lemma PushLeft_correct [dlist_simps]:
  assumes inv: "dl_inv d"
  shows "dl_inv (DList_PushLeft d v)" "dl_slots (DList_PushLeft d v) = Some v # dl_slots d"
proof -
  let ?d = "extend_left d"
  obtain k b m e where f: "dl_begin ?d = \<lparr>it_node = k, it_ptr = Some b\<rparr>"
    "dl_end ?d = \<lparr>it_node = m, it_ptr = Some e\<rparr>" "k < length (dl_nodes ?d)" "m < length (dl_nodes ?d)"
    "b < 128" "e < 128" "128 * k + b + dl_len d = 128 * m + e"
    "blocks_inv (dl_nodes ?d) (Suc (128 * k + b)) (dl_len d)" "dl_n_nodes ?d = length (dl_nodes ?d)"
    "dl_len ?d = dl_len d"
    "map (\<lambda>i. slot (dl_nodes ?d) (Suc (128 * k + b) + i)) [0..<dl_len d] = dl_slots d"
    using extend_left_correct [OF inv] .
  note put = put_left [OF f(8,3,5) refl]
  show "dl_inv (DList_PushLeft d v)"
    using f put(1) [of v] by (simp add: DList_PushLeft_def Let_def dl_inv_def it_pos_def)
  have up: "[0..<Suc n] = 0 # map Suc [0..<n]" for n by (simp add: map_Suc_upt upt_conv_Cons)
  have "dl_slots (DList_PushLeft d v) =
      Some v # map (\<lambda>i. slot (dl_nodes ?d) (Suc (128 * k + b) + i)) [0..<dl_len d]"
    unfolding dl_slots_def using f
    by (simp add: DList_PushLeft_def Let_def it_pos_def put(2) up comp_def del: upt_Suc)
  then show "dl_slots (DList_PushLeft d v) = Some v # dl_slots d" by (simp only: f(11))
qed

lemma dl_new_inv: "dl_inv DList_new" "dl_slots DList_new = []"
  by (auto simp: DList_new_def dl_inv_def dl_slots_def blocks_inv_def nth_Cons split: nat.split)

lemma same_pos: "b < 128 \<Longrightarrow> e < 128 \<Longrightarrow> 128 * k + b = 128 * m + e \<longleftrightarrow> k = m \<and> b = (e :: nat)"
  by (metis pos_div_mod)

lemma pop_single:
  assumes f: "dl_begin d = \<lparr>it_node = k, it_ptr = Some b\<rparr>" "k < length (dl_nodes d)" "b < 128"
    "blocks_inv (dl_nodes d) (128 * k + b) (Suc 0)" "dl_n_nodes d = length (dl_nodes d)"
    and m: "move_elem \<lparr>it_node = k, it_ptr = Some b\<rparr> (dec_occupied k (dl_nodes d)) = (ns, v)"
  shows "dl_inv (d\<lparr>dl_nodes := ns, dl_begin := \<lparr>it_node = k, it_ptr = None\<rparr>,
      dl_end := \<lparr>it_node = k, it_ptr = None\<rparr>, dl_len := 0\<rparr>)"
proof -
  have "blocks_inv ns (Suc (128 * k + b)) 0" "length ns = length (dl_nodes d)"
    using take_out(1,4) [OF f(4,2,3) _ m, of "Suc (128 * k + b)"] by simp_all
  then show ?thesis using f(2,5) blocks_inv_0 [of ns _ "Suc (128 * k + b)"] by (simp add: dl_inv_def)
qed

lemma PopLeft_correct [dlist_simps]:
  assumes inv: "dl_inv d" and ne: "dl_len d \<noteq> 0" and pop: "DList_PopLeft d = (d', v)"
  shows "dl_inv d'" "dl_slots d = v # dl_slots d'"
proof -
  obtain k b m e where f: "dl_begin d = \<lparr>it_node = k, it_ptr = Some b\<rparr>"
    "dl_end d = \<lparr>it_node = m, it_ptr = Some e\<rparr>" "k < length (dl_nodes d)" "m < length (dl_nodes d)"
    "b < 128" "e < 128" "128 * k + b + dl_len d = 128 * m + e + 1"
    "blocks_inv (dl_nodes d) (128 * k + b) (dl_len d)" "dl_n_nodes d = length (dl_nodes d)"
    using dl_inv_nonempty [OF inv ne] .
  obtain n where n: "dl_len d = Suc n" using ne by (cases "dl_len d") auto
  obtain ns w where mv: "move_elem \<lparr>it_node = k, it_ptr = Some b\<rparr> (dec_occupied k (dl_nodes d)) = (ns, w)"
    by fastforce
  note t = take_out [OF f(8) [unfolded n] f(3,5) _ mv, of "Suc (128 * k + b)"]
  have up: "[0..<Suc n] = 0 # map Suc [0..<n]" for n by (simp add: map_Suc_upt upt_conv_Cons)
  have single: "dl_begin d = dl_end d \<longleftrightarrow> n = 0" using f(1,2,5,6,7) n same_pos [of b e k m] by auto
  have slots: "dl_slots d = w # map (\<lambda>i. slot ns (Suc (128 * k + b) + i)) [0..<n]"
    unfolding dl_slots_def n up using f t(2,3) by (simp add: it_pos_def)
  have "dl_inv d' \<and> dl_slots d' = map (\<lambda>i. slot ns (Suc (128 * k + b) + i)) [0..<n] \<and> v = w"
  proof (cases "n = 0")
    case True
    then have "d' = d\<lparr>dl_nodes := ns, dl_begin := \<lparr>it_node = k, it_ptr = None\<rparr>,
        dl_end := \<lparr>it_node = k, it_ptr = None\<rparr>, dl_len := 0\<rparr>" "v = w"
      using pop mv single f n by (auto simp: DList_PopLeft_def DList_Empty_def Let_def)
    then show ?thesis using pop_single [OF f(1,3,5) _ f(9) mv] f(8) n True by (simp add: dl_slots_def)
  next
    case False
    then have "d' = d\<lparr>dl_nodes := ns, dl_len := n, dl_begin := (if b = 127
        then \<lparr>it_node = k + 1, it_ptr = Some 0\<rparr> else \<lparr>it_node = k, it_ptr = Some (b + 1)\<rparr>)\<rparr>" "v = w"
      using pop mv single f n by (auto simp: DList_PopLeft_def DList_Empty_def Let_def split: if_splits)
    then show ?thesis using f n False t
      by (auto simp: dl_inv_def dl_slots_def it_pos_def add.assoc)
  qed
  then show "dl_inv d'" "dl_slots d = v # dl_slots d'" using slots by simp_all
qed

lemma PopRight_correct [dlist_simps]:
  assumes inv: "dl_inv d" and ne: "dl_len d \<noteq> 0" and pop: "DList_PopRight d = (d', v)"
  shows "dl_inv d'" "dl_slots d = dl_slots d' @ [v]"
proof -
  obtain k b m e where f: "dl_begin d = \<lparr>it_node = k, it_ptr = Some b\<rparr>"
    "dl_end d = \<lparr>it_node = m, it_ptr = Some e\<rparr>" "k < length (dl_nodes d)" "m < length (dl_nodes d)"
    "b < 128" "e < 128" "128 * k + b + dl_len d = 128 * m + e + 1"
    "blocks_inv (dl_nodes d) (128 * k + b) (dl_len d)" "dl_n_nodes d = length (dl_nodes d)"
    using dl_inv_nonempty [OF inv ne] .
  obtain n where n: "dl_len d = Suc n" using ne by (cases "dl_len d") auto
  obtain ns w where mv: "move_elem \<lparr>it_node = m, it_ptr = Some e\<rparr> (dec_occupied m (dl_nodes d)) = (ns, w)"
    by fastforce
  note t = take_out [OF f(8) [unfolded n] f(4,6) _ mv, of "128 * k + b"]
  have pos: "128 * m + e = 128 * k + b + n" using f(7) n by simp
  have single: "dl_begin d = dl_end d \<longleftrightarrow> n = 0" using f(1,2,5,6,7) n same_pos [of b e k m] by auto
  have slots: "dl_slots d = map (\<lambda>i. slot ns (128 * k + b + i)) [0..<n] @ [w]"
    unfolding dl_slots_def n using f t(2,3) pos by (simp add: it_pos_def)
  have "dl_inv d' \<and> dl_slots d' = map (\<lambda>i. slot ns (128 * k + b + i)) [0..<n] \<and> v = w"
  proof (cases "n = 0")
    case True
    then have "d' = d\<lparr>dl_nodes := ns, dl_begin := \<lparr>it_node = k, it_ptr = None\<rparr>,
        dl_end := \<lparr>it_node = k, it_ptr = None\<rparr>, dl_len := 0\<rparr>" "v = w"
      using pop mv single f n by (auto simp: DList_PopRight_def DList_Empty_def Let_def)
    then show ?thesis using pop_single [OF f(1,3,5) _ f(9), of ns w] f n True single mv by (simp add: dl_slots_def)
  next
    case False
    then have "d' = d\<lparr>dl_nodes := ns, dl_len := n, dl_end := (if e = 0
        then \<lparr>it_node = m - 1, it_ptr = Some 127\<rparr> else \<lparr>it_node = m, it_ptr = Some (e - 1)\<rparr>)\<rparr>" "v = w"
      using pop mv single f n by (auto simp: DList_PopRight_def DList_Empty_def Let_def split: if_splits)
    then show ?thesis using f n False t pos
      by (auto simp: dl_inv_def dl_slots_def it_pos_def)
  qed
  then show "dl_inv d'" "dl_slots d = dl_slots d' @ [v]" using slots by simp_all
qed

section \<open>Lemmas on access by index\<close>

lemma pos_below_length: "128 * n + p < 128 * length ns \<Longrightarrow> n < length (ns :: dnode list)"
  by simp

lemma end_in_chain:
  assumes "dl_inv d" "dl_len d \<noteq> 0"
  shows "it_pos (dl_begin d) + dl_len d \<le> 128 * length (dl_nodes d)"
proof -
  have "it_node (dl_end d) < length (dl_nodes d)" "the (it_ptr (dl_end d)) < 128"
    "it_pos (dl_begin d) + dl_len d = it_pos (dl_end d) + 1"
    using assms by (auto simp: dl_inv_def)
  then show ?thesis by (simp add: it_pos_def)
qed

lemma first_occupied:
  assumes "blocks_inv ns (128 * k + b) n" "k < length ns" "b < 128"
  shows "nd_occupied (ns ! k) = min (128 - b) n"
proof -
  have "nd_occupied (ns ! k) = in_block (128 * k + b) n k" using assms by (simp add: blocks_inv_def)
  then show ?thesis using assms(3) by (auto simp: in_block_def min_def)
qed

lemma NodeAtIndex_correct:
  assumes inv: "dl_inv d" and i: "i < dl_len d" and small: "dl_len d \<le> 2 ^ 31"
    and it: "it_ptr (dl_begin d) = Some b"
  shows "if i < occupied_at d (it_node (dl_begin d))
    then NodeAtIndex d (int i) = Inr (Some (it_node (dl_begin d)), - 1, int i) \<and> b + i < 128
    else \<exists>n c p. NodeAtIndex d (int i) = Inr (Some n, c, int p) \<and> p < 128 \<and> n < length (dl_nodes d) \<and>
           it_node (dl_begin d) < n \<and> 128 * n + p = it_pos (dl_begin d) + i"
proof -
  let ?k = "it_node (dl_begin d)"
  have f: "?k < length (dl_nodes d)" "b < 128" "it_pos (dl_begin d) = 128 * ?k + b"
    "blocks_inv (dl_nodes d) (128 * ?k + b) (dl_len d)"
    using inv i it by (auto simp: dl_inv_def it_pos_def split: if_splits)
  define occ where "occ = occupied_at d ?k"
  have occ: "occ = min (128 - b) (dl_len d)"
    using first_occupied [OF f(4,1,2)] by (simp add: occ_def occupied_at_def)
  have m: "int i mod 2 ^ 64 = int i" using i small by simp
  show ?thesis
  proof (cases "i < occ")
    case True
    have "wrap32 (int i) = int i" using i small by (intro wrap32_id) (simp add: in_int32_def)
    then show ?thesis using True m occ by (auto simp: NodeAtIndex_def Let_def occ_def [symmetric])
  next
    case False
    let ?q = "i - occ"
    have o: "occ = 128 - b" using False occ i by simp
    have w: "wrap32 (int i - int occ) = int ?q"
      using i small False by (subst wrap32_id) (auto simp: in_int32_def of_nat_diff)
    have dm: "int ?q sdiv 128 = int (?q div 128)" "int ?q smod 128 = int (?q mod 128)"
      by (simp_all add: signed_divide_int_def signed_modulo_int_def of_nat_div of_nat_mod sgn_if)
    let ?n = "?k + 1 + ?q div 128"
    have pos: "128 * ?n + ?q mod 128 = it_pos (dl_begin d) + i"
      using f o False div_mult_mod_eq [of ?q 128] by simp
    then have "128 * ?n + ?q mod 128 < 128 * length (dl_nodes d)"
      using end_in_chain [OF inv] i by linarith
    then have n: "?n < length (dl_nodes d)" by (rule pos_below_length)
    have "nat (int (?q div 128) + 1) = ?q div 128 + 1" by simp
    then have "NodeAtIndex d (int i) = Inr (Some ?n, int (?q div 128), int (?q mod 128))"
      using False m w dm n by (simp add: NodeAtIndex_def Let_def occ_def [symmetric] nat_add_distrib)
    then show ?thesis using False pos n unfolding occ_def [symmetric]
      by (simp only: if_False) (intro exI [of _ ?n] exI [of _ "int (?q div 128)"] exI [of _ "?q mod 128"], simp)
  qed
qed

lemma DList_elem_correct:
  assumes inv: "dl_inv d" and i: "i < dl_len d" and small: "dl_len d \<le> 2 ^ 31"
  obtains n p where "DList_elem d i = Inr (n, p)" "p < 128" "n < length (dl_nodes d)"
    "128 * n + p = it_pos (dl_begin d) + i"
proof -
  obtain b where b: "it_ptr (dl_begin d) = Some b" "it_node (dl_begin d) < length (dl_nodes d)"
    using inv i by (auto simp: dl_inv_def split: if_splits)
  note na = NodeAtIndex_correct [OF inv i small b(1)]
  show ?thesis
  proof (cases "i < occupied_at d (it_node (dl_begin d))")
    case True
    then show ?thesis using na i b
      by (intro that [of "it_node (dl_begin d)" "b + i"]) (simp_all add: DList_elem_def Let_def it_pos_def)
  next
    case False
    then obtain n c p where "NodeAtIndex d (int i) = Inr (Some n, c, int p)" "p < 128" "n < length (dl_nodes d)"
      "128 * n + p = it_pos (dl_begin d) + i" using na by auto
    then show ?thesis using False i by (intro that [of n p]) (simp_all add: DList_elem_def Let_def)
  qed
qed

lemma DList_index_correct [dlist_simps]:
  assumes "dl_inv d" "dl_len d \<le> 2 ^ 31"
  shows "DList_index d i = (if i < dl_len d then Inr (dl_slots d ! i) else Inl OutOfRange)"
proof (cases "i < dl_len d")
  case True
  then obtain n p where "DList_elem d i = Inr (n, p)" "p < 128" "n < length (dl_nodes d)"
    "128 * n + p = it_pos (dl_begin d) + i" using DList_elem_correct [OF assms(1) True assms(2)] by metis
  then show ?thesis using True
    by (simp add: DList_index_def dl_slots_def slot_def pos_div_mod flip: \<open>128 * n + p = _\<close>)
qed (simp add: DList_index_def DList_elem_def)

lemma DList_index_Reset_correct [dlist_simps]:
  assumes inv: "dl_inv d" and small: "dl_len d \<le> 2 ^ 31" and r: "DList_index_Reset d i v = (d', r)"
  shows "dl_inv d' \<and> dl_len d' = dl_len d \<and> dl_slots d' = (dl_slots d)[i := Some v] \<and>
    r = (if i < dl_len d then Inr () else Inl OutOfRange)"
proof (cases "i < dl_len d")
  case True
  then obtain n p where e: "DList_elem d i = Inr (n, p)" "p < 128" "n < length (dl_nodes d)"
    "128 * n + p = it_pos (dl_begin d) + i" using DList_elem_correct [OF inv True small] by metis
  let ?nd = "(dl_nodes d ! n)\<lparr>nd_data := (nd_data (dl_nodes d ! n))[p := Some v]\<rparr>"
  have d': "d' = d\<lparr>dl_nodes := (dl_nodes d)[n := ?nd]\<rparr>" "r = Inr ()"
    using r e by (auto simp: DList_index_Reset_def Let_def)
  have bi: "blocks_inv (dl_nodes d) (it_pos (dl_begin d)) (dl_len d)" using inv by (simp add: dl_inv_def)
  have "blocks_inv ((dl_nodes d)[n := ?nd]) (it_pos (dl_begin d)) (dl_len d)"
    by (rule blocks_inv_update [OF bi e(3,2), where x = "Some v"])
      (use bi e in \<open>auto simp: blocks_inv_def\<close>)
  moreover have "slot ((dl_nodes d)[n := ?nd]) q = (if q = it_pos (dl_begin d) + i then Some v else slot (dl_nodes d) q)" for q
    using slot_update_at [OF e(3,2), of ?nd "Some v" q] bi e by (auto simp: blocks_inv_def)
  ultimately show ?thesis using inv d' True
    by (auto simp: dl_inv_def dl_slots_def list_eq_iff_nth_eq nth_list_update)
next
  case False
  then have "d' = d" "r = Inl OutOfRange" using r by (auto simp: DList_index_Reset_def DList_elem_def)
  then show ?thesis using False inv by (simp add: dl_slots_def list_update_beyond)
qed

section \<open>Lemmas on ranges\<close>

lemma block_read:
  assumes "blocks_inv ns pb len" "n < length ns" "p + c \<le> 128"
  shows "take c (drop p (nd_data (ns ! n))) = map (slot ns) [128 * n + p..<128 * n + p + c]"
proof (rule nth_equalityI)
  have len: "length (nd_data (ns ! n)) = 128" using assms by (simp add: blocks_inv_def)
  then show "length (take c (drop p (nd_data (ns ! n)))) = length (map (slot ns) [128 * n + p..<128 * n + p + c])"
    using assms by simp
  fix i assume "i < length (take c (drop p (nd_data (ns ! n))))"
  then have i: "i < c" "p + i < 128" using assms len by simp_all
  have "slot ns (128 * n + (p + i)) = nd_data (ns ! n) ! (p + i)"
    using i by (simp only: slot_def pos_div_mod)
  then show "take c (drop p (nd_data (ns ! n))) ! i = map (slot ns) [128 * n + p..<128 * n + p + c] ! i"
    using i len assms by (simp add: add.assoc)
qed

lemma occupied_pos:
  assumes "blocks_inv ns pb len" "n < length ns" "p < 128" "pb \<le> 128 * n + p" "128 * n + p < pb + len"
  shows "0 < nd_occupied (ns ! n)"
proof -
  have "nd_occupied (ns ! n) = in_block pb len n" using assms by (simp add: blocks_inv_def)
  then show ?thesis using assms(3-5) by (auto simp: in_block_def min_def max_def)
qed

lemma range_loop_correct:
  assumes "blocks_inv ns pb len" "pb + len \<le> 128 * length ns" "p < 128" "pb \<le> 128 * n + p"
    "128 * n + p + c \<le> pb + len"
  shows "range_loop (drop n ns) (int p) (int c) = Inr (map (slot ns) [128 * n + p..<128 * n + p + c])"
  using assms(3-)
proof (induction "length ns - n" arbitrary: n p c rule: less_induct)
  case less
  show ?case
  proof (cases "c = 0")
    case True
    then show ?thesis by (cases "drop n ns") simp_all
  next
    case False
    then have "128 * n + p < 128 * length ns" using less.prems assms(2) by linarith
    then have n: "n < length ns" by (rule pos_below_length)
    have occ: "0 < nd_occupied (ns ! n)"
      using occupied_pos [OF assms(1) n less.prems(1,2)] less.prems False by simp
    let ?k = "min (128 - p) c"
    have k: "min (128 - int p) (int c) = int ?k" using less.prems(1) by (auto simp: min_def of_nat_diff)
    have rest: "range_loop (drop (Suc n) ns) 0 (int (c - ?k)) =
        Inr (map (slot ns) [128 * Suc n..<128 * Suc n + (c - ?k)])"
    proof (cases "c \<le> 128 - p")
      case True
      then show ?thesis by (cases "drop (Suc n) ns") simp_all
    next
      case False
      then show ?thesis using less.hyps [of "Suc n" 0 "c - ?k"] less.prems n by simp
    qed
    have cat: "[128 * n + p..<128 * n + p + ?k] @ [128 * Suc n..<128 * Suc n + (c - ?k)] =
        [128 * n + p..<128 * n + p + c]"
      using less.prems(1) upt_add_eq_append [of "128 * n + p" "128 * n + p + ?k" "c - ?k"]
      by (cases "c \<le> 128 - p") (simp_all add: ac_simps)
    have "range_loop (drop n ns) (int p) (int c) =
        map_sum id (\<lambda>rest. take ?k (drop p (nd_data (ns ! n))) @ rest) (range_loop (drop (Suc n) ns) 0 (int (c - ?k)))"
      using n occ False less.prems(1) k by (simp add: Cons_nth_drop_Suc [symmetric] Let_def of_nat_diff)
    also have "\<dots> = Inr (map (slot ns) [128 * n + p..<128 * n + p + ?k] @
        map (slot ns) [128 * Suc n..<128 * Suc n + (c - ?k)])"
      unfolding rest using block_read [OF assms(1) n, of p ?k] less.prems(1) by simp
    also have "\<dots> = Inr (map (slot ns) [128 * n + p..<128 * n + p + c])"
      by (simp only: map_append [symmetric] cat)
    finally show ?thesis .
  qed
qed

lemma range_all_loop_correct:
  assumes "blocks_inv ns pb len" "pb + len \<le> 128 * length ns" "128 * n + p = max (128 * n) pb" "p < 128"
  shows "range_all_loop (drop n ns) p = Inr (map (slot ns) [128 * n + p..<pb + len])"
  using assms(3-)
proof (induction "length ns - n" arbitrary: n p rule: less_induct)
  case less
  show ?case
  proof (cases "128 * n + p < pb + len")
    case True
    then have "128 * n + p < 128 * length ns" using assms(2) by linarith
    then have n: "n < length ns" by (rule pos_below_length)
    have occ: "0 < nd_occupied (ns ! n)"
      using occupied_pos [OF assms(1) n less.prems(2)] less.prems True by simp
    let ?k = "nd_occupied (ns ! n)"
    have k: "?k = min (128 * n + 128) (pb + len) - (128 * n + p)"
      using assms(1) n less.prems(1) by (simp add: blocks_inv_def in_block_def)
    have pk: "p + ?k \<le> 128" using k less.prems(2) by linarith
    have rest: "range_all_loop (drop (Suc n) ns) 0 = Inr (map (slot ns) [128 * Suc n..<pb + len])"
      using less.hyps [of "Suc n" 0] n less.prems by simp
    have cat: "[128 * n + p..<128 * n + p + ?k] @ [128 * Suc n..<pb + len] = [128 * n + p..<pb + len]"
    proof (cases "pb + len \<le> 128 * Suc n")
      case True
      then show ?thesis using k \<open>128 * n + p < pb + len\<close> by simp
    next
      case False
      then have e: "128 * n + p + ?k = 128 * Suc n" using k less.prems(2) by simp
      have "[128 * n + p..<128 * Suc n + (pb + len - 128 * Suc n)] =
          [128 * n + p..<128 * Suc n] @ [128 * Suc n..<128 * Suc n + (pb + len - 128 * Suc n)]"
        by (rule upt_add_eq_append) (use less.prems(2) in simp)
      then show ?thesis unfolding e using False by simp
    qed
    show ?thesis using n occ pk rest block_read [OF assms(1) n pk] cat
      by (simp add: Cons_nth_drop_Suc [symmetric] map_append [symmetric] del: map_append)
  next
    case False
    then have "in_block pb len n = 0" using less.prems(1) unfolding in_block_def by linarith
    then have "range_all_loop (drop n ns) p = Inr []"
      using assms(1) by (cases "n < length ns") (simp_all add: Cons_nth_drop_Suc [symmetric] blocks_inv_def)
    then show ?thesis using False by simp
  qed
qed

lemma slots_as_range: "dl_slots d = map (slot (dl_nodes d)) [it_pos (dl_begin d)..<it_pos (dl_begin d) + dl_len d]"
  by (rule nth_equalityI) (simp_all add: dl_slots_def)

lemma DList_RangeAll_loop:
  assumes inv: "dl_inv d" and ne: "dl_len d \<noteq> 0" and b: "it_ptr (dl_begin d) = Some b"
  shows "range_all_loop (drop (it_node (dl_begin d)) (dl_nodes d)) b = Inr (dl_slots d)"
proof -
  have i: "blocks_inv (dl_nodes d) (it_pos (dl_begin d)) (dl_len d)" "b < 128" using inv ne b by (auto simp: dl_inv_def)
  have pos: "it_pos (dl_begin d) = 128 * it_node (dl_begin d) + b" by (simp add: it_pos_def b)
  have "range_all_loop (drop (it_node (dl_begin d)) (dl_nodes d)) b =
      Inr (map (slot (dl_nodes d)) [128 * it_node (dl_begin d) + b..<it_pos (dl_begin d) + dl_len d])"
    by (rule range_all_loop_correct [OF i(1) end_in_chain [OF inv ne] _ i(2)]) (simp add: pos)
  then show ?thesis by (simp only: slots_as_range pos)
qed

lemma DList_RangeAll_correct [dlist_simps]:
  assumes inv: "dl_inv d"
  shows "DList_RangeAll d = Inr (dl_slots d)"
proof (cases "dl_len d = 0")
  case False
  then obtain b where "it_ptr (dl_begin d) = Some b" using inv by (auto simp: dl_inv_def)
  then show ?thesis using DList_RangeAll_loop [OF inv False] False by (simp add: DList_RangeAll_def DList_Empty_def)
qed (simp add: DList_RangeAll_def DList_Empty_def dl_slots_def)

lemma serialize_nodes_range:
  "range_all_loop nds off = Inr xs \<Longrightarrow>
   serialize_nodes nds off buf = Inr (fold (\<lambda>x out. put_str (contents x) out) xs buf)"
proof (induction nds arbitrary: off xs buf)
  case (Cons nd nds)
  then show ?case by (cases "range_all_loop nds 0") (auto split: if_splits)
qed simp

lemma DList_Serialize_correct [dlist_simps]:
  assumes inv: "dl_inv d"
  shows "DList_Serialize d buf =
    (let out = fold put_str (dl_abs d) (put_count (dl_len d) buf)
     in Inr (if dl_len d = 0 then (buf, 0) else (out, length out)))"
proof (cases "dl_len d = 0")
  case False
  then obtain b where "it_ptr (dl_begin d) = Some b" using inv by (auto simp: dl_inv_def)
  then show ?thesis using serialize_nodes_range [OF DList_RangeAll_loop [OF inv False]] False
    by (simp add: DList_Serialize_def DList_Empty_def dl_abs_def fold_map comp_def Let_def)
qed (simp add: DList_Serialize_def DList_Empty_def)

lemma DList_Range_correct [dlist_simps]:
  assumes inv: "dl_inv d" and small: "dl_len d < 2 ^ 31"
    and r: "start < dl_len d" "start \<le> finish" "finish < 2 ^ 31"
  shows "DList_Range d (int start) (int finish) =
    Inr (take (min finish (dl_len d - 1) + 1 - start) (drop start (dl_slots d)))"
proof -
  let ?pb = "it_pos (dl_begin d)" and ?c = "min finish (dl_len d - 1) + 1 - start"
  obtain b where b: "it_ptr (dl_begin d) = Some b" "b < 128" using inv r(1) by (auto simp: dl_inv_def)
  have bi: "blocks_inv (dl_nodes d) ?pb (dl_len d)" using inv by (simp add: dl_inv_def)
  have ec: "?pb + dl_len d \<le> 128 * length (dl_nodes d)" using end_in_chain [OF inv] r(1) by simp
  have w: "wrap32 (int (dl_len d) - 1) = int (dl_len d - 1)"
    using small r(1) by (subst wrap32_id) (auto simp: in_int32_def of_nat_diff)
  have dist: "wrap32 (min (int finish) (int (dl_len d - 1)) - int start + 1) = int ?c"
    using small r by (subst wrap32_id) (auto simp: in_int32_def of_nat_diff min_def)
  have c: "?c \<le> dl_len d - start" using r by simp
  have loop: "range_loop (drop n (dl_nodes d)) (int p) (int ?c) =
      Inr (take ?c (drop start (dl_slots d)))"
    if "p < 128" "128 * n + p = ?pb + start" for n p
    using range_loop_correct [OF bi ec that(1), of n ?c] that(2) r c
    by (simp add: slots_as_range take_map drop_map)
  show ?thesis
  proof (cases "start < occupied_at d (it_node (dl_begin d))")
    case True
    then have "NodeAtIndex d (int start) = Inr (Some (it_node (dl_begin d)), - 1, int start)" "b + start < 128"
      using NodeAtIndex_correct [OF inv r(1) less_imp_le [OF small] b(1)] by auto
    then show ?thesis using r b w dist loop [of "b + start" "it_node (dl_begin d)"]
      by (simp add: DList_Range_def DList_Empty_def Let_def it_pos_def add.assoc)
  next
    case False
    then obtain n c p where "NodeAtIndex d (int start) = Inr (Some n, c, int p)" "p < 128"
      "it_node (dl_begin d) < n" "128 * n + p = ?pb + start"
      using NodeAtIndex_correct [OF inv r(1) less_imp_le [OF small] b(1)] by auto
    then show ?thesis using r w dist loop [of p n]
      by (simp add: DList_Range_def DList_Empty_def Let_def)
  qed
qed

section \<open>Lemmas on freeing nodes\<close>

lemma free_end_correct:
  assumes "keep < length ns" "nd_occupied (ns ! keep) \<noteq> 0"
  shows "\<exists>r \<le> keep. free_end ns keep = Inr (drop r ns, keep - r)"
  using assms
proof (induction ns arbitrary: keep)
  case (Cons nd ns)
  show ?case
  proof (cases "nd_occupied nd = 0 \<and> keep \<noteq> 1")
    case True
    then obtain k where k: "keep = Suc k" using Cons.prems by (cases keep) auto
    then obtain r where "r \<le> k" "free_end ns k = Inr (drop r ns, k - r)" using Cons by auto
    then show ?thesis using True k Cons.prems by (intro exI [of _ "Suc r"]) auto
  qed (auto intro: exI [of _ 0])
qed simp

lemma in_block_drop: "128 * r \<le> pb \<Longrightarrow> in_block (pb - 128 * r) n j = in_block pb n (r + j)"
  by (auto simp: in_block_def min_def max_def)

lemma slot_drop: "r \<le> length ns \<Longrightarrow> slot (drop r ns) q = slot ns (128 * r + q)"
  by (simp add: slot_def)

lemma blocks_inv_drop:
  assumes "blocks_inv ns pb n" "128 * r \<le> pb" "r \<le> length ns"
  shows "blocks_inv (drop r ns) (pb - 128 * r) n"
  using assms by (auto simp: blocks_inv_def in_block_drop slot_drop add.assoc [symmetric])

lemma slot_take: "q < 128 * l \<Longrightarrow> slot (take l ns) q = slot ns q"
  by (simp add: slot_def less_mult_imp_div_less mult.commute)

lemma blocks_inv_take:
  assumes "blocks_inv ns pb n" "pb + n \<le> 128 * l"
  shows "blocks_inv (take l ns) pb n"
  using assms by (auto simp: blocks_inv_def slot_take)

text \<open>Cutting \<open>r\<close> blocks off the left end and all but \<open>l\<close> of the rest off the right end.\<close>

lemma cut_nodes:
  assumes inv: "dl_inv d" and f: "dl_begin d = \<lparr>it_node = k, it_ptr = Some b\<rparr>"
    "dl_end d = \<lparr>it_node = m, it_ptr = Some e\<rparr>" and ne: "dl_len d \<noteq> 0"
    and r: "r \<le> k" and l: "m - r < l" "l \<le> length (dl_nodes d) - r"
    and d': "d' = d\<lparr>dl_nodes := take l (drop r (dl_nodes d)), dl_begin := (dl_begin d)\<lparr>it_node := k - r\<rparr>,
      dl_end := (dl_end d)\<lparr>it_node := m - r\<rparr>, dl_n_nodes := l\<rparr>"
  shows "dl_inv d' \<and> dl_slots d' = dl_slots d"
proof -
  let ?ns = "drop r (dl_nodes d)" and ?pb = "128 * (k - r) + b"
  have i: "k < length (dl_nodes d)" "m < length (dl_nodes d)" "b < 128" "e < 128"
    "128 * k + b + dl_len d = 128 * m + e + 1" "blocks_inv (dl_nodes d) (128 * k + b) (dl_len d)"
    using inv f ne by (auto simp: dl_inv_def it_pos_def)
  have km: "k \<le> m" using i ne by linarith
  have pb: "?pb = 128 * k + b - 128 * r" using r by (simp add: diff_mult_distrib2)
  have bound: "?pb + dl_len d \<le> 128 * l" using i r l km pb by linarith
  have bi: "blocks_inv (take l ?ns) ?pb (dl_len d)"
    unfolding pb using bound i r unfolding pb by (intro blocks_inv_take blocks_inv_drop) auto
  have "slot (take l ?ns) (?pb + j) = slot (dl_nodes d) (128 * k + b + j)" if "j < dl_len d" for j
  proof -
    have "slot (take l ?ns) (?pb + j) = slot ?ns (?pb + j)" using that bound by (intro slot_take) linarith
    also have "\<dots> = slot (dl_nodes d) (128 * r + (?pb + j))" using i r by (intro slot_drop) simp
    also have "128 * r + (?pb + j) = 128 * k + b + j" using r pb by linarith
    finally show ?thesis .
  qed
  then have "dl_slots d' = dl_slots d" using d' f by (simp add: dl_slots_def it_pos_def)
  moreover have "128 * (k - r) + b + dl_len d = Suc (128 * (m - r) + e)"
    using i(5) r km by (simp add: diff_mult_distrib2)
  ultimately show ?thesis using d' f i r l km bi ne by (simp add: dl_inv_def it_pos_def)
qed

lemma FreeRedundantNodes_correct [dlist_simps]:
  assumes inv: "dl_inv d" and ne: "dl_len d \<noteq> 0"
  shows "\<exists>d'. DList_FreeRedundantNodes d = Inr d' \<and> dl_inv d' \<and> dl_slots d' = dl_slots d"
proof (cases "dl_len d * 2 \<le> dl_n_nodes d * 128")
  case True
  obtain k b m e where f: "dl_begin d = \<lparr>it_node = k, it_ptr = Some b\<rparr>"
    "dl_end d = \<lparr>it_node = m, it_ptr = Some e\<rparr>" "k < length (dl_nodes d)" "m < length (dl_nodes d)"
    "b < 128" "e < 128" "128 * k + b + dl_len d = 128 * m + e + 1"
    "blocks_inv (dl_nodes d) (128 * k + b) (dl_len d)" "dl_n_nodes d = length (dl_nodes d)"
    using dl_inv_nonempty [OF inv ne] .
  have "nd_occupied (dl_nodes d ! k) \<noteq> 0" using occupied_pos [OF f(8,3,5)] ne by simp
  then obtain r where r: "r \<le> k" "free_end (dl_nodes d) k = Inr (drop r (dl_nodes d), k - r)"
    using free_end_correct [OF f(3)] by auto
  let ?ns = "drop r (dl_nodes d)"
  have km: "k \<le> m" using f ne by linarith
  have e1: "m - (length (dl_nodes d) - length ?ns) = m - r" using f(3) r by simp
  let ?keep = "length ?ns - 1 - (m - r)"
  have keep: "?keep < length (rev ?ns)" "rev ?ns ! ?keep = dl_nodes d ! m"
    using f(4) r km by (simp_all add: rev_nth)
  have "nd_occupied (dl_nodes d ! m) \<noteq> 0" using occupied_pos [OF f(8,4,6)] f(7) ne by simp
  then obtain r2 where r2: "r2 \<le> ?keep" "free_end (rev ?ns) ?keep = Inr (drop r2 (rev ?ns), ?keep - r2)"
    using free_end_correct [OF keep(1)] keep(2) by auto
  let ?l = "length ?ns - r2"
  let ?d' = "d\<lparr>dl_nodes := take ?l ?ns, dl_begin := (dl_begin d)\<lparr>it_node := k - r\<rparr>,
      dl_end := (dl_end d)\<lparr>it_node := m - r\<rparr>, dl_n_nodes := ?l\<rparr>"
  have n: "dl_n_nodes d - (length (dl_nodes d) - length (drop r2 (rev ?ns))) = ?l"
    using f(4,9) r r2 km by simp
  have "DList_FreeRedundantNodes d = Inr ?d'"
    unfolding DList_FreeRedundantNodes_def Let_def
    using True f(1,2) r(2) r2(2) e1 n rev_drop [of r2 "rev ?ns"] by simp
  moreover have "m - r < ?l" "?l \<le> length (dl_nodes d) - r" using r2 f(4) r km by simp_all
  ultimately show ?thesis using cut_nodes [OF inv f(1,2) ne r(1), of ?l ?d'] by simp
next
  case False
  then show ?thesis using inv by (simp add: DList_FreeRedundantNodes_def Let_def)
qed

section \<open>Refinement\<close>

lemma slots_Some: "dl_inv d \<Longrightarrow> dl_slots d = map Some (dl_abs d)"
  by (auto simp: dl_abs_def dl_slots_def dl_inv_def blocks_inv_def contents_def split: option.splits
      intro!: nth_equalityI)

lemma length_dl_abs [simp]: "length (dl_abs d) = dl_len d"
  by (simp add: dl_abs_def dl_slots_def)

lemma contents_Some [simp]: "contents (Some s) = s"
  by (simp add: contents_def)

lemma dl_step_correct:
  assumes inv: "dl_inv d" and ok: "dl_ok (dl_abs d) c" and step: "dl_step d c = (d', r)"
  shows "dl_inv d' \<and> dl_spec (dl_abs d) c = (dl_abs d', r)"
proof (cases c)
  case (DlPushLeft v)
  then show ?thesis using step PushLeft_correct [OF inv, of v] by (auto simp: dl_abs_def)
next
  case (DlPushRight v)
  then show ?thesis using step PushRight_correct [OF inv, of v] by (auto simp: dl_abs_def)
next
  case DlPopLeft
  show ?thesis
  proof (cases "dl_len d = 0")
    case False
    obtain v where v: "DList_PopLeft d = (d', v)" "r = Popped v" using step DlPopLeft by (auto split: prod.splits)
    note pop = PopLeft_correct [OF inv False v(1)]
    have "map Some (dl_abs d) = v # map Some (dl_abs d')" using pop slots_Some inv by metis
    then show ?thesis using pop(1) v DlPopLeft by (cases "dl_abs d") (auto simp: inj_map_eq_map)
  qed (use step inv DlPopLeft in \<open>auto simp: DList_PopLeft_def DList_Empty_def dl_abs_def dl_slots_def\<close>)
next
  case DlPopRight
  show ?thesis
  proof (cases "dl_len d = 0")
    case False
    obtain v where v: "DList_PopRight d = (d', v)" "r = Popped v" using step DlPopRight by (auto split: prod.splits)
    note pop = PopRight_correct [OF inv False v(1)]
    have "map Some (dl_abs d) = map Some (dl_abs d') @ [v]" using pop slots_Some inv by metis
    then show ?thesis using pop(1) v DlPopRight by (cases "dl_abs d" rule: rev_cases) (auto simp: inj_map_eq_map)
  qed (use step inv DlPopRight in \<open>auto simp: DList_PopRight_def DList_Empty_def dl_abs_def dl_slots_def\<close>)
next
  case (DlAt i)
  then show ?thesis using step inv ok by (auto simp: DList_index_correct slots_Some)
next
  case (DlReset i v)
  then obtain u where "DList_index_Reset d i v = (d', u)" "r = Written u" using step by (auto split: prod.splits)
  then show ?thesis using DList_index_Reset_correct [OF inv _ \<open>DList_index_Reset d i v = (d', u)\<close>] ok DlReset
    by (simp add: dl_abs_def map_update flip: length_dl_abs)
next
  case DlFreeRedundant
  then have "dl_len d \<noteq> 0" using ok by (auto simp: dl_abs_def dl_slots_def)
  then show ?thesis using FreeRedundantNodes_correct [OF inv] step DlFreeRedundant by (auto simp: dl_abs_def)
qed

interpretation dl_calls: call_refinement dl_abs dl_inv dl_ok dl_step dl_spec
  by unfold_locales (use dl_step_correct in blast)+

section \<open>Properties\<close>

lemma free_redundant_on_new: "DList_FreeRedundantNodes DList_new = Inl UseAfterFree"
  by (simp add: DList_FreeRedundantNodes_def DList_new_def)

text \<open>
  C14. A \<open>DList\<close> is a double-ended list. For every sequence of \<open>PushLeft\<close>, \<open>PushRight\<close>,
  \<open>PopLeft\<close>, \<open>PopRight\<close>, reads and writes through \<open>operator[]\<close> and
  \<open>FreeRedundantNodes\<close> calls on a new list (the indexed accesses while the length fits an
  \<open>int\<close>, \<open>FreeRedundantNodes\<close> while the list has elements), no call follows a null pointer,
  leaves a block or touches a freed node; the results are those of the list (the popped element
  or a null string, the element or \<open>out_of_range\<close>), however the elements spread over the
  blocks. Afterwards the full range is the whole list in order and \<open>Length\<close> its length.
\<close>

theorem dlist_history:
  assumes "calls_ok dl_ok dl_spec [] calls" "run_calls dl_step DList_new calls = (d, results)"
  shows "run_calls dl_spec [] calls = (dl_abs d, results) \<and>
    DList_RangeAll d = Inr (map Some (dl_abs d)) \<and> dl_len d = length (dl_abs d) \<and>
    dl_n_nodes d = length (dl_nodes d)"
proof -
  have new: "dl_abs DList_new = []" using dl_new_inv by (simp add: dl_abs_def)
  have inv: "dl_inv d" and spec: "run_calls dl_spec [] calls = (dl_abs d, results)"
    using dl_calls.run_refines [OF dl_new_inv(1) _ assms(2)] assms(1) new by simp_all
  then show ?thesis
    by (simp add: DList_RangeAll_correct [OF inv] slots_Some [OF inv]) (simp add: dl_inv_def)
qed

theorem dlist_history_witness:
  "\<exists>d results.
     run_calls dl_step DList_new [DlPushRight ''a'', DlPushLeft ''b'', DlAt 1, DlFreeRedundant, DlPopRight, DlAt 1] =
       (d, results) \<and>
     dl_abs d = [''b''] \<and>
     results = [Done, Done, Elem (Inr (Some ''a'')), Done, Popped (Some ''a''), Elem (Inl OutOfRange)]"
proof -
  let ?calls = "[DlPushRight ''a'', DlPushLeft ''b'', DlAt 1, DlFreeRedundant, DlPopRight, DlAt 1]"
  obtain d results where run: "run_calls dl_step DList_new ?calls = (d, results)" by fastforce
  have "calls_ok dl_ok dl_spec [] ?calls" by simp
  from dlist_history [OF this run] show ?thesis using run by auto
qed

text \<open>
  The bounded range \<open>RangeAs...Vector(start, finish)\<close> of a list with fewer than \<open>2^31\<close>
  elements, for a start inside the list: it reads only elements of the list and returns
  exactly the elements from \<open>start\<close> up to and including \<open>finish\<close>, cut off at the end of the
  list, whichever block the range starts in and however many blocks it crosses.
\<close>

theorem dlist_bounded_range:
  assumes "calls_ok dl_ok dl_spec [] calls" "run_calls dl_step DList_new calls = (d, results)"
    and "start < length (dl_abs d)" "start \<le> finish" "finish < 2 ^ 31" "length (dl_abs d) < 2 ^ 31"
  shows "DList_Range d (int start) (int finish) =
    Inr (map Some (take (min finish (length (dl_abs d) - 1) + 1 - start) (drop start (dl_abs d))))"
proof -
  have new: "dl_abs DList_new = []" using dl_new_inv by (simp add: dl_abs_def)
  have inv: "dl_inv d" using dl_calls.run_refines [OF dl_new_inv(1) _ assms(2)] assms(1) new by simp
  show ?thesis
    using DList_Range_correct [OF inv, of start finish] assms(3-) by (simp add: slots_Some [OF inv] take_map drop_map)
qed

theorem dlist_bounded_range_witness:
  "\<exists>d results. run_calls dl_step DList_new [DlPushRight ''a'', DlPushRight ''b'', DlPushLeft ''c''] = (d, results) \<and>
     DList_Range d 1 7 = Inr [Some ''a'', Some ''b'']"
proof -
  let ?calls = "[DlPushRight ''a'', DlPushRight ''b'', DlPushLeft ''c'']"
  obtain d results where run: "run_calls dl_step DList_new ?calls = (d, results)" by fastforce
  have ok: "calls_ok dl_ok dl_spec [] ?calls" by simp
  have new: "dl_abs DList_new = []" using dl_new_inv by (simp add: dl_abs_def)
  have d: "dl_abs d = [''c'', ''a'', ''b'']"
    using dl_calls.run_refines [OF dl_new_inv(1) _ run] ok new by simp
  have "DList_Range d (int 1) (int 7) = Inr [Some ''a'', Some ''b'']"
    using dlist_bounded_range [OF ok run, of 1 7] by (simp add: d)
  then show ?thesis using run by auto
qed

text \<open>
  A start past the end is not caught: on the list that one \<open>PushRight\<close> on a new list
  makes, every bounded range with \<open>1 \<le> start \<le> finish\<close> follows a null node pointer, although
  the call with an empty list or \<open>start > finish\<close> returns an empty vector.
\<close>

theorem dlist_range_past_end_null:
  assumes "1 \<le> start" "start \<le> finish" "finish < 2 ^ 31"
  shows "DList_Range (DList_PushRight DList_new v) start finish = Inl NullDeref"
proof -
  let ?d = "DList_PushRight DList_new v"
  have d: "it_node (dl_begin ?d) = 1" "occupied_at ?d (Suc 0) = 1" "length (dl_nodes ?d) = 2" "dl_len ?d = 1"
    by (simp_all add: DList_PushRight_def extend_right_def DList_new_def put_elem_def occupied_at_def Let_def)
  have m: "start mod 2 ^ 64 = start" using assms by simp
  have w: "wrap32 (start - 1) = start - 1" using assms by (intro wrap32_id) (simp add: in_int32_def)
  have "0 \<le> (start - 1) sdiv 128" using assms by (simp add: signed_divide_int_def sgn_if pos_imp_zdiv_nonneg_iff)
  then have "NodeAtIndex ?d start = Inl NullDeref \<or> (\<exists>c p. NodeAtIndex ?d start = Inr (None, c, p))"
    using assms by (auto simp: NodeAtIndex_def Let_def d m w)
  then show ?thesis using assms by (auto simp: DList_Range_def DList_Empty_def d Let_def)
qed

theorem dlist_range_past_end_null_witness:
  "DList_Range (DList_PushRight DList_new ''a'') 1 5 = Inl NullDeref"
  by (rule dlist_range_past_end_null) simp_all

end
