(* ===== verification/ValueObject.thy ===== *)
theory ValueObject
  imports HashSet DList
begin

text \<open>
  \<open>src/src/valueobject.h\<close>, \<open>src/src/valueobject.cpp\<close>: the tagged values the container
  stores. The tag \<open>type\<close> and the pointer \<open>ptr\<close> are one datatype with a constructor per tag;
  an integer object keeps its value in the pointer itself. Allocation succeeds, so that a
  \<open>Construct...\<close> function always returns an object and \<open>ptr\<close> is never null in a string, list,
  hash or set object; freeing memory (\<open>FreePtr\<close>, the destructor) has no counterpart. The
  clock reading \<open>GetCurrentMs()\<close> is the argument \<open>now\<close>.
\<close>

section \<open>Objects\<close>

datatype vvalue = IntVal int | StrVal dstr | ListVal dlist | HashVal hashdict | SetVal hashset

record vobject =
  vo_value :: vvalue
  lv_time :: u64

abbreviation (input) OBJECT_INT :: int where "OBJECT_INT \<equiv> 1"
abbreviation (input) OBJECT_STRING :: int where "OBJECT_STRING \<equiv> 2"
abbreviation (input) OBJECT_LIST :: int where "OBJECT_LIST \<equiv> 3"
abbreviation (input) OBJECT_HASH :: int where "OBJECT_HASH \<equiv> 4"
abbreviation (input) OBJECT_SET :: int where "OBJECT_SET \<equiv> 5"

fun vtype :: "vvalue \<Rightarrow> int" where
  "vtype (IntVal i) = OBJECT_INT"
| "vtype (StrVal s) = OBJECT_STRING"
| "vtype (ListVal d) = OBJECT_LIST"
| "vtype (HashVal d) = OBJECT_HASH"
| "vtype (SetVal d) = OBJECT_SET"

definition ValueObject_new :: "u64 \<Rightarrow> vvalue \<Rightarrow> vobject" where
  "ValueObject_new now v = \<lparr>vo_value = v, lv_time = now\<rparr>"

definition ValueObject_ToInt64 :: "vobject \<Rightarrow> int" where
  "ValueObject_ToInt64 obj = (case vo_value obj of IntVal i \<Rightarrow> i | _ \<Rightarrow> 0)"

definition ValueObject_ToDynamicString :: "vobject \<Rightarrow> dstr option" where
  "ValueObject_ToDynamicString obj = (case vo_value obj of StrVal s \<Rightarrow> Some s | _ \<Rightarrow> None)"

definition ValueObject_ToStdString :: "vobject \<Rightarrow> string" where
  "ValueObject_ToStdString obj = (case vo_value obj of StrVal s \<Rightarrow> DynamicString_ToStdString s | _ \<Rightarrow> [])"

text \<open>
  \<open>Serialize\<close> appends the value to the vector and returns its new size. Reading a list
  fails when the list is malformed.
\<close>

definition ValueObject_Serialize :: "vobject \<Rightarrow> bytes \<Rightarrow> dl_error + bytes \<times> nat" where
  "ValueObject_Serialize obj buf =
     map_sum id (\<lambda>out. (out, length out))
       (case vo_value obj of
          IntVal i \<Rightarrow>
            (case EncodeVarSignedInt64 i (Some (replicate 10 CHR 0x00)) of (tmp, enc_len) \<Rightarrow>
               Inr (buf @ take (unat enc_len) (the tmp)))
        | HashVal d \<Rightarrow> Inr (fst (HashDict_Serialize d buf))
        | SetVal d \<Rightarrow> Inr (fst (HashSet_Serialize d buf))
        | StrVal s \<Rightarrow> Inr (fst (DynamicString_Serialize s buf))
        | ListVal d \<Rightarrow> map_sum id fst (DList_Serialize d buf))"

section \<open>Constructors\<close>

definition ConstructIntObj :: "u64 \<Rightarrow> int \<Rightarrow> vobject" where
  "ConstructIntObj now intval = \<lparr>vo_value = IntVal intval, lv_time = now\<rparr>"

definition ConstructIntObjPtr :: "u64 \<Rightarrow> int \<Rightarrow> vobject" where
  "ConstructIntObjPtr now intval = ValueObject_new now (IntVal intval)"

definition ConstructStrObj :: "u64 \<Rightarrow> string \<Rightarrow> vobject" where
  "ConstructStrObj now strval = \<lparr>vo_value = StrVal (DynamicString_std strval), lv_time = now\<rparr>"

definition ConstructStrObjPtr :: "u64 \<Rightarrow> string \<Rightarrow> vobject" where
  "ConstructStrObjPtr now strval = ValueObject_new now (StrVal (DynamicString_std strval))"

definition ConstructDListObj :: "u64 \<Rightarrow> vobject" where
  "ConstructDListObj now = \<lparr>vo_value = ListVal DList_new, lv_time = now\<rparr>"

definition ConstructDListObjPtr :: "u64 \<Rightarrow> vobject" where
  "ConstructDListObjPtr now = ValueObject_new now (ListVal DList_new)"

definition ConstructHashObj :: "u64 \<Rightarrow> vobject" where
  "ConstructHashObj now = \<lparr>vo_value = HashVal (HashDict_new 1), lv_time = now\<rparr>"

definition ConstructHashObjPtr :: "u64 \<Rightarrow> vobject" where
  "ConstructHashObjPtr now = ValueObject_new now (HashVal (HashDict_new 1))"

definition ConstructSetObj :: "u64 \<Rightarrow> vobject" where
  "ConstructSetObj now = \<lparr>vo_value = SetVal (HashSet_new 1), lv_time = now\<rparr>"

definition ConstructSetObjPtr :: "u64 \<Rightarrow> vobject" where
  "ConstructSetObjPtr now = ValueObject_new now (SetVal (HashSet_new 1))"

section \<open>Abstract values and the invariant\<close>

text \<open>
  What a value means, with its representation left out, and the well-formedness of the
  representation: the invariant of the structure, an integer in the range of \<open>int64_t\<close>, and
  strings short enough for the 32-bit length of a \<open>DynamicString\<close>.
\<close>

datatype avalue = AInt int | AStr string | AList "string list"
  | AHash "string \<rightharpoonup> string" | ASet "string set"

fun vabs :: "vvalue \<Rightarrow> avalue" where
  "vabs (IntVal i) = AInt i"
| "vabs (StrVal s) = AStr (ds_str s)"
| "vabs (ListVal d) = AList (dl_abs d)"
| "vabs (HashVal d) = AHash (dict_map d)"
| "vabs (SetVal d) = ASet (set_elems d)"

fun vinv :: "vvalue \<Rightarrow> bool" where
  "vinv (IntVal i) \<longleftrightarrow> in_int64 i"
| "vinv (StrVal s) \<longleftrightarrow> ds_inv s \<and> ds_buf s \<noteq> None \<and> length (ds_str s) \<le> 2 ^ 31"
| "vinv (ListVal d) \<longleftrightarrow> dl_inv d"
| "vinv (HashVal d) \<longleftrightarrow> rh_inv hkey d"
| "vinv (SetVal d) \<longleftrightarrow> rh_inv skey d"

fun atype :: "avalue \<Rightarrow> int" where
  "atype (AInt i) = OBJECT_INT"
| "atype (AStr s) = OBJECT_STRING"
| "atype (AList xs) = OBJECT_LIST"
| "atype (AHash m) = OBJECT_HASH"
| "atype (ASet A) = OBJECT_SET"

section \<open>Lemmas\<close>

named_theorems value_simps \<open>the constructors and readers of value objects, unfolded\<close>

lemmas construct_defs [value_simps] =
  ValueObject_new_def ConstructIntObjPtr_def ConstructStrObjPtr_def ConstructDListObjPtr_def
  ConstructHashObjPtr_def ConstructSetObjPtr_def

lemma atype_vabs [simp]: "atype (vabs v) = vtype v"
  by (cases v) simp_all

lemma dl_abs_new [simp]: "dl_abs DList_new = []"
  using dl_new_inv by (simp add: dl_abs_def)

lemma dict_map_new [simp]: "dict_map (HashDict_new mlf) = Map.empty"
  by (simp add: dict_map_def HashDict_new_def rh_inv_new)

lemma set_elems_new [simp]: "set_elems (HashSet_new mlf) = {}"
  by (simp add: set_elems_def HashSet_new_def rh_inv_new)

lemma dstr_std_value [simp]:
  assumes "length s \<le> 2 ^ 31"
  shows "vinv (StrVal (DynamicString_std s))" "ds_str (DynamicString_std s) = s"
proof -
  note c = std_ctor_correct [OF assms]
  show str: "ds_str (DynamicString_std s) = s" using c(2) by (simp add: ds_str_abs)
  have "ds_buf (DynamicString_std s) \<noteq> None" using c(2) by (auto simp: ds_abs_def)
  then show "vinv (StrVal (DynamicString_std s))" using c(1) str assms by simp
qed

lemma dstr_reset_value:
  assumes "ds_inv d" "length s \<le> 2 ^ 31"
  shows "vinv (StrVal (DynamicString_Reset_std d s))" "ds_str (DynamicString_Reset_std d s) = s"
proof -
  have c: "ds_inv (ds_step d (OpReset s)) \<and> ds_abs (ds_step d (OpReset s)) = Some s"
    using ds_step_refines [of d "OpReset s"] assms by (simp add: contents_def)
  show str: "ds_str (DynamicString_Reset_std d s) = s" using c by (simp add: ds_str_abs)
  have "ds_buf (DynamicString_Reset_std d s) \<noteq> None" using c by (auto simp: ds_abs_def)
  then show "vinv (StrVal (DynamicString_Reset_std d s))" using c str assms by simp
qed

lemma dstr_append_value:
  assumes "ds_inv d" "length (ds_str d) + length s \<le> 2 ^ 31"
  shows "vinv (StrVal (DynamicString_Append_std d s))" "ds_str (DynamicString_Append_std d s) = ds_str d @ s"
proof -
  have c: "ds_inv (ds_step d (OpAppend s)) \<and> ds_abs (ds_step d (OpAppend s)) = Some (ds_str d @ s)"
    using ds_step_refines [of d "OpAppend s"] assms by (simp add: contents_def ds_str_abs)
  show str: "ds_str (DynamicString_Append_std d s) = ds_str d @ s" using c by (simp add: ds_str_abs)
  have "ds_buf (DynamicString_Append_std d s) \<noteq> None" using c by (auto simp: ds_abs_def)
  then show "vinv (StrVal (DynamicString_Append_std d s))" using c str assms by simp
qed

lemma new_values_inv [simp]:
  "vinv (ListVal DList_new)" "vinv (HashVal (HashDict_new mlf))" "vinv (SetVal (HashSet_new mlf))"
  using dl_new_inv by (simp_all add: HashDict_new_def HashSet_new_def rh_inv_new)

end
