(* ===== verification/Core.thy ===== *)
theory Core
  imports ValueObject "HOL-Library.AList"
begin

text \<open>
  \<open>src/src/core.h\<close>, \<open>src/src/core.cpp\<close>: the container of all keys.

  A \<open>Key\<close> is a \<open>StaticString\<close>; it is modelled by its characters (\<open>key_as_string\<close> justifies
  this), and \<open>Key s\<close> is the key the constructor makes of a \<open>std::string\<close>: the part before
  the first NUL. \<open>bucket_\<close> is an array of 512 association lists, one per
  \<open>std::unordered_map\<close>; \<open>keys_pool_\<close> is a list. The locks are commented out in the source
  and every operation runs to completion on the one thread of the server. An operation
  with an \<open>errcode\<close> out-parameter returns the new container, its result and the code; the
  clock reading is the argument \<open>now\<close>, and a \<open>DynamicString\<close> result is \<open>None\<close> when it is
  a null string. Where a list access may fail on a malformed or too short list, the
  result is a sum with the failure.
\<close>

section \<open>The container\<close>

abbreviation (input) EVICTION_POLICY_RANDOM :: int where "EVICTION_POLICY_RANDOM \<equiv> 0"
abbreviation (input) EVICTION_POLICY_LRU :: int where "EVICTION_POLICY_LRU \<equiv> 1"
abbreviation (input) kBucketSize :: nat where "kBucketSize \<equiv> 512"
abbreviation (input) kOkCode :: int where "kOkCode \<equiv> 200"
abbreviation (input) kFailCode :: int where "kFailCode \<equiv> 400"
abbreviation (input) kKeyNotFoundCode :: int where "kKeyNotFoundCode \<equiv> 401"
abbreviation (input) kWrongTypeCode :: int where "kWrongTypeCode \<equiv> 402"
abbreviation (input) kOutOfRangeCode :: int where "kOutOfRangeCode \<equiv> 403"
abbreviation (input) kOverflowCode :: int where "kOverflowCode \<equiv> 404"

type_synonym bucket = "(string \<times> vobject) list"

record kvcontainer =
  kv_bucket :: "bucket list"
  keys_pool :: "string list"

definition KVContainer_new :: kvcontainer where
  "KVContainer_new = \<lparr>kv_bucket = replicate kBucketSize [], keys_pool = []\<rparr>"

definition Key :: "string \<Rightarrow> string" where
  "Key s = c_str s"

definition GetBucket :: "string \<Rightarrow> nat" where
  "GetBucket key = unat (Time33Hash key) mod kBucketSize"

text \<open>
  The lookup \<open>bucket.content.find(key)\<close>; writing the object of a key in its bucket; and
  entering a new key, which also goes to the end of the pool.
\<close>

definition find_obj :: "kvcontainer \<Rightarrow> string \<Rightarrow> vobject option" where
  "find_obj s key = map_of (kv_bucket s ! GetBucket key) key"

definition put_obj :: "kvcontainer \<Rightarrow> string \<Rightarrow> vobject \<Rightarrow> kvcontainer" where
  "put_obj s key obj =
     s\<lparr>kv_bucket := (kv_bucket s)[GetBucket key := AList.update key obj (kv_bucket s ! GetBucket key)]\<rparr>"

definition add_obj :: "kvcontainer \<Rightarrow> string \<Rightarrow> vobject \<Rightarrow> kvcontainer" where
  "add_obj s key obj = (put_obj s key obj)\<lparr>keys_pool := keys_pool s @ [key]\<rparr>"

text \<open>
  Changing the value of a key that is present and stamping it (\<open>UpdateLastVisitTime\<close>).
\<close>

definition store :: "kvcontainer \<Rightarrow> string \<Rightarrow> vvalue \<Rightarrow> u64 \<Rightarrow> kvcontainer" where
  "store s key v now = put_obj s key \<lparr>vo_value = v, lv_time = now\<rparr>"

text \<open>
  The macros \<open>IfKeyNotFoundThenReturn\<close>, \<open>IfKeyNotTypeThenReturn\<close> and \<open>RetrievePtr\<close> in
  sequence: the error code, or the structure of the key.
\<close>

definition get_list :: "kvcontainer \<Rightarrow> string \<Rightarrow> int + dlist" where
  "get_list s key =
     (case find_obj s key of
        None \<Rightarrow> Inl kKeyNotFoundCode
      | Some obj \<Rightarrow> (case vo_value obj of ListVal d \<Rightarrow> Inr d | _ \<Rightarrow> Inl kWrongTypeCode))"

definition get_hash :: "kvcontainer \<Rightarrow> string \<Rightarrow> int + hashdict" where
  "get_hash s key =
     (case find_obj s key of
        None \<Rightarrow> Inl kKeyNotFoundCode
      | Some obj \<Rightarrow> (case vo_value obj of HashVal d \<Rightarrow> Inr d | _ \<Rightarrow> Inl kWrongTypeCode))"

definition get_set :: "kvcontainer \<Rightarrow> string \<Rightarrow> int + hashset" where
  "get_set s key =
     (case find_obj s key of
        None \<Rightarrow> Inl kKeyNotFoundCode
      | Some obj \<Rightarrow> (case vo_value obj of SetVal d \<Rightarrow> Inr d | _ \<Rightarrow> Inl kWrongTypeCode))"

section \<open>Whole container\<close>

definition all_items :: "kvcontainer \<Rightarrow> (string \<times> vobject) list" where
  "all_items s = concat (kv_bucket s)"

definition count_type :: "kvcontainer \<Rightarrow> int \<Rightarrow> nat" where
  "count_type s t = length (filter (\<lambda>(key, obj). vtype (vo_value obj) = t) (all_items s))"

fun elem_count :: "vvalue \<Rightarrow> nat" where
  "elem_count (ListVal d) = dl_len d"
| "elem_count (HashVal d) = Rehashable_Count d"
| "elem_count (SetVal d) = Rehashable_Count d"
| "elem_count _ = 0"

definition count_elems :: "kvcontainer \<Rightarrow> int \<Rightarrow> nat" where
  "count_elems s t =
     sum_list (map (\<lambda>(key, obj). elem_count (vo_value obj))
       (filter (\<lambda>(key, obj). vtype (vo_value obj) = t) (all_items s)))"

definition Overview :: "kvcontainer \<Rightarrow> string list" where
  "Overview s =
     [''Number of int:'', std_to_string (int (count_type s OBJECT_INT)),
      ''Number of string:'', std_to_string (int (count_type s OBJECT_STRING)),
      ''Number of list:'', std_to_string (int (count_type s OBJECT_LIST)),
      ''Number of elements in list:'', std_to_string (int (count_elems s OBJECT_LIST)),
      ''Number of hash:'', std_to_string (int (count_type s OBJECT_HASH)),
      ''Number of elements in hash:'', std_to_string (int (count_elems s OBJECT_HASH)),
      ''Number of set:'', std_to_string (int (count_type s OBJECT_SET)),
      ''Number of elements in set:'', std_to_string (int (count_elems s OBJECT_SET))]"

definition QueryObjectType :: "kvcontainer \<Rightarrow> string \<Rightarrow> int" where
  "QueryObjectType s key = (case find_obj s key of None \<Rightarrow> - 1 | Some obj \<Rightarrow> vtype (vo_value obj))"

definition KeyExists :: "kvcontainer \<Rightarrow> string \<Rightarrow> bool" where
  "KeyExists s key \<longleftrightarrow> find_obj s key \<noteq> None"

fun KeyExists_keys :: "kvcontainer \<Rightarrow> string list \<Rightarrow> int" where
  "KeyExists_keys s [] = 0"
| "KeyExists_keys s (key # keys) = (if KeyExists s (Key key) then 1 else 0) + KeyExists_keys s keys"

definition NumItems :: "kvcontainer \<Rightarrow> nat" where
  "NumItems s = sum_list (map length (kv_bucket s))"

definition RecoverCommandFromValue :: "kvcontainer \<Rightarrow> string \<Rightarrow> dl_error + string list \<times> int" where
  "RecoverCommandFromValue s key =
     (case find_obj s (Key key) of
        None \<Rightarrow> Inr ([], kKeyNotFoundCode)
      | Some obj \<Rightarrow>
          (case vo_value obj of
             IntVal i \<Rightarrow> Inr ([''set'', key, std_to_string (ValueObject_ToInt64 obj)], kOkCode)
           | StrVal ds \<Rightarrow> Inr ([''set'', key, ValueObject_ToStdString obj], kOkCode)
           | ListVal d \<Rightarrow>
               map_sum id (\<lambda>ranges. ([''rpush'', key] @ map contents ranges, kOkCode)) (DList_RangeAll d)
           | HashVal d \<Rightarrow>
               Inr ([''hset'', key] @ concat (map (\<lambda>e. [hkey e, hvalue e]) (Rehashable_AllEntries d)), kOkCode)
           | SetVal d \<Rightarrow> Inr ([''sadd'', key] @ map skey (Rehashable_AllEntries d), kOkCode)))"

section \<open>Integers and strings\<close>

definition SetInt :: "u64 \<Rightarrow> kvcontainer \<Rightarrow> string \<Rightarrow> int \<Rightarrow> kvcontainer \<times> bool" where
  "SetInt now s key intval =
     (case find_obj s key of
        None \<Rightarrow> (add_obj s key (ConstructIntObjPtr now intval), True)
      | Some obj \<Rightarrow> (store s key (IntVal intval) now, True))"

definition IncrIntBy :: "u64 \<Rightarrow> kvcontainer \<Rightarrow> string \<Rightarrow> int \<Rightarrow> kvcontainer \<times> int \<times> int" where
  "IncrIntBy now s key increment =
     (case find_obj s key of
        None \<Rightarrow>
          let iptr = ConstructIntObjPtr now increment
          in (add_obj s key iptr, ValueObject_ToInt64 iptr, kOkCode)
      | Some obj \<Rightarrow>
          (case vo_value obj of
             IntVal val \<Rightarrow>
               if val > wrap64 (INT64_MAX - increment)
               then (store s key (IntVal val) now, 0, kOverflowCode)
               else let ans = wrap64 (val + increment)
                    in (store s key (IntVal ans) now, ans, kOkCode)
           | _ \<Rightarrow> (s, 0, kWrongTypeCode)))"

definition DecrIntBy :: "u64 \<Rightarrow> kvcontainer \<Rightarrow> string \<Rightarrow> int \<Rightarrow> kvcontainer \<times> int \<times> int" where
  "DecrIntBy now s key decrement =
     (case find_obj s key of
        None \<Rightarrow>
          let iptr = ConstructIntObjPtr now (wrap64 (- decrement))
          in (add_obj s key iptr, ValueObject_ToInt64 iptr, kOkCode)
      | Some obj \<Rightarrow>
          (case vo_value obj of
             IntVal val \<Rightarrow>
               if val < wrap64 (INT64_MIN + decrement)
               then (store s key (IntVal val) now, 0, kOverflowCode)
               else let ans = wrap64 (val - decrement)
                    in (store s key (IntVal ans) now, ans, kOkCode)
           | _ \<Rightarrow> (s, 0, kWrongTypeCode)))"

definition IncrInt :: "u64 \<Rightarrow> kvcontainer \<Rightarrow> string \<Rightarrow> kvcontainer \<times> int \<times> int" where
  "IncrInt now s key = IncrIntBy now s key 1"

definition DecrInt :: "u64 \<Rightarrow> kvcontainer \<Rightarrow> string \<Rightarrow> kvcontainer \<times> int \<times> int" where
  "DecrInt now s key = DecrIntBy now s key 1"

definition SetString :: "u64 \<Rightarrow> kvcontainer \<Rightarrow> string \<Rightarrow> string \<Rightarrow> kvcontainer \<times> bool" where
  "SetString now s key val =
     (case find_obj s key of
        None \<Rightarrow> (add_obj s key (ConstructStrObjPtr now val), True)
      | Some obj \<Rightarrow>
          (case vo_value obj of
             StrVal ds \<Rightarrow> (store s key (StrVal (DynamicString_Reset_std ds val)) now, True)
           | _ \<Rightarrow> (store s key (StrVal (DynamicString_std val)) now, True)))"

text \<open>
  \<open>StrLen\<close> takes the value \<open>errcode\<close> has when it is called: the statement for another type
  is the comparison \<open>errcode == kWrongTypeCode\<close>, which sets nothing.
\<close>

definition StrLen :: "u64 \<Rightarrow> kvcontainer \<Rightarrow> string \<Rightarrow> int \<Rightarrow> kvcontainer \<times> nat \<times> int" where
  "StrLen now s key errcode =
     (case find_obj s key of
        None \<Rightarrow> (s, 0, kKeyNotFoundCode)
      | Some obj \<Rightarrow>
          (case vo_value obj of
             IntVal num \<Rightarrow> (store s key (IntVal num) now, length (std_to_string num), kOkCode)
           | StrVal ds \<Rightarrow> (store s key (StrVal ds) now, unat (ds_len ds), kOkCode)
           | _ \<Rightarrow> (s, 0, errcode)))"

definition Get :: "u64 \<Rightarrow> kvcontainer \<Rightarrow> string \<Rightarrow> kvcontainer \<times> vobject option \<times> int" where
  "Get now s key =
     (case find_obj s key of
        None \<Rightarrow> (s, None, kKeyNotFoundCode)
      | Some obj \<Rightarrow>
          if vtype (vo_value obj) \<noteq> OBJECT_INT \<and> vtype (vo_value obj) \<noteq> OBJECT_STRING
          then (s, None, kWrongTypeCode)
          else (store s key (vo_value obj) now, Some (obj\<lparr>lv_time := now\<rparr>), kOkCode))"

definition Delete :: "kvcontainer \<Rightarrow> string \<Rightarrow> kvcontainer \<times> bool" where
  "Delete s key =
     (case find_obj s key of
        None \<Rightarrow> (s, False)
      | Some obj \<Rightarrow>
          (\<lparr>kv_bucket = (kv_bucket s)[GetBucket key := AList.delete key (kv_bucket s ! GetBucket key)],
            keys_pool = filter (\<lambda>k. k \<noteq> key) (keys_pool s)\<rparr>, True))"

fun Delete_keys :: "kvcontainer \<Rightarrow> string list \<Rightarrow> kvcontainer \<times> int" where
  "Delete_keys s [] = (s, 0)"
| "Delete_keys s (key # keys) =
     (case Delete s (Key key) of (s1, deleted) \<Rightarrow>
        case Delete_keys s1 keys of (s2, n) \<Rightarrow> (s2, (if deleted then 1 else 0) + n))"

definition Append :: "u64 \<Rightarrow> kvcontainer \<Rightarrow> string \<Rightarrow> string \<Rightarrow> kvcontainer \<times> nat \<times> int" where
  "Append now s key val =
     (case find_obj s key of
        None \<Rightarrow>
          let ds = DynamicString_std val
          in (add_obj s key (ConstructStrObjPtr now val), unat (ds_len ds), kOkCode)
      | Some obj \<Rightarrow>
          (case vo_value obj of
             StrVal ds \<Rightarrow>
               let ds' = DynamicString_Append_std ds val
               in (store s key (StrVal ds') now, unat (ds_len ds'), kOkCode)
           | IntVal num \<Rightarrow>
               let ds' = DynamicString_Append_std (DynamicString_std (std_to_string num)) val
               in (store s key (StrVal ds') now, unat (ds_len ds'), kOkCode)
           | _ \<Rightarrow> (s, 0, kWrongTypeCode)))"

section \<open>Lists\<close>

text \<open>\<open>ListPushAuxCommon\<close>: the list of the key, created when the key is absent.\<close>

definition push_target :: "u64 \<Rightarrow> kvcontainer \<Rightarrow> string \<Rightarrow> int + kvcontainer \<times> dlist" where
  "push_target now s key =
     (case find_obj s key of
        None \<Rightarrow> Inr (add_obj s key (ConstructDListObjPtr now), DList_new)
      | Some obj \<Rightarrow> (case vo_value obj of ListVal d \<Rightarrow> Inr (s, d) | _ \<Rightarrow> Inl kWrongTypeCode))"

definition push_one :: "bool \<Rightarrow> string \<Rightarrow> dlist \<Rightarrow> dlist" where
  "push_one leftpush val d = (if leftpush then DList_PushLeft d val else DList_PushRight d val)"

definition ListPushAux :: "u64 \<Rightarrow> kvcontainer \<Rightarrow> string \<Rightarrow> string \<Rightarrow> bool \<Rightarrow> kvcontainer \<times> bool \<times> int" where
  "ListPushAux now s key val leftpush =
     (case push_target now s key of
        Inl e \<Rightarrow> (s, False, e)
      | Inr (s1, d) \<Rightarrow> (store s1 key (ListVal (push_one leftpush val d)) now, True, kOkCode))"

definition ListPushAux_values ::
  "u64 \<Rightarrow> kvcontainer \<Rightarrow> string \<Rightarrow> string list \<Rightarrow> bool \<Rightarrow> kvcontainer \<times> nat \<times> int" where
  "ListPushAux_values now s key vals leftpush =
     (case push_target now s key of
        Inl e \<Rightarrow> (s, 0, e)
      | Inr (s1, d) \<Rightarrow>
          let d' = fold (push_one leftpush) vals d
          in (store s1 key (ListVal d') now, dl_len d', kOkCode))"

definition LeftPush :: "u64 \<Rightarrow> kvcontainer \<Rightarrow> string \<Rightarrow> string \<Rightarrow> kvcontainer \<times> bool \<times> int" where
  "LeftPush now s key val = ListPushAux now s key val True"

definition LeftPush_values :: "u64 \<Rightarrow> kvcontainer \<Rightarrow> string \<Rightarrow> string list \<Rightarrow> kvcontainer \<times> nat \<times> int" where
  "LeftPush_values now s key vals = ListPushAux_values now s (Key key) vals True"

definition RightPush :: "u64 \<Rightarrow> kvcontainer \<Rightarrow> string \<Rightarrow> string \<Rightarrow> kvcontainer \<times> bool \<times> int" where
  "RightPush now s key val = ListPushAux now s key val False"

definition RightPush_values :: "u64 \<Rightarrow> kvcontainer \<Rightarrow> string \<Rightarrow> string list \<Rightarrow> kvcontainer \<times> nat \<times> int" where
  "RightPush_values now s key vals = ListPushAux_values now s (Key key) vals False"

definition ListPopAux :: "u64 \<Rightarrow> kvcontainer \<Rightarrow> string \<Rightarrow> bool \<Rightarrow> kvcontainer \<times> string option \<times> int" where
  "ListPopAux now s key leftpop =
     (case get_list s key of
        Inl e \<Rightarrow> (s, None, e)
      | Inr d \<Rightarrow>
          (case (if leftpop then DList_PopLeft d else DList_PopRight d) of
             (d', v) \<Rightarrow> (store s key (ListVal d') now, v, kOkCode)))"

definition LeftPop :: "u64 \<Rightarrow> kvcontainer \<Rightarrow> string \<Rightarrow> kvcontainer \<times> string option \<times> int" where
  "LeftPop now s key = ListPopAux now s key True"

definition RightPop :: "u64 \<Rightarrow> kvcontainer \<Rightarrow> string \<Rightarrow> kvcontainer \<times> string option \<times> int" where
  "RightPop now s key = ListPopAux now s key False"

text \<open>
  \<open>ListRange\<close> and \<open>ListRangeAsStdString\<close>: indices are \<open>int\<close>; a negative one counts from the
  end.
\<close>

definition from_end :: "int \<Rightarrow> int \<Rightarrow> int" where
  "from_end i list_len = (if i < 0 then wrap32 (i + list_len) else i)"

definition ListRange ::
  "u64 \<Rightarrow> kvcontainer \<Rightarrow> string \<Rightarrow> int \<Rightarrow> int \<Rightarrow> dl_error + kvcontainer \<times> string option list \<times> int" where
  "ListRange now s key start finish =
     (case get_list s key of
        Inl e \<Rightarrow> Inr (s, [], e)
      | Inr d \<Rightarrow>
          let list_len = wrap32 (int (dl_len d));
              b = from_end start list_len;
              e = from_end finish list_len
          in if \<not> (b < 0 \<and> e > 0) \<and> ((b > 0 \<and> e < 0) \<or> (b < 0 \<and> e < 0))
             then Inr (s, [], kOkCode)
             else let b' = (if b < 0 \<and> e > 0 then 0 else b)
                  in map_sum id (\<lambda>xs. (store s key (ListVal d) now, xs, kOkCode)) (DList_Range d b' e))"

definition ListRangeAsStdString ::
  "u64 \<Rightarrow> kvcontainer \<Rightarrow> string \<Rightarrow> int \<Rightarrow> int \<Rightarrow> dl_error + kvcontainer \<times> string list \<times> int" where
  "ListRangeAsStdString now s key start finish =
     map_sum id (\<lambda>(s', xs, e). (s', map contents xs, e)) (ListRange now s key start finish)"

definition ListLen :: "u64 \<Rightarrow> kvcontainer \<Rightarrow> string \<Rightarrow> kvcontainer \<times> nat \<times> int" where
  "ListLen now s key =
     (case get_list s key of
        Inl e \<Rightarrow> (s, 0, e)
      | Inr d \<Rightarrow> (store s key (ListVal d) now, dl_len d, kOkCode))"

definition ListItemAtIndex ::
  "u64 \<Rightarrow> kvcontainer \<Rightarrow> string \<Rightarrow> int \<Rightarrow> dl_error + kvcontainer \<times> string option \<times> int" where
  "ListItemAtIndex now s key index =
     (case get_list s key of
        Inl e \<Rightarrow> Inr (s, None, e)
      | Inr d \<Rightarrow>
          let i = from_end index (wrap32 (int (dl_len d)))
          in if i < 0 then Inr (s, None, kFailCode)
             else (case DList_index d (nat i) of
                     Inr v \<Rightarrow> Inr (store s key (ListVal d) now, v, kOkCode)
                   | Inl OutOfRange \<Rightarrow> Inr (store s key (ListVal d) now, None, kFailCode)
                   | Inl e \<Rightarrow> Inl e))"

definition ListSetItemAtIndex ::
  "u64 \<Rightarrow> kvcontainer \<Rightarrow> string \<Rightarrow> int \<Rightarrow> string \<Rightarrow> dl_error + kvcontainer \<times> bool \<times> int" where
  "ListSetItemAtIndex now s key index val =
     (case get_list s key of
        Inl e \<Rightarrow> Inr (s, False, e)
      | Inr d \<Rightarrow>
          let i = from_end index (wrap32 (int (dl_len d)))
          in if i < 0 then Inr (s, False, kFailCode)
             else (case DList_index_Reset d (nat i) val of
                     (d', Inr u) \<Rightarrow> Inr (store s key (ListVal d') now, True, kOkCode)
                   | (d', Inl OutOfRange) \<Rightarrow> Inr (s, False, kOutOfRangeCode)
                   | (d', Inl e) \<Rightarrow> Inl e))"

section \<open>Hashes\<close>

definition HashUpdateKV ::
  "u64 \<Rightarrow> kvcontainer \<Rightarrow> string \<Rightarrow> string \<Rightarrow> string \<Rightarrow> kvcontainer \<times> bool \<times> int" where
  "HashUpdateKV now s key field val =
     (case find_obj s key of
        None \<Rightarrow>
          (case HashDict_Update (HashDict_new 1) field val of (d', ret) \<Rightarrow>
             (add_obj s key (ValueObject_new now (HashVal d')), True, kOkCode))
      | Some obj \<Rightarrow>
          (case vo_value obj of
             HashVal d \<Rightarrow>
               (case HashDict_Update d field val of (d', ret) \<Rightarrow>
                  if ret = UNDEFINED
                  then (store s key (HashVal d') now, False, kFailCode)
                  else (store s key (HashVal d') now, True, kOkCode))
           | _ \<Rightarrow> (s, False, kWrongTypeCode)))"

text \<open>The loop over the fields; \<open>cnt\<close> is \<open>count\<close>.\<close>

fun update_loop :: "hashdict \<Rightarrow> (string \<times> string) list \<Rightarrow> int \<Rightarrow> hashdict \<times> int" where
  "update_loop d [] cnt = (d, cnt)"
| "update_loop d ((field, val) # rest) cnt =
     (case HashDict_Update d field val of (d', ret) \<Rightarrow>
        update_loop d' rest (if ret \<noteq> UNDEFINED then cnt + 1 else cnt))"

definition HashUpdateKV_fields ::
  "u64 \<Rightarrow> kvcontainer \<Rightarrow> string \<Rightarrow> string list \<Rightarrow> string list \<Rightarrow> kvcontainer \<times> int \<times> int" where
  "HashUpdateKV_fields now s key flds vals =
     (if length flds \<noteq> length vals then (s, 0, kFailCode)
      else case find_obj s key of
             None \<Rightarrow>
               (case update_loop (HashDict_new 1) (zip flds vals) 0 of (d', cnt) \<Rightarrow>
                  (store (add_obj s key (ConstructHashObjPtr now)) key (HashVal d') now, cnt, kOkCode))
           | Some obj \<Rightarrow>
               (case vo_value obj of
                  HashVal d \<Rightarrow>
                    (case update_loop d (zip flds vals) 0 of (d', cnt) \<Rightarrow>
                       (store s key (HashVal d') now, cnt, kOkCode))
                | _ \<Rightarrow> (s, 0, kWrongTypeCode)))"

definition HashGetValue ::
  "u64 \<Rightarrow> kvcontainer \<Rightarrow> string \<Rightarrow> string \<Rightarrow> kvcontainer \<times> string option \<times> int" where
  "HashGetValue now s key field =
     (case get_hash s key of
        Inl e \<Rightarrow> (s, None, e)
      | Inr d \<Rightarrow>
          (case HashDict_At d field of
             (d', Inr v) \<Rightarrow> (store s key (HashVal d') now, Some v, kOkCode)
           | (d', Inl ex) \<Rightarrow> (store s key (HashVal d') now, None, kKeyNotFoundCode)))"

fun at_loop :: "hashdict \<Rightarrow> string list \<Rightarrow> hashdict \<times> string option list" where
  "at_loop d [] = (d, [])"
| "at_loop d (field # flds) =
     (case HashDict_At d field of (d1, r) \<Rightarrow>
        case at_loop d1 flds of (d2, vs) \<Rightarrow>
          (d2, (case r of Inl ex \<Rightarrow> None | Inr v \<Rightarrow> Some v) # vs))"

definition HashGetValue_fields ::
  "u64 \<Rightarrow> kvcontainer \<Rightarrow> string \<Rightarrow> string list \<Rightarrow> kvcontainer \<times> string option list \<times> int" where
  "HashGetValue_fields now s key flds =
     (case get_hash s key of
        Inl e \<Rightarrow> (s, [], e)
      | Inr d \<Rightarrow>
          (case at_loop d flds of (d', vs) \<Rightarrow> (store s key (HashVal d') now, vs, kOkCode)))"

definition HashDelField :: "u64 \<Rightarrow> kvcontainer \<Rightarrow> string \<Rightarrow> string \<Rightarrow> kvcontainer \<times> int \<times> int" where
  "HashDelField now s key field =
     (case get_hash s key of
        Inl e \<Rightarrow> (s, 0, e)
      | Inr d \<Rightarrow> (case HashDict_Erase d field of (d', r) \<Rightarrow> (store s key (HashVal d') now, r, kOkCode)))"

text \<open>The loop of the macro \<open>HashTypeEraseAux\<close>; \<open>n\<close> is \<open>n_erased\<close>.\<close>

fun erase_loop :: "('d \<Rightarrow> string \<Rightarrow> 'd \<times> int) \<Rightarrow> 'd \<Rightarrow> string list \<Rightarrow> int \<Rightarrow> 'd \<times> int" where
  "erase_loop erase d [] n = (d, n)"
| "erase_loop erase d (x # xs) n =
     (case erase d x of (d', r) \<Rightarrow> erase_loop erase d' xs (if r = ERASED then n + 1 else n))"

definition HashDelField_fields ::
  "u64 \<Rightarrow> kvcontainer \<Rightarrow> string \<Rightarrow> string list \<Rightarrow> kvcontainer \<times> int \<times> int" where
  "HashDelField_fields now s key flds =
     (case get_hash s key of
        Inl e \<Rightarrow> (s, 0, e)
      | Inr d \<Rightarrow>
          (case erase_loop HashDict_Erase d flds 0 of (d', n) \<Rightarrow> (store s key (HashVal d') now, n, kOkCode)))"

definition HashExistField :: "u64 \<Rightarrow> kvcontainer \<Rightarrow> string \<Rightarrow> string \<Rightarrow> kvcontainer \<times> bool \<times> int" where
  "HashExistField now s key field =
     (case get_hash s key of
        Inl e \<Rightarrow> (s, False, e)
      | Inr d \<Rightarrow> (store s key (HashVal d) now, Rehashable_CheckExists hkey d field, kOkCode))"

definition HashGetAllEntries :: "u64 \<Rightarrow> kvcontainer \<Rightarrow> string \<Rightarrow> kvcontainer \<times> string list \<times> int" where
  "HashGetAllEntries now s key =
     (case get_hash s key of
        Inl e \<Rightarrow> (s, [], e)
      | Inr d \<Rightarrow> (store s key (HashVal d) now,
                  concat (map (\<lambda>e. [hkey e, hvalue e]) (Rehashable_AllEntries d)), kOkCode))"

definition HashGetAllFields :: "u64 \<Rightarrow> kvcontainer \<Rightarrow> string \<Rightarrow> kvcontainer \<times> string list \<times> int" where
  "HashGetAllFields now s key =
     (case get_hash s key of
        Inl e \<Rightarrow> (s, [], e)
      | Inr d \<Rightarrow> (store s key (HashVal d) now, Rehashable_AllKeys hkey d, kOkCode))"

definition HashGetAllValues :: "u64 \<Rightarrow> kvcontainer \<Rightarrow> string \<Rightarrow> kvcontainer \<times> string list \<times> int" where
  "HashGetAllValues now s key =
     (case get_hash s key of
        Inl e \<Rightarrow> (s, [], e)
      | Inr d \<Rightarrow> (store s key (HashVal d) now, HashDict_AllValues d, kOkCode))"

definition HashLen :: "u64 \<Rightarrow> kvcontainer \<Rightarrow> string \<Rightarrow> kvcontainer \<times> nat \<times> int" where
  "HashLen now s key =
     (case get_hash s key of
        Inl e \<Rightarrow> (s, 0, e)
      | Inr d \<Rightarrow> (store s key (HashVal d) now, Rehashable_Count d, kOkCode))"

section \<open>Sets\<close>

definition SetAddItem :: "u64 \<Rightarrow> kvcontainer \<Rightarrow> string \<Rightarrow> string \<Rightarrow> kvcontainer \<times> bool \<times> int" where
  "SetAddItem now s key member =
     (case find_obj s key of
        None \<Rightarrow>
          (case HashSet_Insert (HashSet_new 1) member of (d', ret) \<Rightarrow>
             (add_obj s key (ValueObject_new now (SetVal d')), True, kOkCode))
      | Some obj \<Rightarrow>
          (case vo_value obj of
             SetVal d \<Rightarrow>
               (case HashSet_Insert d member of (d', ret) \<Rightarrow>
                  if ret = EXISTED \<or> ret = UNDEFINED
                  then (store s key (SetVal d') now, False, kFailCode)
                  else (store s key (SetVal d') now, True, kOkCode))
           | _ \<Rightarrow> (s, False, kWrongTypeCode)))"

fun insert_loop :: "hashset \<Rightarrow> string list \<Rightarrow> int \<Rightarrow> hashset \<times> int" where
  "insert_loop d [] cnt = (d, cnt)"
| "insert_loop d (x # xs) cnt =
     (case HashSet_Insert d x of (d', ret) \<Rightarrow> insert_loop d' xs (if ret = NEW_ADDED then cnt + 1 else cnt))"

definition SetAddItem_members ::
  "u64 \<Rightarrow> kvcontainer \<Rightarrow> string \<Rightarrow> string list \<Rightarrow> kvcontainer \<times> int \<times> int" where
  "SetAddItem_members now s key members =
     (case find_obj s key of
        None \<Rightarrow>
          (case insert_loop (HashSet_new 1) members 0 of (d', cnt) \<Rightarrow>
             (store (add_obj s key (ConstructSetObjPtr now)) key (SetVal d') now, cnt, kOkCode))
      | Some obj \<Rightarrow>
          (case vo_value obj of
             SetVal d \<Rightarrow>
               (case insert_loop d members 0 of (d', cnt) \<Rightarrow> (store s key (SetVal d') now, cnt, kOkCode))
           | _ \<Rightarrow> (s, 0, kWrongTypeCode)))"

definition SetIsMember :: "u64 \<Rightarrow> kvcontainer \<Rightarrow> string \<Rightarrow> string \<Rightarrow> kvcontainer \<times> bool \<times> int" where
  "SetIsMember now s key member =
     (case get_set s key of
        Inl e \<Rightarrow> (s, False, e)
      | Inr d \<Rightarrow> (store s key (SetVal d) now, Rehashable_CheckExists skey d member, kOkCode))"

definition SetMIsMember ::
  "u64 \<Rightarrow> kvcontainer \<Rightarrow> string \<Rightarrow> string list \<Rightarrow> kvcontainer \<times> int list \<times> int" where
  "SetMIsMember now s key members =
     (case find_obj s key of
        None \<Rightarrow> (s, replicate (length members) 0, kKeyNotFoundCode)
      | Some obj \<Rightarrow>
          (case vo_value obj of
             SetVal d \<Rightarrow>
               (store s key (SetVal d) now,
                map (\<lambda>x. if Rehashable_CheckExists skey d x then 1 else 0) members, kOkCode)
           | _ \<Rightarrow> (s, [], kWrongTypeCode)))"

definition SetRemoveMembers ::
  "u64 \<Rightarrow> kvcontainer \<Rightarrow> string \<Rightarrow> string list \<Rightarrow> kvcontainer \<times> int \<times> int" where
  "SetRemoveMembers now s key members =
     (case get_set s key of
        Inl e \<Rightarrow> (s, 0, e)
      | Inr d \<Rightarrow>
          (case erase_loop HashSet_Erase d members 0 of (d', n) \<Rightarrow> (store s key (SetVal d') now, n, kOkCode)))"

text \<open>The overload for a \<open>std::string\<close> key returns the number converted to \<open>bool\<close>.\<close>

definition SetRemoveMembers_str ::
  "u64 \<Rightarrow> kvcontainer \<Rightarrow> string \<Rightarrow> string list \<Rightarrow> kvcontainer \<times> bool \<times> int" where
  "SetRemoveMembers_str now s key members =
     (case SetRemoveMembers now s (Key key) members of (s', n, e) \<Rightarrow> (s', n \<noteq> 0, e))"

definition SetGetMembers :: "u64 \<Rightarrow> kvcontainer \<Rightarrow> string \<Rightarrow> kvcontainer \<times> string list \<times> int" where
  "SetGetMembers now s key =
     (case get_set s key of
        Inl e \<Rightarrow> (s, [], e)
      | Inr d \<Rightarrow> (store s key (SetVal d) now, Rehashable_AllKeys skey d, kOkCode))"

definition SetGetMemberCount :: "u64 \<Rightarrow> kvcontainer \<Rightarrow> string \<Rightarrow> kvcontainer \<times> nat \<times> int" where
  "SetGetMemberCount now s key =
     (case get_set s key of
        Inl e \<Rightarrow> (s, 0, e)
      | Inr d \<Rightarrow> (store s key (SetVal d) now, Rehashable_Count d, kOkCode))"

section \<open>Snapshot\<close>

text \<open>
  The bytes of one entry. \<open>expires\<close> is \<open>sExpiresMap\<close>, with the field \<open>when\<close> of the event.
  \<open>Snapshot\<close> writes the entries of a bucket in the order in which the
  \<open>std::unordered_map\<close> iterates, which is the argument \<open>order\<close>.
\<close>

definition put_fixed64 :: "int \<Rightarrow> bytes \<Rightarrow> bytes" where
  "put_fixed64 v buf = buf @ the (EncodeFixed64BitInteger v (Some (replicate 8 CHR 0x00)))"

definition snapshot_entry :: "(string \<rightharpoonup> u64) \<Rightarrow> string \<times> vobject \<Rightarrow> dl_error + bytes" where
  "snapshot_entry expires item =
     (case item of (key, obj) \<Rightarrow>
        let head = [CHR 0xFF, char_of (nat (vtype (vo_value obj)))];
            expiry = (case expires key of
                        Some w \<Rightarrow> put_fixed64 (uint w) [CHR 0x01]
                      | None \<Rightarrow> [CHR 0x00])
        in map_sum id (\<lambda>(out, n). out @ [CHR 0xFE])
             (ValueObject_Serialize obj (put_str key (head @ expiry))))"

fun snapshot_entries :: "(string \<rightharpoonup> u64) \<Rightarrow> (string \<times> vobject) list \<Rightarrow> bytes \<Rightarrow> dl_error + bytes" where
  "snapshot_entries expires [] buf = Inr buf"
| "snapshot_entries expires (item # items) buf =
     (case snapshot_entry expires item of
        Inl e \<Rightarrow> Inl e
      | Inr entry \<Rightarrow> snapshot_entries expires items (buf @ entry))"

definition Snapshot ::
  "(bucket \<Rightarrow> bucket) \<Rightarrow> (string \<rightharpoonup> u64) \<Rightarrow> kvcontainer \<Rightarrow> bytes \<Rightarrow> dl_error + bytes" where
  "Snapshot order expires s buf =
     snapshot_entries expires (concat (map order (kv_bucket s))) (put_fixed64 (int (NumItems s)) buf)"

section \<open>Eviction\<close>

text \<open>
  \<open>RandIntValue from to\<close> is the parameter \<open>rand\<close>, which threads the state of the random
  engine. \<open>KeyEvictionRandom\<close> reads the deleted key through a reference into \<open>keys_pool_\<close>
  after the deletion: by then the elements behind it have moved down by one, and at the end
  of the vector the element is destroyed.
\<close>

type_synonym 'g rand = "'g \<Rightarrow> int \<Rightarrow> int \<Rightarrow> int \<times> 'g"

definition draw_idx :: "'g rand \<Rightarrow> 'g \<Rightarrow> kvcontainer \<Rightarrow> nat \<times> 'g" where
  "draw_idx rand g s = (case rand g 0 (wrap32 (int (length (keys_pool s))) - 1) of (r, g') \<Rightarrow> (nat r, g'))"

fun evict_random ::
  "'g rand \<Rightarrow> nat \<Rightarrow> 'g \<Rightarrow> kvcontainer \<Rightarrow> string list \<Rightarrow> dl_error + kvcontainer \<times> string list \<times> 'g" where
  "evict_random rand 0 g s deleted_keys = Inr (s, deleted_keys, g)"
| "evict_random rand (Suc i) g s deleted_keys =
     (case draw_idx rand g s of (idx, g') \<Rightarrow>
        if idx \<ge> length (keys_pool s) then Inl OutOfBounds
        else case Delete s (keys_pool s ! idx) of
               (s', False) \<Rightarrow> evict_random rand i g' s' deleted_keys
             | (s', True) \<Rightarrow>
                 if idx < length (keys_pool s')
                 then evict_random rand i g' s' (deleted_keys @ [keys_pool s' ! idx])
                 else Inl UseAfterFree)"

definition KeyEvictionRandom ::
  "'g rand \<Rightarrow> 'g \<Rightarrow> kvcontainer \<Rightarrow> nat \<Rightarrow> dl_error + kvcontainer \<times> string list \<times> 'g" where
  "KeyEvictionRandom rand g s num = evict_random rand (min (length (keys_pool s)) num) g s []"

fun draw_candidates :: "'g rand \<Rightarrow> nat \<Rightarrow> 'g \<Rightarrow> kvcontainer \<Rightarrow> string list \<Rightarrow> dl_error + string list \<times> 'g" where
  "draw_candidates rand 0 g s candidates = Inr (candidates, g)"
| "draw_candidates rand (Suc i) g s candidates =
     (case draw_idx rand g s of (idx, g') \<Rightarrow>
        if idx \<ge> length (keys_pool s) then Inl OutOfBounds
        else let key = keys_pool s ! idx
             in draw_candidates rand i g' s (if key \<in> set candidates then candidates else candidates @ [key]))"

text \<open>
  \<open>std::min_element\<close>: \<open>smallest\<close> is the best element so far. The comparison reads the
  object of both keys.
\<close>

fun min_lv_time :: "kvcontainer \<Rightarrow> string \<Rightarrow> string list \<Rightarrow> dl_error + string" where
  "min_lv_time s smallest [] = Inr smallest"
| "min_lv_time s smallest (key # keys) =
     (case (find_obj s key, find_obj s smallest) of
        (Some a, Some b) \<Rightarrow> min_lv_time s (if lv_time a < lv_time b then key else smallest) keys
      | _ \<Rightarrow> Inl NullDeref)"

definition KeyEvictionLruHelper ::
  "'g rand \<Rightarrow> 'g \<Rightarrow> kvcontainer \<Rightarrow> string list \<Rightarrow> dl_error + kvcontainer \<times> string list \<times> 'g" where
  "KeyEvictionLruHelper rand g s deleted_keys =
     (if keys_pool s = [] then Inr (s, deleted_keys, g)
      else case draw_candidates rand 10 g s [] of
             Inl e \<Rightarrow> Inl e
           | Inr ([], g') \<Rightarrow> Inr (s, deleted_keys, g')
           | Inr (c # cs, g') \<Rightarrow>
               (case min_lv_time s c cs of
                  Inl e \<Rightarrow> Inl e
                | Inr key \<Rightarrow>
                    (case Delete s key of (s', deleted) \<Rightarrow>
                       Inr (s', if deleted then deleted_keys @ [key] else deleted_keys, g'))))"

text \<open>
  The clock readings of the loop are the list \<open>readings\<close>; \<open>None\<close> is that the loop is still
  running when they are used up. \<open>n_deleted\<close> is never incremented.
\<close>

fun lru_loop ::
  "'g rand \<Rightarrow> nat \<Rightarrow> nat \<Rightarrow> u64 \<Rightarrow> u64 list \<Rightarrow> 'g \<Rightarrow> kvcontainer \<Rightarrow> string list \<Rightarrow>
   (dl_error + kvcontainer \<times> string list \<times> 'g) option" where
  "lru_loop rand num n_deleted start readings g s deleted_keys =
     (if keys_pool s \<noteq> [] \<and> n_deleted < num
      then case KeyEvictionLruHelper rand g s deleted_keys of
             Inl e \<Rightarrow> Some (Inl e)
           | Inr (s', deleted', g') \<Rightarrow>
               (case readings of
                  [] \<Rightarrow> None
                | t # ts \<Rightarrow>
                    if t - start > 25 then Some (Inr (s', deleted', g'))
                    else lru_loop rand num n_deleted start ts g' s' deleted')
      else Some (Inr (s, deleted_keys, g)))"

declare lru_loop.simps [simp del]

definition KeyEvictionLru ::
  "'g rand \<Rightarrow> u64 \<Rightarrow> u64 list \<Rightarrow> 'g \<Rightarrow> kvcontainer \<Rightarrow> nat \<Rightarrow>
   (dl_error + kvcontainer \<times> string list \<times> 'g) option" where
  "KeyEvictionLru rand start readings g s num = lru_loop rand num 0 start readings g s []"

definition KeyEviction ::
  "'g rand \<Rightarrow> u64 \<Rightarrow> u64 list \<Rightarrow> 'g \<Rightarrow> kvcontainer \<Rightarrow> int \<Rightarrow> nat \<Rightarrow>
   (dl_error + kvcontainer \<times> string list \<times> 'g) option" where
  "KeyEviction rand start readings g s policy n =
     (if keys_pool s = [] then Some (Inr (s, [], g))
      else if policy = EVICTION_POLICY_LRU then KeyEvictionLru rand start readings g s n
      else if policy = EVICTION_POLICY_RANDOM then Some (KeyEvictionRandom rand g s n)
      else Some (Inr (s, [], g)))"

end
