(* ===== verification/CoreSpec.thy ===== *)
theory CoreSpec
  imports Core
begin

text \<open>
  What the container promises. The locale \<open>object_store\<close> is the interface between the operations
  of \<open>KVContainer\<close> and its two representations of the key set (the buckets and the pool): what
  writing, entering and deleting a key do to the lookup and to the pool. \<open>kv_abs\<close> abstracts the
  container to a finite map from keys to abstract values, \<open>kv_spec\<close> says what each operation does
  to that map and returns, and \<open>kv_step\<close> is the operation of the code. The refinement is proved one
  operation at a time and lifted to histories by the locale \<open>call_refinement\<close>.
\<close>

section \<open>The object store\<close>

locale object_store =
  fixes good :: "'v \<Rightarrow> bool"
    and inv :: "'s \<Rightarrow> bool"
    and find :: "'s \<Rightarrow> 'k \<Rightarrow> 'v option"
    and put :: "'s \<Rightarrow> 'k \<Rightarrow> 'v \<Rightarrow> 's"
    and add :: "'s \<Rightarrow> 'k \<Rightarrow> 'v \<Rightarrow> 's"
    and del :: "'s \<Rightarrow> 'k \<Rightarrow> 's \<times> bool"
    and pool :: "'s \<Rightarrow> 'k list"
  assumes put_laws: "inv s \<Longrightarrow> good v \<Longrightarrow> find s k \<noteq> None \<Longrightarrow>
      inv (put s k v) \<and> find (put s k v) = (find s)(k \<mapsto> v) \<and> pool (put s k v) = pool s"
    and add_laws: "inv s \<Longrightarrow> good v \<Longrightarrow> find s k = None \<Longrightarrow>
      inv (add s k v) \<and> find (add s k v) = (find s)(k \<mapsto> v) \<and> pool (add s k v) = pool s @ [k]"
    and del_laws: "inv s \<Longrightarrow> del s k = (s', b) \<Longrightarrow>
      inv s' \<and> find s' = (find s)(k := None) \<and> b = (find s k \<noteq> None) \<and>
      pool s' = filter (\<lambda>x. x \<noteq> k) (pool s)"
    and find_good: "inv s \<Longrightarrow> find s k = Some v \<Longrightarrow> good v"
    and pool_laws: "inv s \<Longrightarrow> distinct (pool s) \<and> set (pool s) = dom (find s)"
begin

lemma pool_card: "inv s \<Longrightarrow> length (pool s) = card (dom (find s))"
  using pool_laws distinct_card by metis

lemma in_pool_iff: "inv s \<Longrightarrow> k \<in> set (pool s) \<longleftrightarrow> find s k \<noteq> None"
  using pool_laws by auto

lemma pool_Nil_iff: "inv s \<Longrightarrow> pool s = [] \<longleftrightarrow> find s = Map.empty"
  using pool_laws [of s] by (metis dom_eq_empty_conv set_empty)

lemma del_in_pool:
  assumes "inv s" "i < length (pool s)" "del s (pool s ! i) = (s', b)"
  shows "b \<and> length (pool s') + 1 = length (pool s)"
proof -
  let ?k = "pool s ! i"
  have d: "distinct (pool s)" using pool_laws [OF assms(1)] by simp
  have k: "?k \<in> set (pool s)" using assms(2) by simp
  have "length (filter (\<lambda>x. x \<noteq> ?k) (pool s)) = card (set (pool s) - {?k})"
    using distinct_card [of "filter (\<lambda>x. x \<noteq> ?k) (pool s)"] d by (simp add: set_diff_eq)
  also have "\<dots> = length (pool s) - 1" using k d by (simp add: distinct_card)
  finally have len: "length (filter (\<lambda>x. x \<noteq> ?k) (pool s)) = length (pool s) - 1" .
  have "pool s' = filter (\<lambda>x. x \<noteq> ?k) (pool s) \<and> b = (find s ?k \<noteq> None)"
    using del_laws [OF assms(1,3)] by simp
  then show ?thesis using len assms(2) in_pool_iff [OF assms(1)] k by auto
qed

end

definition kv_inv :: "kvcontainer \<Rightarrow> bool" where
  "kv_inv s \<longleftrightarrow>
     length (kv_bucket s) = kBucketSize \<and>
     (\<forall>i < kBucketSize. distinct (map fst (kv_bucket s ! i)) \<and>
        (\<forall>(k, obj) \<in> set (kv_bucket s ! i). GetBucket k = i \<and> vinv (vo_value obj))) \<and>
     distinct (keys_pool s) \<and> set (keys_pool s) = dom (find_obj s)"

lemma GetBucket_less [simp]: "GetBucket k < 512"
  by (simp add: GetBucket_def)

lemma kv_inv_buckets:
  assumes "kv_inv s"
  shows "length (kv_bucket s) = 512" "i < 512 \<Longrightarrow> distinct (map fst (kv_bucket s ! i))"
    "i < 512 \<Longrightarrow> (k, obj) \<in> set (kv_bucket s ! i) \<Longrightarrow> GetBucket k = i \<and> vinv (vo_value obj)"
  using assms by (auto simp: kv_inv_def)

lemma find_update_bucket:
  assumes "length (kv_bucket s) = 512"
  shows "find_obj (s\<lparr>kv_bucket := (kv_bucket s)[GetBucket k := b]\<rparr>) k' =
    (if GetBucket k' = GetBucket k then map_of b k' else find_obj s k')"
  using assms by (simp add: find_obj_def nth_list_update)

lemma find_put_obj:
  "length (kv_bucket s) = 512 \<Longrightarrow> find_obj (put_obj s k obj) = (find_obj s)(k \<mapsto> obj)"
  unfolding put_obj_def by (rule ext) (auto simp: find_obj_def nth_list_update update_conv')

lemma find_obj_pool [simp]: "find_obj (s\<lparr>keys_pool := p\<rparr>) = find_obj s"
  by (simp add: find_obj_def fun_eq_iff)

lemma put_obj_pool [simp]: "keys_pool (put_obj s k obj) = keys_pool s"
  by (simp add: put_obj_def)

lemma update_bucket_inv:
  assumes "kv_inv s" "distinct (map fst b)"
    and "\<And>k' obj. (k', obj) \<in> set b \<Longrightarrow> GetBucket k' = GetBucket k \<and> vinv (vo_value obj)"
    and "s' = s\<lparr>kv_bucket := (kv_bucket s)[GetBucket k := b], keys_pool := p\<rparr>"
    and "distinct p" "set p = dom (find_obj s')"
  shows "kv_inv s'"
  using assms(1-3,5,6) unfolding kv_inv_def assms(4)
  by (fastforce simp: nth_list_update split: if_splits)

lemma put_bucket_inv:
  assumes "kv_inv s" "vinv (vo_value obj)" "distinct p" "set p = insert k (dom (find_obj s))"
  shows "kv_inv ((put_obj s k obj)\<lparr>keys_pool := p\<rparr>)"
proof (rule update_bucket_inv [OF assms(1), where k = k and p = p])
  let ?b = "AList.update k obj (kv_bucket s ! GetBucket k)"
  note b = kv_inv_buckets [OF assms(1)]
  show "distinct (map fst ?b)" using b(2) by (simp add: distinct_update)
  show "GetBucket k' = GetBucket k \<and> vinv (vo_value obj')" if "(k', obj') \<in> set ?b" for k' obj'
  proof -
    have "map_of ?b k' = Some obj'" using that \<open>distinct (map fst ?b)\<close> by simp
    then have "k' = k \<and> obj' = obj \<or> (k', obj') \<in> set (kv_bucket s ! GetBucket k)"
      by (auto simp: update_conv' split: if_splits dest: map_of_SomeD)
    then show ?thesis using b(3) [OF GetBucket_less] assms(2) by blast
  qed
  show "(put_obj s k obj)\<lparr>keys_pool := p\<rparr> =
    s\<lparr>kv_bucket := (kv_bucket s)[GetBucket k := ?b], keys_pool := p\<rparr>"
    by (simp add: put_obj_def)
  show "distinct p" "set p = dom (find_obj ((put_obj s k obj)\<lparr>keys_pool := p\<rparr>))"
    using assms(3,4) b(1) by (auto simp: find_put_obj split: if_splits)
qed

lemma Delete_correct:
  assumes "kv_inv s" "Delete s k = (s', b)"
  shows "kv_inv s' \<and> find_obj s' = (find_obj s)(k := None) \<and> b = (find_obj s k \<noteq> None) \<and>
    keys_pool s' = filter (\<lambda>x. x \<noteq> k) (keys_pool s)"
proof (cases "find_obj s k")
  case None
  then have "k \<notin> set (keys_pool s)" using assms(1) by (auto simp: kv_inv_def)
  then have "filter (\<lambda>x. x \<noteq> k) (keys_pool s) = keys_pool s" by (auto simp: filter_id_conv)
  then show ?thesis using assms None by (auto simp: Delete_def fun_eq_iff)
next
  case (Some obj)
  let ?d = "AList.delete k (kv_bucket s ! GetBucket k)" and ?p = "filter (\<lambda>x. x \<noteq> k) (keys_pool s)"
  note b = kv_inv_buckets [OF assms(1)]
  have s': "s' = s\<lparr>kv_bucket := (kv_bucket s)[GetBucket k := ?d], keys_pool := ?p\<rparr>" "b"
    using assms(2) Some by (auto simp: Delete_def)
  have f: "find_obj s' = (find_obj s)(k := None)"
    by (rule ext) (auto simp: s'(1) find_update_bucket b(1) delete_conv' find_obj_def nth_list_update)
  have "kv_inv s'"
  proof (rule update_bucket_inv [OF assms(1) _ _ s'(1)])
    show "distinct (map fst ?d)" using b(2) by (simp add: distinct_delete)
    show "GetBucket k' = GetBucket k \<and> vinv (vo_value obj')" if "(k', obj') \<in> set ?d" for k' obj'
      using that b(3) [of "GetBucket k" k' obj'] by (auto simp: AList.delete_eq)
  qed (use assms(1) f in \<open>auto simp: kv_inv_def\<close>)
  then show ?thesis using f s' Some by simp
qed

interpretation kv_objects: object_store "\<lambda>obj. vinv (vo_value obj)" kv_inv find_obj put_obj add_obj Delete keys_pool
proof
  fix s :: kvcontainer and k and obj :: vobject
  assume inv: "kv_inv s" and good: "vinv (vo_value obj)"
  have pool: "distinct (keys_pool s)" "set (keys_pool s) = dom (find_obj s)" using inv by (simp_all add: kv_inv_def)
  have f: "find_obj (put_obj s k obj) = (find_obj s)(k \<mapsto> obj)" using find_put_obj kv_inv_buckets(1) [OF inv] by blast
  show "kv_inv (put_obj s k obj) \<and> find_obj (put_obj s k obj) = (find_obj s)(k \<mapsto> obj) \<and>
      keys_pool (put_obj s k obj) = keys_pool s" if "find_obj s k \<noteq> None"
    using put_bucket_inv [OF inv good pool(1), of k] f that pool by (auto simp: put_obj_def insert_absorb)
  show "kv_inv (add_obj s k obj) \<and> find_obj (add_obj s k obj) = (find_obj s)(k \<mapsto> obj) \<and>
      keys_pool (add_obj s k obj) = keys_pool s @ [k]" if "find_obj s k = None"
    unfolding add_obj_def using put_bucket_inv [OF inv good, of "keys_pool s @ [k]" k] f that pool by auto
next
  fix s :: kvcontainer and k and obj :: vobject
  assume inv: "kv_inv s" and "find_obj s k = Some obj"
  then have "(k, obj) \<in> set (kv_bucket s ! GetBucket k)" by (auto simp: find_obj_def dest: map_of_SomeD)
  then show "vinv (vo_value obj)" using kv_inv_buckets(3) [OF inv GetBucket_less] by blast
next
  fix s :: kvcontainer and s' k b
  show "kv_inv s' \<and> find_obj s' = (find_obj s)(k := None) \<and> b = (find_obj s k \<noteq> None) \<and>
      keys_pool s' = filter (\<lambda>x. x \<noteq> k) (keys_pool s)" if "kv_inv s" "Delete s k = (s', b)"
    by (rule Delete_correct [OF that])
  show "distinct (keys_pool s) \<and> set (keys_pool s) = dom (find_obj s)" if "kv_inv s"
    using that by (simp add: kv_inv_def)
qed

section \<open>Operations and their specification\<close>

definition kv_abs :: "kvcontainer \<Rightarrow> (string \<rightharpoonup> avalue)" where
  "kv_abs s k = map_option (\<lambda>obj. vabs (vo_value obj)) (find_obj s k)"

datatype kv_op =
    DoType string | DoExists string | DoExistKeys "string list" | DoNumItems
  | DoSetInt string int | DoIncrBy string int | DoDecrBy string int
  | DoSetString string string | DoStrLen string int | DoGet string
  | DoDelete string | DoDeleteKeys "string list" | DoAppend string string
  | DoPush bool string string | DoPushMany bool string "string list" | DoPop bool string
  | DoRange string int int | DoListLen string | DoItemAt string int | DoSetItemAt string int string
  | DoHSet string string string | DoHSetMany string "string list" "string list"
  | DoHGet string string | DoHGetMany string "string list"
  | DoHDel string string | DoHDelMany string "string list" | DoHExists string string | DoHLen string
  | DoSAdd string string | DoSAddMany string "string list" | DoSIsMember string string
  | DoSMIsMember string "string list" | DoSRem string "string list" | DoSCard string

text \<open>
  A result with the value of \<open>errcode\<close> after the call; operations without that parameter have
  \<open>None\<close>. \<open>VFault\<close> is an access outside the list structure.
\<close>

datatype kv_val = VBool bool | VInt int | VNat nat | VObj "avalue option" | VStr "string option"
  | VStrs "string option list" | VInts "int list" | VFault dl_error

type_synonym kv_result = "kv_val \<times> int option"

abbreviation with_code :: "('r \<Rightarrow> kv_val) \<Rightarrow> kvcontainer \<times> 'r \<times> int \<Rightarrow> kvcontainer \<times> kv_result" where
  "with_code C x \<equiv> (fst x, C (fst (snd x)), Some (snd (snd x)))"

definition or_fault ::
  "('r \<Rightarrow> kv_val) \<Rightarrow> kvcontainer \<Rightarrow> dl_error + kvcontainer \<times> 'r \<times> int \<Rightarrow> kvcontainer \<times> kv_result" where
  "or_fault C s x = (case x of Inl e \<Rightarrow> (s, VFault e, None) | Inr y \<Rightarrow> with_code C y)"

fun kv_call :: "u64 \<Rightarrow> kvcontainer \<Rightarrow> kv_op \<Rightarrow> kvcontainer \<times> kv_result" where
  "kv_call now s (DoType k) = (s, VInt (QueryObjectType s k), None)"
| "kv_call now s (DoExists k) = (s, VBool (KeyExists s k), None)"
| "kv_call now s (DoExistKeys ks) = (s, VInt (KeyExists_keys s ks), None)"
| "kv_call now s DoNumItems = (s, VNat (NumItems s), None)"
| "kv_call now s (DoSetInt k i) = (case SetInt now s k i of (s', b) \<Rightarrow> (s', VBool b, None))"
| "kv_call now s (DoIncrBy k i) = with_code VInt (IncrIntBy now s k i)"
| "kv_call now s (DoDecrBy k i) = with_code VInt (DecrIntBy now s k i)"
| "kv_call now s (DoSetString k v) = (case SetString now s k v of (s', b) \<Rightarrow> (s', VBool b, None))"
| "kv_call now s (DoStrLen k e) = with_code VNat (StrLen now s k e)"
| "kv_call now s (DoGet k) = with_code (\<lambda>p. VObj (map_option (\<lambda>obj. vabs (vo_value obj)) p)) (Get now s k)"
| "kv_call now s (DoDelete k) = (case Delete s k of (s', b) \<Rightarrow> (s', VBool b, None))"
| "kv_call now s (DoDeleteKeys ks) = (case Delete_keys s ks of (s', n) \<Rightarrow> (s', VInt n, None))"
| "kv_call now s (DoAppend k v) = with_code VNat (Append now s k v)"
| "kv_call now s (DoPush left k v) = with_code VBool (if left then LeftPush now s k v else RightPush now s k v)"
| "kv_call now s (DoPushMany left k vs) =
     with_code VNat (if left then LeftPush_values now s k vs else RightPush_values now s k vs)"
| "kv_call now s (DoPop left k) = with_code VStr (if left then LeftPop now s k else RightPop now s k)"
| "kv_call now s (DoRange k b e) = or_fault VStrs s (ListRange now s k b e)"
| "kv_call now s (DoListLen k) = with_code VNat (ListLen now s k)"
| "kv_call now s (DoItemAt k i) = or_fault VStr s (ListItemAtIndex now s k i)"
| "kv_call now s (DoSetItemAt k i v) = or_fault VBool s (ListSetItemAtIndex now s k i v)"
| "kv_call now s (DoHSet k f v) = with_code VBool (HashUpdateKV now s k f v)"
| "kv_call now s (DoHSetMany k fs vs) = with_code VInt (HashUpdateKV_fields now s k fs vs)"
| "kv_call now s (DoHGet k f) = with_code VStr (HashGetValue now s k f)"
| "kv_call now s (DoHGetMany k fs) = with_code VStrs (HashGetValue_fields now s k fs)"
| "kv_call now s (DoHDel k f) = with_code VInt (HashDelField now s k f)"
| "kv_call now s (DoHDelMany k fs) = with_code VInt (HashDelField_fields now s k fs)"
| "kv_call now s (DoHExists k f) = with_code VBool (HashExistField now s k f)"
| "kv_call now s (DoHLen k) = with_code VNat (HashLen now s k)"
| "kv_call now s (DoSAdd k x) = with_code VBool (SetAddItem now s k x)"
| "kv_call now s (DoSAddMany k xs) = with_code VInt (SetAddItem_members now s k xs)"
| "kv_call now s (DoSIsMember k x) = with_code VBool (SetIsMember now s k x)"
| "kv_call now s (DoSMIsMember k xs) = with_code VInts (SetMIsMember now s k xs)"
| "kv_call now s (DoSRem k xs) = with_code VInt (SetRemoveMembers now s k xs)"
| "kv_call now s (DoSCard k) = with_code VNat (SetGetMemberCount now s k)"

text \<open>A call together with the clock reading it makes; the specification does not read the clock.\<close>

definition kv_step :: "kvcontainer \<Rightarrow> u64 \<times> kv_op \<Rightarrow> kvcontainer \<times> kv_result" where
  "kv_step s c = kv_call (fst c) s (snd c)"

text \<open>The abstract list, hash or set of a key, or the error code.\<close>

definition a_list :: "(string \<rightharpoonup> avalue) \<Rightarrow> string \<Rightarrow> int + string list" where
  "a_list m k = (case m k of None \<Rightarrow> Inl kKeyNotFoundCode | Some (AList xs) \<Rightarrow> Inr xs | _ \<Rightarrow> Inl kWrongTypeCode)"

definition a_hash :: "(string \<rightharpoonup> avalue) \<Rightarrow> string \<Rightarrow> int + (string \<rightharpoonup> string)" where
  "a_hash m k = (case m k of None \<Rightarrow> Inl kKeyNotFoundCode | Some (AHash h) \<Rightarrow> Inr h | _ \<Rightarrow> Inl kWrongTypeCode)"

definition a_set :: "(string \<rightharpoonup> avalue) \<Rightarrow> string \<Rightarrow> int + string set" where
  "a_set m k = (case m k of None \<Rightarrow> Inl kKeyNotFoundCode | Some (ASet A) \<Rightarrow> Inr A | _ \<Rightarrow> Inl kWrongTypeCode)"

text \<open>
  An operation that creates the structure when the key is absent treats it as empty.
\<close>

definition or_new :: "'d \<Rightarrow> int + 'd \<Rightarrow> int + 'd" where
  "or_new d x = (case x of Inl e \<Rightarrow> if e = kKeyNotFoundCode then Inr d else Inl e | Inr d' \<Rightarrow> Inr d')"

text \<open>An index counted from the end when negative, and the list_slice between two of them.\<close>

definition idx_of :: "int \<Rightarrow> string list \<Rightarrow> int" where
  "idx_of i xs = (if i < 0 then i + int (length xs) else i)"

definition list_slice :: "string list \<Rightarrow> int \<Rightarrow> int \<Rightarrow> string list" where
  "list_slice xs b e =
     (if e < 0 then [] else take (nat e + 1 - nat b) (drop (nat b) xs))"

fun push_spec :: "bool \<Rightarrow> string list \<Rightarrow> string list \<Rightarrow> string list" where
  "push_spec left vs xs = (if left then rev vs @ xs else xs @ vs)"

fun kv_spec :: "(string \<rightharpoonup> avalue) \<Rightarrow> kv_op \<Rightarrow> (string \<rightharpoonup> avalue) \<times> kv_result" where
  "kv_spec m (DoType k) = (m, VInt (case m k of None \<Rightarrow> - 1 | Some v \<Rightarrow> atype v), None)"
| "kv_spec m (DoExists k) = (m, VBool (m k \<noteq> None), None)"
| "kv_spec m (DoExistKeys ks) = (m, VInt (int (length (filter (\<lambda>k. m (Key k) \<noteq> None) ks))), None)"
| "kv_spec m DoNumItems = (m, VNat (card (dom m)), None)"
| "kv_spec m (DoSetInt k i) = (m(k \<mapsto> AInt i), VBool True, None)"
| "kv_spec m (DoIncrBy k n) =
     (case m k of
        None \<Rightarrow> (m(k \<mapsto> AInt n), VInt n, Some kOkCode)
      | Some (AInt v) \<Rightarrow>
          if v + n > INT64_MAX then (m, VInt 0, Some kOverflowCode)
          else (m(k \<mapsto> AInt (v + n)), VInt (v + n), Some kOkCode)
      | _ \<Rightarrow> (m, VInt 0, Some kWrongTypeCode))"
| "kv_spec m (DoDecrBy k n) =
     (case m k of
        None \<Rightarrow> (m(k \<mapsto> AInt (- n)), VInt (- n), Some kOkCode)
      | Some (AInt v) \<Rightarrow>
          if v - n < INT64_MIN then (m, VInt 0, Some kOverflowCode)
          else (m(k \<mapsto> AInt (v - n)), VInt (v - n), Some kOkCode)
      | _ \<Rightarrow> (m, VInt 0, Some kWrongTypeCode))"
| "kv_spec m (DoSetString k v) = (m(k \<mapsto> AStr v), VBool True, None)"
| "kv_spec m (DoStrLen k e) =
     (m, case m k of
           None \<Rightarrow> (VNat 0, Some kKeyNotFoundCode)
         | Some (AInt i) \<Rightarrow> (VNat (length (std_to_string i)), Some kOkCode)
         | Some (AStr v) \<Rightarrow> (VNat (length v), Some kOkCode)
         | _ \<Rightarrow> (VNat 0, Some e))"
| "kv_spec m (DoGet k) =
     (m, case m k of
           None \<Rightarrow> (VObj None, Some kKeyNotFoundCode)
         | Some (AInt i) \<Rightarrow> (VObj (Some (AInt i)), Some kOkCode)
         | Some (AStr v) \<Rightarrow> (VObj (Some (AStr v)), Some kOkCode)
         | _ \<Rightarrow> (VObj None, Some kWrongTypeCode))"
| "kv_spec m (DoDelete k) = (m(k := None), VBool (m k \<noteq> None), None)"
| "kv_spec m (DoDeleteKeys ks) =
     (m |` (- Key ` set ks), VInt (int (card (dom m \<inter> Key ` set ks))), None)"
| "kv_spec m (DoAppend k v) =
     (let old = (case m k of None \<Rightarrow> Some [] | Some (AStr w) \<Rightarrow> Some w
                 | Some (AInt i) \<Rightarrow> Some (std_to_string i) | _ \<Rightarrow> None)
      in case old of
           Some w \<Rightarrow> (m(k \<mapsto> AStr (w @ v)), VNat (length (w @ v)), Some kOkCode)
         | None \<Rightarrow> (m, VNat 0, Some kWrongTypeCode))"
| "kv_spec m (DoPush left k v) =
     (case or_new [] (a_list m k) of
        Inl e \<Rightarrow> (m, VBool False, Some e)
      | Inr xs \<Rightarrow> (m(k \<mapsto> AList (push_spec left [v] xs)), VBool True, Some kOkCode))"
| "kv_spec m (DoPushMany left k vs) =
     (case or_new [] (a_list m (Key k)) of
        Inl e \<Rightarrow> (m, VNat 0, Some e)
      | Inr xs \<Rightarrow> (m(Key k \<mapsto> AList (push_spec left vs xs)), VNat (length xs + length vs), Some kOkCode))"
| "kv_spec m (DoPop left k) =
     (case a_list m k of
        Inl e \<Rightarrow> (m, VStr None, Some e)
      | Inr [] \<Rightarrow> (m, VStr None, Some kOkCode)
      | Inr xs \<Rightarrow>
          if left then (m(k \<mapsto> AList (tl xs)), VStr (Some (hd xs)), Some kOkCode)
          else (m(k \<mapsto> AList (butlast xs)), VStr (Some (last xs)), Some kOkCode))"
| "kv_spec m (DoRange k b e) =
     (m, case a_list m k of
           Inl err \<Rightarrow> (VStrs [], Some err)
         | Inr xs \<Rightarrow> (VStrs (map Some (list_slice xs (idx_of b xs) (idx_of e xs))), Some kOkCode))"
| "kv_spec m (DoListLen k) =
     (m, case a_list m k of Inl e \<Rightarrow> (VNat 0, Some e) | Inr xs \<Rightarrow> (VNat (length xs), Some kOkCode))"
| "kv_spec m (DoItemAt k i) =
     (m, case a_list m k of
           Inl e \<Rightarrow> (VStr None, Some e)
         | Inr xs \<Rightarrow>
             let j = idx_of i xs
             in if 0 \<le> j \<and> j < int (length xs) then (VStr (Some (xs ! nat j)), Some kOkCode)
                else (VStr None, Some kFailCode))"
| "kv_spec m (DoSetItemAt k i v) =
     (case a_list m k of
        Inl e \<Rightarrow> (m, VBool False, Some e)
      | Inr xs \<Rightarrow>
          let j = idx_of i xs
          in if j < 0 then (m, VBool False, Some kFailCode)
             else if j < int (length xs) then (m(k \<mapsto> AList (xs[nat j := v])), VBool True, Some kOkCode)
             else (m, VBool False, Some kOutOfRangeCode))"
| "kv_spec m (DoHSet k f v) =
     (case or_new Map.empty (a_hash m k) of
        Inl e \<Rightarrow> (m, VBool False, Some e)
      | Inr h \<Rightarrow> (m(k \<mapsto> AHash (h(f \<mapsto> v))), VBool True, Some kOkCode))"
| "kv_spec m (DoHSetMany k fs vs) =
     (if length fs \<noteq> length vs then (m, VInt 0, Some kFailCode)
      else case or_new Map.empty (a_hash m k) of
             Inl e \<Rightarrow> (m, VInt 0, Some e)
           | Inr h \<Rightarrow> (m(k \<mapsto> AHash (h(fs [\<mapsto>] vs))), VInt (int (length fs)), Some kOkCode))"
| "kv_spec m (DoHGet k f) =
     (m, case a_hash m k of
           Inl e \<Rightarrow> (VStr None, Some e)
         | Inr h \<Rightarrow> (VStr (h f), Some (if h f = None then kKeyNotFoundCode else kOkCode)))"
| "kv_spec m (DoHGetMany k fs) =
     (m, case a_hash m k of Inl e \<Rightarrow> (VStrs [], Some e) | Inr h \<Rightarrow> (VStrs (map h fs), Some kOkCode))"
| "kv_spec m (DoHDel k f) =
     (case a_hash m k of
        Inl e \<Rightarrow> (m, VInt 0, Some e)
      | Inr h \<Rightarrow> (m(k \<mapsto> AHash (h(f := None))), VInt (if h f = None then 0 else 1), Some kOkCode))"
| "kv_spec m (DoHDelMany k fs) =
     (case a_hash m k of
        Inl e \<Rightarrow> (m, VInt 0, Some e)
      | Inr h \<Rightarrow> (m(k \<mapsto> AHash (h |` (- set fs))), VInt (int (card (dom h \<inter> set fs))), Some kOkCode))"
| "kv_spec m (DoHExists k f) =
     (m, case a_hash m k of Inl e \<Rightarrow> (VBool False, Some e) | Inr h \<Rightarrow> (VBool (h f \<noteq> None), Some kOkCode))"
| "kv_spec m (DoHLen k) =
     (m, case a_hash m k of Inl e \<Rightarrow> (VNat 0, Some e) | Inr h \<Rightarrow> (VNat (card (dom h)), Some kOkCode))"
| "kv_spec m (DoSAdd k x) =
     (case or_new {} (a_set m k) of
        Inl e \<Rightarrow> (m, VBool False, Some e)
      | Inr A \<Rightarrow> (m(k \<mapsto> ASet (insert x A)), VBool (x \<notin> A), Some (if x \<in> A then kFailCode else kOkCode)))"
| "kv_spec m (DoSAddMany k xs) =
     (case or_new {} (a_set m k) of
        Inl e \<Rightarrow> (m, VInt 0, Some e)
      | Inr A \<Rightarrow> (m(k \<mapsto> ASet (A \<union> set xs)), VInt (int (card (set xs - A))), Some kOkCode))"
| "kv_spec m (DoSIsMember k x) =
     (m, case a_set m k of Inl e \<Rightarrow> (VBool False, Some e) | Inr A \<Rightarrow> (VBool (x \<in> A), Some kOkCode))"
| "kv_spec m (DoSMIsMember k xs) =
     (m, case a_set m k of
           Inl e \<Rightarrow> (VInts (if e = kKeyNotFoundCode then replicate (length xs) 0 else []), Some e)
         | Inr A \<Rightarrow> (VInts (map (\<lambda>x. if x \<in> A then 1 else 0) xs), Some kOkCode))"
| "kv_spec m (DoSRem k xs) =
     (case a_set m k of
        Inl e \<Rightarrow> (m, VInt 0, Some e)
      | Inr A \<Rightarrow> (m(k \<mapsto> ASet (A - set xs)), VInt (int (card (A \<inter> set xs))), Some kOkCode))"
| "kv_spec m (DoSCard k) =
     (m, case a_set m k of Inl e \<Rightarrow> (VNat 0, Some e) | Inr A \<Rightarrow> (VNat (card A), Some kOkCode))"

text \<open>
  The calls the specification is about: arguments in the range of their C++ type, strings of
  at most \<open>2 ^ 31\<close> bytes, increments that are not negative (the commands check this), indexed
  access to lists of fewer than \<open>2 ^ 31\<close> elements, and a range that is empty or starts inside the list
  and does not combine a start before the list with end 0.
\<close>

definition range_ok :: "string list \<Rightarrow> int \<Rightarrow> int \<Rightarrow> bool" where
  "range_ok xs b e \<longleftrightarrow>
     xs = [] \<or> idx_of e xs < 0 \<or> (0 \<le> idx_of b xs \<and> idx_of b xs > idx_of e xs) \<or>
     (idx_of b xs < int (length xs) \<and> (0 \<le> idx_of b xs \<or> 0 < idx_of e xs))"

fun kv_ok :: "(string \<rightharpoonup> avalue) \<Rightarrow> kv_op \<Rightarrow> bool" where
  "kv_ok m (DoSetInt k i) \<longleftrightarrow> in_int64 i"
| "kv_ok m (DoIncrBy k n) \<longleftrightarrow> 0 \<le> n \<and> n \<le> INT64_MAX"
| "kv_ok m (DoDecrBy k n) \<longleftrightarrow> 0 \<le> n \<and> n \<le> INT64_MAX"
| "kv_ok m (DoSetString k v) \<longleftrightarrow> length v \<le> 2 ^ 31"
| "kv_ok m (DoAppend k v) \<longleftrightarrow>
     (case m k of Some (AStr w) \<Rightarrow> length w | Some (AInt i) \<Rightarrow> length (std_to_string i) | _ \<Rightarrow> 0) + length v \<le> 2 ^ 31"
| "kv_ok m (DoRange k b e) \<longleftrightarrow>
     in_int32 b \<and> in_int32 e \<and>
     (case m k of Some (AList xs) \<Rightarrow> length xs < 2 ^ 31 \<and> range_ok xs b e | _ \<Rightarrow> True)"
| "kv_ok m (DoItemAt k i) \<longleftrightarrow>
     in_int32 i \<and> (case m k of Some (AList xs) \<Rightarrow> length xs < 2 ^ 31 | _ \<Rightarrow> True)"
| "kv_ok m (DoSetItemAt k i v) \<longleftrightarrow>
     in_int32 i \<and> (case m k of Some (AList xs) \<Rightarrow> length xs < 2 ^ 31 | _ \<Rightarrow> True)"
| "kv_ok m _ \<longleftrightarrow> True"

end
