(* ===== verification/CoreCorrect.thy ===== *)
theory CoreCorrect
  imports CoreSpec
begin

text \<open>
  The operations of \<open>KVContainer\<close> refine their specification: one lemma per operation, the
  interpretation of \<open>call_refinement\<close> on the container, and the properties of histories of calls,
  of the enumerations, of the statistics, of eviction and of the recovered commands.
\<close>

section \<open>Storing and looking up\<close>

definition refines :: "kvcontainer \<Rightarrow> kv_op \<Rightarrow> kvcontainer \<times> kv_result \<Rightarrow> bool" where
  "refines s c p \<longleftrightarrow> kv_inv (fst p) \<and> kv_spec (kv_abs s) c = (kv_abs (fst p), snd p)"

lemma kv_abs_find: "kv_abs s k = map_option (\<lambda>obj. vabs (vo_value obj)) (find_obj s k)"
  by (simp add: kv_abs_def)

lemma kv_abs_upd: "find_obj s' = (find_obj s)(k \<mapsto> obj) \<Longrightarrow> kv_abs s' = (kv_abs s)(k \<mapsto> vabs (vo_value obj))"
  by (simp add: kv_abs_def fun_eq_iff)

lemma found_vinv: "kv_inv s \<Longrightarrow> find_obj s k = Some obj \<Longrightarrow> vinv (vo_value obj)"
  by (rule kv_objects.find_good)

lemma store_found:
  assumes "kv_inv s" "find_obj s k = Some obj" "vinv v"
  shows "kv_inv (store s k v now)" "kv_abs (store s k v now) = (kv_abs s)(k \<mapsto> vabs v)"
proof -
  have "kv_inv (store s k v now) \<and> find_obj (store s k v now) = (find_obj s)(k \<mapsto> \<lparr>vo_value = v, lv_time = now\<rparr>)"
    unfolding store_def using kv_objects.put_laws [OF assms(1), of "\<lparr>vo_value = v, lv_time = now\<rparr>" k] assms(2,3) by simp
  then show "kv_inv (store s k v now)" "kv_abs (store s k v now) = (kv_abs s)(k \<mapsto> vabs v)"
    using kv_abs_upd by fastforce+
qed

lemma store_same:
  assumes "kv_inv s" "find_obj s k = Some obj" "vo_value obj = v"
  shows "kv_inv (store s k v now)" "kv_abs (store s k v now) = kv_abs s"
  using store_found [OF assms(1,2), of v now] found_vinv [OF assms(1,2)] assms(2,3)
  by (auto simp: kv_abs_find fun_eq_iff)

lemma add_new:
  assumes "kv_inv s" "find_obj s k = None" "vinv (vo_value obj)"
  shows "kv_inv (add_obj s k obj)" "kv_abs (add_obj s k obj) = (kv_abs s)(k \<mapsto> vabs (vo_value obj))"
    "find_obj (add_obj s k obj) k = Some obj"
  using kv_objects.add_laws [OF assms(1,3,2)] kv_abs_upd by simp_all

lemma add_then_store:
  assumes "kv_inv s" "find_obj s k = None" "vinv (vo_value obj)" "vinv v"
  shows "kv_inv (store (add_obj s k obj) k v now)"
    "kv_abs (store (add_obj s k obj) k v now) = (kv_abs s)(k \<mapsto> vabs v)"
  using store_found [OF add_new(1,3) assms(4)] add_new(2) assms by simp_all

lemma get_list_abs:
  assumes "kv_inv s"
  shows "a_list (kv_abs s) k = map_sum id dl_abs (get_list s k)"
    "get_list s k = Inr d \<Longrightarrow> dl_inv d \<and> (\<exists>obj. find_obj s k = Some obj \<and> vo_value obj = ListVal d)"
  using found_vinv [OF assms, of k]
  by (auto simp: a_list_def get_list_def kv_abs_find split: option.splits vvalue.splits)

lemma get_hash_abs:
  assumes "kv_inv s"
  shows "a_hash (kv_abs s) k = map_sum id dict_map (get_hash s k)"
    "get_hash s k = Inr d \<Longrightarrow> rh_inv hkey d \<and> (\<exists>obj. find_obj s k = Some obj \<and> vo_value obj = HashVal d)"
  using found_vinv [OF assms, of k]
  by (auto simp: a_hash_def get_hash_def kv_abs_find split: option.splits vvalue.splits)

lemma get_set_abs:
  assumes "kv_inv s"
  shows "a_set (kv_abs s) k = map_sum id set_elems (get_set s k)"
    "get_set s k = Inr d \<Longrightarrow> rh_inv skey d \<and> (\<exists>obj. find_obj s k = Some obj \<and> vo_value obj = SetVal d)"
  using found_vinv [OF assms, of k]
  by (auto simp: a_set_def get_set_def kv_abs_find split: option.splits vvalue.splits)

section \<open>Queries on the container\<close>

lemma refines_type: "kv_inv s \<Longrightarrow> refines s (DoType k) (kv_call now s (DoType k))"
  by (simp add: refines_def QueryObjectType_def kv_abs_find split: option.splits)

lemma KeyExists_abs: "KeyExists s k \<longleftrightarrow> kv_abs s k \<noteq> None"
  by (simp add: KeyExists_def kv_abs_find)

lemma refines_exists: "kv_inv s \<Longrightarrow> refines s (DoExists k) (kv_call now s (DoExists k))"
  by (simp add: refines_def KeyExists_abs)

lemma KeyExists_keys_abs: "KeyExists_keys s ks = int (length (filter (\<lambda>k. kv_abs s (Key k) \<noteq> None) ks))"
  by (induction ks) (auto simp: KeyExists_abs)

lemma refines_exist_keys: "kv_inv s \<Longrightarrow> refines s (DoExistKeys ks) (kv_call now s (DoExistKeys ks))"
  by (simp add: refines_def KeyExists_keys_abs)

lemma distinct_concat_buckets:
  assumes "\<And>i. i < length xss \<Longrightarrow> distinct (xss ! i)"
    and "\<And>i j. i < length xss \<Longrightarrow> j < length xss \<Longrightarrow> i \<noteq> j \<Longrightarrow> set (xss ! i) \<inter> set (xss ! j) = {}"
  shows "distinct (concat xss)"
  using assms
proof (induction xss)
  case (Cons xs xss)
  have "distinct (concat xss)"
    by (rule Cons.IH) (use Cons.prems(1) [of "Suc _"] Cons.prems(2) [of "Suc _" "Suc _"] in auto)
  moreover have "set xs \<inter> set (concat xss) = {}"
    using Cons.prems(2) [of 0 "Suc _"] by (fastforce simp: in_set_conv_nth)
  ultimately show ?case using Cons.prems(1) [of 0] by simp
qed simp

lemma all_items_distinct:
  assumes "kv_inv s"
  shows "distinct (map fst (all_items s))" "map_of (all_items s) = find_obj s"
proof -
  note b = kv_inv_buckets [OF assms]
  have in_bucket: "(k, obj) \<in> set (all_items s) \<longleftrightarrow> (k, obj) \<in> set (kv_bucket s ! GetBucket k)" for k obj
  proof
    assume "(k, obj) \<in> set (all_items s)"
    then obtain l where "l \<in> set (kv_bucket s)" "(k, obj) \<in> set l" by (auto simp: all_items_def)
    then obtain i where "i < 512" "(k, obj) \<in> set (kv_bucket s ! i)" using b(1) by (metis in_set_conv_nth)
    then show "(k, obj) \<in> set (kv_bucket s ! GetBucket k)" using b(3) by metis
  qed (use b(1) in \<open>auto simp: all_items_def intro: nth_mem\<close>)
  have disj: "set (map fst (kv_bucket s ! i)) \<inter> set (map fst (kv_bucket s ! j)) = {}"
    if "i < 512" "j < 512" "i \<noteq> j" for i j using b(3) [of i] b(3) [of j] that by fastforce
  have "distinct (concat (map (map fst) (kv_bucket s)))"
    by (rule distinct_concat_buckets) (use b(1,2) disj in simp_all)
  then show d: "distinct (map fst (all_items s))" by (simp add: all_items_def map_concat)
  show "map_of (all_items s) = find_obj s"
  proof (rule ext)
    fix k
    have "map_of (all_items s) k = Some obj \<longleftrightarrow> find_obj s k = Some obj" for obj
      using d b(2) [of "GetBucket k"] in_bucket [of k obj] by (simp add: find_obj_def)
    then show "map_of (all_items s) k = find_obj s k" by (metis not_Some_eq)
  qed
qed

lemma NumItems_card: "kv_inv s \<Longrightarrow> NumItems s = card (dom (kv_abs s))"
proof -
  assume inv: "kv_inv s"
  have "NumItems s = length (all_items s)" by (simp add: NumItems_def all_items_def length_concat)
  also have "\<dots> = card (fst ` set (all_items s))"
    using distinct_card [OF all_items_distinct(1) [OF inv]] by simp
  also have "fst ` set (all_items s) = dom (kv_abs s)"
    using all_items_distinct(2) [OF inv] dom_map_of_conv_image_fst [of "all_items s"]
    by (auto simp: kv_abs_def dom_def)
  finally show ?thesis .
qed


lemma refines_num_items: "kv_inv s \<Longrightarrow> refines s DoNumItems (kv_call now s DoNumItems)"
  by (simp add: refines_def NumItems_card)

section \<open>Integers and strings\<close>

lemma refines_set_int:
  assumes inv: "kv_inv s" and ok: "kv_ok (kv_abs s) (DoSetInt k i)"
  shows "refines s (DoSetInt k i) (kv_call now s (DoSetInt k i))"
proof (cases "find_obj s k")
  case None
  then show ?thesis using add_new [OF inv None, of "ConstructIntObjPtr now i"] ok
    by (simp add: refines_def SetInt_def value_simps)
next
  case (Some obj)
  then show ?thesis using store_found [OF inv Some, of "IntVal i" now] ok by (simp add: refines_def SetInt_def)
qed

lemma refines_incr:
  assumes inv: "kv_inv s" and ok: "kv_ok (kv_abs s) (DoIncrBy k n)"
  shows "refines s (DoIncrBy k n) (kv_call now s (DoIncrBy k n))"
proof (cases "find_obj s k")
  case None
  then show ?thesis using add_new [OF inv None, of "ConstructIntObjPtr now n"] ok
    by (simp add: refines_def IncrIntBy_def Let_def value_simps ValueObject_ToInt64_def in_int64_def kv_abs_find)
next
  case (Some obj)
  show ?thesis
  proof (cases "vo_value obj")
    case (IntVal v)
    have w: "wrap64 (INT64_MAX - n) = INT64_MAX - n" using ok by (intro wrap64_id) (simp add: in_int64_def)
    have v: "in_int64 v" using found_vinv [OF inv Some] IntVal by simp
    show ?thesis
    proof (cases "v + n > INT64_MAX")
      case True
      then show ?thesis using store_same [OF inv Some IntVal, of now] Some IntVal
        by (simp add: refines_def IncrIntBy_def Let_def w kv_abs_find)
    next
      case False
      then have i: "in_int64 (v + n)" using v ok by (simp add: in_int64_def)
      then show ?thesis using store_found [OF inv Some, of "IntVal (v + n)" now] Some IntVal False
        by (simp add: refines_def IncrIntBy_def Let_def w wrap64_id kv_abs_find)
    qed
  qed (use inv Some in \<open>simp_all add: refines_def IncrIntBy_def Let_def kv_abs_find\<close>)
qed

lemma refines_decr:
  assumes inv: "kv_inv s" and ok: "kv_ok (kv_abs s) (DoDecrBy k n)"
  shows "refines s (DoDecrBy k n) (kv_call now s (DoDecrBy k n))"
proof (cases "find_obj s k")
  case None
  have "wrap64 (- n) = - n" using ok by (intro wrap64_id) (simp add: in_int64_def)
  then show ?thesis using add_new [OF inv None, of "ConstructIntObjPtr now (- n)"] ok None
    by (simp add: refines_def DecrIntBy_def Let_def value_simps ValueObject_ToInt64_def in_int64_def kv_abs_find)
next
  case (Some obj)
  show ?thesis
  proof (cases "vo_value obj")
    case (IntVal v)
    have w: "wrap64 (n - 9223372036854775808) = n - 9223372036854775808" using ok by (intro wrap64_id) (simp add: in_int64_def)
    have v: "in_int64 v" using found_vinv [OF inv Some] IntVal by simp
    show ?thesis
    proof (cases "v - n < INT64_MIN")
      case True
      then show ?thesis using store_same [OF inv Some IntVal, of now] Some IntVal
        by (simp add: refines_def DecrIntBy_def Let_def w kv_abs_find)
    next
      case False
      then have i: "in_int64 (v - n)" using v ok by (simp add: in_int64_def)
      then show ?thesis using store_found [OF inv Some, of "IntVal (v - n)" now] Some IntVal False
        by (simp add: refines_def DecrIntBy_def Let_def w wrap64_id kv_abs_find)
    qed
  qed (use inv Some in \<open>simp_all add: refines_def DecrIntBy_def Let_def kv_abs_find\<close>)
qed

lemma refines_set_string:
  assumes inv: "kv_inv s" and ok: "kv_ok (kv_abs s) (DoSetString k v)"
  shows "refines s (DoSetString k v) (kv_call now s (DoSetString k v))"
proof (cases "find_obj s k")
  case None
  then show ?thesis using add_new [OF inv None, of "ConstructStrObjPtr now v"] ok dstr_std_value [of v]
    by (simp add: refines_def SetString_def value_simps)
next
  case (Some obj)
  note st = store_found [OF inv Some]
  show ?thesis
  proof (cases "vo_value obj")
    case (StrVal ds)
    then have "ds_inv ds" using found_vinv [OF inv Some] by simp
    then show ?thesis using st [OF dstr_reset_value(1), of ds v now] dstr_reset_value(2) [of ds v] ok Some StrVal
      by (simp add: refines_def SetString_def)
  qed (use st [OF dstr_std_value(1), of v now] dstr_std_value(2) [of v] ok Some in
      \<open>simp_all add: refines_def SetString_def\<close>)
qed

lemma refines_strlen:
  assumes inv: "kv_inv s"
  shows "refines s (DoStrLen k e) (kv_call now s (DoStrLen k e))"
proof (cases "find_obj s k")
  case (Some obj)
  show ?thesis
  proof (cases "vo_value obj")
    case (StrVal ds)
    then have "ds_inv ds" using found_vinv [OF inv Some] by simp
    then show ?thesis using store_same [OF inv Some StrVal, of now] Some StrVal
      by (simp add: refines_def StrLen_def kv_abs_find length_ds_str)
  qed (use inv store_same [OF inv Some, of "IntVal _" now] Some in \<open>simp_all add: refines_def StrLen_def kv_abs_find\<close>)
qed (use inv in \<open>simp add: refines_def StrLen_def kv_abs_find\<close>)

lemma refines_get:
  assumes inv: "kv_inv s"
  shows "refines s (DoGet k) (kv_call now s (DoGet k))"
proof (cases "find_obj s k")
  case (Some obj)
  show ?thesis using inv store_same [OF inv Some, of "vo_value obj" now] Some
    by (cases "vo_value obj") (simp_all add: refines_def Get_def kv_abs_find)
qed (use inv in \<open>simp add: refines_def Get_def kv_abs_find\<close>)

lemma refines_delete:
  assumes inv: "kv_inv s"
  shows "refines s (DoDelete k) (kv_call now s (DoDelete k))"
proof -
  obtain s' b where d: "Delete s k = (s', b)" by fastforce
  show ?thesis using Delete_correct [OF inv d] d by (auto simp: refines_def kv_abs_def fun_eq_iff)
qed

lemma Delete_keys_correct:
  assumes "kv_inv s" "Delete_keys s ks = (s', n)"
  shows "kv_inv s' \<and> kv_abs s' = kv_abs s |` (- Key ` set ks) \<and> n = int (card (dom (kv_abs s) \<inter> Key ` set ks))"
  using assms
proof (induction ks arbitrary: s s' n)
  case (Cons k ks)
  obtain s1 b where d: "Delete s (Key k) = (s1, b)" by fastforce
  obtain s2 n2 where ds: "Delete_keys s1 ks = (s2, n2)" by fastforce
  have 1: "kv_inv s1" "kv_abs s1 = (kv_abs s)(Key k := None)" "b = (kv_abs s (Key k) \<noteq> None)"
    using Delete_correct [OF Cons.prems(1) d] by (auto simp: kv_abs_def fun_eq_iff)
  have 2: "kv_abs s2 = kv_abs s1 |` (- Key ` set ks)" "n2 = int (card (dom (kv_abs s1) \<inter> Key ` set ks))" "kv_inv s2"
    using Cons.IH [OF 1(1) ds] by auto
  have s': "s' = s2" "n = (if b then 1 else 0) + n2" using Cons.prems(2) d ds by auto
  have "dom (kv_abs s) \<inter> Key ` set (k # ks) =
      (if b then insert (Key k) (dom (kv_abs s1) \<inter> Key ` set ks) else dom (kv_abs s1) \<inter> Key ` set ks)"
    using 1(2,3) by auto
  moreover have "finite (dom (kv_abs s1) \<inter> Key ` set ks)" "Key k \<notin> dom (kv_abs s1)" using 1(2) by auto
  ultimately have c: "card (dom (kv_abs s) \<inter> Key ` set (k # ks)) =
      (if b then 1 else 0) + card (dom (kv_abs s1) \<inter> Key ` set ks)" by simp
  have "n = int (card (dom (kv_abs s) \<inter> Key ` set (k # ks)))" unfolding s'(2) 2(2) c by simp
  moreover have "kv_abs s2 = kv_abs s |` (- Key ` set (k # ks))"
    by (auto simp: 2(1) 1(2) restrict_map_def fun_eq_iff)
  ultimately show ?case using 2(3) s'(1) by blast
qed (simp add: restrict_map_def)

lemma refines_delete_keys: "kv_inv s \<Longrightarrow> refines s (DoDeleteKeys ks) (kv_call now s (DoDeleteKeys ks))"
  using Delete_keys_correct [of s ks] by (auto simp: refines_def split: prod.splits)

lemma refines_append:
  assumes inv: "kv_inv s" and ok: "kv_ok (kv_abs s) (DoAppend k v)"
  shows "refines s (DoAppend k v) (kv_call now s (DoAppend k v))"
proof (cases "find_obj s k")
  case None
  then have "length v \<le> 2 ^ 31" using ok by (simp add: kv_abs_find)
  then show ?thesis
    using add_new [OF inv None, of "ConstructStrObjPtr now v"] dstr_std_value [of v] length_ds_str [of "DynamicString_std v"] None
    by (simp add: refines_def Append_def Let_def value_simps kv_abs_find)
next
  case (Some obj)
  have st: "kv_inv (store s k (StrVal (DynamicString_Append_std ds v)) now) \<and>
      kv_abs (store s k (StrVal (DynamicString_Append_std ds v)) now) = (kv_abs s)(k \<mapsto> AStr (ds_str ds @ v)) \<and>
      unat (ds_len (DynamicString_Append_std ds v)) = length (ds_str ds @ v)"
    if "ds_inv ds" "length (ds_str ds) + length v \<le> 2 ^ 31" for ds
    using store_found [OF inv Some dstr_append_value(1), of ds v now] dstr_append_value [of ds v] that
      length_ds_str [of "DynamicString_Append_std ds v"] by simp
  show ?thesis
  proof (cases "vo_value obj")
    case (IntVal i)
    have l: "length (std_to_string i) + length v \<le> 2 ^ 31" using ok Some IntVal by (simp add: kv_abs_find)
    then show ?thesis using st [of "DynamicString_std (std_to_string i)"] dstr_std_value [of "std_to_string i"] Some IntVal
      by (simp add: refines_def Append_def Let_def kv_abs_find)
  next
    case (StrVal ds)
    then show ?thesis using st [of ds] found_vinv [OF inv Some] ok Some
      by (simp add: refines_def Append_def Let_def kv_abs_find)
  qed (use inv Some in \<open>simp_all add: refines_def Append_def Let_def kv_abs_find\<close>)
qed

section \<open>Lists\<close>

lemma push_one_correct:
  assumes "dl_inv d"
  shows "dl_inv (push_one left v d)" "dl_abs (push_one left v d) = push_spec left [v] (dl_abs d)"
  using PushLeft_correct [OF assms, of v] PushRight_correct [OF assms, of v]
  by (simp_all add: push_one_def dl_abs_def)

lemma push_many_correct:
  assumes "dl_inv d"
  shows "dl_inv (fold (push_one left) vs d) \<and>
    dl_abs (fold (push_one left) vs d) = push_spec left vs (dl_abs d)"
  using assms by (induction vs arbitrary: d) (auto simp: push_one_correct)

lemma push_target_cases:
  assumes inv: "kv_inv s"
  obtains (fail) e where "push_target now s k = Inl e" "or_new [] (a_list (kv_abs s) k) = Inl e"
  | (push) s1 d where "push_target now s k = Inr (s1, d)" "or_new [] (a_list (kv_abs s) k) = Inr (dl_abs d)"
      "dl_inv d" "\<And>v. vinv v \<Longrightarrow> kv_inv (store s1 k v now)"
      "\<And>v. vinv v \<Longrightarrow> kv_abs (store s1 k v now) = (kv_abs s)(k \<mapsto> vabs v)"
proof (cases "find_obj s k")
  case None
  have v: "vinv (vo_value (ConstructDListObjPtr now))" by (simp add: value_simps dl_new_inv)
  show thesis
    by (rule push [OF _ _ dl_new_inv(1)])
      (use None add_then_store [OF inv None v] in
        \<open>simp_all add: push_target_def or_new_def a_list_def kv_abs_find\<close>)
next
  case (Some obj)
  show thesis
  proof (cases "vo_value obj")
    case (ListVal d)
    then have "dl_inv d" using found_vinv [OF inv Some] by simp
    then show thesis
      by (intro push) (use Some ListVal store_found [OF inv Some] in
          \<open>simp_all add: push_target_def or_new_def a_list_def kv_abs_find\<close>)
  qed (use Some fail in \<open>simp_all add: push_target_def or_new_def a_list_def kv_abs_find\<close>)
qed

lemma ListPushAux_refines:
  assumes inv: "kv_inv s"
  shows "refines s (DoPush left k v) (with_code VBool (ListPushAux now s k v left))"
  using inv
proof (cases rule: push_target_cases [of s now k])
  case (push s1 d)
  then show ?thesis using push_one_correct [OF push(3), of left v]
    by (simp add: refines_def ListPushAux_def)
qed (use inv in \<open>simp add: refines_def ListPushAux_def\<close>)

lemma ListPushAux_values_refines:
  assumes inv: "kv_inv s"
  shows "refines s (DoPushMany left k vs) (with_code VNat (ListPushAux_values now s (Key k) vs left))"
  using inv
proof (cases rule: push_target_cases [of s now "Key k"])
  case (push s1 d)
  let ?d = "fold (push_one left) vs d"
  have d: "dl_inv ?d" "dl_abs ?d = push_spec left vs (dl_abs d)" using push_many_correct [OF push(3)] by auto
  have "dl_len ?d = dl_len d + length vs" using arg_cong [OF d(2), of length] by (auto split: if_splits)
  then show ?thesis using push d by (simp add: refines_def ListPushAux_values_def Let_def)
qed (use inv in \<open>simp add: refines_def ListPushAux_values_def\<close>)

lemma refines_push: "kv_inv s \<Longrightarrow> refines s (DoPush left k v) (kv_call now s (DoPush left k v))"
  using ListPushAux_refines [of s left k v now] by (cases left) (simp_all add: LeftPush_def RightPush_def)

lemma refines_push_many: "kv_inv s \<Longrightarrow> refines s (DoPushMany left k vs) (kv_call now s (DoPushMany left k vs))"
  using ListPushAux_values_refines [of s left k vs now]
  by (cases left) (simp_all add: LeftPush_values_def RightPush_values_def)

lemma get_list_cases:
  assumes inv: "kv_inv s"
  obtains (fail) e where "get_list s k = Inl e" "a_list (kv_abs s) k = Inl e"
  | (found) d where "get_list s k = Inr d" "a_list (kv_abs s) k = Inr (dl_abs d)" "kv_abs s k = Some (AList (dl_abs d))"
      "dl_inv d" "\<And>v now. vinv v \<Longrightarrow> kv_inv (store s k v now)"
      "\<And>v now. vinv v \<Longrightarrow> kv_abs (store s k v now) = (kv_abs s)(k \<mapsto> vabs v)"
proof (cases "get_list s k")
  case (Inl e)
  then show thesis using fail get_list_abs(1) [OF inv, of k] by simp
next
  case (Inr d)
  obtain obj where obj: "find_obj s k = Some obj" "vo_value obj = ListVal d" "dl_inv d"
    using get_list_abs(2) [OF inv Inr] by auto
  show thesis
    by (rule found) (use Inr get_list_abs(1) [OF inv, of k] obj store_found [OF inv obj(1)] in \<open>simp_all add: kv_abs_find\<close>)
qed

text \<open>Writing back the value a key already has.\<close>

lemma upd_same: "m k = Some v \<Longrightarrow> m(k \<mapsto> v) = m"
  by (rule map_upd_triv)

lemma ListPopAux_refines:
  assumes inv: "kv_inv s"
  shows "refines s (DoPop left k) (with_code VStr (ListPopAux now s k left))"
  using inv
proof (cases rule: get_list_cases [of s k])
  case (found d)
  obtain d' v where pop: "(if left then DList_PopLeft d else DList_PopRight d) = (d', v)" by fastforce
  have "dl_inv d' \<and> dl_spec (dl_abs d) (if left then DlPopLeft else DlPopRight) = (dl_abs d', Popped v)"
    by (rule dl_step_correct [OF found(4)]) (use pop in \<open>simp_all split: if_splits\<close>)
  then show ?thesis using found pop
    by (cases "dl_abs d") (auto simp: refines_def ListPopAux_def upd_same split: if_splits)
qed (use inv in \<open>simp add: refines_def ListPopAux_def\<close>)

lemma refines_pop: "kv_inv s \<Longrightarrow> refines s (DoPop left k) (kv_call now s (DoPop left k))"
  using ListPopAux_refines [of s left k now] by (cases left) (simp_all add: LeftPop_def RightPop_def)

lemma refines_list_len:
  assumes inv: "kv_inv s"
  shows "refines s (DoListLen k) (kv_call now s (DoListLen k))"
  using inv
proof (cases rule: get_list_cases [of s k])
  case (found d)
  then show ?thesis by (simp add: refines_def ListLen_def upd_same)
qed (use inv in \<open>simp add: refines_def ListLen_def\<close>)

text \<open>The index arithmetic of the code, on a list whose length fits an \<open>int\<close>.\<close>

lemma from_end_idx:
  assumes "dl_len d < 2 ^ 31" "in_int32 i"
  shows "from_end i (wrap32 (int (dl_len d))) = idx_of i (dl_abs d)"
proof -
  have n: "wrap32 (int (dl_len d)) = int (dl_len d)" using assms(1) by (intro wrap32_id) (simp add: in_int32_def)
  have "i < 0 \<Longrightarrow> wrap32 (i + int (dl_len d)) = i + int (dl_len d)"
    using assms by (intro wrap32_id) (simp add: in_int32_def)
  then show ?thesis by (simp add: from_end_def idx_of_def n)
qed

lemma idx_of_upper: "in_int32 i \<Longrightarrow> idx_of i xs < max (int (length xs)) (2 ^ 31)"
  by (auto simp: idx_of_def in_int32_def)

lemma refines_item_at:
  assumes inv: "kv_inv s" and ok: "kv_ok (kv_abs s) (DoItemAt k i)"
  shows "refines s (DoItemAt k i) (kv_call now s (DoItemAt k i))"
  using inv
proof (cases rule: get_list_cases [of s k])
  case (found d)
  let ?j = "idx_of i (dl_abs d)"
  have len: "dl_len d < 2 ^ 31" and i: "in_int32 i" using ok found(3) by auto
  note idx = from_end_idx [OF len i] DList_index_correct [OF found(4), of "nat ?j"] slots_Some [OF found(4)]
  show ?thesis
  proof (cases "?j < 0")
    case True
    then show ?thesis using found idx inv by (simp add: refines_def ListItemAtIndex_def or_fault_def Let_def)
  next
    case False
    then show ?thesis using found idx len
      by (auto simp: refines_def ListItemAtIndex_def or_fault_def Let_def upd_same nat_less_iff)
  qed
qed (use inv in \<open>simp add: refines_def ListItemAtIndex_def or_fault_def Let_def\<close>)

lemma refines_set_item_at:
  assumes inv: "kv_inv s" and ok: "kv_ok (kv_abs s) (DoSetItemAt k i v)"
  shows "refines s (DoSetItemAt k i v) (kv_call now s (DoSetItemAt k i v))"
  using inv
proof (cases rule: get_list_cases [of s k])
  case (found d)
  let ?j = "idx_of i (dl_abs d)"
  have len: "dl_len d < 2 ^ 31" and i: "in_int32 i" using ok found(3) by auto
  note idx = from_end_idx [OF len i]
  obtain d' r where set: "DList_index_Reset d (nat ?j) v = (d', r)" by fastforce
  have r: "dl_inv d'" "dl_abs d' = (dl_abs d)[nat ?j := v]" "r = (if nat ?j < dl_len d then Inr () else Inl OutOfRange)"
    using DList_index_Reset_correct [OF found(4) _ set] len by (simp_all add: dl_abs_def map_update)
  show ?thesis
  proof (cases "?j < 0")
    case True
    then show ?thesis using found idx inv by (simp add: refines_def ListSetItemAtIndex_def or_fault_def Let_def)
  next
    case False
    then show ?thesis using found idx r set inv
      by (auto simp: refines_def ListSetItemAtIndex_def or_fault_def Let_def nat_less_iff)
  qed
qed (use inv in \<open>simp add: refines_def ListSetItemAtIndex_def or_fault_def Let_def\<close>)

lemma dl_abs_Nil: "dl_abs d = [] \<longleftrightarrow> dl_len d = 0"
  by (metis length_0_conv length_dl_abs)

lemma slice_min:
  "xs \<noteq> [] \<Longrightarrow> take (min e (length xs - 1) + 1 - b) (drop b xs) = take (e + 1 - b) (drop b xs)"
  by (simp add: min_def)

lemma DList_Range_slice:
  assumes inv: "dl_inv d" and len: "dl_len d < 2 ^ 31" and e: "0 \<le> e" "e < 2 ^ 31" and b: "0 \<le> b"
    and ok: "dl_abs d = [] \<or> b > e \<or> b < int (dl_len d)"
  shows "DList_Range d b e = Inr (map Some (list_slice (dl_abs d) b e))"
proof (cases "dl_abs d = [] \<or> b > e")
  case True
  then have "list_slice (dl_abs d) b e = []" "DList_Empty d \<or> b > e" using b e
    by (auto simp: list_slice_def DList_Empty_def dl_abs_Nil)
  then show ?thesis by (auto simp: DList_Range_def)
next
  case False
  have r: "nat b < dl_len d" "nat b \<le> nat e" "nat e < 2 ^ 31" using False ok b e by auto
  have "dl_abs d \<noteq> []" using False by simp
  then show ?thesis using DList_Range_correct [OF inv len r] b e slice_min [of "dl_abs d" "nat e" "nat b"]
    by (simp add: slots_Some [OF inv] list_slice_def take_map drop_map)
qed

lemma slice_clip: "b \<le> 0 \<Longrightarrow> list_slice xs b e = list_slice xs 0 e"
  by (simp add: list_slice_def)

lemma refines_range:
  assumes inv: "kv_inv s" and ok: "kv_ok (kv_abs s) (DoRange k b e)"
  shows "refines s (DoRange k b e) (kv_call now s (DoRange k b e))"
  using inv
proof (cases rule: get_list_cases [of s k])
  case (found d)
  let ?xs = "dl_abs d"
  define b' e' where "b' = idx_of b ?xs" and "e' = idx_of e ?xs"
  have len: "dl_len d < 2 ^ 31" and i: "in_int32 b" "in_int32 e" and rok: "range_ok ?xs b e"
    using ok found(3) by auto
  have e: "e' < 2 ^ 31" using idx_of_upper [OF i(2), of ?xs] len by (simp add: e'_def)
  have code: "ListRange now s k b e =
      (if e' < 0 \<and> b' \<noteq> 0 then Inr (s, [], kOkCode)
       else map_sum id (\<lambda>xs. (store s k (ListVal d) now, xs, kOkCode)) (DList_Range d (if b' < 0 \<and> e' > 0 then 0 else b') e'))"
    unfolding ListRange_def found(1) sum.case Let_def from_end_idx [OF len i(1)] from_end_idx [OF len i(2)]
      b'_def [symmetric] e'_def [symmetric] by (rule if_cong) auto
  have "DList_Range d (if b' < 0 \<and> e' > 0 then 0 else b') e' = Inr (map Some (list_slice ?xs b' e'))"
    if nz: "\<not> (e' < 0 \<and> b' \<noteq> 0)"
  proof -
    consider "?xs = []" | "?xs \<noteq> []" "e' < 0" "b' = 0" | "?xs \<noteq> []" "0 \<le> e'" using nz by force
    then show ?thesis
    proof cases
      case 3
      have c: "(if b' < 0 \<and> e' > 0 then 0 else b') = (if b' < 0 then 0 else b')" "b' < int (dl_len d) \<or> b' > e'"
        using 3 rok by (auto simp: range_ok_def b'_def e'_def)
      show ?thesis unfolding c(1)
        using DList_Range_slice [OF found(4) len 3(2) e, of "if b' < 0 then 0 else b'"] c(2) 3(1) slice_clip [of b' ?xs e']
        by (auto simp: dl_abs_Nil split: if_splits)
    qed (simp_all add: DList_Range_def DList_Empty_def dl_abs_Nil list_slice_def)
  qed
  then show ?thesis using found code inv
    by (auto simp: refines_def or_fault_def upd_same list_slice_def b'_def [symmetric] e'_def [symmetric])
qed (use inv in \<open>simp add: refines_def ListRange_def or_fault_def\<close>)

section \<open>Hashes\<close>

lemma get_hash_cases:
  assumes inv: "kv_inv s"
  obtains (fail) e where "get_hash s k = Inl e" "a_hash (kv_abs s) k = Inl e"
  | (found) d where "get_hash s k = Inr d" "a_hash (kv_abs s) k = Inr (dict_map d)"
      "kv_abs s k = Some (AHash (dict_map d))" "rh_inv hkey d"
      "\<And>d' now. rh_inv hkey d' \<Longrightarrow> kv_inv (store s k (HashVal d') now)"
      "\<And>d' now. rh_inv hkey d' \<Longrightarrow> kv_abs (store s k (HashVal d') now) = (kv_abs s)(k \<mapsto> AHash (dict_map d'))"
proof (cases "get_hash s k")
  case (Inl e)
  then show thesis using fail get_hash_abs(1) [OF inv, of k] by simp
next
  case (Inr d)
  obtain obj where obj: "find_obj s k = Some obj" "vo_value obj = HashVal d" "rh_inv hkey d"
    using get_hash_abs(2) [OF inv Inr] by auto
  show thesis
    by (rule found [OF Inr _ _ obj(3)])
      (use get_hash_abs(1) [OF inv, of k] Inr obj store_found [OF inv obj(1)] in \<open>simp_all add: kv_abs_find\<close>)
qed

lemma card_dict: "rh_inv hkey d \<Longrightarrow> Rehashable_Count d = card (dom (dict_map d))"
  using distinct_card [OF rh_entries_distinct [of hkey d]] by (simp add: dom_dict_map Rehashable_Count_entries)

lemma dict_exists: "rh_inv hkey d \<Longrightarrow> Rehashable_CheckExists hkey d f \<longleftrightarrow> dict_map d f \<noteq> None"
  by (simp only: Rehashable_CheckExists_iff dict_map_None not_not)

lemma update_loop_correct:
  assumes "rh_inv hkey d" "length fs = length vs" "update_loop d (zip fs vs) n = (d', m)"
  shows "rh_inv hkey d' \<and> dict_map d' = (dict_map d)(fs [\<mapsto>] vs) \<and> m = n + int (length fs)"
  using assms
proof (induction fs arbitrary: vs d n)
  case (Cons f fs)
  then obtain v vs' where vs: "vs = v # vs'" by (cases vs) auto
  obtain d1 r where u: "HashDict_Update d f v = (d1, r)" by fastforce
  note c = HashDict_Update_correct [OF Cons.prems(1) u]
  have "r \<noteq> UNDEFINED" using c(3) by simp
  then have "rh_inv hkey d' \<and> dict_map d' = (dict_map d1)(fs [\<mapsto>] vs') \<and> m = n + 1 + int (length fs)"
    using Cons.IH [OF c(1), of vs' "n + 1"] Cons.prems(2,3) vs u by simp
  then show ?case unfolding vs map_upds_Cons c(2) by simp
qed simp

lemma at_loop_correct:
  assumes "rh_inv hkey d" "at_loop d fs = (d', vs)"
  shows "rh_inv hkey d' \<and> dict_map d' = dict_map d \<and> vs = map (dict_map d) fs"
  using assms
proof (induction fs arbitrary: d d' vs)
  case (Cons f fs)
  obtain d1 r where a: "HashDict_At d f = (d1, r)" by fastforce
  note c = HashDict_At_correct [OF Cons.prems(1) a]
  obtain d2 ws where l: "at_loop d1 fs = (d2, ws)" by fastforce
  show ?case using Cons.IH [OF c(1) l] Cons.prems(2) a c l by (auto split: option.splits)
qed simp

text \<open>
  The erasing loop of the macro \<open>HashTypeEraseAux\<close>, for any structure whose \<open>Erase\<close> removes an
  element from an abstract collection and reports whether it was there.
\<close>

locale erasable =
  fixes good :: "'d \<Rightarrow> bool"
    and abs :: "'d \<Rightarrow> 'a"
    and erase :: "'d \<Rightarrow> string \<Rightarrow> 'd \<times> int"
    and rem :: "string \<Rightarrow> 'a \<Rightarrow> 'a"
    and mem :: "'a \<Rightarrow> string \<Rightarrow> bool"
  assumes erase_laws: "good d \<Longrightarrow> erase d x = (d', r) \<Longrightarrow>
      good d' \<and> abs d' = rem x (abs d) \<and> r = (if mem (abs d) x then ERASED else NOT_ERASED)"
    and mem_rem: "mem (rem x a) y \<longleftrightarrow> mem a y \<and> y \<noteq> x"
begin

lemma erase_loop_laws:
  assumes "good d" "erase_loop erase d xs n = (d', m)"
  shows "good d' \<and> abs d' = fold rem xs (abs d) \<and> m = n + int (card ({x. mem (abs d) x} \<inter> set xs))"
  using assms
proof (induction xs arbitrary: d n)
  case (Cons x xs)
  obtain d1 r where e: "erase d x = (d1, r)" by fastforce
  have c: "good d1" "abs d1 = rem x (abs d)" "r = (if mem (abs d) x then ERASED else NOT_ERASED)"
    using erase_laws [OF Cons.prems(1) e] by auto
  let ?E = "{y. mem (abs d1) y} \<inter> set xs"
  have "{y. mem (abs d) y} \<inter> set (x # xs) = (if mem (abs d) x then insert x ?E else ?E)"
    using c(2) mem_rem by auto
  moreover have "x \<notin> ?E" "finite ?E" using c(2) mem_rem by auto
  ultimately have card: "card ({y. mem (abs d) y} \<inter> set (x # xs)) = (if mem (abs d) x then 1 else 0) + card ?E"
    by simp
  have "good d' \<and> abs d' = fold rem xs (abs d1) \<and> m = (if r = ERASED then n + 1 else n) + int (card ?E)"
    using Cons.IH [OF c(1), of "if r = ERASED then n + 1 else n"] Cons.prems(2) e by simp
  then show ?case unfolding card using c(2,3) by simp
qed simp

end

interpretation dict_erase: erasable "rh_inv hkey" dict_map HashDict_Erase "\<lambda>x h. h(x := None)" "\<lambda>h x. h x \<noteq> None"
proof
  fix d d' x r
  assume "rh_inv hkey d" "HashDict_Erase d x = (d', r)"
  from HashDict_Erase_correct [OF this]
  show "rh_inv hkey d' \<and> dict_map d' = (dict_map d)(x := None) \<and>
      r = (if dict_map d x \<noteq> None then ERASED else NOT_ERASED)" by simp
qed simp

lemma fold_forget: "fold (\<lambda>x h. h(x := None)) xs h = h |` (- set xs)"
  by (induction xs arbitrary: h) (auto simp: restrict_map_def fun_eq_iff)

interpretation set_erase: erasable "rh_inv skey" set_elems HashSet_Erase "\<lambda>x A. A - {x}" "\<lambda>A x. x \<in> A"
  by unfold_locales (simp_all add: HashSet_Erase_correct)

lemma fold_remove: "fold (\<lambda>x A. A - {x}) xs A = A - set xs"
  by (induction xs arbitrary: A) auto

lemma refines_hget:
  assumes inv: "kv_inv s"
  shows "refines s (DoHGet k f) (kv_call now s (DoHGet k f))"
  using inv
proof (cases rule: get_hash_cases [of s k])
  case (found d)
  obtain d' r where a: "HashDict_At d f = (d', r)" by fastforce
  show ?thesis using found a HashDict_At_correct [OF found(4) a]
    by (auto simp: refines_def HashGetValue_def upd_same split: option.splits)
qed (use inv in \<open>simp add: refines_def HashGetValue_def\<close>)

lemma refines_hget_many:
  assumes inv: "kv_inv s"
  shows "refines s (DoHGetMany k fs) (kv_call now s (DoHGetMany k fs))"
  using inv
proof (cases rule: get_hash_cases [of s k])
  case (found d)
  obtain d' vs where a: "at_loop d fs = (d', vs)" by fastforce
  show ?thesis using found a at_loop_correct [OF found(4) a]
    by (simp add: refines_def HashGetValue_fields_def upd_same)
qed (use inv in \<open>simp add: refines_def HashGetValue_fields_def\<close>)

lemma refines_hdel:
  assumes inv: "kv_inv s"
  shows "refines s (DoHDel k f) (kv_call now s (DoHDel k f))"
  using inv
proof (cases rule: get_hash_cases [of s k])
  case (found d)
  obtain d' r where a: "HashDict_Erase d f = (d', r)" by fastforce
  show ?thesis using found a HashDict_Erase_correct [OF found(4) a]
    by (simp add: refines_def HashDelField_def)
qed (use inv in \<open>simp add: refines_def HashDelField_def\<close>)

lemma refines_hdel_many:
  assumes inv: "kv_inv s"
  shows "refines s (DoHDelMany k fs) (kv_call now s (DoHDelMany k fs))"
  using inv
proof (cases rule: get_hash_cases [of s k])
  case (found d)
  obtain d' n where a: "erase_loop HashDict_Erase d fs 0 = (d', n)" by fastforce
  show ?thesis using found a dict_erase.erase_loop_laws [OF found(4) a]
    by (simp add: refines_def HashDelField_fields_def fold_forget dom_def)
qed (use inv in \<open>simp add: refines_def HashDelField_fields_def\<close>)

lemma refines_hexists:
  assumes inv: "kv_inv s"
  shows "refines s (DoHExists k f) (kv_call now s (DoHExists k f))"
  using inv
proof (cases rule: get_hash_cases [of s k])
  case (found d)
  then show ?thesis by (simp add: refines_def HashExistField_def upd_same dict_exists)
qed (use inv in \<open>simp add: refines_def HashExistField_def\<close>)

lemma refines_hlen:
  assumes inv: "kv_inv s"
  shows "refines s (DoHLen k) (kv_call now s (DoHLen k))"
  using inv
proof (cases rule: get_hash_cases [of s k])
  case (found d)
  then show ?thesis by (simp add: refines_def HashLen_def upd_same card_dict)
qed (use inv in \<open>simp add: refines_def HashLen_def\<close>)

lemma rh_new: "rh_inv hkey (HashDict_new mlf)" "rh_inv skey (HashSet_new mlf)"
  by (simp_all add: HashDict_new_def HashSet_new_def rh_inv_new)

lemma refines_hset:
  assumes inv: "kv_inv s"
  shows "refines s (DoHSet k f v) (kv_call now s (DoHSet k f v))"
proof (cases "find_obj s k")
  case None
  obtain d r where u: "HashDict_Update (HashDict_new 1) f v = (d, r)" by fastforce
  note c = HashDict_Update_correct [OF rh_new(1) u]
  show ?thesis using add_new [OF inv None, of "ValueObject_new now (HashVal d)"] c None u
    by (simp add: refines_def HashUpdateKV_def value_simps a_hash_def or_new_def kv_abs_find)
next
  case (Some obj)
  show ?thesis
  proof (cases "vo_value obj")
    case (HashVal d)
    obtain d' r where u: "HashDict_Update d f v = (d', r)" by fastforce
    note c = HashDict_Update_correct [OF _ u]
    have "rh_inv hkey d" using found_vinv [OF inv Some] HashVal by simp
    then show ?thesis using store_found [OF inv Some, of "HashVal d'" now] c Some HashVal u
      by (simp add: refines_def HashUpdateKV_def a_hash_def or_new_def kv_abs_find)
  qed (use inv Some in \<open>simp_all add: refines_def HashUpdateKV_def a_hash_def or_new_def kv_abs_find\<close>)
qed

lemma refines_hset_many:
  assumes inv: "kv_inv s"
  shows "refines s (DoHSetMany k fs vs) (kv_call now s (DoHSetMany k fs vs))"
proof (cases "length fs = length vs")
  case len: True
  show ?thesis
  proof (cases "find_obj s k")
    case None
    obtain d n where u: "update_loop (HashDict_new 1) (zip fs vs) 0 = (d, n)" by fastforce
    note c = update_loop_correct [OF rh_new(1) len u]
    have v: "vinv (vo_value (ConstructHashObjPtr now))" by (simp add: value_simps rh_new)
    show ?thesis using add_then_store [OF inv None v, of "HashVal d" now] c None u len
      by (simp add: refines_def HashUpdateKV_fields_def a_hash_def or_new_def kv_abs_find)
  next
    case (Some obj)
    show ?thesis
    proof (cases "vo_value obj")
      case (HashVal d)
      obtain d' n where u: "update_loop d (zip fs vs) 0 = (d', n)" by fastforce
      have "rh_inv hkey d" using found_vinv [OF inv Some] HashVal by simp
      then show ?thesis
        using store_found [OF inv Some, of "HashVal d'" now] update_loop_correct [OF _ len u] Some HashVal u len
        by (simp add: refines_def HashUpdateKV_fields_def a_hash_def or_new_def kv_abs_find)
    qed (use inv Some len in \<open>simp_all add: refines_def HashUpdateKV_fields_def a_hash_def or_new_def kv_abs_find\<close>)
  qed
qed (use inv in \<open>simp add: refines_def HashUpdateKV_fields_def\<close>)

section \<open>Sets\<close>

lemma get_set_cases:
  assumes inv: "kv_inv s"
  obtains (fail) e where "get_set s k = Inl e" "a_set (kv_abs s) k = Inl e"
  | (found) d where "get_set s k = Inr d" "a_set (kv_abs s) k = Inr (set_elems d)"
      "kv_abs s k = Some (ASet (set_elems d))" "rh_inv skey d"
      "\<And>d' now. rh_inv skey d' \<Longrightarrow> kv_inv (store s k (SetVal d') now)"
      "\<And>d' now. rh_inv skey d' \<Longrightarrow> kv_abs (store s k (SetVal d') now) = (kv_abs s)(k \<mapsto> ASet (set_elems d'))"
proof (cases "get_set s k")
  case (Inl e)
  then show thesis using fail get_set_abs(1) [OF inv, of k] by simp
next
  case (Inr d)
  obtain obj where obj: "find_obj s k = Some obj" "vo_value obj = SetVal d" "rh_inv skey d"
    using get_set_abs(2) [OF inv Inr] by auto
  show thesis
    by (rule found [OF Inr _ _ obj(3)])
      (use get_set_abs(1) [OF inv, of k] Inr obj store_found [OF inv obj(1)] in \<open>simp_all add: kv_abs_find\<close>)
qed

lemma card_set_elems: "rh_inv skey d \<Longrightarrow> Rehashable_Count d = card (set_elems d)"
  using distinct_card [OF rh_entries_distinct [of skey d]] by (simp add: set_elems_def Rehashable_Count_entries)

lemma set_exists: "rh_inv skey d \<Longrightarrow> Rehashable_CheckExists skey d x \<longleftrightarrow> x \<in> set_elems d"
  by (simp add: Rehashable_CheckExists_iff set_elems_def)

lemma insert_loop_correct:
  assumes "rh_inv skey d" "insert_loop d xs n = (d', m)"
  shows "rh_inv skey d' \<and> set_elems d' = set_elems d \<union> set xs \<and> m = n + int (card (set xs - set_elems d))"
  using assms
proof (induction xs arbitrary: d n)
  case (Cons x xs)
  obtain d1 r where i: "HashSet_Insert d x = (d1, r)" by fastforce
  have c: "rh_inv skey d1" "set_elems d1 = insert x (set_elems d)" "r = (if x \<in> set_elems d then EXISTED else NEW_ADDED)"
    using HashSet_Insert_correct [OF Cons.prems(1) i] by auto
  let ?R = "set xs - set_elems d1"
  have "set (x # xs) - set_elems d = (if x \<in> set_elems d then ?R else insert x ?R)" using c(2) by auto
  moreover have "x \<notin> ?R" "finite ?R" using c(2) by auto
  ultimately have card: "card (set (x # xs) - set_elems d) = (if x \<in> set_elems d then 0 else 1) + card ?R" by simp
  have "rh_inv skey d' \<and> set_elems d' = set_elems d1 \<union> set xs \<and>
      m = (if r = NEW_ADDED then n + 1 else n) + int (card ?R)"
    using Cons.IH [OF c(1), of "if r = NEW_ADDED then n + 1 else n"] Cons.prems(2) i by simp
  then show ?case unfolding card using c(2,3) by simp
qed simp

lemma refines_sadd:
  assumes inv: "kv_inv s"
  shows "refines s (DoSAdd k x) (kv_call now s (DoSAdd k x))"
proof (cases "find_obj s k")
  case None
  obtain d r where u: "HashSet_Insert (HashSet_new 1) x = (d, r)" by fastforce
  note c = HashSet_Insert_correct [OF rh_new(2) u]
  show ?thesis using add_new [OF inv None, of "ValueObject_new now (SetVal d)"] c None u
    by (simp add: refines_def SetAddItem_def value_simps a_set_def or_new_def kv_abs_find)
next
  case (Some obj)
  show ?thesis
  proof (cases "vo_value obj")
    case (SetVal d)
    obtain d' r where u: "HashSet_Insert d x = (d', r)" by fastforce
    have "rh_inv skey d" using found_vinv [OF inv Some] SetVal by simp
    from HashSet_Insert_correct [OF this u]
    show ?thesis using store_found [OF inv Some, of "SetVal d'" now] Some SetVal u
      by (simp add: refines_def SetAddItem_def a_set_def or_new_def kv_abs_find)
  qed (use inv Some in \<open>simp_all add: refines_def SetAddItem_def a_set_def or_new_def kv_abs_find\<close>)
qed

lemma refines_sadd_many:
  assumes inv: "kv_inv s"
  shows "refines s (DoSAddMany k xs) (kv_call now s (DoSAddMany k xs))"
proof (cases "find_obj s k")
  case None
  obtain d n where u: "insert_loop (HashSet_new 1) xs 0 = (d, n)" by fastforce
  note c = insert_loop_correct [OF rh_new(2) u]
  have v: "vinv (vo_value (ConstructSetObjPtr now))" by (simp add: value_simps rh_new)
  show ?thesis using add_then_store [OF inv None v, of "SetVal d" now] c None u
    by (simp add: refines_def SetAddItem_members_def a_set_def or_new_def kv_abs_find)
next
  case (Some obj)
  show ?thesis
  proof (cases "vo_value obj")
    case (SetVal d)
    obtain d' n where u: "insert_loop d xs 0 = (d', n)" by fastforce
    have "rh_inv skey d" using found_vinv [OF inv Some] SetVal by simp
    from insert_loop_correct [OF this u]
    show ?thesis using store_found [OF inv Some, of "SetVal d'" now] Some SetVal u
      by (simp add: refines_def SetAddItem_members_def a_set_def or_new_def kv_abs_find)
  qed (use inv Some in \<open>simp_all add: refines_def SetAddItem_members_def a_set_def or_new_def kv_abs_find\<close>)
qed

lemma refines_sismember:
  assumes inv: "kv_inv s"
  shows "refines s (DoSIsMember k x) (kv_call now s (DoSIsMember k x))"
  using inv
proof (cases rule: get_set_cases [of s k])
  case (found d)
  then show ?thesis by (simp add: refines_def SetIsMember_def upd_same set_exists)
qed (use inv in \<open>simp add: refines_def SetIsMember_def\<close>)

lemma SetMIsMember_get:
  "SetMIsMember now s k xs =
     (case get_set s k of
        Inl e \<Rightarrow> (s, if e = kKeyNotFoundCode then replicate (length xs) 0 else [], e)
      | Inr d \<Rightarrow> (store s k (SetVal d) now, map (\<lambda>x. if Rehashable_CheckExists skey d x then 1 else 0) xs, kOkCode))"
  by (auto simp: SetMIsMember_def get_set_def split: option.splits vvalue.splits)

lemma refines_smismember:
  assumes inv: "kv_inv s"
  shows "refines s (DoSMIsMember k xs) (kv_call now s (DoSMIsMember k xs))"
  using inv
proof (cases rule: get_set_cases [of s k])
  case (found d)
  then show ?thesis by (simp add: refines_def SetMIsMember_get upd_same set_exists)
qed (use inv in \<open>simp add: refines_def SetMIsMember_get\<close>)

lemma refines_srem:
  assumes inv: "kv_inv s"
  shows "refines s (DoSRem k xs) (kv_call now s (DoSRem k xs))"
  using inv
proof (cases rule: get_set_cases [of s k])
  case (found d)
  obtain d' n where a: "erase_loop HashSet_Erase d xs 0 = (d', n)" by fastforce
  show ?thesis using found a set_erase.erase_loop_laws [OF found(4) a]
    by (simp add: refines_def SetRemoveMembers_def fold_remove)
qed (use inv in \<open>simp add: refines_def SetRemoveMembers_def\<close>)

lemma refines_scard:
  assumes inv: "kv_inv s"
  shows "refines s (DoSCard k) (kv_call now s (DoSCard k))"
  using inv
proof (cases rule: get_set_cases [of s k])
  case (found d)
  then show ?thesis by (simp add: refines_def SetGetMemberCount_def upd_same card_set_elems)
qed (use inv in \<open>simp add: refines_def SetGetMemberCount_def\<close>)

section \<open>Histories\<close>

lemmas refines_ops = refines_type refines_exists refines_exist_keys refines_num_items
  refines_strlen refines_get refines_delete refines_delete_keys refines_push refines_push_many refines_pop
  refines_list_len refines_hset refines_hset_many refines_hget refines_hget_many refines_hdel refines_hdel_many
  refines_hexists refines_hlen refines_sadd refines_sadd_many refines_sismember refines_smismember refines_srem
  refines_scard

lemmas refines_bounded_ops = refines_set_int refines_incr refines_decr refines_set_string refines_append
  refines_range refines_item_at refines_set_item_at

lemma kv_call_refines:
  assumes "kv_inv s" "kv_ok (kv_abs s) c"
  shows "refines s c (kv_call now s c)"
  by (cases c) (use assms in \<open>simp_all only: refines_ops refines_bounded_ops\<close>)

interpretation kv_calls: call_refinement kv_abs kv_inv "\<lambda>m c. kv_ok m (snd c)" kv_step "\<lambda>m c. kv_spec m (snd c)"
proof
  fix s s' c r
  assume "kv_inv s" "kv_ok (kv_abs s) (snd c)" "kv_step s c = (s', r)"
  with kv_call_refines [of s "snd c" "fst c"]
  show "kv_inv s'" "kv_spec (kv_abs s) (snd c) = (kv_abs s', r)" by (simp_all add: refines_def kv_step_def)
qed

lemma kv_inv_new: "kv_inv KVContainer_new" "kv_abs KVContainer_new = Map.empty"
proof -
  have f: "find_obj KVContainer_new = Map.empty" by (simp add: find_obj_def KVContainer_new_def fun_eq_iff)
  then show "kv_abs KVContainer_new = Map.empty" by (simp add: kv_abs_def fun_eq_iff)
  show "kv_inv KVContainer_new" unfolding kv_inv_def f by (simp add: KVContainer_new_def)
qed

lemma dom_kv_abs: "dom (kv_abs s) = dom (find_obj s)"
  by (auto simp: kv_abs_def)

lemma pool_abs: "kv_inv s \<Longrightarrow> distinct (keys_pool s) \<and> set (keys_pool s) = dom (kv_abs s)"
  using kv_objects.pool_laws by (simp add: dom_kv_abs)

abbreviation "kv_calls_ok \<equiv> calls_ok (\<lambda>m c. kv_ok m (snd c)) (\<lambda>m c. kv_spec m (snd c))"

abbreviation "kv_spec_run \<equiv> run_calls (\<lambda>m c. kv_spec m (snd c))"

lemma kv_run:
  assumes "kv_calls_ok Map.empty calls" "run_calls kv_step KVContainer_new calls = (s, results)"
  shows "kv_inv s" "kv_spec_run Map.empty calls = (kv_abs s, results)"
  using kv_calls.run_refines [OF kv_inv_new(1), unfolded kv_inv_new(2), OF assms] by simp_all



end
