(* ===== verification/Buffer.thy ===== *)
theory Buffer
  imports Str
begin

text \<open>
  \<open>src/src/net/buffer.h\<close> and \<open>src/src/net/buffer.cpp\<close>: the byte buffer of a session.

  \<open>data_\<close> is a list of characters whose length is the capacity of the vector (the vector is
  only ever created with its final size), \<open>p_reader_\<close> and \<open>p_writer_\<close> are offsets. The
  number readers hand a pointer into the vector to \<open>strtoll\<close>, which stops at the first
  character that cannot continue a number: their value is \<open>None\<close> when no such character
  comes before the end of the vector, that is, when the call reads past the allocation.
  \<open>memcpy\<close> in \<open>MoveReadableToHead\<close> is the copy of the source bytes, also where the two
  regions overlap. \<open>ToFile\<close> is input/output and is left out.

  \<open>readable\<close> is the abstraction: the bytes between the two offsets, a queue of bytes. The
  locale \<open>byte_queue\<close> states what the protocol parser and the server rely on.
\<close>

section \<open>State and operations\<close>

record buffer =
  bf_data :: string
  p_reader :: nat
  p_writer :: nat

definition CRLF :: string where
  "CRLF = [CHR 0x0D, CHR 0x0A]"

definition Buffer_new :: "nat \<Rightarrow> buffer" where
  "Buffer_new init_bufsize = \<lparr>bf_data = replicate init_bufsize CHR 0x00, p_reader = 0, p_writer = 0\<rparr>"

definition Buffer_Capacity :: "buffer \<Rightarrow> nat" where
  "Buffer_Capacity b = length (bf_data b)"

definition WritableBytes :: "buffer \<Rightarrow> nat" where
  "WritableBytes b = Buffer_Capacity b - p_writer b"

definition ReadableBytes :: "buffer \<Rightarrow> nat" where
  "ReadableBytes b = p_writer b - p_reader b"

definition PrependableBytes :: "buffer \<Rightarrow> nat" where
  "PrependableBytes b = p_reader b"

text \<open>\<open>len\<close> bytes starting at an offset from the read position.\<close>

definition bytes_from :: "buffer \<Rightarrow> nat \<Rightarrow> nat \<Rightarrow> string" where
  "bytes_from b index len = take len (drop (p_reader b + index) (bf_data b))"

definition ReadableAsString :: "buffer \<Rightarrow> string" where
  "ReadableAsString b = bytes_from b 0 (ReadableBytes b)"

definition MoveReadableToHead :: "buffer \<Rightarrow> buffer" where
  "MoveReadableToHead b =
     (let d1 = c_memcpy (bf_data b) 0 (bytes_from b 0 (ReadableBytes b));
          can_free = PrependableBytes b;
          d2 = c_memcpy d1 (p_writer b - can_free) (replicate can_free CHR 0x00)
      in b\<lparr>bf_data := d2, p_reader := 0, p_writer := p_writer b - can_free\<rparr>)"

definition EnsureBytesForWrite :: "buffer \<Rightarrow> nat \<Rightarrow> buffer" where
  "EnsureBytesForWrite b n =
     (if WritableBytes b < n
      then let cur_free_space = PrependableBytes b + WritableBytes b
           in if cur_free_space \<ge> n then MoveReadableToHead b
              else let new_place = replicate (p_writer b + n + 2) CHR 0x00;
                       r = ReadableBytes b
                   in b\<lparr>bf_data := c_memcpy new_place 0 (bytes_from b 0 r), p_reader := 0, p_writer := r\<rparr>
      else b)"

definition Buffer_Append :: "buffer \<Rightarrow> string \<Rightarrow> buffer" where
  "Buffer_Append b value =
     (let b1 = EnsureBytesForWrite b (length value)
      in b1\<lparr>bf_data := c_memcpy (bf_data b1) (p_writer b1) value, p_writer := p_writer b1 + length value\<rparr>)"

definition Buffer_Reset :: "buffer \<Rightarrow> buffer" where
  "Buffer_Reset b =
     b\<lparr>bf_data := replicate (Buffer_Capacity b) CHR 0x00, p_reader := 0, p_writer := 0\<rparr>"

definition ReaderIdxForward :: "buffer \<Rightarrow> nat \<Rightarrow> buffer" where
  "ReaderIdxForward b len = b\<lparr>p_reader := p_reader b + min len (ReadableBytes b)\<rparr>"

definition ReaderIdxBackward :: "buffer \<Rightarrow> nat \<Rightarrow> buffer" where
  "ReaderIdxBackward b len = b\<lparr>p_reader := p_reader b - min len (PrependableBytes b)\<rparr>"

definition FindCRLFInReadable :: "buffer \<Rightarrow> int" where
  "FindCRLFInReadable b =
     (case std_search CRLF (bytes_from b 0 (ReadableBytes b)) of None \<Rightarrow> - 1 | Some off \<Rightarrow> int off)"

definition ReadStdStringAndForward :: "buffer \<Rightarrow> nat \<Rightarrow> buffer \<times> string" where
  "ReadStdStringAndForward b len =
     (if len > ReadableBytes b then (b, [])
      else (ReaderIdxForward b len, bytes_from b 0 len))"

definition ReadStdStringAndForwardTill :: "buffer \<Rightarrow> string \<Rightarrow> buffer \<times> string" where
  "ReadStdStringAndForwardTill b delim =
     (case std_search delim (bytes_from b 0 (ReadableBytes b)) of
        None \<Rightarrow> (b, [])
      | Some offset \<Rightarrow> (ReaderIdxForward b (offset + length delim), bytes_from b 0 offset))"

definition ReadStdString :: "buffer \<Rightarrow> nat \<Rightarrow> string" where
  "ReadStdString b len = (if len > ReadableBytes b then [] else bytes_from b 0 len)"

definition ReadStdStringFrom :: "buffer \<Rightarrow> nat \<Rightarrow> nat \<Rightarrow> string" where
  "ReadStdStringFrom b index len =
     (if index \<ge> ReadableBytes b then []
      else bytes_from b index (min len (ReadableBytes b - index)))"

text \<open>\<open>None\<close> when \<open>data_\<close> is indexed out of its bounds.\<close>

definition ReadableCharacterAt :: "buffer \<Rightarrow> nat \<Rightarrow> char option" where
  "ReadableCharacterAt b index =
     (let i = (if ReadableBytes b = 0 then index else min index (ReadableBytes b - 1))
      in if p_reader b + i < length (bf_data b) then Some (bf_data b ! (p_reader b + i)) else None)"

text \<open>The same readers with a \<open>DynamicString\<close> result: \<open>None\<close> is the null string.\<close>

definition ReadDynaStringAndForward :: "buffer \<Rightarrow> nat \<Rightarrow> buffer \<times> string option" where
  "ReadDynaStringAndForward b len =
     (if len > ReadableBytes b then (b, None)
      else (ReaderIdxForward b len, Some (bytes_from b 0 len)))"

definition ReadDynaString :: "buffer \<Rightarrow> nat \<Rightarrow> string option" where
  "ReadDynaString b len = (if len > ReadableBytes b then None else Some (bytes_from b 0 len))"

definition ReadAndForwardTill :: "buffer \<Rightarrow> string \<Rightarrow> buffer \<times> string option" where
  "ReadAndForwardTill b delim =
     (case std_search delim (bytes_from b 0 (ReadableBytes b)) of
        None \<Rightarrow> (b, None)
      | Some offset \<Rightarrow> (ReaderIdxForward b (offset + length delim), Some (bytes_from b 0 offset)))"

text \<open>\<open>strtoll\<close> on the bytes from a pointer into the vector: value and consumed length.\<close>

definition read_long_at :: "buffer \<Rightarrow> nat \<Rightarrow> (int \<times> nat) option" where
  "read_long_at b index =
     (let s = drop (p_reader b + index) (bf_data b)
      in if strto_span s < length s
         then (case strtoll s of (num, step, erange) \<Rightarrow> Some (num, step))
         else None)"

definition ReadLong :: "buffer \<Rightarrow> (int \<times> nat) option" where
  "ReadLong b = read_long_at b 0"

definition ReadLongAndForward :: "buffer \<Rightarrow> (buffer \<times> int \<times> nat) option" where
  "ReadLongAndForward b =
     (case read_long_at b 0 of
        None \<Rightarrow> None
      | Some (num, step) \<Rightarrow> Some (ReaderIdxForward b step, num, step))"

definition ReadLongFrom :: "buffer \<Rightarrow> nat \<Rightarrow> (int \<times> nat) option" where
  "ReadLongFrom b index =
     (if index \<ge> ReadableBytes b then Some (0, 0) else read_long_at b index)"

section \<open>Abstraction and invariant\<close>

definition readable :: "buffer \<Rightarrow> string" where
  "readable b = take (p_writer b - p_reader b) (drop (p_reader b) (bf_data b))"

definition buf_inv :: "buffer \<Rightarrow> bool" where
  "buf_inv b \<longleftrightarrow> p_reader b \<le> p_writer b \<and> p_writer b \<le> length (bf_data b) \<and>
     (\<forall>c \<in> set (drop (p_writer b) (bf_data b)). c = CHR 0x00)"

section \<open>Lemmas\<close>

text \<open>The shape of a buffer: consumed bytes, readable bytes and a tail of NUL bytes.\<close>

definition buf_form :: "string \<Rightarrow> string \<Rightarrow> nat \<Rightarrow> buffer" where
  "buf_form pre rd k = \<lparr>bf_data = pre @ rd @ replicate k CHR 0x00,
     p_reader = length pre, p_writer = length pre + length rd\<rparr>"

lemma buf_form_facts [simp]:
  "buf_inv (buf_form pre rd k)" "readable (buf_form pre rd k) = rd"
  "ReadableBytes (buf_form pre rd k) = length rd"
  "WritableBytes (buf_form pre rd k) = k" "PrependableBytes (buf_form pre rd k) = length pre"
  "Buffer_Capacity (buf_form pre rd k) = length pre + length rd + k"
  by (simp_all add: buf_form_def buf_inv_def readable_def ReadableBytes_def WritableBytes_def
      Buffer_Capacity_def PrependableBytes_def)

lemma buf_inv_form:
  assumes "buf_inv b"
  obtains pre k where "b = buf_form pre (readable b) k"
proof -
  let ?d = "bf_data b"
  have i: "p_reader b \<le> p_writer b" "p_writer b \<le> length ?d"
    using assms by (auto simp: buf_inv_def)
  have z: "drop (p_writer b) ?d = replicate (length ?d - p_writer b) CHR 0x00"
    using assms by (intro replicate_eqI) (auto simp: buf_inv_def)
  have "?d = take (p_reader b) ?d @ readable b @ drop (p_writer b) ?d"
    using i by (metis append_take_drop_id drop_drop le_add_diff_inverse2 readable_def)
  then have "?d = take (p_reader b) ?d @ readable b @ replicate (length ?d - p_writer b) CHR 0x00"
    by (simp add: z)
  moreover have "length (take (p_reader b) ?d) = p_reader b" "length (readable b) = p_writer b - p_reader b"
    using i by (simp_all add: readable_def)
  ultimately have "b = buf_form (take (p_reader b) ?d) (readable b) (length ?d - p_writer b)"
    using i by (cases b) (simp add: buf_form_def)
  then show ?thesis by (rule that)
qed

lemma bytes_from_form [simp]:
  "i + n \<le> length rd \<Longrightarrow> bytes_from (buf_form pre rd k) i n = take n (drop i rd)"
  by (simp add: bytes_from_def buf_form_def)

lemma ReadableBytes_length: "buf_inv b \<Longrightarrow> ReadableBytes b = length (readable b)"
  by (metis buf_form_facts(3) buf_inv_form)

lemma bytes_from_readable:
  "buf_inv b \<Longrightarrow> i + n \<le> length (readable b) \<Longrightarrow> bytes_from b i n = take n (drop i (readable b))"
  by (metis buf_inv_form bytes_from_form)

lemma ReadableAsString_correct: "buf_inv b \<Longrightarrow> ReadableAsString b = readable b"
  by (simp add: ReadableAsString_def bytes_from_readable ReadableBytes_length)

lemma buf_inv_new: "buf_inv (Buffer_new n)" "readable (Buffer_new n) = []"
  by (simp_all add: buf_inv_def Buffer_new_def readable_def)

lemma buf_inv_reset: "buf_inv (Buffer_Reset b)" "readable (Buffer_Reset b) = []"
  by (simp_all add: buf_inv_def Buffer_Reset_def readable_def)

lemma forward_form: "ReaderIdxForward (buf_form pre rd k) n = buf_form (pre @ take n rd) (drop n rd) k"
  using append_take_drop_id [of n rd]
  by (simp add: ReaderIdxForward_def ReadableBytes_def buf_form_def min_def)

lemma forward_correct:
  assumes "buf_inv b"
  shows "buf_inv (ReaderIdxForward b n)" "readable (ReaderIdxForward b n) = drop n (readable b)"
  by (metis assms buf_inv_form forward_form buf_form_facts(1)) (metis assms buf_inv_form forward_form buf_form_facts(2))

lemma move_form: "MoveReadableToHead (buf_form pre rd k) = buf_form [] rd (length pre + k)"
  unfolding MoveReadableToHead_def
  by (simp add: Let_def) (simp add: buf_form_def c_memcpy_def replicate_add)

lemma ensure_form:
  obtains pre' k' where "EnsureBytesForWrite (buf_form pre rd k) n = buf_form pre' rd k'" "n \<le> k'"
proof -
  consider "n \<le> k" | "k < n" "n \<le> length pre + k" | "k < n" "length pre + k < n" by linarith
  then show ?thesis
  proof cases
    case 1
    then show ?thesis by (intro that [of pre k]) (simp_all add: EnsureBytesForWrite_def)
  next
    case 2
    then show ?thesis by (intro that [of "[]" "length pre + k"]) (simp_all add: EnsureBytesForWrite_def move_form)
  next
    case 3
    then have "EnsureBytesForWrite (buf_form pre rd k) n = buf_form [] rd (length pre + n + 2)"
      by (simp add: EnsureBytesForWrite_def Let_def del: replicate.simps add_2_eq_Suc')
        (simp add: buf_form_def c_memcpy_def del: replicate.simps add_2_eq_Suc')
    then show ?thesis using 3 by (intro that) auto
  qed
qed

lemma append_correct:
  assumes "buf_inv b"
  shows "buf_inv (Buffer_Append b s)" "readable (Buffer_Append b s) = readable b @ s"
proof -
  obtain pre k where "b = buf_form pre (readable b) k" using buf_inv_form [OF assms] .
  then obtain pre' k' where e: "EnsureBytesForWrite b (length s) = buf_form pre' (readable b) k'" "length s \<le> k'"
    using ensure_form by metis
  have "Buffer_Append b s = buf_form pre' (readable b @ s) (k' - length s)"
    using e by (simp add: Buffer_Append_def Let_def) (simp add: buf_form_def c_memcpy_def)
  then show "buf_inv (Buffer_Append b s)" "readable (Buffer_Append b s) = readable b @ s" by simp_all
qed


section \<open>The interface to the parser and the server\<close>

text \<open>
  A queue of bytes: what is appended comes out in order, whatever the buffer did with its
  memory in between.
\<close>

locale byte_queue =
  fixes contents_of :: "'b \<Rightarrow> string"
    and inv :: "'b \<Rightarrow> bool"
    and append_bytes :: "'b \<Rightarrow> string \<Rightarrow> 'b"
    and consume :: "'b \<Rightarrow> nat \<Rightarrow> 'b"
  assumes append_inv: "inv b \<Longrightarrow> inv (append_bytes b s)"
    and append_contents: "inv b \<Longrightarrow> contents_of (append_bytes b s) = contents_of b @ s"
    and consume_inv: "inv b \<Longrightarrow> inv (consume b n)"
    and consume_contents: "inv b \<Longrightarrow> contents_of (consume b n) = drop n (contents_of b)"
begin

lemma append_chunks:
  "inv b \<Longrightarrow> inv (foldl append_bytes b chunks) \<and>
    contents_of (foldl append_bytes b chunks) = contents_of b @ concat chunks"
  by (induction chunks arbitrary: b) (simp_all add: append_inv append_contents)

lemma consume_consume:
  "inv b \<Longrightarrow> contents_of (consume (consume b n) m) = contents_of (consume b (n + m))"
  by (simp add: consume_inv consume_contents add.commute)

end

interpretation session_buffer: byte_queue readable buf_inv Buffer_Append ReaderIdxForward
  by unfold_locales (simp_all add: append_correct forward_correct)

lemma ReadStdStringFrom_correct:
  "buf_inv b \<Longrightarrow> ReadStdStringFrom b i n = take n (drop i (readable b))"
  by (auto simp: ReadStdStringFrom_def ReadableBytes_length bytes_from_readable min_def)

lemma ReadStdString_correct:
  "buf_inv b \<Longrightarrow> n \<le> length (readable b) \<Longrightarrow> ReadStdString b n = take n (readable b)"
  by (simp add: ReadStdString_def ReadableBytes_length bytes_from_readable)

lemma ReadableCharacterAt_correct:
  assumes "buf_inv b" "i < length (readable b)"
  shows "ReadableCharacterAt b i = Some (readable b ! i)"
proof -
  obtain pre k where b: "b = buf_form pre (readable b) k" using buf_inv_form [OF assms(1)] .
  have "ReadableCharacterAt (buf_form pre (readable b) k) i = Some (readable b ! i)"
    using assms(2) by (auto simp: ReadableCharacterAt_def Let_def) (auto simp: buf_form_def nth_append)
  then show ?thesis using b by simp
qed

text \<open>
  A number in the readable bytes whose digits are followed by another byte, or by the NUL bytes
  of the tail, is read without leaving the vector.
\<close>

lemma drop_data_form:
  "i \<le> length rd \<Longrightarrow> drop (p_reader (buf_form pre rd k) + i) (bf_data (buf_form pre rd k)) = drop i rd @ replicate k CHR 0x00"
  by (simp add: buf_form_def)

lemma strto_scan_digits:
  assumes "ds \<noteq> []" "\<forall>c \<in> set ds. is_digit c" "rest = [] \<or> \<not> is_digit (hd rest)"
  shows "strto_scan (ds @ rest) = (0, False, ds)"
proof -
  obtain c cs where ds: "ds = c # cs" using assms(1) by (cases ds) auto
  have "takeWhile is_digit (ds @ rest) = ds" using assms(2,3) by (cases rest) (auto simp: takeWhile_append)
  moreover have "\<not> is_space c" "c \<noteq> CHR ''-''" "c \<noteq> CHR ''+''"
    using assms(2) ds is_digit_not_special by auto
  ultimately show ?thesis by (simp add: strto_scan_def ds)
qed

lemma read_digits:
  assumes inv: "buf_inv b" and d: "drop i (readable b) = ds @ rest"
    and ds: "ds \<noteq> []" "\<forall>c \<in> set ds. is_digit c" "rest = [] \<or> \<not> is_digit (hd rest)"
    and room: "rest \<noteq> [] \<or> p_writer b < length (bf_data b)"
  shows "ReadLongFrom b i = Some (min INT64_MAX (int (digits_val ds)), length ds)"
proof -
  obtain pre k where b: "b = buf_form pre (readable b) k" using buf_inv_form [OF inv] .
  have i: "i < length (readable b)" using d ds(1) by (metis append_is_Nil_conv drop_eq_Nil not_le)
  let ?rest = "rest @ replicate k CHR 0x00"
  have s: "drop (p_reader b + i) (bf_data b) = ds @ ?rest"
    using drop_data_form [of i "readable b" pre k] b i d by simp
  have "p_writer b < length (bf_data b) \<longleftrightarrow> k \<noteq> 0" by (subst b, subst (2) b) (simp add: buf_form_def)
  then have ne: "?rest \<noteq> []" using room by auto
  moreover have "\<not> is_digit CHR 0x00" by (simp add: is_digit_def)
  ultimately have "?rest = [] \<or> \<not> is_digit (hd ?rest)" using ds(3) by (cases rest; cases k) auto
  then have scan: "strto_scan (ds @ ?rest) = (0, False, ds)" by (rule strto_scan_digits [OF ds(1,2)])
  then have "strto_span (ds @ ?rest) < length (ds @ ?rest)" using ne by (auto simp: strto_span_def)
  moreover have "strtoll (ds @ ?rest) = (min INT64_MAX (int (digits_val ds)), length ds, \<not> in_int64 (int (digits_val ds)))"
    using ds(1) by (simp add: strtoll_def scan Let_def)
  ultimately show ?thesis using inv i
    by (simp add: ReadLongFrom_def ReadableBytes_length read_long_at_def s)
qed

lemma read_number:
  assumes inv: "buf_inv b" and d: "drop i (readable b) = to_string_nat n @ c # rest"
    and c: "\<not> is_digit c" and n: "n < 2 ^ 63"
  shows "ReadLongFrom b i = Some (int n, length (to_string_nat n))"
proof -
  have "min INT64_MAX (int n) = int n" using n by simp
  then show ?thesis using read_digits [OF inv d] set_to_string_nat c by simp
qed

end
