(* ===== verification/Protocol.thy ===== *)
theory Protocol
  imports Buffer
begin

text \<open>
  \<open>src/src/net/protocol.cpp\<close>, the request parser, and \<open>CommandCache\<close> of
  \<open>src/src/net/net.h\<close>, which holds a parsed request and prints it in the wire format.

  \<open>TryParseFromBuffer\<close> returns the buffer, the cache, the flag \<open>err\<close> and its boolean result;
  its value is \<open>None\<close> when it reads outside the buffer's memory. One iteration of its loop is
  \<open>parse_arg\<close>. \<open>parse_loop\<close> is the loop of \<open>Server::ReadProc\<close> and of the log reader around
  it: it collects the requests it hands out. Values of type \<open>size_t\<close> are naturals with the
  wrap-around of differences and conversions written out (\<open>size_sub\<close>, \<open>size_of\<close>).
\<close>

section \<open>CommandCache\<close>

record command_cache =
  cc_inited :: bool
  argc :: u64
  argv :: "string list"

definition CommandCache_new :: command_cache where
  "CommandCache_new = \<lparr>cc_inited = False, argc = 0, argv = []\<rparr>"

definition CommandCache_Clear :: "command_cache \<Rightarrow> command_cache" where
  "CommandCache_Clear c = c\<lparr>cc_inited := False, argc := 0, argv := []\<rparr>"

definition item_protocol :: "string \<Rightarrow> string" where
  "item_protocol item =
     (if item = [] then ''$0'' @ CRLF @ CRLF
      else ''$'' @ std_to_string (int (length item)) @ CRLF @ item @ CRLF)"

definition ToProtocolString :: "command_cache \<Rightarrow> string" where
  "ToProtocolString c = ''*'' @ std_to_string (uint (argc c)) @ CRLF @ concat (map item_protocol (argv c))"

text \<open>\<open>ToString\<close>: the arguments separated by blanks and ended by a newline.\<close>

fun print_args :: "string list \<Rightarrow> string" where
  "print_args [] = []"
| "print_args [a] = a @ [CHR 0x0A]"
| "print_args (a # as) = a @ '' '' @ print_args as"

definition CommandCache_ToString :: "command_cache \<Rightarrow> string" where
  "CommandCache_ToString c = print_args (argv c)"

section \<open>The parser\<close>

definition size_of :: "int \<Rightarrow> nat" where
  "size_of i = nat (i mod 2 ^ 64)"

definition size_sub :: "nat \<Rightarrow> nat \<Rightarrow> nat" where
  "size_sub a b = size_of (int a - int b)"

datatype parse_step = ParseFail command_cache bool | ParseNext command_cache nat

definition parse_arg :: "buffer \<Rightarrow> command_cache \<Rightarrow> bool \<Rightarrow> nat \<Rightarrow> parse_step option" where
  "parse_arg b cache err cur_idx =
     (if cur_idx \<ge> ReadableBytes b then Some (ParseFail cache err)
      else case ReadableCharacterAt b cur_idx of
        None \<Rightarrow> None
      | Some ch \<Rightarrow>
        if ch \<noteq> CHR ''$''
        then Some (ParseFail (CommandCache_Clear cache) (ReadableBytes b > cur_idx \<or> err))
        else let cur1 = cur_idx + 1
        in case ReadLongFrom b cur1 of
          None \<Rightarrow> None
        | Some (next_arg_len, step) \<Rightarrow>
          if step = 0
          then Some (ParseFail (CommandCache_Clear cache) (size_sub (ReadableBytes b) cur1 > 0 \<or> err))
          else let cur2 = cur1 + step
          in if ReadStdStringFrom b cur2 2 \<noteq> CRLF
             then Some (ParseFail (CommandCache_Clear cache) (size_sub (ReadableBytes b) cur2 \<ge> 2 \<or> err))
             else let cur3 = cur2 + 2;
                      arg = ReadStdStringFrom b cur3 (size_of next_arg_len);
                      cache1 = cache\<lparr>argv := argv cache @ [arg]\<rparr>
                  in if length arg \<noteq> size_of next_arg_len
                     then Some (ParseFail (CommandCache_Clear cache1)
                                 (size_sub (ReadableBytes b) cur3 \<ge> size_of next_arg_len \<or> err))
                     else let cur4 = cur3 + size_of next_arg_len
                          in if ReadStdStringFrom b cur4 2 \<noteq> CRLF
                             then Some (ParseFail (CommandCache_Clear cache1)
                                         (size_sub (ReadableBytes b) cur4 \<ge> 2 \<or> err))
                             else Some (ParseNext cache1 (cur4 + 2)))"

fun parse_args :: "nat \<Rightarrow> buffer \<Rightarrow> command_cache \<Rightarrow> bool \<Rightarrow> nat \<Rightarrow> parse_step option" where
  "parse_args 0 b cache err cur_idx = Some (ParseNext cache cur_idx)"
| "parse_args (Suc n) b cache err cur_idx =
     (case parse_arg b cache err cur_idx of
        None \<Rightarrow> None
      | Some (ParseFail cache' err') \<Rightarrow> Some (ParseFail cache' err')
      | Some (ParseNext cache' cur') \<Rightarrow> parse_args n b cache' err cur')"

definition TryParseFromBuffer ::
    "buffer \<Rightarrow> command_cache \<Rightarrow> bool \<Rightarrow> (buffer \<times> command_cache \<times> bool \<times> bool) option" where
  "TryParseFromBuffer b cache err =
     (if ReadableBytes b \<le> 0 then Some (b, cache, err, False)
      else if ReadStdString b 1 \<noteq> ''*''
      then Some (Buffer_Reset b, cache, ReadableBytes b \<ge> 1 \<or> err, False)
      else case ReadLongFrom b 1 of
        None \<Rightarrow> None
      | Some (n_para, step) \<Rightarrow>
        if step = 0 then Some (b, CommandCache_Clear cache, ReadableBytes b > 0 \<or> err, False)
        else let cache1 = cache\<lparr>argc := word_of_int n_para\<rparr>; cur1 = 1 + step
             in if ReadStdStringFrom b cur1 2 \<noteq> CRLF
                then Some (b, CommandCache_Clear cache1, size_sub (ReadableBytes b) cur1 \<ge> 2 \<or> err, False)
                else case parse_args (nat n_para) b cache1 err (cur1 + 2) of
                       None \<Rightarrow> None
                     | Some (ParseFail cache' err') \<Rightarrow> Some (b, cache', err', False)
                     | Some (ParseNext cache' cur') \<Rightarrow>
                         let cache'' = cache'\<lparr>cc_inited := True\<rparr>
                         in if argc cache'' \<noteq> of_nat (length (argv cache''))
                            then Some (b, CommandCache_Clear cache'', err, False)
                            else Some (ReaderIdxForward b cur', cache'', err, True))"

lemma parse_success_consumes:
  assumes "TryParseFromBuffer b cache err = Some (b', cache', err', True)"
  shows "ReadableBytes b' < ReadableBytes b"
proof -
  have grow: "cur \<le> cur'" if "parse_args n b c e cur = Some (ParseNext c' cur')" for n c e cur c' cur'
    using that
  proof (induction n arbitrary: c cur)
    case (Suc n)
    then obtain c1 cur1 where a: "parse_arg b c e cur = Some (ParseNext c1 cur1)"
      by (auto split: option.splits parse_step.splits)
    then have "cur \<le> cur1"
      by (auto simp: parse_arg_def Let_def split: if_splits option.splits prod.splits)
    then show ?case using Suc a by fastforce
  qed simp
  have fwd: "ReadableBytes (ReaderIdxForward b n) < ReadableBytes b" if "0 < n" "0 < ReadableBytes b" for n
    using that by (auto simp: ReaderIdxForward_def ReadableBytes_def)
  show ?thesis using assms
    by (auto simp: TryParseFromBuffer_def Let_def dest!: grow intro!: fwd
        split: if_splits option.splits prod.splits parse_step.splits)
qed

function parse_loop ::
    "buffer \<Rightarrow> command_cache \<Rightarrow> bool \<Rightarrow> (buffer \<times> command_cache \<times> bool \<times> string list list) option" where
  "parse_loop b cache err =
     (case TryParseFromBuffer b cache err of
        None \<Rightarrow> None
      | Some (b', cache', err', ok) \<Rightarrow>
          if ok \<and> \<not> err'
          then (case parse_loop b' (CommandCache_Clear cache') err' of
                  None \<Rightarrow> None
                | Some (b'', cache'', err'', cmds) \<Rightarrow> Some (b'', cache'', err'', argv cache' # cmds))
          else Some (b', cache', err', []))"
  by auto
termination by (relation "measure (\<lambda>(b, c, e). ReadableBytes b)") (auto dest: parse_success_consumes)

declare parse_loop.simps [simp del]

section \<open>Lemmas: complete requests\<close>

definition request :: "string list \<Rightarrow> string" where
  "request args = ''*'' @ to_string_nat (length args) @ CRLF @ concat (map item_protocol args)"

lemma length_CRLF [simp]: "length CRLF = 2"
  by (simp add: CRLF_def)

lemma item_protocol_eq: "item_protocol a = ''$'' @ to_string_nat (length a) @ CRLF @ a @ CRLF"
proof -
  have "digit_char 0 = CHR ''0''" unfolding digit_char_def by (simp add: char_of_eq_iff)
  then show ?thesis by (simp add: item_protocol_def std_to_string_def to_string_nat.simps [of 0])
qed

lemma ToProtocolString_request:
  "argc c = of_nat (length (argv c)) \<Longrightarrow> length (argv c) < 2 ^ 64 \<Longrightarrow> ToProtocolString c = request (argv c)"
  by (simp add: ToProtocolString_def request_def std_to_string_def uint_nat unat_of_nat)

lemma size_of_nat [simp]: "n < 2 ^ 64 \<Longrightarrow> size_of (int n) = n"
  by (simp add: size_of_def)

lemma size_sub_le [simp]: "b \<le> a \<Longrightarrow> a < 2 ^ 64 \<Longrightarrow> size_sub a b = a - b"
  by (simp add: size_sub_def size_of_def of_nat_diff nat_diff_distrib)

lemma CRLF_Cons: "CRLF @ xs = CHR 0x0D # CHR 0x0A # xs"
  by (simp add: CRLF_def)

lemma take_CRLF [simp]: "take 2 (CRLF @ xs) = CRLF" "take 2 CRLF = CRLF"
  by (simp_all add: CRLF_def)

lemma crlf_after_number: "\<not> is_digit (hd (CRLF @ xs))"
  by (simp add: CRLF_Cons is_digit_def)

lemma drop_plus: "drop i xs = ys @ zs \<Longrightarrow> drop (i + length ys) xs = zs"
  by (metis add.commute append_eq_conv_conj drop_drop)

text \<open>Reading one item, and all items, at an offset of the readable bytes.\<close>

lemma parse_arg_complete:
  assumes inv: "buf_inv b" and d: "drop cur (readable b) = item_protocol a @ rest" and a: "length a < 2 ^ 63"
  shows "parse_arg b c err cur = Some (ParseNext (c\<lparr>argv := argv c @ [a]\<rparr>) (cur + length (item_protocol a)))"
proof -
  let ?n = "to_string_nat (length a)"
  have d0: "drop cur (readable b) = CHR ''$'' # ?n @ CRLF @ a @ CRLF @ rest" using d by (simp add: item_protocol_eq)
  have lt: "cur < length (readable b)" using d0 by (metis drop_eq_Nil list.discI not_le)
  have ch: "readable b ! cur = CHR ''$''" using d0 lt by (metis hd_drop_conv_nth list.sel(1))
  have d1: "drop (cur + 1) (readable b) = ?n @ CRLF @ a @ CRLF @ rest"
    using drop_plus [of cur _ "''$''"] d0 by simp
  have d2: "drop (cur + 1 + length ?n) (readable b) = CRLF @ a @ CRLF @ rest" by (rule drop_plus [OF d1])
  have d3: "drop (cur + 1 + length ?n + 2) (readable b) = a @ CRLF @ rest" using drop_plus [OF d2] by simp
  have d4: "drop (cur + 1 + length ?n + 2 + length a) (readable b) = CRLF @ rest" by (rule drop_plus [OF d3])
  have n: "ReadLongFrom b (cur + 1) = Some (int (length a), length ?n)"
    by (rule read_number [OF inv d1 [unfolded CRLF_Cons] _ a]) (simp add: is_digit_def)
  have l: "0 < length ?n" "length a \<le> length (readable b) - (cur + 1 + length ?n + 2)"
    using arg_cong [OF d3, of length] by simp_all
  have sz: "size_of (int (length a)) = length a" using a by simp
  show ?thesis
    unfolding parse_arg_def ReadableBytes_length [OF inv] ReadableCharacterAt_correct [OF inv lt]
      ReadStdStringFrom_correct [OF inv]
    using lt ch n l sz by (simp add: Let_def d2 [simplified] d3 [simplified] d4 [simplified] item_protocol_eq min_def)
qed

lemma parse_args_complete:
  assumes "buf_inv b" "drop cur (readable b) = concat (map item_protocol as) @ rest" "\<forall>a \<in> set as. length a < 2 ^ 63"
  shows "parse_args (length as + n) b c err cur =
    parse_args n b (c\<lparr>argv := argv c @ as\<rparr>) err (cur + length (concat (map item_protocol as)))"
  using assms(2,3)
proof (induction as arbitrary: c cur)
  case (Cons a as)
  have d: "drop cur (readable b) = item_protocol a @ (concat (map item_protocol as) @ rest)" using Cons.prems by simp
  show ?case
    using parse_arg_complete [OF assms(1) d] Cons.IH [OF drop_plus [OF d]] Cons.prems
    by (simp add: add.assoc)
qed simp

text \<open>The header of a request.\<close>

lemma parse_header:
  assumes inv: "buf_inv b" and d: "readable b = ''*'' @ to_string_nat n @ CRLF @ rest" and n: "n < 2 ^ 63"
  shows "TryParseFromBuffer b c err =
    (case parse_args n b (c\<lparr>argc := of_nat n\<rparr>) err (1 + length (to_string_nat n) + 2) of
       None \<Rightarrow> None
     | Some (ParseFail cache' err') \<Rightarrow> Some (b, cache', err', False)
     | Some (ParseNext cache' cur') \<Rightarrow>
         let cache'' = cache'\<lparr>cc_inited := True\<rparr>
         in if argc cache'' \<noteq> of_nat (length (argv cache''))
            then Some (b, CommandCache_Clear cache'', err, False)
            else Some (ReaderIdxForward b cur', cache'', err, True))"
proof -
  let ?n = "to_string_nat n"
  have d1: "drop 1 (readable b) = ?n @ CRLF @ rest" using d by simp
  have num: "ReadLongFrom b 1 = Some (int n, length ?n)"
    by (rule read_number [OF inv d1 [unfolded CRLF_Cons] _ n]) (simp add: is_digit_def)
  have d2: "drop (1 + length ?n) (readable b) = CRLF @ rest" by (rule drop_plus [OF d1])
  have star: "ReadStdString b 1 = ''*''" using ReadStdString_correct [OF inv, of 1] d by simp
  have crlf: "ReadStdStringFrom b (1 + length ?n) 2 = CRLF"
    unfolding ReadStdStringFrom_correct [OF inv] d2 by simp
  have ne: "\<not> ReadableBytes b \<le> 0" using inv d by (simp add: ReadableBytes_length)
  have l: "length ?n \<noteq> 0" by simp
  show ?thesis unfolding TryParseFromBuffer_def num Let_def
    using ne star crlf l by (simp only: option.case prod.case if_False not_False_eq_True nat_int of_int_of_nat_eq simp_thms)
qed

lemma TryParse_complete:
  assumes inv: "buf_inv b" and d: "readable b = request args @ rest" and len: "length args < 2 ^ 63"
    "\<forall>a \<in> set args. length a < 2 ^ 63" and c: "argv c = []"
  shows "TryParseFromBuffer b c err =
    Some (ReaderIdxForward b (length (request args)),
          c\<lparr>argc := of_nat (length args), argv := args, cc_inited := True\<rparr>, err, True)"
proof -
  let ?n = "to_string_nat (length args)" and ?items = "concat (map item_protocol args)"
  have d1: "readable b = (''*'' @ ?n @ CRLF) @ ?items @ rest" using d by (simp add: request_def)
  have d2: "drop (1 + length ?n + 2) (readable b) = ?items @ rest"
    unfolding d1 by (simp only: drop_append) simp
  have "parse_args (length args) b (c\<lparr>argc := of_nat (length args)\<rparr>) err (1 + length ?n + 2) =
      Some (ParseNext (c\<lparr>argc := of_nat (length args), argv := args\<rparr>) (1 + length ?n + 2 + length ?items))"
    using parse_args_complete [OF inv d2 len(2), of 0] c by simp
  moreover have "1 + length ?n + 2 + length ?items = length (request args)" by (simp add: request_def)
  ultimately show ?thesis using parse_header [OF inv d1 [simplified append_assoc] len(1), of c err]
    by (simp add: Let_def)
qed

lemma parse_loop_requests:
  assumes "buf_inv b" "readable b = concat (map request cmds)" "argv c = []"
    "\<forall>args \<in> set cmds. length args < 2 ^ 63 \<and> (\<forall>a \<in> set args. length a < 2 ^ 63)"
  shows "\<exists>b' c'. parse_loop b c False = Some (b', c', False, cmds) \<and> buf_inv b' \<and> readable b' = [] \<and> argv c' = []"
  using assms
proof (induction cmds arbitrary: b c)
  case Nil
  then show ?case by (simp add: parse_loop.simps TryParseFromBuffer_def ReadableBytes_length)
next
  case (Cons args cmds)
  let ?b = "ReaderIdxForward b (length (request args))"
  let ?c = "c\<lparr>argc := of_nat (length args), argv := args, cc_inited := True\<rparr>"
  have p: "TryParseFromBuffer b c False = Some (?b, ?c, False, True)"
    using Cons.prems by (intro TryParse_complete [where rest = "concat (map request cmds)"]) auto
  have "readable ?b = concat (map request cmds)" "buf_inv ?b" using Cons.prems by (simp_all add: forward_correct)
  then obtain b' c' where "parse_loop ?b (CommandCache_Clear ?c) False = Some (b', c', False, cmds)"
    "buf_inv b'" "readable b' = []" "argv c' = []"
    using Cons.IH [of ?b "CommandCache_Clear ?c"] Cons.prems by (auto simp: CommandCache_Clear_def)
  then show ?case using p by (simp add: parse_loop.simps [of b])
qed

section \<open>Lemmas: incomplete requests\<close>

lemma size_sub_drop: "x \<le> length r \<Longrightarrow> length r < 2 ^ 64 \<Longrightarrow> size_sub (length r) x = length (drop x r)"
  by simp

lemma short_not_CRLF: "length xs < 2 \<Longrightarrow> take 2 xs \<noteq> CRLF"
  by (metis length_CRLF take_all nat_less_le)

text \<open>One iteration on readable bytes that hold a \<open>$\<close> and a number at the offset.\<close>

lemma parse_arg_number:
  assumes inv: "buf_inv b" and r: "readable b = r" and d: "drop cur r = CHR ''$'' # q"
    and n: "ReadLongFrom b (cur + 1) = Some (v, step)" "step \<noteq> 0"
    and big: "length r < 2 ^ 64" and inside: "cur + 1 + step \<le> length r"
    and e: "if take 2 (drop (cur + 1 + step) r) \<noteq> CRLF then length (drop (cur + 1 + step) r) < 2
            else v = int (length a) \<and> length a < 2 ^ 63 \<and>
              (let t = drop (cur + 1 + step + 2) r
               in if take (length a) t \<noteq> a then length t < length a
                  else length (drop (length a) t) < 2)"
  shows "\<exists>c'. parse_arg b c err cur = Some (ParseFail c' err)"
proof -
  have lt: "cur < length r" using d by (metis drop_eq_Nil list.discI not_le)
  have ch: "r ! cur = CHR ''$''" using d lt by (metis hd_drop_conv_nth list.sel(1))
  let ?x = "cur + 1 + step"
  note unf = parse_arg_def ReadableBytes_length [OF inv] ReadableCharacterAt_correct [OF inv lt [folded r]]
      ReadStdStringFrom_correct [OF inv] r
  show ?thesis
  proof (cases "take 2 (drop ?x r) = CRLF")
    case False
    then show ?thesis using e size_sub_drop [OF inside big] unfolding unf
      using lt ch n by (simp add: Let_def)
  next
    case True
    let ?t = "drop (?x + 2) r"
    have x2: "?x + 2 \<le> length r" using arg_cong [OF True, of length] by simp
    have v: "v = int (length a)" "size_of v = length a" using True e by simp_all
    show ?thesis
    proof (cases "take (length a) ?t = a")
      case short: False
      then have "length ?t < length a" using True e by (simp add: Let_def)
      then show ?thesis unfolding unf using lt ch n True v size_sub_drop [OF x2 big]
        by (simp add: Let_def min_def)
    next
      case full: True
      have x3: "?x + 2 + length a \<le> length r" using arg_cong [OF full, of length] x2 by simp
      have t: "drop (length a) ?t = drop (?x + 2 + length a) r" by (simp add: add.commute add.left_commute)
      have short: "length (drop (?x + 2 + length a) r) < 2"
        using True full e t by (simp add: Let_def ac_simps)
      note short_not_CRLF [OF short] short
      then show ?thesis unfolding unf using lt ch n True v full size_sub_drop [OF x3 big] x3 short
        by (auto simp: Let_def min_def)
    qed
  qed
qed

text \<open>The ways an argument can be cut: behind the \<open>$\<close>, inside the length, behind the CR of its line, or later.\<close>

lemma cut_argument:
  assumes "t = take j (a @ CRLF)" "j < length a + 2"
  shows "if take (length a) t \<noteq> a then length t < length a else length (drop (length a) t) < 2"
proof (cases "length a \<le> j")
  case True
  then show ?thesis using assms by simp
next
  case False
  then have "t = take j a" "length t < length a" using assms(1) by simp_all
  then show ?thesis by auto
qed

lemma parse_arg_bare:
  assumes inv: "buf_inv b" and d: "drop cur (readable b) = ''$''" and big: "length (readable b) < 2 ^ 64"
  shows "\<exists>c'. parse_arg b c err cur = Some (ParseFail c' err)"
proof -
  have lt: "cur < length (readable b)" using d by (metis drop_eq_Nil list.discI not_le)
  then have len: "length (readable b) = cur + 1" using arg_cong [OF d, of length] by simp
  then have "ReadLongFrom b (cur + 1) = Some (0, 0)" by (simp add: ReadLongFrom_def ReadableBytes_length [OF inv])
  moreover have "r ! cur = CHR ''$''" if "r = readable b" for r using d lt that by (metis hd_drop_conv_nth list.sel(1))
  ultimately show ?thesis using lt size_sub_drop [of "cur + 1" "readable b"] len big
    by (simp add: parse_arg_def ReadableBytes_length [OF inv] ReadableCharacterAt_correct [OF inv lt] Let_def)
qed

lemma parse_arg_cut_value:
  assumes inv: "buf_inv b" and big: "length (readable b) < 2 ^ 64" and a: "length a < 2 ^ 63"
    and d: "drop cur (readable b) = CHR ''$'' # to_string_nat (length a) @ CRLF @ t" and t: "t = take j (a @ CRLF)" "j < length a + 2"
  shows "\<exists>c'. parse_arg b c err cur = Some (ParseFail c' err)"
proof -
  let ?r = "readable b" and ?n = "to_string_nat (length a)"
  have q: "drop (cur + 1) ?r = ?n @ CRLF @ t" using drop_plus [of cur ?r "''$''"] d by simp
  have n: "ReadLongFrom b (cur + 1) = Some (int (length a), length ?n)"
    by (rule read_number [OF inv q [unfolded CRLF_Cons] _ a]) (simp add: is_digit_def)
  have d2: "drop (cur + 1 + length ?n) ?r = CRLF @ t" by (rule drop_plus [OF q])
  have d3: "drop (cur + 1 + length ?n + 2) ?r = t" using drop_plus [OF d2] by simp
  have "cur < length ?r" using d by (metis drop_eq_Nil list.discI not_le)
  then have "length ?r = cur + 1 + length ?n + 2 + length t" using arg_cong [OF q, of length] by simp
  then show ?thesis using d2 d3 a cut_argument [OF t] by (intro parse_arg_number [OF inv refl d n _ big, of a]) (simp_all add: Let_def)
qed

lemma parse_arg_partial:
  assumes inv: "buf_inv b" and room: "p_writer b < length (bf_data b)" and big: "length (readable b) < 2 ^ 64"
    and d: "drop cur (readable b) = take m (item_protocol a)" and m: "m < length (item_protocol a)"
    and a: "length a < 2 ^ 63" and cur: "cur \<le> length (readable b)"
  shows "\<exists>c'. parse_arg b c err cur = Some (ParseFail c' err)"
proof (cases m)
  case 0
  then show ?thesis using d inv by (simp add: parse_arg_def ReadableBytes_length)
next
  case (Suc k)
  let ?r = "readable b" and ?n = "to_string_nat (length a)" and ?q = "take k (to_string_nat (length a) @ CRLF @ a @ CRLF)"
  have d0: "drop cur ?r = CHR ''$'' # ?q" using d Suc by (simp add: item_protocol_eq)
  have q: "drop (cur + 1) ?r = ?q" using drop_plus [of cur ?r "''$''" ?q] d0 by simp
  have k: "k < length ?n + 2 + length a + 2" using m Suc by (simp add: item_protocol_eq)
  have dig: "\<forall>c \<in> set ?n. is_digit c" using set_to_string_nat by blast
  have lt: "cur < length ?r" using d0 by (metis drop_eq_Nil list.discI not_le)
  note step = parse_arg_number [OF inv refl d0 _ _ big, of _ _ a]
  consider "k = 0" | "0 < k" "k \<le> length ?n" | "k = length ?n + 1" | "length ?n + 2 \<le> k" by linarith
  then show ?thesis
  proof cases
    case 1
    then show ?thesis using parse_arg_bare [OF inv _ big] d0 by simp
  next
    case 2
    then have q': "drop (cur + 1) ?r = take k ?n @ []" using q by simp
    have "take k ?n \<noteq> []" "\<forall>c \<in> set (take k ?n). is_digit c" using 2 dig by (auto dest: in_set_takeD)
    then have "ReadLongFrom b (cur + 1) = Some (min INT64_MAX (int (digits_val (take k ?n))), k)"
      using read_digits [OF inv q'] room 2 by simp
    moreover have "length ?r = cur + 1 + k" using arg_cong [OF q', of length] lt 2 by simp
    ultimately show ?thesis using 2 by (intro step) (auto simp: CRLF_def)
  next
    case 3
    then have q': "drop (cur + 1) ?r = ?n @ [CHR 0x0D]" using q by (simp add: CRLF_def)
    then have "ReadLongFrom b (cur + 1) = Some (int (length a), length ?n)"
      using read_number [OF inv _ _ a, of "cur + 1" "CHR 0x0D" "[]"] by simp
    moreover have "drop (cur + 1 + length ?n) ?r = [CHR 0x0D]" by (rule drop_plus [OF q'])
    moreover have "length ?r = cur + 1 + length ?n + 1" using arg_cong [OF q', of length] lt by simp
    ultimately show ?thesis by (intro step) (auto simp: CRLF_def)
  next
    case 4
    then have q': "?q = ?n @ CRLF @ take (k - length ?n - 2) (a @ CRLF)" by simp
    show ?thesis by (rule parse_arg_cut_value [OF inv big a d0 [unfolded q'] refl]) (use k 4 in simp)
  qed
qed

lemma parse_args_partial:
  assumes inv: "buf_inv b" and room: "p_writer b < length (bf_data b)" and big: "length (readable b) < 2 ^ 64"
    and "drop cur (readable b) = take m (concat (map item_protocol as))" "m < length (concat (map item_protocol as))"
    and "\<forall>a \<in> set as. length a < 2 ^ 63" "cur \<le> length (readable b)"
  shows "\<exists>c'. parse_args (length as) b c err cur = Some (ParseFail c' err)"
  using assms(4-)
proof (induction as arbitrary: c cur m)
  case (Cons a as)
  show ?case
  proof (cases "m < length (item_protocol a)")
    case True
    then have eq: "drop cur (readable b) = take m (item_protocol a)" using Cons.prems by simp
    have a: "length a < 2 ^ 63" using Cons.prems(3) by simp
    obtain c' where "parse_arg b c err cur = Some (ParseFail c' err)"
      using parse_arg_partial [OF inv room big eq True a Cons.prems(4), of c err] by blast
    then show ?thesis by simp
  next
    case False
    then have d: "drop cur (readable b) = item_protocol a @ take (m - length (item_protocol a)) (concat (map item_protocol as))"
      using Cons.prems by simp
    let ?cur = "cur + length (item_protocol a)"
    have "?cur \<le> length (readable b)" using arg_cong [OF d, of length] Cons.prems(4) by simp
    moreover have "m - length (item_protocol a) < length (concat (map item_protocol as))"
      using Cons.prems(2) False by simp
    ultimately show ?thesis
      using parse_arg_complete [OF inv d] Cons.IH [OF drop_plus [OF d]] Cons.prems(3) by simp
  qed
qed simp

text \<open>A request cut off anywhere: nothing is consumed and nothing is handed out.\<close>

lemma header_partial:
  assumes inv: "buf_inv b" and room: "p_writer b < length (bf_data b)" and big: "length (readable b) < 2 ^ 64"
    and d: "readable b = take m (''*'' @ to_string_nat n @ CRLF)" and m: "0 < m" "m < length (''*'' @ to_string_nat n @ CRLF)"
  shows "\<exists>c'. TryParseFromBuffer b c err = Some (b, c', err \<or> m = 1, False)"
proof -
  let ?r = "readable b" and ?n = "to_string_nat n"
  obtain k where k: "m = Suc k" using m by (cases m) auto
  have r: "?r = CHR ''*'' # take k (?n @ CRLF)" using d k by simp
  have star: "ReadStdString b 1 = ''*''" using ReadStdString_correct [OF inv, of 1] r by simp
  have dig: "\<forall>c \<in> set ?n. is_digit c" using set_to_string_nat by blast
  have ne: "\<not> ReadableBytes b \<le> 0" using inv r by (simp add: ReadableBytes_length)
  have len: "length ?r = Suc k" using r m k by simp
  show ?thesis
  proof (cases "k = 0")
    case True
    then show ?thesis using ne star len k
      by (simp add: TryParseFromBuffer_def ReadLongFrom_def ReadableBytes_length [OF inv])
  next
    case False
    define ds where "ds = take k ?n"
    let ?rest = "take (k - length ?n) CRLF"
    have q: "drop 1 ?r = ds @ ?rest" using r by (simp add: ds_def)
    have ds: "ds \<noteq> []" "\<forall>c \<in> set ds. is_digit c" "length ds \<le> k"
      using False dig by (auto simp: ds_def dest: in_set_takeD)
    moreover have "?rest = [] \<or> \<not> is_digit (hd ?rest)" by (cases "k - length ?n") (simp_all add: CRLF_def is_digit_def)
    ultimately have num: "ReadLongFrom b 1 = Some (min INT64_MAX (int (digits_val ds)), length ds)"
      using read_digits [OF inv q] room by blast
    have rest: "drop (1 + length ds) ?r = ?rest" by (rule drop_plus [OF q])
    have short: "length ?rest < 2" using m k by simp
    then have crlf: "ReadStdStringFrom b (1 + length ds) 2 \<noteq> CRLF"
      unfolding ReadStdStringFrom_correct [OF inv] rest by (rule short_not_CRLF)
    have "size_sub (length ?r) (1 + length ds) = length (drop (1 + length ds) ?r)"
      by (rule size_sub_drop) (use len big ds in simp_all)
    then have "\<not> 2 \<le> size_sub (length ?r) (1 + length ds)" unfolding rest using short by simp
    moreover have "length ds \<noteq> 0" "m \<noteq> 1" using False k ds by simp_all
    ultimately show ?thesis unfolding TryParseFromBuffer_def num Let_def ReadableBytes_length [OF inv]
      using ne star crlf by (simp add: ReadableBytes_length [OF inv])
  qed
qed

lemma TryParse_partial:
  assumes inv: "buf_inv b" and room: "p_writer b < length (bf_data b)" and big: "length (readable b) < 2 ^ 64"
    and d: "readable b = take m (request args)" and m: "0 < m" "m < length (request args)"
    and len: "length args < 2 ^ 63" "\<forall>a \<in> set args. length a < 2 ^ 63"
  shows "\<exists>c'. TryParseFromBuffer b c err = Some (b, c', err \<or> m = 1, False)"
proof -
  let ?h = "''*'' @ to_string_nat (length args) @ CRLF" and ?items = "concat (map item_protocol args)"
  have req: "request args = ?h @ ?items" by (simp add: request_def)
  show ?thesis
  proof (cases "m < length ?h")
    case True
    then have "take m (?h @ ?items) = take m ?h" by (metis append_Nil2 diff_is_0_eq less_imp_le take0 take_append)
    then have "readable b = take m ?h" using d req by simp
    then show ?thesis by (rule header_partial [OF inv room big _ m(1) True])
  next
    case False
    then have "take m ?h = ?h" by (intro take_all) simp
    then have r: "readable b = ?h @ take (m - length ?h) ?items" unfolding d req by (simp only: take_append)
    have d2: "drop (1 + length (to_string_nat (length args)) + 2) (readable b) = take (m - length ?h) ?items"
      unfolding r by (simp only: drop_append) simp
    have "1 + length (to_string_nat (length args)) + 2 \<le> length (readable b)" unfolding r by simp
    moreover have "m - length ?h < length ?items" using m False req by simp
    ultimately obtain c' where "parse_args (length args) b (c\<lparr>argc := of_nat (length args)\<rparr>) err
        (1 + length (to_string_nat (length args)) + 2) = Some (ParseFail c' err)"
      using parse_args_partial [OF inv room big d2 _ len(2)] by blast
    moreover have "m \<noteq> 1" using False by auto
    ultimately show ?thesis using parse_header [OF inv _ len(1), of "take (m - length ?h) ?items" c err] r by simp
  qed
qed

section \<open>Properties\<close>

text \<open>
  C13. Printing and parsing a request are inverse, in any context: when the readable bytes of a
  session start with \<open>ToProtocolString\<close> of a command whose \<open>argc\<close> is the number of its
  arguments, \<open>TryParseFromBuffer\<close> with an empty argument list returns true, leaves \<open>err\<close>
  as it was, stores exactly the arguments (with any bytes, CR, LF and NUL included) and consumes
  exactly the bytes of the request. It reads no memory outside the buffer.
\<close>

theorem protocol_roundtrip:
  assumes "buf_inv b" "readable b = ToProtocolString cmd @ rest"
    and "argc cmd = of_nat (length (argv cmd))" "length (argv cmd) < 2 ^ 63" "\<forall>a \<in> set (argv cmd). length a < 2 ^ 63"
    and "argv cache = []"
  shows "\<exists>b'. TryParseFromBuffer b cache err =
      Some (b', cache\<lparr>argc := argc cmd, argv := argv cmd, cc_inited := True\<rparr>, err, True) \<and>
    buf_inv b' \<and> readable b' = rest"
proof -
  have r: "readable b = request (argv cmd) @ rest" using assms(2-4) by (simp add: ToProtocolString_request)
  show ?thesis using TryParse_complete [OF assms(1) r assms(4-6)] assms(1,3) r by (simp add: forward_correct)
qed

text \<open>A buffer that holds a given string, for the instances below.\<close>

definition buffer_of :: "string \<Rightarrow> buffer" where
  "buffer_of s = Buffer_Append (Buffer_new 64) s"

lemma buffer_of_facts [simp]: "buf_inv (buffer_of s)" "readable (buffer_of s) = s"
  by (simp_all add: buffer_of_def append_correct buf_inv_new)

theorem protocol_roundtrip_witness:
  "\<exists>b'. TryParseFromBuffer (buffer_of (ToProtocolString \<lparr>cc_inited = True, argc = 2, argv = [''get'', ''k'']\<rparr> @ ''*''))
      CommandCache_new False =
      Some (b', \<lparr>cc_inited = True, argc = 2, argv = [''get'', ''k'']\<rparr>, False, True) \<and> readable b' = ''*''"
  using protocol_roundtrip [of "buffer_of (ToProtocolString \<lparr>cc_inited = True, argc = 2, argv = [''get'', ''k'']\<rparr> @ ''*'')"
      "\<lparr>cc_inited = True, argc = 2, argv = [''get'', ''k'']\<rparr>" "''*''" CommandCache_new False]
  by (auto simp: CommandCache_new_def)

text \<open>
  Pipelined requests: when the readable bytes are the concatenation of complete requests,
  however they arrived in chunks, the parse loop hands out exactly these requests in order,
  consumes everything, raises no error and leaves the cache empty.
\<close>

theorem pipeline_in_order:
  assumes "concat chunks = concat (map request cmds)" "argv cache = []"
    and "\<forall>args \<in> set cmds. length args < 2 ^ 63 \<and> (\<forall>a \<in> set args. length a < 2 ^ 63)"
  shows "\<exists>b' cache'. parse_loop (foldl Buffer_Append (Buffer_new 64) chunks) cache False =
      Some (b', cache', False, cmds) \<and> readable b' = [] \<and> argv cache' = []"
proof -
  let ?b = "foldl Buffer_Append (Buffer_new 64) chunks"
  have "buf_inv ?b" "readable ?b = concat (map request cmds)"
    using session_buffer.append_chunks [of "Buffer_new 64" chunks] assms(1) by (simp_all add: buf_inv_new)
  from parse_loop_requests [OF this assms(2,3)] show ?thesis by blast
qed

theorem pipeline_in_order_witness:
  "\<exists>b' cache'. parse_loop (foldl Buffer_Append (Buffer_new 64) [request [''ping''], request [''get'', []]])
      CommandCache_new False = Some (b', cache', False, [[''ping''], [''get'', []]]) \<and> readable b' = []"
  using pipeline_in_order [of "[request [''ping''], request [''get'', []]]" "[[''ping''], [''get'', []]]" CommandCache_new]
  by (auto simp: CommandCache_new_def)

text \<open>
  C34. Safety on incomplete input: when the readable bytes are a proper, non-empty prefix of a
  request and the vector has at least one spare byte, \<open>TryParseFromBuffer\<close> returns false,
  stays inside the buffer and leaves the buffer untouched, wherever the request was cut; it
  raises \<open>err\<close> for exactly one cut, the one after the leading asterisk.
\<close>

theorem incomplete_request_untouched:
  assumes "buf_inv b" "p_writer b < length (bf_data b)" "length (readable b) < 2 ^ 64"
    and "readable b = take m (request args)" "0 < m" "m < length (request args)"
    and "length args < 2 ^ 63" "\<forall>a \<in> set args. length a < 2 ^ 63"
  shows "\<exists>cache'. TryParseFromBuffer b cache False = Some (b, cache', m = 1, False)"
  using TryParse_partial [OF assms, of cache False] by simp

lemma request_ping: "request [''ping''] = ''*1'' @ CRLF @ ''$4'' @ CRLF @ ''ping'' @ CRLF"
proof -
  have "digit_char 1 = CHR ''1''" "digit_char (Suc (Suc (Suc (Suc 0)))) = CHR ''4''" by (simp_all add: digit_char_def char_of_eq_iff)
  then show ?thesis by (simp add: request_def item_protocol_eq to_string_nat.simps)
qed

theorem incomplete_request_untouched_witness:
  "\<exists>cache'. TryParseFromBuffer (buffer_of (take 6 (request [''ping'']))) CommandCache_new False =
     Some (buffer_of (take 6 (request [''ping''])), cache', False, False)"
proof -
  let ?b = "buffer_of (take 6 (request [''ping'']))"
  have "p_writer ?b < length (bf_data ?b)"
    by (simp add: buffer_of_def request_ping CRLF_def Buffer_Append_def Buffer_new_def EnsureBytesForWrite_def
        WritableBytes_def Buffer_Capacity_def c_memcpy_def)
  then show ?thesis
    using incomplete_request_untouched [of ?b 6 "[''ping'']" CommandCache_new] by (simp add: request_ping CRLF_def)
qed



end
