(* ===== verification/TimeEvent.thy ===== *)
theory TimeEvent
  imports LKV_Prelude
begin

text \<open>
  \<open>src/src/net/time_event.h\<close> and \<open>src/src/net/time_event.cpp\<close>: the timers that expire keys.

  Times are 64-bit unsigned milliseconds and the arithmetic on them wraps, as in the source.
  Every reading of the clock (\<open>GetCurrentMs\<close>) is an argument. A callback is a label of the
  type \<open>'cb\<close>; \<open>HandleFiredTimeEvent\<close> returns the labels of the callbacks it runs, in order.
  The callbacks the program installs do not touch the holder. \<open>sTimeEventId\<close> is a field of
  the holder: the program has one holder.
\<close>

section \<open>Model\<close>

record 'cb time_event =
  te_id :: int
  te_when :: u64
  te_interval :: u64
  te_callback :: 'cb
  te_count :: int

record 'cb tev_holder =
  event_list :: "'cb time_event list"
  sTimeEventId :: int

definition TimeEventHolder :: "'cb tev_holder" where
  "TimeEventHolder = \<lparr>event_list = [], sTimeEventId = 0\<rparr>"

definition TimeEvent_new :: "u64 \<Rightarrow> int \<Rightarrow> u64 \<Rightarrow> 'cb \<Rightarrow> int \<Rightarrow> 'cb time_event" where
  "TimeEvent_new now i interval callback cnt =
     \<lparr>te_id = i, te_when = now + interval, te_interval = interval, te_callback = callback, te_count = cnt\<rparr>"

definition FireForever :: "'cb time_event \<Rightarrow> bool" where
  "FireForever ev \<longleftrightarrow> te_count ev < 0"

definition CanFire :: "'cb time_event \<Rightarrow> bool" where
  "CanFire ev \<longleftrightarrow> te_count ev > 0 \<or> te_count ev < 0"

definition CannotFire :: "'cb time_event \<Rightarrow> bool" where
  "CannotFire ev \<longleftrightarrow> te_count ev = 0"

definition Consume :: "'cb time_event \<Rightarrow> 'cb time_event" where
  "Consume ev = ev\<lparr>te_count := te_count ev - 1\<rparr>"

definition CreateTimeEvent ::
    "u64 \<Rightarrow> 'cb tev_holder \<Rightarrow> u64 \<Rightarrow> 'cb \<Rightarrow> int \<Rightarrow> 'cb tev_holder \<times> 'cb time_event" where
  "CreateTimeEvent now h interval callback cnt =
     (let i = sTimeEventId h + 1; tev = TimeEvent_new now i interval callback cnt
      in (h\<lparr>sTimeEventId := i, event_list := tev # event_list h\<rparr>, tev))"

fun update_event :: "u64 \<Rightarrow> int \<Rightarrow> u64 \<Rightarrow> int \<Rightarrow> 'cb time_event list \<Rightarrow> 'cb time_event list \<times> bool" where
  "update_event now i interval cnt [] = ([], False)"
| "update_event now i interval cnt (ev # evs) =
     (if te_id ev = i
      then (ev\<lparr>te_count := cnt, te_interval := interval, te_when := now + interval\<rparr> # evs, True)
      else case update_event now i interval cnt evs of (evs', r) \<Rightarrow> (ev # evs', r))"

definition UpdateTimeEvent ::
    "u64 \<Rightarrow> 'cb tev_holder \<Rightarrow> int \<Rightarrow> u64 \<Rightarrow> int \<Rightarrow> 'cb tev_holder \<times> bool" where
  "UpdateTimeEvent now h i interval cnt =
     (case update_event now i interval cnt (event_list h) of (evs, r) \<Rightarrow> (h\<lparr>event_list := evs\<rparr>, r))"

fun remove_event :: "int \<Rightarrow> 'cb time_event list \<Rightarrow> 'cb time_event list \<times> bool" where
  "remove_event i [] = ([], False)"
| "remove_event i (ev # evs) =
     (if te_id ev = i then (evs, True)
      else case remove_event i evs of (evs', r) \<Rightarrow> (ev # evs', r))"

definition RemoveTimeEvent :: "'cb tev_holder \<Rightarrow> int \<Rightarrow> 'cb tev_holder \<times> bool" where
  "RemoveTimeEvent h i = (case remove_event i (event_list h) of (evs, r) \<Rightarrow> (h\<lparr>event_list := evs\<rparr>, r))"

fun nearest_loop :: "u64 \<Rightarrow> 'cb time_event list \<Rightarrow> u64 \<Rightarrow> 'cb time_event option \<Rightarrow> 'cb time_event option" where
  "nearest_loop now [] min_diff tev = tev"
| "nearest_loop now (it # its) min_diff tev =
     (if CannotFire it then nearest_loop now its min_diff tev
      else let diff = te_when it - now
           in if min_diff > diff then nearest_loop now its diff (Some it)
              else nearest_loop now its min_diff tev)"

definition FindNearestTimeEvent :: "'cb tev_holder \<Rightarrow> u64 \<Rightarrow> 'cb time_event option" where
  "FindNearestTimeEvent h now = nearest_loop now (event_list h) (word_of_int INT64_MAX) None"

text \<open>
  The loop over the events: \<open>now\<close> is the reading before it, \<open>later\<close> gives the reading when an
  event is rescheduled.
\<close>

fun fire_events :: "u64 \<Rightarrow> ('cb time_event \<Rightarrow> u64) \<Rightarrow> 'cb time_event list \<Rightarrow> 'cb time_event list \<times> 'cb list" where
  "fire_events now later [] = ([], [])"
| "fire_events now later (ev # evs) =
     (let executed = (te_when ev \<le> now \<and> CanFire ev);
          ev1 = (if executed \<and> \<not> FireForever ev then Consume ev else ev);
          fired = (if executed then [te_callback ev] else []);
          (evs', fired') = fire_events now later evs
      in if CannotFire ev1 then (evs', fired @ fired')
         else if executed then (ev1\<lparr>te_when := later ev1 + te_interval ev1\<rparr> # evs', fired @ fired')
         else (ev1 # evs', fired @ fired'))"

definition HandleFiredTimeEvent ::
    "u64 \<Rightarrow> ('cb time_event \<Rightarrow> u64) \<Rightarrow> 'cb tev_holder \<Rightarrow> 'cb tev_holder \<times> 'cb list \<times> int" where
  "HandleFiredTimeEvent now later h =
     (case fire_events now later (event_list h) of (evs, fired) \<Rightarrow>
        (h\<lparr>event_list := evs\<rparr>, fired, int (length fired)))"

definition HowLongTillNextFired :: "u64 \<Rightarrow> 'cb tev_holder \<Rightarrow> u64" where
  "HowLongTillNextFired now h =
     (case FindNearestTimeEvent h now of None \<Rightarrow> 50 | Some tev \<Rightarrow> te_when tev - now)"

section \<open>Invariant\<close>

text \<open>Identifiers are unique and below the counter; every event in the list can still fire.\<close>

definition tev_inv :: "'cb tev_holder \<Rightarrow> bool" where
  "tev_inv h \<longleftrightarrow> distinct (map te_id (event_list h)) \<and>
     (\<forall>ev \<in> set (event_list h). te_id ev \<le> sTimeEventId h \<and> CanFire ev)"

section \<open>Lemmas\<close>

lemma CanFire_iff: "CanFire ev \<longleftrightarrow> \<not> CannotFire ev"
  by (auto simp: CanFire_def CannotFire_def)

lemma update_event_found:
  assumes "distinct (map te_id evs)"
  shows "update_event now i interval cnt evs =
    (map (\<lambda>ev. if te_id ev = i then ev\<lparr>te_count := cnt, te_interval := interval, te_when := now + interval\<rparr> else ev) evs,
     i \<in> te_id ` set evs)"
  using assms
proof (induction evs)
  case (Cons ev evs)
  then show ?case by (auto simp: image_iff intro!: map_idI [symmetric])
qed simp

lemma remove_event_found:
  "distinct (map te_id evs) \<Longrightarrow>
   remove_event i evs = (filter (\<lambda>ev. te_id ev \<noteq> i) evs, i \<in> te_id ` set evs)"
  by (induction evs) (auto simp: image_iff intro!: filter_True [symmetric])

lemma nearest_loop_spec:
  "nearest_loop now evs m tev = None \<longleftrightarrow> tev = None \<and> (\<forall>ev \<in> set evs. CanFire ev \<longrightarrow> m \<le> te_when ev - now)"
  "nearest_loop now evs m tev = Some ev \<Longrightarrow>
     (tev = Some ev \<and> (\<forall>e \<in> set evs. CanFire e \<longrightarrow> m \<le> te_when e - now)) \<or>
     (ev \<in> set evs \<and> CanFire ev \<and> te_when ev - now < m \<and>
      (\<forall>e \<in> set evs. CanFire e \<longrightarrow> te_when ev - now \<le> te_when e - now))"
proof -
  show "nearest_loop now evs m tev = None \<longleftrightarrow> tev = None \<and> (\<forall>ev \<in> set evs. CanFire ev \<longrightarrow> m \<le> te_when ev - now)"
    by (induction now evs m tev rule: nearest_loop.induct) (auto simp: Let_def CanFire_iff not_less)
  show "nearest_loop now evs m tev = Some ev \<Longrightarrow>
     (tev = Some ev \<and> (\<forall>e \<in> set evs. CanFire e \<longrightarrow> m \<le> te_when e - now)) \<or>
     (ev \<in> set evs \<and> CanFire ev \<and> te_when ev - now < m \<and>
      (\<forall>e \<in> set evs. CanFire e \<longrightarrow> te_when ev - now \<le> te_when e - now))"
    by (induction now evs m tev rule: nearest_loop.induct)
      (auto simp: Let_def CanFire_iff not_less split: if_splits)
qed

text \<open>The events that are due, and what becomes of an event in one pass.\<close>

definition due :: "u64 \<Rightarrow> 'cb time_event \<Rightarrow> bool" where
  "due now ev \<longleftrightarrow> te_when ev \<le> now \<and> CanFire ev"

definition after_pass :: "u64 \<Rightarrow> ('cb time_event \<Rightarrow> u64) \<Rightarrow> 'cb time_event \<Rightarrow> 'cb time_event" where
  "after_pass now later ev =
     (if due now ev
      then let ev1 = (if FireForever ev then ev else Consume ev)
           in ev1\<lparr>te_when := later ev1 + te_interval ev1\<rparr>
      else ev)"

definition last_firing :: "u64 \<Rightarrow> 'cb time_event \<Rightarrow> bool" where
  "last_firing now ev \<longleftrightarrow> CannotFire ev \<or> (te_when ev \<le> now \<and> te_count ev = 1)"

lemma fire_events_eq:
  "fire_events now later evs =
     (map (after_pass now later) (filter (\<lambda>ev. \<not> last_firing now ev) evs), map te_callback (filter (due now) evs))"
proof (induction evs)
  case (Cons ev evs)
  consider "te_count ev = 0" | "te_when ev \<le> now" "te_count ev < 0" | "te_when ev \<le> now" "te_count ev = 1"
    | "te_when ev \<le> now" "te_count ev > 1" | "\<not> te_when ev \<le> now" "te_count ev \<noteq> 0" by linarith
  then show ?case
    by cases (simp_all add: Cons.IH Let_def due_def after_pass_def last_firing_def CanFire_def CannotFire_def
        FireForever_def Consume_def)
qed simp

lemma tev_inv_new: "tev_inv TimeEventHolder"
  by (simp add: tev_inv_def TimeEventHolder_def)

lemma tev_inv_create:
  "tev_inv h \<Longrightarrow> cnt \<noteq> 0 \<Longrightarrow> tev_inv (fst (CreateTimeEvent now h interval cb cnt))"
  by (force simp: tev_inv_def CreateTimeEvent_def TimeEvent_new_def Let_def CanFire_def)

lemma tev_inv_update: "tev_inv h \<Longrightarrow> cnt \<noteq> 0 \<Longrightarrow> tev_inv (fst (UpdateTimeEvent now h i interval cnt))"
  by (auto simp: tev_inv_def UpdateTimeEvent_def update_event_found CanFire_def comp_def if_distrib cong: map_cong if_cong)

lemma tev_inv_remove: "tev_inv h \<Longrightarrow> tev_inv (fst (RemoveTimeEvent h i))"
  by (auto simp: tev_inv_def RemoveTimeEvent_def remove_event_found distinct_map_filter)

lemma te_id_after_pass [simp]: "te_id (after_pass now later ev) = te_id ev"
  by (simp add: after_pass_def Consume_def Let_def)

lemma CanFire_after_pass: "\<not> last_firing now ev \<Longrightarrow> CanFire (after_pass now later ev)"
  by (auto simp: after_pass_def last_firing_def due_def CanFire_def CannotFire_def FireForever_def Consume_def Let_def)

lemma tev_inv_handle: "tev_inv h \<Longrightarrow> tev_inv (fst (HandleFiredTimeEvent now later h))"
  by (auto simp: tev_inv_def HandleFiredTimeEvent_def fire_events_eq comp_def distinct_map_filter CanFire_after_pass)

section \<open>Properties\<close>

text \<open>
  One pass over the timers runs the callback of exactly the events that are due and may
  still fire, each once and in list order, and returns their number. Of the events, those that
  fired for the last time (and those that cannot fire) are removed; a due event with firings left
  or unlimited firings is rescheduled one interval after the reading of the clock; the others
  are unchanged. Identifiers stay unique and no event that cannot fire remains.
\<close>

theorem handle_fired_exact:
  assumes "tev_inv h" "HandleFiredTimeEvent now later h = (h', fired, n)"
  shows "fired = map te_callback (filter (due now) (event_list h)) \<and> n = int (length fired) \<and>
    event_list h' = map (after_pass now later) (filter (\<lambda>ev. \<not> last_firing now ev) (event_list h)) \<and>
    tev_inv h'"
  using tev_inv_handle [OF assms(1), of now later] assms(2)
  by (auto simp: HandleFiredTimeEvent_def fire_events_eq)

theorem handle_fired_exact_witness:
  "\<exists>h' n. HandleFiredTimeEvent 100 (\<lambda>ev. 101) (fst (CreateTimeEvent 40 TimeEventHolder 50 ''del k'' 1)) = (h', [''del k''], n) \<and>
     event_list h' = [] \<and> n = 1"
proof -
  let ?h = "fst (CreateTimeEvent 40 TimeEventHolder 50 ''del k'' 1)"
  obtain h' fired n where r: "HandleFiredTimeEvent 100 (\<lambda>ev. 101) ?h = (h', fired, n)" using prod_cases3 by blast
  have e: "event_list ?h = [TimeEvent_new 40 1 50 ''del k'' 1]" by (simp add: CreateTimeEvent_def TimeEventHolder_def Let_def)
  have "tev_inv ?h" by (rule tev_inv_create [OF tev_inv_new]) simp
  from handle_fired_exact [OF this r] show ?thesis
    using r unfolding e by (auto simp: due_def last_firing_def TimeEvent_new_def CanFire_def)
qed

lemma overdue_wraps:
  assumes "0 < d" "d \<le> (9223372036854775808 :: u64)"
  shows "9223372036854775807 \<le> - d"
proof -
  have "unat (0 - d) = 2 ^ 64 - unat d"
    using assms(1) unsigned_less [of d, where ?'a = nat] by (subst unat_sub_if_size) (auto simp: word_size word_less_nat_alt)
  then show ?thesis using assms by (simp add: word_le_nat_alt)
qed

text \<open>
  The waiting time handed to \<open>epoll_wait\<close>. The time left to an event is a wrapping
  difference: it is seen when it is below \<open>INT64_MAX\<close>, which an event overdue by up to \<open>2^63\<close>
  milliseconds is not. If an event that can fire is seen, the waiting time is the smallest time
  left of such an event, and no event that can fire has less left; otherwise it is 50
  milliseconds, also when all that can fire is overdue.
\<close>

theorem wait_until_next_event:
  "(if \<exists>ev \<in> set (event_list h). CanFire ev \<and> te_when ev - now < word_of_int INT64_MAX
    then \<exists>ev \<in> set (event_list h). CanFire ev \<and> HowLongTillNextFired now h = te_when ev - now \<and>
           (\<forall>e \<in> set (event_list h). CanFire e \<longrightarrow> HowLongTillNextFired now h \<le> te_when e - now)
    else HowLongTillNextFired now h = 50) \<and>
   (\<forall>w. 0 < now - w \<and> now - w \<le> 2 ^ 63 \<longrightarrow> \<not> w - now < word_of_int INT64_MAX)"
proof
  show "\<forall>w. 0 < now - w \<and> now - w \<le> 2 ^ 63 \<longrightarrow> \<not> w - now < word_of_int INT64_MAX"
  proof (intro allI impI)
    fix w
    assume "0 < now - w \<and> now - w \<le> 2 ^ 63"
    then have "9223372036854775807 \<le> - (now - w)" by (intro overdue_wraps) simp_all
    then show "\<not> w - now < word_of_int INT64_MAX" by (simp add: not_less)
  qed
  show "if \<exists>ev \<in> set (event_list h). CanFire ev \<and> te_when ev - now < word_of_int INT64_MAX
    then \<exists>ev \<in> set (event_list h). CanFire ev \<and> HowLongTillNextFired now h = te_when ev - now \<and>
           (\<forall>e \<in> set (event_list h). CanFire e \<longrightarrow> HowLongTillNextFired now h \<le> te_when e - now)
    else HowLongTillNextFired now h = 50"
  proof (cases "FindNearestTimeEvent h now")
    case None
    then have "\<not> (\<exists>ev \<in> set (event_list h). CanFire ev \<and> te_when ev - now < word_of_int INT64_MAX)"
      using nearest_loop_spec(1) [of now "event_list h"] by (auto simp: FindNearestTimeEvent_def not_less)
    then show ?thesis using None by (simp only: HowLongTillNextFired_def if_False option.case)
  next
    case (Some ev)
    then have "ev \<in> set (event_list h)" "CanFire ev" "te_when ev - now < word_of_int INT64_MAX"
      "\<forall>e \<in> set (event_list h). CanFire e \<longrightarrow> te_when ev - now \<le> te_when e - now"
      using nearest_loop_spec(2) [of now "event_list h" "word_of_int INT64_MAX" None ev]
      by (auto simp: FindNearestTimeEvent_def)
    then show ?thesis using Some by (auto simp: HowLongTillNextFired_def)
  qed
qed

theorem wait_until_next_event_witness:
  "HowLongTillNextFired 60 (fst (CreateTimeEvent 40 TimeEventHolder 50 ''del k'' 1)) = 30 \<and>
   HowLongTillNextFired 91 (fst (CreateTimeEvent 40 TimeEventHolder 50 ''del k'' 1)) = 50"
proof -
  let ?h = "fst (CreateTimeEvent 40 TimeEventHolder 50 ''del k'' 1)"
  have e: "event_list ?h = [TimeEvent_new 40 1 50 ''del k'' 1]" by (simp add: CreateTimeEvent_def TimeEventHolder_def Let_def)
  show ?thesis
    using conjunct1 [OF wait_until_next_event, of ?h 60] conjunct1 [OF wait_until_next_event, of ?h 91] unfolding e
    by (simp add: TimeEvent_new_def CanFire_def)
qed

end
