(* ===== verification/Commands.thy ===== *)
theory Commands
  imports Core Protocol TimeEvent
begin

text \<open>
  \<open>src/src/net/commands.h\<close>, \<open>src/src/net/commands.cpp\<close>: the command handlers, the command table and
  \<open>Engine::HandleCommand\<close>, with the parts of \<open>src/src/net/server.cpp\<close> and
  \<open>src/src/net/net.h\<close> the publish/subscribe commands use.

  A handler maps the context of the call, the state of the server and the arguments (the opcode
  first) to the new state and the reply. The state holds the container, the map \<open>sExpiresMap\<close> of
  \<open>commands.cpp\<close> (a pointer to a time event is its identifier), the timers (a callback is the key it
  deletes), the commands handed to \<open>AppendableFile::Append\<close> (\<open>None\<close> when there is no file),
  the state of the random engine, and the sessions with their subscriptions. The context holds
  the flag \<open>sync\<close>, the clock (milliseconds and seconds, one reading of each per command, and
  the readings of the eviction loop), the random generator, the eviction policy, whether memory
  is short (\<open>IfNeedKeyEviction\<close>), whether \<open>LiteKVBackgroundSave\<close> succeeds, the number of bytes a
  write to a socket accepts, and the iteration order of an unordered set of channels. The value of a
  handler is \<open>None\<close> when the readings do not suffice for the eviction loop, and \<open>Inl\<close> for an
  access outside the list structure or to a freed object.
\<close>

section \<open>State and context\<close>

record session =
  sess_fd :: int
  sess_modes :: u32
  sess_channels :: "string list"

record 'g db =
  db_kv :: kvcontainer
  db_expires :: "string \<Rightarrow> int option"
  db_timers :: "string tev_holder"
  db_log :: "string list list option"
  db_rng :: 'g
  db_sessions :: "string \<Rightarrow> session option"
  db_subs :: "string \<Rightarrow> (string \<times> int) list option"

record 'g ctx =
  c_sync :: bool
  c_now :: u64
  c_sec :: u64
  c_readings :: "u64 list"
  c_rand :: "'g rand"
  c_policy :: int
  c_evict :: bool
  c_bgsave :: bool
  c_write :: "int \<Rightarrow> string \<Rightarrow> nat"
  c_order :: "string list \<Rightarrow> string list"
  c_session :: string

type_synonym 'g reply = "(dl_error + 'g db \<times> string) option"

definition answer :: "'g db \<Rightarrow> string \<Rightarrow> 'g reply" where
  "answer db msg = Some (Inr (db, msg))"

definition AddIntoAppendableDirectly :: "'g ctx \<Rightarrow> string list \<Rightarrow> 'g db \<Rightarrow> 'g db" where
  "AddIntoAppendableDirectly c cmd db =
     (if c_sync c then db\<lparr>db_log := map_option (\<lambda>l. l @ [cmd]) (db_log db)\<rparr> else db)"

section \<open>Replies\<close>

abbreviation (input) kInt1Msg :: string where "kInt1Msg \<equiv> '':1'' @ CRLF"
abbreviation (input) kInt0Msg :: string where "kInt0Msg \<equiv> '':0'' @ CRLF"
abbreviation (input) kIntMinus2Msg :: string where "kIntMinus2Msg \<equiv> '':-2'' @ CRLF"
abbreviation (input) kIntMinus1Msg :: string where "kIntMinus1Msg \<equiv> '':-1'' @ CRLF"
abbreviation (input) kNilMsg :: string where "kNilMsg \<equiv> ''$-1'' @ CRLF"
abbreviation (input) kOkMsg :: string where "kOkMsg \<equiv> ''+OK'' @ CRLF"
abbreviation (input) kPONGMsg :: string where "kPONGMsg \<equiv> ''+PONG'' @ CRLF"
abbreviation (input) kArrayEmptyMsg :: string where "kArrayEmptyMsg \<equiv> ''*0'' @ CRLF"
abbreviation (input) kNotOkMsg :: string where "kNotOkMsg \<equiv> ''-ERROR failed'' @ CRLF"
abbreviation (input) kNoSuchKeyMsg :: string where "kNoSuchKeyMsg \<equiv> ''-ERROR no such key'' @ CRLF"
abbreviation (input) kWrongTypeMsg :: string where "kWrongTypeMsg \<equiv> ''-WRONGTYPE operation to a key holding wrong type of value'' @ CRLF"
abbreviation (input) kOutOfRangeMsg :: string where "kOutOfRangeMsg \<equiv> ''-ERROR index out of range'' @ CRLF"
abbreviation (input) kInvalidOpCodeMsg :: string where "kInvalidOpCodeMsg \<equiv> ''-ERROR unsupported command'' @ CRLF"
abbreviation (input) kInvalidIntegerMsg :: string where "kInvalidIntegerMsg \<equiv> ''-ERROR index or value is not an integer'' @ CRLF"
abbreviation (input) kInt64OverflowMsg :: string where "kInt64OverflowMsg \<equiv> ''-ERROR integer overflow'' @ CRLF"
abbreviation (input) kNotSupportedYetMsg :: string where "kNotSupportedYetMsg \<equiv> ''-ERROR command not supported yet'' @ CRLF"

definition CheckSyntax :: "string list \<Rightarrow> int \<Rightarrow> int \<Rightarrow> bool \<Rightarrow> bool" where
  "CheckSyntax args n_key_required n_operands_required even_args =
     (let len = length args
      in if even_args \<and> odd len then False
         else if n_key_required = 0 then len = 1
         else if n_key_required = 1
         then (if n_operands_required = - 1 then len \<ge> 3 else int len = n_operands_required + 2)
         else if n_key_required = - 1 then len \<ge> 2
         else if n_key_required = - 2 then len \<ge> 1
         else False)"

definition PackErrMsg :: "string \<Rightarrow> string \<Rightarrow> string" where
  "PackErrMsg et msg = ''-'' @ et @ '' '' @ msg @ CRLF"

definition syntax_error :: "string \<Rightarrow> string" where
  "syntax_error name =
     PackErrMsg ''ERROR'' (''incorrect number of arguments for '' @ [CHR 0x27] @ name @ [CHR 0x27] @ '' command'')"

definition PackIntReply :: "int \<Rightarrow> string" where
  "PackIntReply v = '':'' @ std_to_string v @ CRLF"

definition PackBoolReply :: "bool \<Rightarrow> string" where
  "PackBoolReply yes = (if yes then kInt1Msg else kInt0Msg)"

definition PackStringValueReply :: "string \<Rightarrow> string" where
  "PackStringValueReply v = ''$'' @ std_to_string (int (length v)) @ CRLF @ v @ CRLF"

text \<open>
  A \<open>DynamicString\<close> written to a stream prints its buffer as a C string, after its full length.
\<close>

definition PackDynaValue :: "string option \<Rightarrow> string" where
  "PackDynaValue v =
     (case v of
        None \<Rightarrow> kNilMsg
      | Some s \<Rightarrow> ''$'' @ std_to_string (int (length s)) @ CRLF @ c_str s @ CRLF)"

definition PackStringMsgReply :: "string \<Rightarrow> string" where
  "PackStringMsgReply msg = ''+'' @ msg @ CRLF"

definition PackArrayMsg :: "string option list \<Rightarrow> string" where
  "PackArrayMsg arr = ''*'' @ std_to_string (int (length arr)) @ CRLF @ concat (map PackDynaValue arr)"

definition PackEmptyArrayMsg :: "nat \<Rightarrow> string" where
  "PackEmptyArrayMsg n = ''*'' @ std_to_string (int n) @ CRLF @ concat (replicate n kNilMsg)"

definition PackIntArrayMsg :: "int list \<Rightarrow> string" where
  "PackIntArrayMsg arr = ''*'' @ std_to_string (int (length arr)) @ CRLF @ concat (map PackIntReply arr)"

section \<open>Generic commands\<close>

definition OverviewCommand :: "'g ctx \<Rightarrow> 'g db \<Rightarrow> string list \<Rightarrow> 'g reply" where
  "OverviewCommand c db args =
     (if \<not> CheckSyntax args 0 0 False then answer db (syntax_error ''overview'')
      else answer db (PackArrayMsg (map Some (Overview (db_kv db)))))"

definition NumItemsCommand :: "'g ctx \<Rightarrow> 'g db \<Rightarrow> string list \<Rightarrow> 'g reply" where
  "NumItemsCommand c db args =
     (if \<not> CheckSyntax args 0 0 False then answer db (syntax_error ''total'')
      else answer db (PackIntReply (int (NumItems (db_kv db)))))"

definition PingCommand :: "'g ctx \<Rightarrow> 'g db \<Rightarrow> string list \<Rightarrow> 'g reply" where
  "PingCommand c db args =
     (if \<not> CheckSyntax args 0 0 False then answer db (syntax_error ''ping'') else answer db kPONGMsg)"

definition EvictCommand :: "'g ctx \<Rightarrow> 'g db \<Rightarrow> string list \<Rightarrow> 'g reply" where
  "EvictCommand c db args =
     (if \<not> CheckSyntax args 1 0 False then answer db (syntax_error ''evict'')
      else case CanConvertToUInt64 (args ! 1) of
             None \<Rightarrow> answer db kInvalidIntegerMsg
           | Some n \<Rightarrow>
               (case KeyEviction (c_rand c) (c_now c) (c_readings c) (db_rng db) (db_kv db) (c_policy c) (unat n) of
                  None \<Rightarrow> None
                | Some (Inl e) \<Rightarrow> Some (Inl e)
                | Some (Inr (s, ans, g)) \<Rightarrow>
                    let db1 = db\<lparr>db_kv := s, db_rng := g\<rparr>
                    in if c_sync c \<and> db_log db \<noteq> None
                       then let ans1 = ''del'' # ans
                            in answer (AddIntoAppendableDirectly c ans1 db1) (PackIntReply (int (length ans1) - 1))
                       else answer db1 (PackIntReply (int (length ans) - 1))))"

definition DelCommand :: "'g ctx \<Rightarrow> 'g db \<Rightarrow> string list \<Rightarrow> 'g reply" where
  "DelCommand c db args =
     (if \<not> CheckSyntax args (- 1) 0 False then answer db (syntax_error ''del'')
      else case Delete_keys (db_kv db) (drop 1 args) of (s, n) \<Rightarrow>
             answer (AddIntoAppendableDirectly c args (db\<lparr>db_kv := s\<rparr>)) (PackIntReply n))"

definition ExistsCommand :: "'g ctx \<Rightarrow> 'g db \<Rightarrow> string list \<Rightarrow> 'g reply" where
  "ExistsCommand c db args =
     (if \<not> CheckSyntax args (- 1) 0 False then answer db (syntax_error ''exists'')
      else answer db (PackIntReply (KeyExists_keys (db_kv db) (drop 1 args))))"

definition TypeCommand :: "'g ctx \<Rightarrow> 'g db \<Rightarrow> string list \<Rightarrow> 'g reply" where
  "TypeCommand c db args =
     (if \<not> CheckSyntax args 1 0 False then answer db (syntax_error ''type'')
      else let obj_type = QueryObjectType (db_kv db) (Key (args ! 1))
           in answer db (PackStringMsgReply
                (if obj_type = OBJECT_INT then ''int''
                 else if obj_type = OBJECT_STRING then ''string''
                 else if obj_type = OBJECT_LIST then ''list''
                 else if obj_type = OBJECT_HASH then ''hash''
                 else ''none'')))"

subsection \<open>Expiration\<close>

definition log_expire :: "'g ctx \<Rightarrow> 'g db \<Rightarrow> string list \<Rightarrow> int \<Rightarrow> 'g reply" where
  "log_expire c db args interval =
     (if c_sync c \<and> db_log db \<noteq> None
      then if interval \<ge> 0
           then let cmd = args[0 := ''expireat'', 2 := std_to_string (uint (c_sec c + word_of_int interval))]
                in answer (AddIntoAppendableDirectly c cmd db) kInt1Msg
           else case RecoverCommandFromValue (db_kv db) (args ! 1) of
                  Inl e \<Rightarrow> Some (Inl e)
                | Inr (recovered_cmd, errcode) \<Rightarrow>
                    if errcode = kOkCode \<and> recovered_cmd \<noteq> []
                    then answer (AddIntoAppendableDirectly c recovered_cmd db) kInt1Msg
                    else answer db kInt1Msg
      else answer db kInt1Msg)"

definition ExpireCommand :: "'g ctx \<Rightarrow> 'g db \<Rightarrow> string list \<Rightarrow> 'g reply" where
  "ExpireCommand c db args =
     (if \<not> CheckSyntax args 1 1 False then answer db (syntax_error ''expire'')
      else let key = args ! 1
      in if \<not> KeyExists (db_kv db) (Key key) then answer db kInt0Msg
      else case CanConvertToInt64 (args ! 2) of
        None \<Rightarrow> answer db kInvalidIntegerMsg
      | Some interval \<Rightarrow>
        (case db_expires db key of
           None \<Rightarrow>
             if interval > 0
             then (case CreateTimeEvent (c_now c) (db_timers db) (word_of_int interval * 1000) key 1 of
                     (h, ev) \<Rightarrow>
                       log_expire c (db\<lparr>db_timers := h, db_expires := (db_expires db)(key \<mapsto> te_id ev)\<rparr>) args interval)
             else if interval = 0
             then log_expire c (db\<lparr>db_kv := fst (Delete (db_kv db) (Key key))\<rparr>) args interval
             else log_expire c db args interval
         | Some ev_id \<Rightarrow>
             if interval \<ge> 0
             then (case UpdateTimeEvent (c_now c) (db_timers db) ev_id (word_of_int interval * 1000) 1 of
                     (h, True) \<Rightarrow> log_expire c (db\<lparr>db_timers := h\<rparr>) args interval
                   | (h, False) \<Rightarrow> answer db kInt0Msg)
             else (case RemoveTimeEvent (db_timers db) ev_id of
                     (h, True) \<Rightarrow>
                       log_expire c (db\<lparr>db_timers := h, db_expires := (db_expires db)(key := None)\<rparr>) args interval
                   | (h, False) \<Rightarrow> answer db kInt0Msg)))"

definition ExpireAtCommand :: "'g ctx \<Rightarrow> 'g db \<Rightarrow> string list \<Rightarrow> 'g reply" where
  "ExpireAtCommand c db args =
     (if \<not> CheckSyntax args 1 1 False then answer db (syntax_error ''expireat'')
      else case CanConvertToInt64 (args ! 2) of
             None \<Rightarrow> answer db kInvalidIntegerMsg
           | Some unix_sec \<Rightarrow>
               let interval = max (wrap64 (unix_sec - sint (c_sec c))) 0
               in ExpireCommand c db (args[2 := std_to_string interval]))"

definition TTLCommand :: "'g ctx \<Rightarrow> 'g db \<Rightarrow> string list \<Rightarrow> 'g reply" where
  "TTLCommand c db args =
     (if \<not> CheckSyntax args 1 0 False then answer db (syntax_error ''ttl'')
      else let key = args ! 1
      in if \<not> KeyExists (db_kv db) (Key key) then answer db kIntMinus2Msg
      else case db_expires db key of
             None \<Rightarrow> answer db kIntMinus1Msg
           | Some ev_id \<Rightarrow>
               (case List.find (\<lambda>ev. te_id ev = ev_id) (event_list (db_timers db)) of
                  None \<Rightarrow> Some (Inl UseAfterFree)
                | Some ev \<Rightarrow> answer db (PackIntReply (uint ((te_when ev - c_now c) div 1000)))))"

text \<open>
  What the event loop runs when timers fire: the callbacks of \<open>ExpireCommand\<close>, in order.
\<close>

definition expire_key :: "string \<Rightarrow> 'g db \<Rightarrow> 'g db" where
  "expire_key key db =
     db\<lparr>db_kv := fst (Delete (db_kv db) (Key key)), db_expires := (db_expires db)(key := None)\<rparr>"

definition fire_timers :: "u64 \<Rightarrow> (string time_event \<Rightarrow> u64) \<Rightarrow> 'g db \<Rightarrow> 'g db" where
  "fire_timers now later db =
     (case HandleFiredTimeEvent now later (db_timers db) of (h, fired, n) \<Rightarrow>
        fold expire_key fired (db\<lparr>db_timers := h\<rparr>))"

section \<open>Integer and string commands\<close>

definition SetCommand :: "'g ctx \<Rightarrow> 'g db \<Rightarrow> string list \<Rightarrow> 'g reply" where
  "SetCommand c db args =
     (if \<not> CheckSyntax args 1 1 False then answer db (syntax_error ''set'')
      else let key = args ! 1; val = args ! 2;
               (s, res) = (case CanConvertToInt64 val of
                             Some i \<Rightarrow> SetInt (c_now c) (db_kv db) (Key key) i
                           | None \<Rightarrow> SetString (c_now c) (db_kv db) (Key key) val);
               db1 = db\<lparr>db_kv := s\<rparr>
           in if res then answer (AddIntoAppendableDirectly c args db1) kOkMsg else answer db1 kNotOkMsg)"

definition GetCommand :: "'g ctx \<Rightarrow> 'g db \<Rightarrow> string list \<Rightarrow> 'g reply" where
  "GetCommand c db args =
     (if \<not> CheckSyntax args 1 0 False then answer db (syntax_error ''get'')
      else case Get (c_now c) (db_kv db) (Key (args ! 1)) of (s, val, errcode) \<Rightarrow>
             let db1 = db\<lparr>db_kv := s\<rparr>
             in if errcode = kOkCode
                then (case val of
                        None \<Rightarrow> Some (Inl NullDeref)
                      | Some obj \<Rightarrow>
                          (case vo_value obj of
                             IntVal i \<Rightarrow> answer db1 (PackStringValueReply (std_to_string i))
                           | _ \<Rightarrow> answer db1 (PackStringValueReply (ValueObject_ToStdString obj))))
                else if errcode = kKeyNotFoundCode then answer db1 kNilMsg
                else if errcode = kWrongTypeCode then answer db1 kWrongTypeMsg
                else answer db1 kNilMsg)"

text \<open>The macros \<open>IncrDecrCommonHelper\<close> and \<open>IncrDecrCommonHelper2\<close>: the part after the call.\<close>

definition incr_reply :: "'g ctx \<Rightarrow> 'g db \<Rightarrow> string list \<Rightarrow> kvcontainer \<times> int \<times> int \<Rightarrow> 'g reply" where
  "incr_reply c db args r =
     (case r of (s, ans, errcode) \<Rightarrow>
        let db1 = db\<lparr>db_kv := s\<rparr>
        in if errcode = kOkCode then answer (AddIntoAppendableDirectly c args db1) (PackIntReply ans)
           else if errcode = kWrongTypeCode then answer db1 kWrongTypeMsg
           else if errcode = kOverflowCode then answer db1 kInt64OverflowMsg
           else answer db1 kNotOkMsg)"

definition IncrCommand :: "'g ctx \<Rightarrow> 'g db \<Rightarrow> string list \<Rightarrow> 'g reply" where
  "IncrCommand c db args =
     (if \<not> CheckSyntax args 1 0 False then answer db (syntax_error ''incr'')
      else incr_reply c db args (IncrInt (c_now c) (db_kv db) (Key (args ! 1))))"

definition DecrCommand :: "'g ctx \<Rightarrow> 'g db \<Rightarrow> string list \<Rightarrow> 'g reply" where
  "DecrCommand c db args =
     (if \<not> CheckSyntax args 1 0 False then answer db (syntax_error ''decr'')
      else incr_reply c db args (DecrInt (c_now c) (db_kv db) (Key (args ! 1))))"

definition IncrByCommand :: "'g ctx \<Rightarrow> 'g db \<Rightarrow> string list \<Rightarrow> 'g reply" where
  "IncrByCommand c db args =
     (if \<not> CheckSyntax args 1 1 False then answer db (syntax_error ''incrby'')
      else case CanConvertToInt64 (args ! 2) of
             None \<Rightarrow> answer db kInvalidIntegerMsg
           | Some num \<Rightarrow>
               if num < 0 then answer db kInvalidIntegerMsg
               else incr_reply c db args (IncrIntBy (c_now c) (db_kv db) (Key (args ! 1)) num))"

definition DecrByCommand :: "'g ctx \<Rightarrow> 'g db \<Rightarrow> string list \<Rightarrow> 'g reply" where
  "DecrByCommand c db args =
     (if \<not> CheckSyntax args 1 1 False then answer db (syntax_error ''decrby'')
      else case CanConvertToInt64 (args ! 2) of
             None \<Rightarrow> answer db kInvalidIntegerMsg
           | Some num \<Rightarrow>
               if num < 0 then answer db kInvalidIntegerMsg
               else incr_reply c db args (DecrIntBy (c_now c) (db_kv db) (Key (args ! 1)) num))"

definition StrlenCommand :: "'g ctx \<Rightarrow> 'g db \<Rightarrow> string list \<Rightarrow> 'g reply" where
  "StrlenCommand c db args =
     (if \<not> CheckSyntax args 1 0 False then answer db (syntax_error ''strlen'')
      else case StrLen (c_now c) (db_kv db) (Key (args ! 1)) 0 of (s, len, errcode) \<Rightarrow>
             let db1 = db\<lparr>db_kv := s\<rparr>
             in if errcode = kOkCode then answer db1 (PackIntReply (int len))
                else if errcode = kWrongTypeCode then answer db1 kWrongTypeMsg
                else answer db1 (PackIntReply 0))"

definition AppendCommand :: "'g ctx \<Rightarrow> 'g db \<Rightarrow> string list \<Rightarrow> 'g reply" where
  "AppendCommand c db args =
     (if \<not> CheckSyntax args 1 1 False then answer db (syntax_error ''append'')
      else case Append (c_now c) (db_kv db) (Key (args ! 1)) (args ! 2) of (s, after_len, errcode) \<Rightarrow>
             let db1 = db\<lparr>db_kv := s\<rparr>
             in if errcode = kOkCode
                then answer (AddIntoAppendableDirectly c args db1) (PackIntReply (int after_len))
                else if errcode = kKeyNotFoundCode then answer db1 kNilMsg
                else if errcode = kWrongTypeCode then answer db1 kWrongTypeMsg
                else answer db1 kNotOkMsg)"

text \<open>\<open>GetRangeCommand\<close>, \<open>SetRangeCommand\<close>, \<open>LInsertCommand\<close>, \<open>LRemCommand\<close>, \<open>SPopCommand\<close>.\<close>

definition NotSupportedCommand :: "'g ctx \<Rightarrow> 'g db \<Rightarrow> string list \<Rightarrow> 'g reply" where
  "NotSupportedCommand c db args = answer db kNotSupportedYetMsg"

section \<open>List commands\<close>

definition LLenCommand :: "'g ctx \<Rightarrow> 'g db \<Rightarrow> string list \<Rightarrow> 'g reply" where
  "LLenCommand c db args =
     (if \<not> CheckSyntax args 1 0 False then answer db (syntax_error ''llen'')
      else case ListLen (c_now c) (db_kv db) (Key (args ! 1)) of (s, list_len, errcode) \<Rightarrow>
             let db1 = db\<lparr>db_kv := s\<rparr>
             in if errcode = kOkCode then answer db1 (PackIntReply (int list_len))
                else if errcode = kWrongTypeCode then answer db1 kWrongTypeMsg
                else answer db1 (PackIntReply 0))"

text \<open>\<open>ListPopCommandCommon\<close> and \<open>return kNilMsg\<close> after it.\<close>

definition pop_reply :: "'g ctx \<Rightarrow> 'g db \<Rightarrow> string list \<Rightarrow> kvcontainer \<times> string option \<times> int \<Rightarrow> 'g reply" where
  "pop_reply c db args r =
     (case r of (s, popped, errcode) \<Rightarrow>
        let db1 = db\<lparr>db_kv := s\<rparr>
        in if errcode = kOkCode
           then (if contents popped \<noteq> []
                 then answer (AddIntoAppendableDirectly c args db1) (PackStringValueReply (contents popped))
                 else answer db1 kNilMsg)
           else if errcode = kWrongTypeCode then answer db1 kWrongTypeMsg
           else answer db1 kNilMsg)"

definition LPopCommand :: "'g ctx \<Rightarrow> 'g db \<Rightarrow> string list \<Rightarrow> 'g reply" where
  "LPopCommand c db args =
     (if \<not> CheckSyntax args 1 0 False then answer db (syntax_error ''lpop'')
      else pop_reply c db args (LeftPop (c_now c) (db_kv db) (Key (args ! 1))))"

definition RPopCommand :: "'g ctx \<Rightarrow> 'g db \<Rightarrow> string list \<Rightarrow> 'g reply" where
  "RPopCommand c db args =
     (if \<not> CheckSyntax args 1 0 False then answer db (syntax_error ''rpop'')
      else pop_reply c db args (RightPop (c_now c) (db_kv db) (Key (args ! 1))))"

text \<open>\<open>ListPushCommandCommon\<close> and \<open>return kNotOkMsg\<close> after it.\<close>

definition push_reply :: "'g ctx \<Rightarrow> 'g db \<Rightarrow> string list \<Rightarrow> kvcontainer \<times> nat \<times> int \<Rightarrow> 'g reply" where
  "push_reply c db args r =
     (case r of (s, list_len, errcode) \<Rightarrow>
        let db1 = db\<lparr>db_kv := s\<rparr>
        in if errcode = kOkCode then answer (AddIntoAppendableDirectly c args db1) (PackIntReply (int list_len))
           else if errcode = kWrongTypeCode then answer db1 kWrongTypeMsg
           else answer db1 kNotOkMsg)"

definition LPushCommand :: "'g ctx \<Rightarrow> 'g db \<Rightarrow> string list \<Rightarrow> 'g reply" where
  "LPushCommand c db args =
     (if \<not> CheckSyntax args 1 (- 1) False then answer db (syntax_error ''lpush'')
      else push_reply c db args (LeftPush_values (c_now c) (db_kv db) (args ! 1) (drop 2 args)))"

definition RPushCommand :: "'g ctx \<Rightarrow> 'g db \<Rightarrow> string list \<Rightarrow> 'g reply" where
  "RPushCommand c db args =
     (if \<not> CheckSyntax args 1 (- 1) False then answer db (syntax_error ''rpush'')
      else push_reply c db args (RightPush_values (c_now c) (db_kv db) (args ! 1) (drop 2 args)))"

definition LRangeCommand :: "'g ctx \<Rightarrow> 'g db \<Rightarrow> string list \<Rightarrow> 'g reply" where
  "LRangeCommand c db args =
     (if \<not> CheckSyntax args 1 2 False then answer db (syntax_error ''lrange'')
      else case (CanConvertToInt32 (args ! 2), CanConvertToInt32 (args ! 3)) of
             (Some begin_idx, Some end_idx) \<Rightarrow>
               (case ListRange (c_now c) (db_kv db) (Key (args ! 1)) begin_idx end_idx of
                  Inl e \<Rightarrow> Some (Inl e)
                | Inr (s, ranges, errcode) \<Rightarrow>
                    let db1 = db\<lparr>db_kv := s\<rparr>
                    in if errcode = kOkCode
                       then (if ranges \<noteq> [] then answer db1 (PackArrayMsg ranges) else answer db1 kArrayEmptyMsg)
                       else if errcode = kWrongTypeCode then answer db1 kWrongTypeMsg
                       else answer db1 kArrayEmptyMsg)
           | _ \<Rightarrow> answer db kInvalidIntegerMsg)"

definition LSetCommand :: "'g ctx \<Rightarrow> 'g db \<Rightarrow> string list \<Rightarrow> 'g reply" where
  "LSetCommand c db args =
     (if \<not> CheckSyntax args 1 2 False then answer db (syntax_error ''lsetindex'')
      else case CanConvertToInt32 (args ! 2) of
             None \<Rightarrow> answer db kInvalidIntegerMsg
           | Some idx \<Rightarrow>
               (case ListSetItemAtIndex (c_now c) (db_kv db) (Key (args ! 1)) idx (args ! 3) of
                  Inl e \<Rightarrow> Some (Inl e)
                | Inr (s, done, errcode) \<Rightarrow>
                    let db1 = db\<lparr>db_kv := s\<rparr>
                    in if errcode = kOkCode then answer (AddIntoAppendableDirectly c args db1) kOkMsg
                       else if errcode = kWrongTypeCode then answer db1 kWrongTypeMsg
                       else if errcode = kOutOfRangeCode then answer db1 kOutOfRangeMsg
                       else if errcode = kKeyNotFoundCode then answer db1 kNoSuchKeyMsg
                       else answer db1 kNotOkMsg))"

definition LIndexCommand :: "'g ctx \<Rightarrow> 'g db \<Rightarrow> string list \<Rightarrow> 'g reply" where
  "LIndexCommand c db args =
     (if \<not> CheckSyntax args 1 1 False then answer db (syntax_error ''lindex'')
      else case CanConvertToInt32 (args ! 2) of
             None \<Rightarrow> answer db kInvalidIntegerMsg
           | Some idx \<Rightarrow>
               (case ListItemAtIndex (c_now c) (db_kv db) (Key (args ! 1)) idx of
                  Inl e \<Rightarrow> Some (Inl e)
                | Inr (s, item, errcode) \<Rightarrow>
                    let db1 = db\<lparr>db_kv := s\<rparr>
                    in if errcode = kOkCode then answer db1 (PackStringValueReply (contents item))
                       else if errcode = kWrongTypeCode then answer db1 kWrongTypeMsg
                       else answer db1 kNilMsg))"

section \<open>Hash commands\<close>

text \<open>The loop that separates fields and values.\<close>

fun split_pairs :: "string list \<Rightarrow> string list \<times> string list" where
  "split_pairs (f # v # rest) = (case split_pairs rest of (fs, vs) \<Rightarrow> (f # fs, v # vs))"
| "split_pairs _ = ([], [])"

definition HSetCommand :: "'g ctx \<Rightarrow> 'g db \<Rightarrow> string list \<Rightarrow> 'g reply" where
  "HSetCommand c db args =
     (if \<not> CheckSyntax args 1 (- 1) True then answer db (syntax_error ''hset'')
      else let (fs, vs) = split_pairs (drop 2 args)
           in case HashUpdateKV_fields (c_now c) (db_kv db) (Key (args ! 1)) fs vs of (s, cnt, errcode) \<Rightarrow>
                let db1 = db\<lparr>db_kv := s\<rparr>
                in if errcode = kOkCode \<and> cnt \<noteq> 0 then answer (AddIntoAppendableDirectly c args db1) kOkMsg
                   else if errcode = kWrongTypeCode then answer db1 kWrongTypeMsg
                   else answer db1 kNotOkMsg)"

definition HGetCommand :: "'g ctx \<Rightarrow> 'g db \<Rightarrow> string list \<Rightarrow> 'g reply" where
  "HGetCommand c db args =
     (if \<not> CheckSyntax args 1 (- 1) False then answer db (syntax_error ''hget'')
      else if length args = 3
      then case HashGetValue (c_now c) (db_kv db) (Key (args ! 1)) (args ! 2) of (s, val, errcode) \<Rightarrow>
             let db1 = db\<lparr>db_kv := s\<rparr>
             in if errcode = kOkCode then answer db1 (PackStringValueReply (contents val))
                else if errcode = kKeyNotFoundCode then answer db1 kNilMsg
                else if errcode = kWrongTypeCode then answer db1 kWrongTypeMsg
                else answer db1 kArrayEmptyMsg
      else case HashGetValue_fields (c_now c) (db_kv db) (Key (args ! 1)) (drop 2 args) of (s, vals, errcode) \<Rightarrow>
             let db1 = db\<lparr>db_kv := s\<rparr>
             in if vals \<noteq> [] then answer db1 (PackArrayMsg vals)
                else answer db1 (PackEmptyArrayMsg (length (drop 2 args))))"

definition HDelCommand :: "'g ctx \<Rightarrow> 'g db \<Rightarrow> string list \<Rightarrow> 'g reply" where
  "HDelCommand c db args =
     (if \<not> CheckSyntax args 1 (- 1) False then answer db (syntax_error ''hdel'')
      else case HashDelField_fields (c_now c) (db_kv db) (Key (args ! 1)) (drop 2 args) of (s, n_deleted, errcode) \<Rightarrow>
             let db1 = db\<lparr>db_kv := s\<rparr>
             in if errcode = kWrongTypeCode then answer db1 kWrongTypeMsg
                else answer (AddIntoAppendableDirectly c args db1) (PackIntReply n_deleted))"

definition HExistsCommand :: "'g ctx \<Rightarrow> 'g db \<Rightarrow> string list \<Rightarrow> 'g reply" where
  "HExistsCommand c db args =
     (if \<not> CheckSyntax args 1 1 False then answer db (syntax_error ''hexists'')
      else case HashExistField (c_now c) (db_kv db) (Key (args ! 1)) (args ! 2) of (s, ans, errcode) \<Rightarrow>
             let db1 = db\<lparr>db_kv := s\<rparr>
             in if errcode = kWrongTypeCode then answer db1 kWrongTypeMsg else answer db1 (PackBoolReply ans))"

text \<open>\<open>HKeysValsEntriesCommon\<close>.\<close>

definition entries_reply :: "'g db \<Rightarrow> kvcontainer \<times> string list \<times> int \<Rightarrow> 'g reply" where
  "entries_reply db r =
     (case r of (s, keys, errcode) \<Rightarrow>
        let db1 = db\<lparr>db_kv := s\<rparr>
        in if errcode = kWrongTypeCode then answer db1 kWrongTypeMsg
           else if keys \<noteq> [] then answer db1 (PackArrayMsg (map Some keys))
           else answer db1 kArrayEmptyMsg)"

definition HGetAllCommand :: "'g ctx \<Rightarrow> 'g db \<Rightarrow> string list \<Rightarrow> 'g reply" where
  "HGetAllCommand c db args =
     (if \<not> CheckSyntax args 1 0 False then answer db (syntax_error ''hgetall'')
      else entries_reply db (HashGetAllEntries (c_now c) (db_kv db) (Key (args ! 1))))"

definition HKeysCommand :: "'g ctx \<Rightarrow> 'g db \<Rightarrow> string list \<Rightarrow> 'g reply" where
  "HKeysCommand c db args =
     (if \<not> CheckSyntax args 1 0 False then answer db (syntax_error ''hkeys'')
      else entries_reply db (HashGetAllFields (c_now c) (db_kv db) (Key (args ! 1))))"

definition HValsCommand :: "'g ctx \<Rightarrow> 'g db \<Rightarrow> string list \<Rightarrow> 'g reply" where
  "HValsCommand c db args =
     (if \<not> CheckSyntax args 1 0 False then answer db (syntax_error ''hvals'')
      else entries_reply db (HashGetAllValues (c_now c) (db_kv db) (Key (args ! 1))))"

definition HLenCommand :: "'g ctx \<Rightarrow> 'g db \<Rightarrow> string list \<Rightarrow> 'g reply" where
  "HLenCommand c db args =
     (if \<not> CheckSyntax args 1 0 False then answer db (syntax_error ''hlen'')
      else case HashLen (c_now c) (db_kv db) (Key (args ! 1)) of (s, len, errcode) \<Rightarrow>
             let db1 = db\<lparr>db_kv := s\<rparr>
             in if errcode = kWrongTypeCode then answer db1 kWrongTypeMsg else answer db1 (PackIntReply (int len)))"

section \<open>Set commands\<close>

definition SAddCommand :: "'g ctx \<Rightarrow> 'g db \<Rightarrow> string list \<Rightarrow> 'g reply" where
  "SAddCommand c db args =
     (if \<not> CheckSyntax args 1 (- 1) False then answer db (syntax_error ''sadd'')
      else case SetAddItem_members (c_now c) (db_kv db) (Key (args ! 1)) (drop 2 args) of (s, n_added, errcode) \<Rightarrow>
             let db1 = db\<lparr>db_kv := s\<rparr>
             in if errcode = kWrongTypeCode then answer db1 kWrongTypeMsg
                else if errcode = kFailCode then answer db1 (PackIntReply 0)
                else answer (AddIntoAppendableDirectly c args db1) (PackIntReply n_added))"

definition SIsMemberCommand :: "'g ctx \<Rightarrow> 'g db \<Rightarrow> string list \<Rightarrow> 'g reply" where
  "SIsMemberCommand c db args =
     (if \<not> CheckSyntax args 1 1 False then answer db (syntax_error ''sismember'')
      else case SetIsMember (c_now c) (db_kv db) (Key (args ! 1)) (args ! 2) of (s, ret, errcode) \<Rightarrow>
             let db1 = db\<lparr>db_kv := s\<rparr>
             in if errcode = kWrongTypeCode then answer db1 kWrongTypeMsg else answer db1 (PackBoolReply ret))"

definition SMIsMemberCommand :: "'g ctx \<Rightarrow> 'g db \<Rightarrow> string list \<Rightarrow> 'g reply" where
  "SMIsMemberCommand c db args =
     (if \<not> CheckSyntax args 1 (- 1) False then answer db (syntax_error ''smismember'')
      else case SetMIsMember (c_now c) (db_kv db) (Key (args ! 1)) (drop 2 args) of (s, ret, errcode) \<Rightarrow>
             let db1 = db\<lparr>db_kv := s\<rparr>
             in if errcode = kWrongTypeCode then answer db1 kWrongTypeMsg else answer db1 (PackIntArrayMsg ret))"

definition SMembersCommand :: "'g ctx \<Rightarrow> 'g db \<Rightarrow> string list \<Rightarrow> 'g reply" where
  "SMembersCommand c db args =
     (if \<not> CheckSyntax args 1 0 False then answer db (syntax_error ''smembers'')
      else case SetGetMembers (c_now c) (db_kv db) (Key (args ! 1)) of (s, ret, errcode) \<Rightarrow>
             let db1 = db\<lparr>db_kv := s\<rparr>
             in if errcode = kWrongTypeCode then answer db1 kWrongTypeMsg
                else answer db1 (PackArrayMsg (map Some ret)))"

definition SRemCommand :: "'g ctx \<Rightarrow> 'g db \<Rightarrow> string list \<Rightarrow> 'g reply" where
  "SRemCommand c db args =
     (if \<not> CheckSyntax args 1 (- 1) False then answer db (syntax_error ''srem'')
      else case SetRemoveMembers_str (c_now c) (db_kv db) (args ! 1) (drop 2 args) of (s, ret, errcode) \<Rightarrow>
             let db1 = db\<lparr>db_kv := s\<rparr>
             in if errcode = kWrongTypeCode then answer db1 kWrongTypeMsg
                else answer (AddIntoAppendableDirectly c args db1) (PackIntReply (if ret then 1 else 0)))"

definition SCardCommand :: "'g ctx \<Rightarrow> 'g db \<Rightarrow> string list \<Rightarrow> 'g reply" where
  "SCardCommand c db args =
     (if \<not> CheckSyntax args 1 0 False then answer db (syntax_error ''scard'')
      else case SetGetMemberCount (c_now c) (db_kv db) (Key (args ! 1)) of (s, ret, errcode) \<Rightarrow>
             let db1 = db\<lparr>db_kv := s\<rparr>
             in if errcode = kWrongTypeCode then answer db1 kWrongTypeMsg else answer db1 (PackIntReply (int ret)))"

section \<open>Publish and subscribe\<close>

text \<open>
  The subscriptions of the server: a channel has the list of its sessions, each with the name
  and the socket of the session object. \<open>operator[]\<close> of the map creates an empty list.
\<close>

abbreviation (input) SESSION_MODE_REGULAR :: u32 where "SESSION_MODE_REGULAR \<equiv> 1"
abbreviation (input) SESSION_MODE_PUBSUB :: u32 where "SESSION_MODE_PUBSUB \<equiv> 2"

definition Session_new :: "int \<Rightarrow> session" where
  "Session_new fd = \<lparr>sess_fd = fd, sess_modes = SESSION_MODE_REGULAR, sess_channels = []\<rparr>"

definition SetPubSubMode :: "session \<Rightarrow> session" where
  "SetPubSubMode sess = sess\<lparr>sess_modes := sess_modes sess OR SESSION_MODE_PUBSUB\<rparr>"

definition UnsetPubSubMode :: "session \<Rightarrow> session" where
  "UnsetPubSubMode sess = sess\<lparr>sess_modes := sess_modes sess AND NOT SESSION_MODE_PUBSUB\<rparr>"

definition sub_list :: "'g db \<Rightarrow> string \<Rightarrow> (string \<times> int) list" where
  "sub_list db chan = (case db_subs db chan of None \<Rightarrow> [] | Some l \<Rightarrow> l)"

definition AddSessionToSubscription :: "'g db \<Rightarrow> string \<Rightarrow> string \<Rightarrow> 'g db \<times> bool" where
  "AddSessionToSubscription db chan name =
     (case db_sessions db name of
        Some sess \<Rightarrow> (db\<lparr>db_subs := (db_subs db)(chan \<mapsto> sub_list db chan @ [(name, sess_fd sess)])\<rparr>, True)
      | None \<Rightarrow> (db, False))"

definition RemoveSessionFromSubscription :: "'g db \<Rightarrow> string \<Rightarrow> string \<Rightarrow> 'g db" where
  "RemoveSessionFromSubscription db chan name =
     db\<lparr>db_subs := (db_subs db)(chan \<mapsto> filter (\<lambda>p. fst p \<noteq> name) (sub_list db chan))\<rparr>"

definition HasSubscriptionChannel :: "'g db \<Rightarrow> string \<Rightarrow> bool" where
  "HasSubscriptionChannel db chan \<longleftrightarrow> db_subs db chan \<noteq> None"

definition PackPublishMessage :: "string \<Rightarrow> string \<Rightarrow> string" where
  "PackPublishMessage chan_name message =
     ''*3'' @ CRLF @ ''$7'' @ CRLF @ ''message'' @ CRLF @
     ''$'' @ std_to_string (int (length chan_name)) @ CRLF @ chan_name @ CRLF @
     ''$'' @ std_to_string (int (length message)) @ CRLF @ message @ CRLF"

definition PubSubPublishCommand :: "'g ctx \<Rightarrow> 'g db \<Rightarrow> string list \<Rightarrow> 'g reply" where
  "PubSubPublishCommand c db args =
     (if \<not> CheckSyntax args 1 1 False then answer db (syntax_error ''publish'')
      else if HasSubscriptionChannel db (args ! 1)
      then let relay_str = PackPublishMessage (args ! 1) (args ! 2);
               cnt = length (filter (\<lambda>p. c_write c (snd p) relay_str = length relay_str) (sub_list db (args ! 1)))
           in answer db (PackIntReply (int cnt))
      else answer db kInt0Msg)"

definition PackSubscriptionRes :: "string \<Rightarrow> string \<Rightarrow> nat \<Rightarrow> bool \<Rightarrow> string" where
  "PackSubscriptionRes cmd_name chan_name num fill_minus_1 =
     ''*3'' @ CRLF @ ''$'' @ std_to_string (int (length cmd_name)) @ CRLF @ cmd_name @ CRLF @
     (if \<not> fill_minus_1
      then ''$'' @ std_to_string (int (length chan_name)) @ CRLF @ chan_name @ CRLF
      else ''$-1'' @ CRLF) @
     '':'' @ std_to_string (int num) @ CRLF"

text \<open>
  The handlers work on the session object the command came from, which is in \<open>sessions_\<close> under its name.
\<close>

fun subscribe_loop :: "string \<Rightarrow> string list \<Rightarrow> 'g db \<Rightarrow> session \<Rightarrow> string \<Rightarrow> 'g db \<times> string" where
  "subscribe_loop name [] db sess ss = (db, ss)"
| "subscribe_loop name (ch # chs) db sess ss =
     (let sess1 = SetPubSubMode (sess\<lparr>sess_channels := List.insert ch (sess_channels sess)\<rparr>);
          db1 = fst (AddSessionToSubscription (db\<lparr>db_sessions := (db_sessions db)(name \<mapsto> sess1)\<rparr>) ch name)
      in subscribe_loop name chs db1 sess1
           (ss @ PackSubscriptionRes ''subscribe'' ch (length (sess_channels sess1)) False))"

definition PubSubSubscribeCommand :: "'g ctx \<Rightarrow> 'g db \<Rightarrow> string list \<Rightarrow> 'g reply" where
  "PubSubSubscribeCommand c db args =
     (case db_sessions db (c_session c) of
        None \<Rightarrow> Some (Inl NullDeref)
      | Some sess \<Rightarrow>
          if \<not> CheckSyntax args (- 1) (- 1) False then answer db (syntax_error ''subscribe'')
          else case subscribe_loop (c_session c) (drop 1 args) db sess [] of (db1, ss) \<Rightarrow> answer db1 ss)"

fun unsubscribe_loop :: "string \<Rightarrow> string list \<Rightarrow> 'g db \<Rightarrow> session \<Rightarrow> string \<Rightarrow> 'g db \<times> string" where
  "unsubscribe_loop name [] db sess ss = (db, ss)"
| "unsubscribe_loop name (ch # chs) db sess ss =
     (let sess1 = UnsetPubSubMode (sess\<lparr>sess_channels := removeAll ch (sess_channels sess)\<rparr>);
          db1 = RemoveSessionFromSubscription (db\<lparr>db_sessions := (db_sessions db)(name \<mapsto> sess1)\<rparr>) ch name
      in unsubscribe_loop name chs db1 sess1
           (ss @ PackSubscriptionRes ''unsubscribe'' ch (length (sess_channels sess1)) False))"

definition PubSubUnsubscribeCommand :: "'g ctx \<Rightarrow> 'g db \<Rightarrow> string list \<Rightarrow> 'g reply" where
  "PubSubUnsubscribeCommand c db args =
     (case db_sessions db (c_session c) of
        None \<Rightarrow> Some (Inl NullDeref)
      | Some sess \<Rightarrow>
          if \<not> CheckSyntax args (- 2) (- 1) False then answer db (syntax_error ''unsubscribe'')
          else let channels = (if length args \<ge> 2 then drop 1 args else c_order c (sess_channels sess))
               in if channels = [] then answer db (PackSubscriptionRes ''unsubscribe'' [] 0 True)
                  else case unsubscribe_loop (c_session c) channels db sess [] of (db1, ss) \<Rightarrow> answer db1 ss)"

definition BgsaveCommand :: "'g ctx \<Rightarrow> 'g db \<Rightarrow> string list \<Rightarrow> 'g reply" where
  "BgsaveCommand c db args =
     (if \<not> CheckSyntax args 0 0 False then answer db (syntax_error ''bgsave'')
      else answer db (PackStringMsgReply
             (if c_bgsave c then ''Background saving started'' else ''Background saving failed starting'')))"

section \<open>The engine\<close>

definition sOpCommandMap :: "(string \<times> ('g ctx \<Rightarrow> 'g db \<Rightarrow> string list \<Rightarrow> 'g reply)) list" where
  "sOpCommandMap =
     [(''overview'', OverviewCommand), (''total'', NumItemsCommand), (''ping'', PingCommand),
      (''evict'', EvictCommand), (''del'', DelCommand), (''exists'', ExistsCommand), (''type'', TypeCommand),
      (''expire'', ExpireCommand), (''expireat'', ExpireAtCommand), (''ttl'', TTLCommand),
      (''set'', SetCommand), (''get'', GetCommand),
      (''incr'', IncrCommand), (''decr'', DecrCommand), (''incrby'', IncrByCommand), (''decrby'', DecrByCommand),
      (''strlen'', StrlenCommand), (''append'', AppendCommand),
      (''getrange'', NotSupportedCommand), (''setrange'', NotSupportedCommand),
      (''llen'', LLenCommand), (''lpop'', LPopCommand), (''lpush'', LPushCommand), (''rpop'', RPopCommand),
      (''rpush'', RPushCommand), (''lrange'', LRangeCommand), (''linsert'', NotSupportedCommand),
      (''lrem'', NotSupportedCommand), (''lsetindex'', LSetCommand), (''lindex'', LIndexCommand),
      (''hset'', HSetCommand), (''hget'', HGetCommand), (''hdel'', HDelCommand), (''hexists'', HExistsCommand),
      (''hgetall'', HGetAllCommand), (''hkeys'', HKeysCommand), (''hvals'', HValsCommand), (''hlen'', HLenCommand),
      (''sadd'', SAddCommand), (''sismember'', SIsMemberCommand), (''smismember'', SMIsMemberCommand),
      (''smembers'', SMembersCommand), (''srem'', SRemCommand), (''scard'', SCardCommand),
      (''spop'', NotSupportedCommand),
      (''publish'', PubSubPublishCommand), (''subscribe'', PubSubSubscribeCommand),
      (''unsubscribe'', PubSubUnsubscribeCommand), (''bgsave'', BgsaveCommand)]"

definition OpCodeValid :: "string \<Rightarrow> bool" where
  "OpCodeValid opcode \<longleftrightarrow> map_of (sOpCommandMap :: (string \<times> (unit ctx \<Rightarrow> unit db \<Rightarrow> string list \<Rightarrow> unit reply)) list) opcode \<noteq> None"

text \<open>
  Lazy eviction of up to 16 keys before a command when memory is short. The \<open>del\<close> command of the
  evicted keys goes to the file whether or not the command itself is synchronized.
\<close>

definition lazy_evict :: "'g ctx \<Rightarrow> 'g db \<Rightarrow> (dl_error + 'g db) option" where
  "lazy_evict c db =
     (if c_evict c
      then case KeyEviction (c_rand c) (c_now c) (c_readings c) (db_rng db) (db_kv db) (c_policy c) 16 of
             None \<Rightarrow> None
           | Some (Inl e) \<Rightarrow> Some (Inl e)
           | Some (Inr (s, ans, g)) \<Rightarrow>
               Some (Inr (db\<lparr>db_kv := s, db_rng := g,
                             db_log := map_option (\<lambda>l. l @ [''del'' # ans]) (db_log db)\<rparr>))
      else Some (Inr db))"

text \<open>\<open>argv[0]\<close> of a request without arguments is read outside the vector.\<close>

definition HandleCommand :: "'g ctx \<Rightarrow> 'g db \<Rightarrow> string list \<Rightarrow> 'g reply" where
  "HandleCommand c db args0 =
     (case args0 of
        [] \<Rightarrow> Some (Inl OutOfBounds)
      | op0 # rest \<Rightarrow>
          let opcode = map c_tolower op0; args = opcode # rest
          in case map_of sOpCommandMap opcode of
               None \<Rightarrow> answer db kInvalidOpCodeMsg
             | Some handler \<Rightarrow>
                 (case lazy_evict c db of
                    None \<Rightarrow> None
                  | Some (Inl e) \<Rightarrow> Some (Inl e)
                  | Some (Inr db1) \<Rightarrow> handler c db1 args))"

end
