(* ===== verification/CommandsSpec.thy ===== *)
theory CommandsSpec
  imports CoreCorrect Commands
begin

text \<open>
  What the data commands promise. A command either fails before it reaches the container (a syntax
  error, an operand that is not an integer) or makes one call to it; its reply and whether it goes
  to the log are functions of the result of that call. \<open>cmd_plan\<close> gives the call, \<open>cmd_reply\<close> the
  reply; \<open>cmd_spec\<close> runs a command on the abstract map of the container. Every handler is shown
  equal to the execution of its plan, and the refinement of the container then carries
  over to the commands.
\<close>

section \<open>Plans and replies\<close>

type_synonym plan = "string list \<Rightarrow> string + kv_op"

definition with_syntax :: "int \<Rightarrow> int \<Rightarrow> bool \<Rightarrow> string \<Rightarrow> (string list \<Rightarrow> string + kv_op) \<Rightarrow> plan" where
  "with_syntax nk no ev name f args =
     (if CheckSyntax args nk no ev then f args else Inl (syntax_error name))"

definition int_operand :: "(string \<Rightarrow> int option) \<Rightarrow> string \<Rightarrow> (int \<Rightarrow> string + kv_op) \<Rightarrow> string + kv_op" where
  "int_operand conv s f = (case conv s of None \<Rightarrow> Inl kInvalidIntegerMsg | Some i \<Rightarrow> f i)"

text \<open>The reply to a result, and whether the command is logged.\<close>

type_synonym replies = "string list \<Rightarrow> kv_result \<Rightarrow> string \<times> bool"

definition int_val :: "kv_val \<Rightarrow> int" where
  "int_val v = (case v of VInt i \<Rightarrow> i | VNat n \<Rightarrow> int n | VBool b \<Rightarrow> (if b then 1 else 0) | _ \<Rightarrow> 0)"

definition str_val :: "kv_val \<Rightarrow> string" where
  "str_val v = (case v of VStr s \<Rightarrow> contents s | VObj (Some (AInt i)) \<Rightarrow> std_to_string i
                | VObj (Some (AStr s)) \<Rightarrow> s | _ \<Rightarrow> [])"

definition strs_val :: "kv_val \<Rightarrow> string option list" where
  "strs_val v = (case v of VStrs xs \<Rightarrow> xs | _ \<Rightarrow> [])"

text \<open>A read that reports an integer, with a wrong type reported and everything else as the given number.\<close>

definition read_int :: replies where
  "read_int args r = (if snd r = Some kWrongTypeCode then kWrongTypeMsg else PackIntReply (int_val (fst r)), False)"

text \<open>A write that reports an integer and is logged unless it fails.\<close>

definition write_int :: replies where
  "write_int args r =
     (if snd r = Some kOkCode then (PackIntReply (int_val (fst r)), True)
      else if snd r = Some kWrongTypeCode then (kWrongTypeMsg, False)
      else if snd r = Some kOverflowCode then (kInt64OverflowMsg, False)
      else (kNotOkMsg, False))"

text \<open>A removal that is logged unless the type is wrong, also when there is no such key.\<close>

definition remove_int :: replies where
  "remove_int args r =
     (if snd r = Some kWrongTypeCode then (kWrongTypeMsg, False) else (PackIntReply (int_val (fst r)), True))"

definition read_str :: replies where
  "read_str args r =
     (if snd r = Some kOkCode then PackStringValueReply (str_val (fst r))
      else if snd r = Some kWrongTypeCode then kWrongTypeMsg else kNilMsg, False)"

definition pop_str :: replies where
  "pop_str args r =
     (if snd r = Some kOkCode
      then if str_val (fst r) \<noteq> [] then (PackStringValueReply (str_val (fst r)), True) else (kNilMsg, False)
      else if snd r = Some kWrongTypeCode then (kWrongTypeMsg, False) else (kNilMsg, False))"

section \<open>The commands\<close>

definition key1 :: "string list \<Rightarrow> string" where
  "key1 args = Key (args ! 1)"

definition cmd_table :: "(string \<times> plan \<times> replies) list" where
  "cmd_table =
     [(''total'', with_syntax 0 0 False ''total'' (\<lambda>args. Inr DoNumItems), read_int),
      (''del'', with_syntax (- 1) 0 False ''del'' (\<lambda>args. Inr (DoDeleteKeys (drop 1 args))), remove_int),
      (''exists'', with_syntax (- 1) 0 False ''exists'' (\<lambda>args. Inr (DoExistKeys (drop 1 args))), read_int),
      (''set'', with_syntax 1 1 False ''set''
         (\<lambda>args. case CanConvertToInt64 (args ! 2) of
                   Some i \<Rightarrow> Inr (DoSetInt (key1 args) i) | None \<Rightarrow> Inr (DoSetString (key1 args) (args ! 2))),
         \<lambda>args r. (kOkMsg, True)),
      (''get'', with_syntax 1 0 False ''get'' (\<lambda>args. Inr (DoGet (key1 args))), read_str),
      (''incr'', with_syntax 1 0 False ''incr'' (\<lambda>args. Inr (DoIncrBy (key1 args) 1)), write_int),
      (''decr'', with_syntax 1 0 False ''decr'' (\<lambda>args. Inr (DoDecrBy (key1 args) 1)), write_int),
      (''incrby'', with_syntax 1 1 False ''incrby''
         (\<lambda>args. int_operand CanConvertToInt64 (args ! 2)
            (\<lambda>n. if n < 0 then Inl kInvalidIntegerMsg else Inr (DoIncrBy (key1 args) n))), write_int),
      (''decrby'', with_syntax 1 1 False ''decrby''
         (\<lambda>args. int_operand CanConvertToInt64 (args ! 2)
            (\<lambda>n. if n < 0 then Inl kInvalidIntegerMsg else Inr (DoDecrBy (key1 args) n))), write_int),
      (''strlen'', with_syntax 1 0 False ''strlen'' (\<lambda>args. Inr (DoStrLen (key1 args) 0)), read_int),
      (''append'', with_syntax 1 1 False ''append'' (\<lambda>args. Inr (DoAppend (key1 args) (args ! 2))), write_int),
      (''llen'', with_syntax 1 0 False ''llen'' (\<lambda>args. Inr (DoListLen (key1 args))), read_int),
      (''lpop'', with_syntax 1 0 False ''lpop'' (\<lambda>args. Inr (DoPop True (key1 args))), pop_str),
      (''rpop'', with_syntax 1 0 False ''rpop'' (\<lambda>args. Inr (DoPop False (key1 args))), pop_str),
      (''lpush'', with_syntax 1 (- 1) False ''lpush''
         (\<lambda>args. Inr (DoPushMany True (args ! 1) (drop 2 args))), write_int),
      (''rpush'', with_syntax 1 (- 1) False ''rpush''
         (\<lambda>args. Inr (DoPushMany False (args ! 1) (drop 2 args))), write_int),
      (''lrange'', with_syntax 1 2 False ''lrange''
         (\<lambda>args. int_operand CanConvertToInt32 (args ! 2)
            (\<lambda>b. int_operand CanConvertToInt32 (args ! 3) (\<lambda>e. Inr (DoRange (key1 args) b e)))),
         \<lambda>args r. (if snd r = Some kWrongTypeCode then kWrongTypeMsg
                   else if strs_val (fst r) = [] then kArrayEmptyMsg else PackArrayMsg (strs_val (fst r)), False)),
      (''lsetindex'', with_syntax 1 2 False ''lsetindex''
         (\<lambda>args. int_operand CanConvertToInt32 (args ! 2) (\<lambda>i. Inr (DoSetItemAt (key1 args) i (args ! 3)))),
         \<lambda>args r. (if snd r = Some kOkCode then (kOkMsg, True)
                   else if snd r = Some kWrongTypeCode then (kWrongTypeMsg, False)
                   else if snd r = Some kOutOfRangeCode then (kOutOfRangeMsg, False)
                   else if snd r = Some kKeyNotFoundCode then (kNoSuchKeyMsg, False)
                   else (kNotOkMsg, False))),
      (''lindex'', with_syntax 1 1 False ''lindex''
         (\<lambda>args. int_operand CanConvertToInt32 (args ! 2) (\<lambda>i. Inr (DoItemAt (key1 args) i))), read_str),
      (''hset'', with_syntax 1 (- 1) True ''hset''
         (\<lambda>args. Inr (DoHSetMany (key1 args) (fst (split_pairs (drop 2 args))) (snd (split_pairs (drop 2 args))))),
         \<lambda>args r. (if snd r = Some kOkCode \<and> int_val (fst r) \<noteq> 0 then (kOkMsg, True)
                   else if snd r = Some kWrongTypeCode then (kWrongTypeMsg, False) else (kNotOkMsg, False))),
      (''hget'', with_syntax 1 (- 1) False ''hget''
         (\<lambda>args. Inr (if length args = 3 then DoHGet (key1 args) (args ! 2) else DoHGetMany (key1 args) (drop 2 args))),
         \<lambda>args r. if length args = 3 then read_str args r
                  else (if strs_val (fst r) \<noteq> [] then PackArrayMsg (strs_val (fst r))
                        else PackEmptyArrayMsg (length (drop 2 args)), False)),
      (''hdel'', with_syntax 1 (- 1) False ''hdel'' (\<lambda>args. Inr (DoHDelMany (key1 args) (drop 2 args))), remove_int),
      (''hexists'', with_syntax 1 1 False ''hexists'' (\<lambda>args. Inr (DoHExists (key1 args) (args ! 2))), read_int),
      (''hlen'', with_syntax 1 0 False ''hlen'' (\<lambda>args. Inr (DoHLen (key1 args))), read_int),
      (''sadd'', with_syntax 1 (- 1) False ''sadd'' (\<lambda>args. Inr (DoSAddMany (key1 args) (drop 2 args))), write_int),
      (''sismember'', with_syntax 1 1 False ''sismember'' (\<lambda>args. Inr (DoSIsMember (key1 args) (args ! 2))), read_int),
      (''smismember'', with_syntax 1 (- 1) False ''smismember''
         (\<lambda>args. Inr (DoSMIsMember (key1 args) (drop 2 args))),
         \<lambda>args r. (if snd r = Some kWrongTypeCode then kWrongTypeMsg
                   else PackIntArrayMsg (case fst r of VInts xs \<Rightarrow> xs | _ \<Rightarrow> []), False)),
      (''srem'', with_syntax 1 (- 1) False ''srem'' (\<lambda>args. Inr (DoSRem (key1 args) (drop 2 args))),
         \<lambda>args r. remove_int args (VInt (if int_val (fst r) \<noteq> 0 then 1 else 0), snd r)),
      (''scard'', with_syntax 1 0 False ''scard'' (\<lambda>args. Inr (DoSCard (key1 args))), read_int)]"

definition plan_of :: "string \<Rightarrow> plan" where
  "plan_of opcode = fst (the (map_of cmd_table opcode))"

definition replies_of :: "string \<Rightarrow> replies" where
  "replies_of opcode = snd (the (map_of cmd_table opcode))"

text \<open>Running a plan on the server, and on the abstract map.\<close>

definition log_if :: "bool \<Rightarrow> 'g ctx \<Rightarrow> string list \<Rightarrow> 'g db \<Rightarrow> 'g db" where
  "log_if logged c args db = (if logged then AddIntoAppendableDirectly c args db else db)"

definition run_plan :: "'g ctx \<Rightarrow> 'g db \<Rightarrow> string list \<Rightarrow> string + kv_op \<Rightarrow> replies \<Rightarrow> 'g reply" where
  "run_plan c db args p rep =
     (case p of
        Inl msg \<Rightarrow> answer db msg
      | Inr op \<Rightarrow>
          (case kv_call (c_now c) (db_kv db) op of (s, r) \<Rightarrow>
             case fst r of
               VFault e \<Rightarrow> Some (Inl e)
             | _ \<Rightarrow> answer (log_if (snd (rep args r)) c args (db\<lparr>db_kv := s\<rparr>)) (fst (rep args r))))"

definition cmd_spec :: "(string \<rightharpoonup> avalue) \<Rightarrow> string list \<Rightarrow> (string \<rightharpoonup> avalue) \<times> string \<times> bool" where
  "cmd_spec m args =
     (case plan_of (hd args) args of
        Inl msg \<Rightarrow> (m, msg, False)
      | Inr op \<Rightarrow> (case kv_spec m op of (m', r) \<Rightarrow> (m', replies_of (hd args) args r)))"

definition cmd_ok :: "(string \<rightharpoonup> avalue) \<Rightarrow> string list \<Rightarrow> bool" where
  "cmd_ok m args =
     (args \<noteq> [] \<and> map_of cmd_table (hd args) \<noteq> None \<and>
      (case plan_of (hd args) args of Inl msg \<Rightarrow> True | Inr op \<Rightarrow> kv_ok m op))"

end
