(* ===== verification/CommandsCorrect.thy ===== *)
theory CommandsCorrect
  imports CommandsSpec
begin

text \<open>
  Every data command is the execution of its plan, so the refinement of the container carries over
  to the commands: replies, log and contents are those of the abstract map.
\<close>

section \<open>Handlers run their plans\<close>

definition plan_ok :: "(string \<rightharpoonup> avalue) \<Rightarrow> string + kv_op \<Rightarrow> bool" where
  "plan_ok m p \<longleftrightarrow> (case p of Inl msg \<Rightarrow> True | Inr op \<Rightarrow> kv_ok m op)"

definition runs_plan :: "('g ctx \<Rightarrow> 'g db \<Rightarrow> string list \<Rightarrow> 'g reply) \<Rightarrow> string \<Rightarrow> bool" where
  "runs_plan handler opcode \<longleftrightarrow>
     (\<forall>c db args. kv_inv (db_kv db) \<longrightarrow> plan_ok (kv_abs (db_kv db)) (plan_of opcode args) \<longrightarrow>
        handler c db args = run_plan c db args (plan_of opcode args) (replies_of opcode))"

lemma kv_call_result:
  assumes "kv_inv s" "kv_ok (kv_abs s) op" "kv_call now s op = (s', r)"
  shows "kv_inv s'" "kv_spec (kv_abs s) op = (kv_abs s', r)"
  using kv_call_refines [OF assms(1,2), of now] assms(3) by (simp_all add: refines_def)

text \<open>A handler is compared with its plan on the results the specification allows.\<close>

lemma runs_planI:
  assumes table: "map_of cmd_table opcode = Some (with_syntax nk no ev opcode f, rep)"
    and args: "\<And>c db args. \<not> CheckSyntax args nk no ev \<Longrightarrow> handler c db args = answer db (syntax_error opcode)"
    and operand: "\<And>c db args msg. CheckSyntax args nk no ev \<Longrightarrow> f args = Inl msg \<Longrightarrow> handler c db args = answer db msg"
    and call: "\<And>c db args op s r. CheckSyntax args nk no ev \<Longrightarrow> f args = Inr op \<Longrightarrow>
      kv_call (c_now c) (db_kv db) op = (s, r) \<Longrightarrow> kv_spec (kv_abs (db_kv db)) op = (kv_abs s, r) \<Longrightarrow>
      handler c db args = run_plan c db args (Inr op) rep"
  shows "runs_plan handler opcode"
  unfolding runs_plan_def
proof (intro allI impI)
  fix c :: "'a ctx" and db :: "'a db" and args
  assume inv: "kv_inv (db_kv db)" and ok: "plan_ok (kv_abs (db_kv db)) (plan_of opcode args)"
  have p: "plan_of opcode args = with_syntax nk no ev opcode f args" "replies_of opcode = rep"
    using table by (simp_all add: plan_of_def replies_of_def)
  show "handler c db args = run_plan c db args (plan_of opcode args) (replies_of opcode)"
  proof (cases "CheckSyntax args nk no ev")
    case False
    then show ?thesis by (simp add: p with_syntax_def args run_plan_def)
  next
    case True
    show ?thesis
    proof (cases "f args")
      case (Inl msg)
      then show ?thesis using True by (simp add: p with_syntax_def operand run_plan_def)
    next
      case (Inr op)
      obtain s r where r: "kv_call (c_now c) (db_kv db) op = (s, r)" by (cases "kv_call (c_now c) (db_kv db) op")
      have "kv_ok (kv_abs (db_kv db)) op" using ok Inr True by (simp add: p with_syntax_def plan_ok_def)
      from kv_call_result(2) [OF inv this r] show ?thesis
        using call [OF True Inr r] Inr True by (simp add: p with_syntax_def)
    qed
  qed
qed

lemma PackBoolReply_int: "PackBoolReply b = PackIntReply (if b then 1 else 0)"
  by (cases b) (simp_all add: PackBoolReply_def PackIntReply_def, code_simp+)

lemmas plan_defs = run_plan_def or_fault_def int_operand_def read_int_def write_int_def remove_int_def
  read_str_def pop_str_def str_val_def strs_val_def int_val_def log_if_def key1_def or_new_def a_list_def a_hash_def
  a_set_def Let_def

lemma NumItemsCommand_plan: "runs_plan NumItemsCommand ''total''"
  by (rule runs_planI, simp add: cmd_table_def)
    (auto simp: NumItemsCommand_def plan_defs split: prod.splits option.splits avalue.splits sum.splits if_splits)

lemma DelCommand_plan: "runs_plan DelCommand ''del''"
  by (rule runs_planI, simp add: cmd_table_def)
    (auto simp: DelCommand_def plan_defs split: prod.splits option.splits avalue.splits sum.splits if_splits)

lemma ExistsCommand_plan: "runs_plan ExistsCommand ''exists''"
  by (rule runs_planI, simp add: cmd_table_def)
    (auto simp: ExistsCommand_def plan_defs split: prod.splits option.splits avalue.splits sum.splits if_splits)

lemma SetCommand_plan: "runs_plan SetCommand ''set''"
  by (rule runs_planI, simp add: cmd_table_def)
    (auto simp: SetCommand_def plan_defs split: prod.splits option.splits avalue.splits sum.splits if_splits)

lemma GetCommand_plan: "runs_plan GetCommand ''get''"
  by (rule runs_planI, simp add: cmd_table_def)
    (auto simp: GetCommand_def ValueObject_ToStdString_def plan_defs split: prod.splits option.splits avalue.splits sum.splits if_splits vvalue.splits)

lemma IncrCommand_plan: "runs_plan IncrCommand ''incr''"
  by (rule runs_planI, simp add: cmd_table_def)
    (auto simp: IncrCommand_def incr_reply_def IncrInt_def plan_defs split: prod.splits option.splits avalue.splits sum.splits if_splits)

lemma DecrCommand_plan: "runs_plan DecrCommand ''decr''"
  by (rule runs_planI, simp add: cmd_table_def)
    (auto simp: DecrCommand_def incr_reply_def DecrInt_def plan_defs split: prod.splits option.splits avalue.splits sum.splits if_splits)

lemma IncrByCommand_plan: "runs_plan IncrByCommand ''incrby''"
  by (rule runs_planI, simp add: cmd_table_def)
    (auto simp: IncrByCommand_def incr_reply_def plan_defs split: prod.splits option.splits avalue.splits sum.splits if_splits)

lemma DecrByCommand_plan: "runs_plan DecrByCommand ''decrby''"
  by (rule runs_planI, simp add: cmd_table_def)
    (auto simp: DecrByCommand_def incr_reply_def plan_defs split: prod.splits option.splits avalue.splits sum.splits if_splits)

lemma StrlenCommand_plan: "runs_plan StrlenCommand ''strlen''"
  by (rule runs_planI, simp add: cmd_table_def)
    (auto simp: StrlenCommand_def plan_defs split: prod.splits option.splits avalue.splits sum.splits if_splits)

lemma AppendCommand_plan: "runs_plan AppendCommand ''append''"
  by (rule runs_planI, simp add: cmd_table_def)
    (auto simp: AppendCommand_def plan_defs split: prod.splits option.splits avalue.splits sum.splits if_splits)

lemma LLenCommand_plan: "runs_plan LLenCommand ''llen''"
  by (rule runs_planI, simp add: cmd_table_def)
    (auto simp: LLenCommand_def plan_defs split: prod.splits option.splits avalue.splits sum.splits if_splits)

lemma LPopCommand_plan: "runs_plan LPopCommand ''lpop''"
  by (rule runs_planI, simp add: cmd_table_def)
    (auto simp: LPopCommand_def pop_reply_def plan_defs split: prod.splits option.splits avalue.splits sum.splits if_splits)

lemma RPopCommand_plan: "runs_plan RPopCommand ''rpop''"
  by (rule runs_planI, simp add: cmd_table_def)
    (auto simp: RPopCommand_def pop_reply_def plan_defs split: prod.splits option.splits avalue.splits sum.splits if_splits)

lemma LPushCommand_plan: "runs_plan LPushCommand ''lpush''"
  by (rule runs_planI, simp add: cmd_table_def)
    (auto simp: LPushCommand_def push_reply_def plan_defs split: prod.splits option.splits avalue.splits sum.splits if_splits)

lemma RPushCommand_plan: "runs_plan RPushCommand ''rpush''"
  by (rule runs_planI, simp add: cmd_table_def)
    (auto simp: RPushCommand_def push_reply_def plan_defs split: prod.splits option.splits avalue.splits sum.splits if_splits)

lemma LRangeCommand_plan: "runs_plan LRangeCommand ''lrange''"
  by (rule runs_planI, simp add: cmd_table_def)
    (auto simp: LRangeCommand_def plan_defs split: prod.splits option.splits avalue.splits sum.splits if_splits)

lemma LSetCommand_plan: "runs_plan LSetCommand ''lsetindex''"
  by (rule runs_planI, simp add: cmd_table_def)
    (auto simp: LSetCommand_def plan_defs split: prod.splits option.splits avalue.splits sum.splits if_splits)

lemma LIndexCommand_plan: "runs_plan LIndexCommand ''lindex''"
  by (rule runs_planI, simp add: cmd_table_def)
    (auto simp: LIndexCommand_def plan_defs split: prod.splits option.splits avalue.splits sum.splits if_splits)

lemma HSetCommand_plan: "runs_plan HSetCommand ''hset''"
  by (rule runs_planI, simp add: cmd_table_def)
    (auto simp: HSetCommand_def plan_defs split: prod.splits option.splits avalue.splits sum.splits if_splits)

lemma HGetCommand_plan: "runs_plan HGetCommand ''hget''"
  by (rule runs_planI, simp add: cmd_table_def)
    (auto simp: HGetCommand_def plan_defs split: prod.splits option.splits avalue.splits sum.splits if_splits)

lemma HDelCommand_plan: "runs_plan HDelCommand ''hdel''"
  by (rule runs_planI, simp add: cmd_table_def)
    (auto simp: HDelCommand_def plan_defs split: prod.splits option.splits avalue.splits sum.splits if_splits)

lemma HExistsCommand_plan: "runs_plan HExistsCommand ''hexists''"
  by (rule runs_planI, simp add: cmd_table_def)
    (auto simp: HExistsCommand_def PackBoolReply_int plan_defs split: prod.splits option.splits avalue.splits sum.splits if_splits)

lemma HLenCommand_plan: "runs_plan HLenCommand ''hlen''"
  by (rule runs_planI, simp add: cmd_table_def)
    (auto simp: HLenCommand_def plan_defs split: prod.splits option.splits avalue.splits sum.splits if_splits)

lemma SAddCommand_plan: "runs_plan SAddCommand ''sadd''"
  by (rule runs_planI, simp add: cmd_table_def)
    (auto simp: SAddCommand_def plan_defs split: prod.splits option.splits avalue.splits sum.splits if_splits)

lemma SIsMemberCommand_plan: "runs_plan SIsMemberCommand ''sismember''"
  by (rule runs_planI, simp add: cmd_table_def)
    (auto simp: SIsMemberCommand_def PackBoolReply_int plan_defs split: prod.splits option.splits avalue.splits sum.splits if_splits)

lemma SMIsMemberCommand_plan: "runs_plan SMIsMemberCommand ''smismember''"
  by (rule runs_planI, simp add: cmd_table_def)
    (auto simp: SMIsMemberCommand_def plan_defs split: prod.splits option.splits avalue.splits sum.splits if_splits)

lemma SRemCommand_plan: "runs_plan SRemCommand ''srem''"
  by (rule runs_planI, simp add: cmd_table_def)
    (auto simp: SRemCommand_def SetRemoveMembers_str_def plan_defs split: prod.splits option.splits avalue.splits sum.splits if_splits)

lemma SCardCommand_plan: "runs_plan SCardCommand ''scard''"
  by (rule runs_planI, simp add: cmd_table_def)
    (auto simp: SCardCommand_def plan_defs split: prod.splits option.splits avalue.splits sum.splits if_splits)

lemmas handler_plans = NumItemsCommand_plan DelCommand_plan ExistsCommand_plan SetCommand_plan GetCommand_plan IncrCommand_plan DecrCommand_plan IncrByCommand_plan DecrByCommand_plan StrlenCommand_plan AppendCommand_plan LLenCommand_plan LPopCommand_plan RPopCommand_plan LPushCommand_plan RPushCommand_plan LRangeCommand_plan LSetCommand_plan LIndexCommand_plan HSetCommand_plan HGetCommand_plan HDelCommand_plan HExistsCommand_plan HLenCommand_plan SAddCommand_plan SIsMemberCommand_plan SMIsMemberCommand_plan SRemCommand_plan SCardCommand_plan

lemma handler_of:
  assumes "map_of cmd_table opcode \<noteq> None"
  obtains handler :: "'g ctx \<Rightarrow> 'g db \<Rightarrow> string list \<Rightarrow> 'g reply"
  where "map_of sOpCommandMap opcode = Some handler" "runs_plan handler opcode"
proof -
  have "opcode \<in> set (map fst cmd_table)" using assms by (metis list.set_map map_of_eq_None_iff)
  then have "\<exists>h :: 'g ctx \<Rightarrow> 'g db \<Rightarrow> string list \<Rightarrow> 'g reply. map_of sOpCommandMap opcode = Some h \<and> runs_plan h opcode"
    unfolding cmd_table_def by (simp only: list.map fst_conv list.set) (elim insertE emptyE; simp add: sOpCommandMap_def handler_plans)
  then show thesis using that by blast
qed

section \<open>Commands refine the abstract map\<close>

text \<open>The opcode of a request is converted to lower case.\<close>

definition lower_op :: "string list \<Rightarrow> string list" where
  "lower_op args = (case args of [] \<Rightarrow> [] | op # rest \<Rightarrow> map c_tolower op # rest)"

lemma HandleCommand_plan:
  assumes "kv_inv (db_kv db)" "\<not> c_evict c" "cmd_ok (kv_abs (db_kv db)) (lower_op args)"
  shows "HandleCommand c db args =
    run_plan c db (lower_op args) (plan_of (hd (lower_op args)) (lower_op args)) (replies_of (hd (lower_op args)))"
proof -
  obtain op rest where args: "args = op # rest" using assms(3) by (cases args) (auto simp: cmd_ok_def lower_op_def)
  let ?op = "map c_tolower op"
  have ok: "map_of cmd_table ?op \<noteq> None" "plan_ok (kv_abs (db_kv db)) (plan_of ?op (?op # rest))"
    using assms(3) by (simp_all add: args cmd_ok_def lower_op_def plan_ok_def)
  obtain handler :: "'a ctx \<Rightarrow> 'a db \<Rightarrow> string list \<Rightarrow> 'a reply"
    where h: "map_of sOpCommandMap ?op = Some handler" "runs_plan handler ?op"
    using handler_of [OF ok(1)] .
  show ?thesis using h ok(2) assms(1,2)
    by (simp add: args HandleCommand_def lower_op_def lazy_evict_def runs_plan_def)
qed

lemma kv_spec_no_fault: "kv_spec m op = (m', VFault e, code) \<longleftrightarrow> False"
  by (cases op) (auto simp: Let_def split: option.splits avalue.splits sum.splits list.splits if_splits)

lemma run_plan_spec:
  assumes "kv_inv (db_kv db)" "plan_ok (kv_abs (db_kv db)) p"
  obtains db' msg logged where "run_plan c db args p rep = Some (Inr (db', msg))" "kv_inv (db_kv db')"
    "(case p of Inl msg \<Rightarrow> (kv_abs (db_kv db), msg, False)
      | Inr op \<Rightarrow> (case kv_spec (kv_abs (db_kv db)) op of (m', r) \<Rightarrow> (m', rep args r))) = (kv_abs (db_kv db'), msg, logged)"
    "db' = db\<lparr>db_kv := db_kv db', db_log := if logged \<and> c_sync c then map_option (\<lambda>l. l @ [args]) (db_log db) else db_log db\<rparr>"
proof (cases p)
  case (Inl msg)
  show ?thesis by (rule that [of db msg False]) (use assms Inl in \<open>simp_all add: run_plan_def answer_def\<close>)
next
  case (Inr op)
  obtain s r where r: "kv_call (c_now c) (db_kv db) op = (s, r)" by (cases "kv_call (c_now c) (db_kv db) op")
  note spec = kv_call_result [OF assms(1) _ r]
  have ok: "kv_ok (kv_abs (db_kv db)) op" using assms(2) Inr by (simp add: plan_ok_def)
  have "fst r \<noteq> VFault e" for e using spec(2) [OF ok] kv_spec_no_fault by (metis prod.collapse)
  then have run: "run_plan c db args p rep =
    answer (log_if (snd (rep args r)) c args (db\<lparr>db_kv := s\<rparr>)) (fst (rep args r))"
    using Inr r by (simp add: run_plan_def split: kv_val.splits)
  show ?thesis
    by (rule that [OF run [unfolded answer_def], where logged = "snd (rep args r)"])
      (use spec [OF ok] Inr in \<open>simp_all add: log_if_def AddIntoAppendableDirectly_def\<close>)
qed

text \<open>One command on the server, and on the abstract map with its log; a fault is \<open>None\<close>.\<close>

definition cmd_step :: "'g db \<Rightarrow> 'g ctx \<times> string list \<Rightarrow> 'g db \<times> string option" where
  "cmd_step db q = (case HandleCommand (fst q) db (snd q) of Some (Inr (db', msg)) \<Rightarrow> (db', Some msg) | _ \<Rightarrow> (db, None))"

definition db_abs :: "'g db \<Rightarrow> (string \<rightharpoonup> avalue) \<times> string list list option" where
  "db_abs db = (kv_abs (db_kv db), db_log db)"

definition cmd_spec_step :: "(string \<rightharpoonup> avalue) \<times> string list list option \<Rightarrow> 'g ctx \<times> string list \<Rightarrow>
    ((string \<rightharpoonup> avalue) \<times> string list list option) \<times> string option" where
  "cmd_spec_step a q =
     (case cmd_spec (fst a) (lower_op (snd q)) of (m', msg, logged) \<Rightarrow>
        ((m', if logged \<and> c_sync (fst q) then map_option (\<lambda>l. l @ [lower_op (snd q)]) (snd a) else snd a), Some msg))"

definition cmd_call_ok :: "(string \<rightharpoonup> avalue) \<times> string list list option \<Rightarrow> 'g ctx \<times> string list \<Rightarrow> bool" where
  "cmd_call_ok a q \<longleftrightarrow> \<not> c_evict (fst q) \<and> cmd_ok (fst a) (lower_op (snd q))"

lemma cmd_step_spec:
  assumes "kv_inv (db_kv db)" "cmd_call_ok (db_abs db) q" "cmd_step db q = (db', r)"
  shows "kv_inv (db_kv db')" "cmd_spec_step (db_abs db) q = (db_abs db', r)"
    "db' = db\<lparr>db_kv := db_kv db', db_log := db_log db'\<rparr>"
proof -
  let ?a = "lower_op (snd q)"
  have ok: "\<not> c_evict (fst q)" "cmd_ok (kv_abs (db_kv db)) ?a" using assms(2) by (simp_all add: cmd_call_ok_def db_abs_def)
  have p: "plan_ok (kv_abs (db_kv db)) (plan_of (hd ?a) ?a)" using ok(2) by (simp add: cmd_ok_def plan_ok_def)
  note run = HandleCommand_plan [OF assms(1) ok]
  obtain db1 msg logged where h: "HandleCommand (fst q) db (snd q) = Some (Inr (db1, msg))"
    and inv: "kv_inv (db_kv db1)" and spec: "cmd_spec (kv_abs (db_kv db)) ?a = (kv_abs (db_kv db1), msg, logged)"
    and db1: "db1 = db\<lparr>db_kv := db_kv db1, db_log := if logged \<and> c_sync (fst q) then map_option (\<lambda>l. l @ [?a]) (db_log db) else db_log db\<rparr>"
    using run_plan_spec [OF assms(1) p, of "fst q" ?a "replies_of (hd ?a)"] unfolding run cmd_spec_def by metis
  have eq: "db' = db1" "r = Some msg" using assms(3) h by (simp_all add: cmd_step_def)
  show "kv_inv (db_kv db')" using inv eq by simp
  have log: "db_log db1 = (if logged \<and> c_sync (fst q) then map_option (\<lambda>l. l @ [?a]) (db_log db) else db_log db)"
    by (subst db1) simp
  show "cmd_spec_step (db_abs db) q = (db_abs db', r)"
    using spec log eq by (simp add: cmd_spec_step_def db_abs_def)
  show "db' = db\<lparr>db_kv := db_kv db', db_log := db_log db'\<rparr>" unfolding eq using db1 unfolding log [symmetric] .
qed

interpretation server_calls: call_refinement db_abs "\<lambda>db :: 'g db. kv_inv (db_kv db)" cmd_call_ok cmd_step cmd_spec_step
proof
  fix db db' :: "'g db" and q r
  assume "kv_inv (db_kv db)" "cmd_call_ok (db_abs db) q" "cmd_step db q = (db', r)"
  from cmd_step_spec [OF this] show "kv_inv (db_kv db')" "cmd_spec_step (db_abs db) q = (db_abs db', r)" by simp_all
qed

end
