(* ===== verification/CommandsProps.thy ===== *)
theory CommandsProps
  imports CommandsCorrect
begin

text \<open>
  What the refinement of the commands gives: histories of commands, the log as a faithful record of
  the container, and the reply to a read after a write.
\<close>

section \<open>Histories\<close>

lemma cmd_spec_step_reply: "cmd_spec_step a q = (a', r) \<Longrightarrow> r \<noteq> None"
  by (auto simp: cmd_spec_step_def split: prod.splits)

lemma spec_replies: "run_calls cmd_spec_step a qs = (a', rs) \<Longrightarrow> None \<notin> set rs"
proof (induction qs arbitrary: a a' rs)
  case (Cons q qs)
  obtain a1 r where q: "cmd_spec_step a q = (a1, r)" by (cases "cmd_spec_step a q")
  obtain a2 rs2 where qs: "run_calls cmd_spec_step a1 qs = (a2, rs2)" by (cases "run_calls cmd_spec_step a1 qs")
  show ?case using Cons.prems Cons.IH [OF qs] cmd_spec_step_reply [OF q] q qs by auto
qed simp

lemma run_frame:
  assumes "kv_inv (db_kv db)" "calls_ok cmd_call_ok cmd_spec_step (db_abs db) qs" "run_calls cmd_step db qs = (db', rs)"
  shows "db' = db\<lparr>db_kv := db_kv db', db_log := db_log db'\<rparr>"
  using assms
proof (induction qs arbitrary: db rs)
  case (Cons q qs)
  obtain db1 r where q: "cmd_step db q = (db1, r)" by (cases "cmd_step db q")
  obtain db2 rs2 where qs: "run_calls cmd_step db1 qs = (db2, rs2)" by (cases "run_calls cmd_step db1 qs")
  have ok: "cmd_call_ok (db_abs db) q" using Cons.prems by simp
  note step = cmd_step_spec [OF Cons.prems(1) ok q]
  have db2: "db2 = db'" using Cons.prems(3) q qs by simp
  have "db' = db1\<lparr>db_kv := db_kv db', db_log := db_log db'\<rparr>"
    using Cons.IH [OF step(1) _ qs [unfolded db2]] Cons.prems(2) step(2) by simp
  also have "\<dots> = db\<lparr>db_kv := db_kv db', db_log := db_log db'\<rparr>" by (subst step(3)) simp
  finally show ?case .
qed simp

section \<open>The log\<close>

text \<open>
  A pop that removes an empty string is answered as if there were nothing to remove, and not logged.
\<close>

definition pops_empty :: "(string \<rightharpoonup> avalue) \<Rightarrow> string list \<Rightarrow> bool" where
  "pops_empty m args \<longleftrightarrow>
     (case m (key1 args) of
        Some (AList xs) \<Rightarrow> xs \<noteq> [] \<and> (hd args = ''lpop'' \<and> hd xs = [] \<or> hd args = ''rpop'' \<and> last xs = [])
      | _ \<Rightarrow> False)"

text \<open>A plan whose command changes nothing when it is not logged.\<close>

definition logs_changes :: "string \<times> plan \<times> replies \<Rightarrow> bool" where
  "logs_changes e \<longleftrightarrow>
     (case e of (opcode, pl, rep) \<Rightarrow>
        \<forall>args m op m' r. pl args = Inr op \<longrightarrow> kv_spec m op = (m', r) \<longrightarrow> hd args = opcode \<longrightarrow>
          \<not> pops_empty m args \<longrightarrow> \<not> snd (rep args r) \<longrightarrow> m' = m)"

lemma split_pairs_nonempty: "length xs \<ge> 2 \<Longrightarrow> snd (split_pairs xs) \<noteq> []"
  by (induction xs rule: split_pairs.induct) (auto split: prod.splits)

lemma length_split_pairs: "length (fst (split_pairs xs)) = length (snd (split_pairs xs))"
  by (induction xs rule: split_pairs.induct) (auto split: prod.splits)

lemma hset_syntax: "CheckSyntax args 1 (- 1) True \<Longrightarrow> snd (split_pairs (drop 2 args)) \<noteq> []"
proof (rule split_pairs_nonempty)
  assume a: "CheckSyntax args 1 (- 1) True"
  then have "even (length args)" "length args \<ge> 3" by (auto simp: CheckSyntax_def Let_def split: if_splits)
  then have "length args \<ge> 4" by presburger
  then show "length (drop 2 args) \<ge> 2" by simp
qed

lemma cmd_table_logs: "list_all logs_changes cmd_table"
  unfolding cmd_table_def list.pred_inject
  by (intro conjI TrueI)
    (auto simp: logs_changes_def with_syntax_def int_operand_def pops_empty_def plan_defs length_split_pairs
      dest!: hset_syntax split: if_splits option.splits sum.splits avalue.splits list.splits)

lemma cmd_spec_unlogged:
  assumes "cmd_ok m args" "\<not> pops_empty m args" "cmd_spec m args = (m', msg, False)"
  shows "m' = m"
proof (cases "plan_of (hd args) args")
  case (Inl msg)
  then show ?thesis using assms(3) by (simp add: cmd_spec_def)
next
  case (Inr op)
  obtain pl rep where e: "map_of cmd_table (hd args) = Some (pl, rep)" using assms(1) by (auto simp: cmd_ok_def)
  obtain r where r: "kv_spec m op = (m', r)" "\<not> snd (rep args r)"
    using assms(3) Inr e by (auto simp: cmd_spec_def replies_of_def split: prod.splits)
  have "logs_changes (hd args, pl, rep)" using cmd_table_logs map_of_SomeD [OF e] by (auto simp: list_all_iff)
  moreover have "pl args = Inr op" using Inr e by (simp add: plan_of_def)
  ultimately show ?thesis using r assms(2) unfolding logs_changes_def by blast
qed

lemma c_tolower_idem: "c_tolower (c_tolower x) = c_tolower x"
proof (cases "65 \<le> (of_char x :: nat) \<and> (of_char x :: nat) \<le> 90")
  case True
  then have "of_char (c_tolower x) = (of_char x :: nat) + 32" by (simp add: c_tolower_def)
  then show ?thesis using True by (subst c_tolower_def) simp
qed (auto simp: c_tolower_def)

lemma lower_op_idem [simp]: "lower_op (lower_op args) = lower_op args"
  by (cases args) (simp_all add: lower_op_def c_tolower_idem)

definition replayable_call :: "(string \<rightharpoonup> avalue) \<times> string list list option \<Rightarrow> 'g ctx \<times> string list \<Rightarrow> bool" where
  "replayable_call a q \<longleftrightarrow> cmd_call_ok a q \<and> c_sync (fst q) \<and> \<not> pops_empty (fst a) (lower_op (snd q))"

text \<open>
  The log of a run of the specification: each of its commands, run on the map the commands before it have
  built, is covered by the specification and logged again, and together they take
  the first map to the last.
\<close>

definition logs_command :: "(string \<rightharpoonup> avalue) \<Rightarrow> string list \<Rightarrow> (string \<rightharpoonup> avalue) \<Rightarrow> bool" where
  "logs_command m c m' \<longleftrightarrow> lower_op c = c \<and> cmd_ok m c \<and> (\<exists>msg. cmd_spec m c = (m', msg, True))"

fun log_run :: "(string \<rightharpoonup> avalue) \<Rightarrow> string list list \<Rightarrow> (string \<rightharpoonup> avalue) \<Rightarrow> bool" where
  "log_run m [] m' \<longleftrightarrow> m' = m"
| "log_run m (c # cs) m'' \<longleftrightarrow> (\<exists>m'. logs_command m c m' \<and> log_run m' cs m'')"

lemma spec_log_run:
  assumes "calls_ok replayable_call cmd_spec_step (m, Some l) qs" "run_calls cmd_spec_step (m, Some l) qs = ((m', l'), rs)"
  shows "\<exists>cmds. l' = Some (l @ cmds) \<and> log_run m cmds m'"
  using assms
proof (induction qs arbitrary: m l rs)
  case (Cons q qs)
  let ?c = "lower_op (snd q)"
  obtain m1 msg logged where s: "cmd_spec m ?c = (m1, msg, logged)" by (cases "cmd_spec m ?c")
  have ok: "cmd_ok m ?c" "c_sync (fst q)" "\<not> pops_empty m ?c"
    using Cons.prems(1) by (simp_all add: replayable_call_def cmd_call_ok_def)
  have step: "cmd_spec_step (m, Some l) q = ((m1, Some (if logged then l @ [?c] else l)), Some msg)"
    using s ok by (simp add: cmd_spec_step_def)
  obtain cmds where c: "l' = Some ((if logged then l @ [?c] else l) @ cmds)" "log_run m1 cmds m'"
    using Cons.prems step Cons.IH [of m1 "if logged then l @ [?c] else l"] by (auto split: prod.splits)
  show ?case
  proof (cases logged)
    case True
    then have "logs_command m ?c m1" using s ok(1) by (simp add: logs_command_def)
    then show ?thesis using c True by (intro exI [of _ "?c # cmds"]) auto
  next
    case False
    then have "m1 = m" using cmd_spec_unlogged [OF ok(1,3)] s by simp
    then show ?thesis using c False by auto
  qed
next
  case Nil
  then show ?case by (intro exI [of _ "[]"]) auto
qed

text \<open>Commands that the specification covers when they run one after the other, and the map they build.\<close>

fun covered :: "(string \<rightharpoonup> avalue) \<Rightarrow> string list list \<Rightarrow> (string \<rightharpoonup> avalue) \<Rightarrow> bool" where
  "covered m [] m' \<longleftrightarrow> m' = m"
| "covered m (c # cs) m' \<longleftrightarrow> lower_op c = c \<and> cmd_ok m c \<and> covered (fst (cmd_spec m c)) cs m'"

lemma covered_run:
  assumes "covered m cmds m'" "length cs = length cmds" "\<forall>c \<in> set cs. \<not> c_evict c"
  shows "calls_ok cmd_call_ok cmd_spec_step (m, l) (zip cs cmds) \<and> (\<exists>l' rs. run_calls cmd_spec_step (m, l) (zip cs cmds) = ((m', l'), rs))"
  using assms
proof (induction cmds arbitrary: m l cs)
  case (Cons cmd cmds)
  then obtain c cs' where cs: "cs = c # cs'" by (cases cs) auto
  obtain m1 msg0 lg where sp: "cmd_spec m cmd = (m1, msg0, lg)" by (cases "cmd_spec m cmd")
  obtain l1 msg where st: "cmd_spec_step (m, l) (c, cmd) = ((fst (cmd_spec m cmd), l1), Some msg)"
    using Cons.prems(1) sp by (simp add: cmd_spec_step_def)
  have ok: "cmd_call_ok (m, l) (c, cmd)" using Cons.prems cs by (simp add: cmd_call_ok_def)
  have "calls_ok cmd_call_ok cmd_spec_step (fst (cmd_spec m cmd), l1) (zip cs' cmds) \<and>
      (\<exists>l' rs. run_calls cmd_spec_step (fst (cmd_spec m cmd), l1) (zip cs' cmds) = ((m', l'), rs))"
    using Cons.prems cs by (intro Cons.IH) auto
  then show ?case using st ok cs by auto
qed simp

lemma log_run_covered: "log_run m cmds m' \<Longrightarrow> covered m cmds m'"
  by (induction cmds arbitrary: m) (auto simp: logs_command_def)

lemma calls_ok_mono:
  assumes "calls_ok ok spec a qs" "\<And>a q. ok a q \<Longrightarrow> ok' a q"
  shows "calls_ok ok' spec a qs"
  using assms by (induction qs arbitrary: a) auto

lemma cmd_step_one:
  assumes "kv_inv (db_kv db)" "\<not> c_evict c" "cmd_ok (kv_abs (db_kv db)) (lower_op args)"
    and "cmd_spec (kv_abs (db_kv db)) (lower_op args) = (m', msg, logged)"
  obtains db' where "HandleCommand c db args = Some (Inr (db', msg))" "kv_inv (db_kv db')" "kv_abs (db_kv db') = m'"
    "db' = db\<lparr>db_kv := db_kv db', db_log := db_log db'\<rparr>"
proof -
  obtain db' r where st: "cmd_step db (c, args) = (db', r)" by (cases "cmd_step db (c, args)")
  have ok: "cmd_call_ok (db_abs db) (c, args)" using assms(2,3) by (simp add: cmd_call_ok_def db_abs_def)
  note sp = cmd_step_spec [OF assms(1) ok st]
  have r: "r = Some msg" "kv_abs (db_kv db') = m'" using sp(2) assms(4) by (simp_all add: cmd_spec_step_def db_abs_def)
  have "HandleCommand c db args = Some (Inr (db', msg))"
    using st r(1) by (auto simp: cmd_step_def split: option.splits sum.splits)
  then show thesis using that sp(1,3) r(2) by blast
qed

lemma log_of_run:
  assumes "db_kv db0 = KVContainer_new" "db_log db0 = Some []"
    and "calls_ok replayable_call cmd_spec_step (Map.empty, Some []) qs"
    and "run_calls cmd_step db0 qs = (db, rs)" "db_log db = Some cmds"
  shows "log_run Map.empty cmds (kv_abs (db_kv db))"
proof -
  have inv: "kv_inv (db_kv db0)" using assms(1) kv_inv_new by simp
  have abs: "db_abs db0 = (Map.empty, Some [])" using assms(1,2) kv_inv_new by (simp add: db_abs_def)
  have "calls_ok cmd_call_ok cmd_spec_step (db_abs db0) qs"
    unfolding abs by (rule calls_ok_mono [OF assms(3)]) (simp add: replayable_call_def)
  from server_calls.run_refines [OF inv this assms(4)]
  have run: "run_calls cmd_spec_step (Map.empty, Some []) qs = ((kv_abs (db_kv db), Some cmds), rs)"
    using assms(5) unfolding abs by (simp add: db_abs_def)
  show ?thesis using spec_log_run [OF assms(3) run] by simp
qed

lemmas log_covered = log_run_covered [OF log_of_run]

lemma log_replays:
  assumes "db_kv db0 = KVContainer_new" "db_log db0 = Some []"
    and "calls_ok replayable_call cmd_spec_step (Map.empty, Some []) qs"
    and "run_calls cmd_step db0 qs = (db, rs)" "db_log db = Some cmds"
    and "db_kv dbr = KVContainer_new" "length cs = length cmds" "\<forall>c \<in> set cs. \<not> c_evict c"
  shows "calls_ok cmd_call_ok cmd_spec_step (db_abs dbr) (zip cs cmds)"
    "\<exists>k' rs'. run_calls cmd_spec_step (db_abs dbr) (zip cs cmds) = ((kv_abs (db_kv db), k'), rs')"
proof -
  have abs: "db_abs dbr = (Map.empty, db_log dbr)" using assms(6) kv_inv_new by (simp add: db_abs_def)
  note run = covered_run [OF log_covered [OF assms(1-5)] assms(7,8), of "db_log dbr", folded abs]
  show "calls_ok cmd_call_ok cmd_spec_step (db_abs dbr) (zip cs cmds)"
    "\<exists>k' rs'. run_calls cmd_spec_step (db_abs dbr) (zip cs cmds) = ((kv_abs (db_kv db), k'), rs')"
    using run by blast+
qed

section \<open>A sample server\<close>

definition sample_ctx :: "u64 \<Rightarrow> unit ctx" where
  "sample_ctx now =
     \<lparr>c_sync = True, c_now = now, c_sec = now div 1000, c_readings = [], c_rand = (\<lambda>g a b. (a, g)), c_policy = 0,
      c_evict = False, c_bgsave = True, c_write = (\<lambda>fd msg. length msg), c_order = (\<lambda>l. l), c_session = ''s''\<rparr>"

definition sample_db :: "unit db" where
  "sample_db =
     \<lparr>db_kv = KVContainer_new, db_expires = Map.empty, db_timers = TimeEventHolder, db_log = Some [], db_rng = (),
      db_sessions = [''s'' \<mapsto> Session_new 5], db_subs = Map.empty\<rparr>"

lemmas cmd_eval = plan_of_def replies_of_def cmd_table_def with_syntax_def CheckSyntax_def key1_def cmd_ok_def
  cmd_spec_def a_list_def or_new_def write_int_def int_val_def read_str_def str_val_def Key_def c_str_def

lemma sample_inv_abs: "kv_inv (db_kv sample_db)" "db_abs sample_db = (Map.empty, Some [])"
  using kv_inv_new by (simp_all add: sample_db_def db_abs_def)

definition sample_requests :: "(unit ctx \<times> string list) list" where
  "sample_requests = [(sample_ctx 1, [''SET'', ''n'', ''41'']), (sample_ctx 2, [''Incr'', ''n'']), (sample_ctx 3, [''lpush'', ''l'', ''a'', ''b'']),
     (sample_ctx 4, [''get'', ''l'']), (sample_ctx 5, [''lpop'', ''l''])]"

lemma sample_low:
  "lower_op [''SET'', ''n'', ''41''] = [''set'', ''n'', ''41'']" "lower_op [''Incr'', ''n''] = [''incr'', ''n'']"
  "lower_op [''lpush'', ''l'', ''a'', ''b''] = [''lpush'', ''l'', ''a'', ''b'']" "lower_op [''get'', ''l''] = [''get'', ''l'']"
  "lower_op [''lpop'', ''l''] = [''lpop'', ''l'']"
  by code_simp+

lemma sample_number: "CanConvertToInt64 ''41'' = Some 41"
  by code_simp

lemmas sample_eval = sample_requests_def replayable_call_def cmd_call_ok_def sample_low sample_ctx_def cmd_spec_step_def
  cmd_eval sample_number in_int64_def pops_empty_def pop_str_def

lemma sample_ok: "calls_ok replayable_call cmd_spec_step (Map.empty, Some []) sample_requests"
  by (simp add: sample_eval)

lemma sample_run: "\<exists>rs. run_calls cmd_spec_step (Map.empty, Some []) sample_requests =
   (([''n'' \<mapsto> AInt 42, ''l'' \<mapsto> AList [''a'']], Some [[''set'', ''n'', ''41''], [''incr'', ''n''], [''lpush'', ''l'', ''a'', ''b''], [''lpop'', ''l'']]), rs)"
  by (simp add: sample_eval)

lemma sample_call_ok: "calls_ok cmd_call_ok cmd_spec_step (db_abs sample_db) sample_requests"
  unfolding sample_inv_abs(2) by (rule calls_ok_mono [OF sample_ok]) (simp add: replayable_call_def)

section \<open>Properties\<close>



text \<open>
  C5. The log records the container. Start a server with an empty container and an empty
  log and run any synchronized commands, none of which pops an empty string. Running the commands
  of the log, in order, on another empty container (at other times, on a server in any other
  state, and without logging again) rebuilds exactly the same map from keys to values, and
  never faults.
\<close>

theorem log_replay:
  assumes "db_kv db0 = KVContainer_new" "db_log db0 = Some []"
    and "calls_ok replayable_call cmd_spec_step (Map.empty, Some []) qs"
    and "run_calls cmd_step db0 qs = (db, rs)" "db_log db = Some cmds"
    and "db_kv dbr = KVContainer_new" "length cs = length cmds" "\<forall>c \<in> set cs. \<not> c_evict c"
    and "run_calls cmd_step dbr (zip cs cmds) = (db', rs')"
  shows "kv_abs (db_kv db') = kv_abs (db_kv db) \<and> None \<notin> set rs'"
proof -
  obtain k' rs1 where again: "run_calls cmd_spec_step (db_abs dbr) (zip cs cmds) = ((kv_abs (db_kv db), k'), rs1)"
    using log_replays(2) [OF assms(1-8)] by blast
  have "kv_inv (db_kv dbr)" using assms(6) kv_inv_new by simp
  from server_calls.run_refines [OF this log_replays(1) [OF assms(1-8)] assms(9)] again
  show ?thesis using spec_replies [OF again] by (simp add: db_abs_def)
qed

theorem log_replay_witness:
  "\<exists>db rs cmds db' rs'. run_calls cmd_step sample_db sample_requests = (db, rs) \<and> db_log db = Some cmds \<and>
     run_calls cmd_step sample_db (zip (replicate 4 (sample_ctx 9)) cmds) = (db', rs') \<and> None \<notin> set rs' \<and>
     kv_abs (db_kv db') = [''n'' \<mapsto> AInt 42, ''l'' \<mapsto> AList [''a'']]"
proof -
  let ?cmds = "[[''set'', ''n'', ''41''], [''incr'', ''n''], [''lpush'', ''l'', ''a'', ''b''], [''lpop'', ''l'']]"
  obtain db rs where run: "run_calls cmd_step sample_db sample_requests = (db, rs)"
    by (cases "run_calls cmd_step sample_db sample_requests")
  from server_calls.run_refines [OF sample_inv_abs(1) sample_call_ok run] sample_run
  have db: "kv_abs (db_kv db) = [''n'' \<mapsto> AInt 42, ''l'' \<mapsto> AList [''a'']]" "db_log db = Some ?cmds"
    unfolding sample_inv_abs(2) by (auto simp: db_abs_def)
  obtain db' rs' where again: "run_calls cmd_step sample_db (zip (replicate 4 (sample_ctx 9)) ?cmds) = (db', rs')"
    by (cases "run_calls cmd_step sample_db (zip (replicate 4 (sample_ctx 9)) ?cmds)")
  have start: "db_kv sample_db = KVContainer_new" "db_log sample_db = Some []" by (simp_all add: sample_db_def)
  have cs: "length (replicate 4 (sample_ctx 9)) = length ?cmds" "\<forall>c \<in> set (replicate 4 (sample_ctx 9)). \<not> c_evict c"
    by (simp_all add: sample_ctx_def)
  from log_replay [OF start sample_ok run db(2) start(1) cs again]
  show ?thesis using run again db by auto
qed

text \<open>
  What \<open>SET\<close> stores \<open>GET\<close> returns, byte for byte, whatever the key held before, whether the
  value is kept as a 64-bit integer or as a string, and whatever the case of the two opcodes; any
  later command that leaves the key alone may come between (the histories above).
\<close>

theorem set_get_roundtrip:
  assumes "kv_inv (db_kv db)" "length v \<le> 2 ^ 31" "\<not> c_evict c" "\<not> c_evict c'"
    and "map c_tolower set_op = ''set''" "map c_tolower get_op = ''get''"
  shows "\<exists>db' db''. HandleCommand c db [set_op, k, v] = Some (Inr (db', kOkMsg)) \<and>
    HandleCommand c' db' [get_op, k] = Some (Inr (db'', PackStringValueReply v)) \<and>
    kv_abs (db_kv db'') = (kv_abs (db_kv db))(Key k \<mapsto>
      (case CanConvertToInt64 v of Some i \<Rightarrow> AInt i | None \<Rightarrow> AStr v))"
proof -
  let ?m = "kv_abs (db_kv db)" and ?v = "case CanConvertToInt64 v of Some i \<Rightarrow> AInt i | None \<Rightarrow> AStr v"
  have low: "lower_op [set_op, k, v] = [''set'', k, v]" "lower_op [get_op, k] = [''get'', k]"
    using assms(5,6) by (simp_all add: lower_op_def)
  have plans: "plan_of ''set'' [''set'', k, v] =
      (case CanConvertToInt64 v of Some i \<Rightarrow> Inr (DoSetInt (Key k) i) | None \<Rightarrow> Inr (DoSetString (Key k) v))"
    "plan_of ''get'' [''get'', k] = Inr (DoGet (Key k))"
    "replies_of ''set'' args r = (kOkMsg, True)" "replies_of ''get'' args r = read_str args r" for args r
    by (simp_all add: plan_of_def replies_of_def cmd_table_def with_syntax_def CheckSyntax_def key1_def split: option.split)
  have table: "map_of cmd_table ''set'' \<noteq> None" "map_of cmd_table ''get'' \<noteq> None" by (simp_all add: cmd_table_def)
  have num: "CanConvertToInt64 v = Some i \<Longrightarrow> in_int64 i \<and> std_to_string i = v" for i
    by (simp add: CanConvertToInt64_iff)
  have ok: "cmd_ok ?m [''set'', k, v]" "cmd_spec ?m [''set'', k, v] = (?m(Key k \<mapsto> ?v), kOkMsg, True)"
    using assms(2) by (auto simp: cmd_ok_def cmd_spec_def plans table dest: num split: option.splits)
  obtain db' where 1: "HandleCommand c db [set_op, k, v] = Some (Inr (db', kOkMsg))"
    and inv: "kv_inv (db_kv db')" and m': "kv_abs (db_kv db') = ?m(Key k \<mapsto> ?v)"
    using cmd_step_one [OF assms(1,3), of "[set_op, k, v]", unfolded low, OF ok] .
  have ok': "cmd_ok (kv_abs (db_kv db')) [''get'', k]"
    "cmd_spec (kv_abs (db_kv db')) [''get'', k] = (?m(Key k \<mapsto> ?v), PackStringValueReply v, False)"
    by (auto simp: cmd_ok_def cmd_spec_def plans table m' read_str_def str_val_def dest: num split: option.splits)
  obtain db'' where 2: "HandleCommand c' db' [get_op, k] = Some (Inr (db'', PackStringValueReply v))"
    "kv_abs (db_kv db'') = ?m(Key k \<mapsto> ?v)"
    using cmd_step_one [OF inv assms(4), of "[get_op, k]", unfolded low, OF ok'] .
  with 1 show ?thesis by blast
qed

theorem set_get_roundtrip_witness:
  "\<exists>db' db''. HandleCommand (sample_ctx 1) sample_db [''SET'', ''k'', ''007''] = Some (Inr (db', ''+OK'' @ CRLF)) \<and>
     HandleCommand (sample_ctx 2) db' [''get'', ''k''] = Some (Inr (db'', PackStringValueReply ''007''))"
proof -
  have low: "map c_tolower ''SET'' = ''set''" "map c_tolower ''get'' = ''get''" by code_simp+
  have ev: "\<not> c_evict (sample_ctx n)" for n by (simp add: sample_ctx_def)
  have len: "length ''007'' \<le> 2 ^ 31" by simp
  from set_get_roundtrip [OF sample_inv_abs(1) len ev [of 1] ev [of 2] low, where k = "''k''"]
  show ?thesis by auto
qed

end
