(* ===== verification/CoreProps.thy ===== *)
theory CoreProps
  imports CoreCorrect
begin

text \<open>
  Properties of the container beyond the call histories: the enumerations of a hash and a set,
  the statistics, eviction, and two calls that do not do what their callers expect.
\<close>

section \<open>Enumerations\<close>

lemma zip_fields_values:
  assumes "rh_inv hkey d"
  shows "map_of (zip (Rehashable_AllKeys hkey d) (HashDict_AllValues d)) = dict_map d"
    "distinct (Rehashable_AllKeys hkey d)" "length (HashDict_AllValues d) = length (Rehashable_AllKeys hkey d)"
    "concat (map (\<lambda>e. [hkey e, hvalue e]) (Rehashable_AllEntries d)) =
     concat (map (\<lambda>(f, v). [f, v]) (zip (Rehashable_AllKeys hkey d) (HashDict_AllValues d)))"
  using rh_entries_distinct [OF assms]
  by (simp_all add: Rehashable_AllKeys_entries [OF assms] HashDict_AllValues_eq [OF assms]
      Rehashable_AllEntries_entries [OF assms] dict_map_def zip_key_value kv_of_def [abs_def] comp_def)

text \<open>
  The enumerations list a structure exactly: for a key that holds a hash in a well-formed container,
  \<open>HashGetAllFields\<close> lists its fields without repetition, \<open>HashGetAllValues\<close> the values in the
  same order, \<open>HashGetAllEntries\<close> alternates the two, and for a key that holds a set \<open>SetGetMembers\<close>
  lists its members without repetition; all succeed with \<open>kOkCode\<close> and leave the map as it is.
\<close>

theorem enumerations_exact:
  assumes "kv_inv s"
  shows "(kv_abs s k = Some (AHash h) \<longrightarrow>
      (case (HashGetAllFields now s k, HashGetAllValues now s k, HashGetAllEntries now s k) of
         ((s1, fs, e1), (s2, vs, e2), (s3, es, e3)) \<Rightarrow>
           distinct fs \<and> length vs = length fs \<and> map_of (zip fs vs) = h \<and>
           es = concat (map (\<lambda>(f, v). [f, v]) (zip fs vs)) \<and>
           [e1, e2, e3] = [kOkCode, kOkCode, kOkCode] \<and>
           kv_abs s1 = kv_abs s \<and> kv_abs s2 = kv_abs s \<and> kv_abs s3 = kv_abs s)) \<and>
    (kv_abs s k = Some (ASet A) \<longrightarrow>
      (case SetGetMembers now s k of (s1, xs, e1) \<Rightarrow>
         distinct xs \<and> set xs = A \<and> e1 = kOkCode \<and> kv_abs s1 = kv_abs s))"
proof (intro conjI impI)
  assume h: "kv_abs s k = Some (AHash h)"
  from assms show "case (HashGetAllFields now s k, HashGetAllValues now s k, HashGetAllEntries now s k) of
         ((s1, fs, e1), (s2, vs, e2), (s3, es, e3)) \<Rightarrow>
           distinct fs \<and> length vs = length fs \<and> map_of (zip fs vs) = h \<and>
           es = concat (map (\<lambda>(f, v). [f, v]) (zip fs vs)) \<and>
           [e1, e2, e3] = [kOkCode, kOkCode, kOkCode] \<and>
           kv_abs s1 = kv_abs s \<and> kv_abs s2 = kv_abs s \<and> kv_abs s3 = kv_abs s"
  proof (cases rule: get_hash_cases [of s k])
    case (found d)
    then have d: "dict_map d = h" using h by simp
    show ?thesis using found zip_fields_values [OF found(4)] d
      by (simp add: HashGetAllFields_def HashGetAllValues_def HashGetAllEntries_def upd_same)
  qed (use h in \<open>simp add: a_hash_def\<close>)
next
  assume a: "kv_abs s k = Some (ASet A)"
  from assms show "case SetGetMembers now s k of (s1, xs, e1) \<Rightarrow>
         distinct xs \<and> set xs = A \<and> e1 = kOkCode \<and> kv_abs s1 = kv_abs s"
  proof (cases rule: get_set_cases [of s k])
    case (found d)
    then show ?thesis using a rh_entries_distinct [OF found(4)]
      by (simp add: SetGetMembers_def upd_same Rehashable_AllKeys_entries [OF found(4)] set_elems_def)
  qed (use a in \<open>simp add: a_set_def\<close>)
qed

definition sample_container :: kvcontainer where
  "sample_container =
     fst (run_calls kv_step KVContainer_new
       [(3, DoSetInt ''a'' 1), (1, DoHSet ''h'' ''f'' ''v''), (2, DoSAddMany ''m'' [''x'', ''y'', ''x''])])"

lemma sample_inv: "kv_inv sample_container"
  and sample_abs: "kv_abs sample_container =
    [''a'' \<mapsto> AInt 1, ''h'' \<mapsto> AHash [''f'' \<mapsto> ''v''], ''m'' \<mapsto> ASet {''x'', ''y''}]"
proof -
  let ?calls = "[(3, DoSetInt ''a'' 1), (1, DoHSet ''h'' ''f'' ''v''), (2, DoSAddMany ''m'' [''x'', ''y'', ''x''])]"
  obtain results where run: "run_calls kv_step KVContainer_new ?calls = (sample_container, results)"
    by (metis sample_container_def prod.collapse)
  have ok: "kv_calls_ok Map.empty ?calls" by (simp add: a_hash_def a_set_def or_new_def in_int64_def)
  note r = kv_run [OF ok run]
  show "kv_inv sample_container" by (rule r(1))
  show "kv_abs sample_container =
    [''a'' \<mapsto> AInt 1, ''h'' \<mapsto> AHash [''f'' \<mapsto> ''v''], ''m'' \<mapsto> ASet {''x'', ''y''}]"
    using r(2) by (auto simp add: a_hash_def a_set_def or_new_def insert_commute)
qed

theorem enumerations_exact_witness:
  "(case SetGetMembers 7 sample_container ''m'' of (s1, xs, e1) \<Rightarrow> distinct xs \<and> set xs = {''x'', ''y''} \<and> e1 = 200) \<and>
   (case HashGetAllFields 7 sample_container ''h'' of (s1, fs, e1) \<Rightarrow> e1 = 200)"
proof
  have m: "kv_abs sample_container ''m'' = Some (ASet {''x'', ''y''})" by (simp add: sample_abs)
  show "case SetGetMembers 7 sample_container ''m'' of (s1, xs, e1) \<Rightarrow> distinct xs \<and> set xs = {''x'', ''y''} \<and> e1 = 200"
    using enumerations_exact [OF sample_inv, THEN conjunct2, THEN mp, OF m, of 7]
    by (simp only: split_beta)
  have h: "kv_abs sample_container ''h'' = Some (AHash [''f'' \<mapsto> ''v''])" by (simp add: sample_abs)
  show "case HashGetAllFields 7 sample_container ''h'' of (s1, fs, e1) \<Rightarrow> e1 = 200"
    using enumerations_exact [OF sample_inv, THEN conjunct1, THEN mp, OF h, of 7]
    by (simp only: split_beta prod.case) simp
qed

section \<open>Statistics\<close>

lemma length_filter_items:
  assumes "kv_inv s"
  shows "length (filter (\<lambda>(k, obj). P obj) (all_items s)) = card {k. \<exists>obj. find_obj s k = Some obj \<and> P obj}"
proof -
  let ?f = "filter (\<lambda>(k, obj). P obj) (all_items s)"
  note d = all_items_distinct [OF assms]
  have "distinct (map fst ?f)" using d(1) by (rule distinct_map_filter)
  moreover have "fst ` set ?f = {k. \<exists>obj. find_obj s k = Some obj \<and> P obj}"
    using d by (force simp flip: d(2) simp: image_iff)
  ultimately show ?thesis using distinct_card [of "map fst ?f"] by simp
qed

text \<open>
  \<open>Overview\<close> reports the content truly: the five counts by type are the numbers of keys whose
  value has that type, so that together they are \<open>NumItems\<close>.
\<close>

theorem overview_counts:
  assumes "kv_inv s"
  shows "count_type s t = card {k. \<exists>v. kv_abs s k = Some v \<and> atype v = t} \<and>
    count_type s OBJECT_INT + count_type s OBJECT_STRING + count_type s OBJECT_LIST +
      count_type s OBJECT_HASH + count_type s OBJECT_SET = NumItems s"
proof -
  have "count_type s t = card {k. \<exists>v. kv_abs s k = Some v \<and> atype v = t}"
    using length_filter_items [OF assms, of "\<lambda>obj. vtype (vo_value obj) = t"]
    by (simp add: count_type_def kv_abs_find) (metis (no_types, lifting) atype_vabs)
  moreover have "length (filter (\<lambda>(k, obj). vtype (vo_value obj) = 1) xs) + length (filter (\<lambda>(k, obj). vtype (vo_value obj) = 2) xs) +
      length (filter (\<lambda>(k, obj). vtype (vo_value obj) = 3) xs) + length (filter (\<lambda>(k, obj). vtype (vo_value obj) = 4) xs) +
      length (filter (\<lambda>(k, obj). vtype (vo_value obj) = 5) xs) = length xs" for xs :: bucket
  proof (induction xs)
    case (Cons x xs)
    obtain k obj where "x = (k, obj)" by fastforce
    then show ?case using Cons by (cases "vo_value obj") simp_all
  qed simp
  ultimately show ?thesis
    by (simp add: count_type_def NumItems_def all_items_def length_concat)
qed

theorem overview_counts_witness:
  "count_type sample_container OBJECT_HASH = card {k. \<exists>v. kv_abs sample_container k = Some v \<and> atype v = OBJECT_HASH}"
  using overview_counts [OF sample_inv, of OBJECT_HASH] by simp

section \<open>Eviction\<close>

text \<open>What the code relies on in \<open>std::uniform_int_distribution\<close>: a drawn number is in the interval.\<close>

definition rand_in_range :: "'g rand \<Rightarrow> bool" where
  "rand_in_range rand \<longleftrightarrow> (\<forall>g a b. a \<le> b \<longrightarrow> a \<le> fst (rand g a b) \<and> fst (rand g a b) \<le> b)"

lemma draw_idx_less:
  assumes "rand_in_range rand" "keys_pool s \<noteq> []" "length (keys_pool s) < 2 ^ 31" "draw_idx rand g s = (idx, g')"
  shows "idx < length (keys_pool s)"
proof -
  let ?n = "int (length (keys_pool s))"
  have w: "wrap32 ?n = ?n" using assms(3) by (intro wrap32_id) (simp add: in_int32_def)
  have "0 \<le> ?n - 1" using assms(2) by (cases "keys_pool s") auto
  then have "0 \<le> fst (rand g 0 (?n - 1)) \<and> fst (rand g 0 (?n - 1)) \<le> ?n - 1"
    using assms(1) unfolding rand_in_range_def by blast
  then show ?thesis using assms(4) by (auto simp: draw_idx_def w split: prod.splits)
qed

lemma draw_candidates_ok:
  assumes "rand_in_range rand" "keys_pool s \<noteq> []" "length (keys_pool s) < 2 ^ 31" "set cs \<subseteq> set (keys_pool s)"
  shows "\<exists>cs' g'. draw_candidates rand n g s cs = Inr (cs', g') \<and> set cs \<subseteq> set cs' \<and>
    set cs' \<subseteq> set (keys_pool s) \<and> (0 < n \<longrightarrow> cs' \<noteq> [])"
  using assms(4)
proof (induction n arbitrary: g cs)
  case (Suc n)
  obtain idx g1 where d: "draw_idx rand g s = (idx, g1)" by fastforce
  have idx: "idx < length (keys_pool s)" using draw_idx_less [OF assms(1-3) d] .
  let ?key = "keys_pool s ! idx"
  let ?cs = "if ?key \<in> set cs then cs else cs @ [?key]"
  have "set ?cs \<subseteq> set (keys_pool s)" using Suc.prems idx by auto
  from Suc.IH [OF this, of g1] obtain cs' g' where r: "draw_candidates rand n g1 s ?cs = Inr (cs', g')"
    "set ?cs \<subseteq> set cs'" "set cs' \<subseteq> set (keys_pool s)" by blast
  have "cs' \<noteq> []" "set cs \<subseteq> set cs'" using r(2) by (auto split: if_splits)
  then show ?case using r d idx by (auto simp: Let_def)
qed simp

lemma min_lv_time_ok:
  assumes "\<forall>k \<in> set (c # cs). find_obj s k \<noteq> None"
  shows "\<exists>k \<in> set (c # cs). min_lv_time s c cs = Inr k \<and>
    (\<forall>k' \<in> set (c # cs). lv_time (the (find_obj s k)) \<le> lv_time (the (find_obj s k')))"
  using assms
proof (induction cs arbitrary: c)
  case (Cons d cs)
  obtain a b where ab: "find_obj s d = Some a" "find_obj s c = Some b" using Cons.prems by auto
  let ?c = "if lv_time a < lv_time b then d else c"
  have "\<forall>k \<in> set (?c # cs). find_obj s k \<noteq> None" using Cons.prems by auto
  from Cons.IH [OF this] obtain k where k: "k \<in> set (?c # cs)" "min_lv_time s ?c cs = Inr k"
    "\<forall>k' \<in> set (?c # cs). lv_time (the (find_obj s k)) \<le> lv_time (the (find_obj s k'))" by blast
  have "k \<in> set (c # d # cs)" using k(1) by (auto split: if_splits)
  moreover have "\<forall>k' \<in> set (c # d # cs). lv_time (the (find_obj s k)) \<le> lv_time (the (find_obj s k'))"
    using k(3) ab by (auto split: if_splits)
  ultimately show ?case using k(2) ab by (intro bexI [of _ k]) simp_all
qed simp

text \<open>
  C29. One pass of the approximate LRU eviction: on a container with keys (fewer than \<open>2 ^ 31\<close>) the helper
  draws at most ten candidates from the pool, deletes a candidate that no other candidate has been
  unvisited for longer than, reports that key, and changes nothing else.
\<close>

theorem lru_pass_evicts_oldest:
  assumes "kv_inv s" "rand_in_range rand" "keys_pool s \<noteq> []" "length (keys_pool s) < 2 ^ 31"
  shows "\<exists>cs g' k s'. draw_candidates rand 10 g s [] = Inr (cs, g') \<and> set cs \<subseteq> dom (kv_abs s) \<and> k \<in> set cs \<and>
    (\<forall>k' \<in> set cs. lv_time (the (find_obj s k)) \<le> lv_time (the (find_obj s k'))) \<and>
    KeyEvictionLruHelper rand g s deleted = Inr (s', deleted @ [k], g') \<and>
    kv_inv s' \<and> find_obj s' = (find_obj s)(k := None)"
proof -
  obtain cs' g' where d: "draw_candidates rand 10 g s [] = Inr (cs', g')" "set cs' \<subseteq> set (keys_pool s)" "cs' \<noteq> []"
    using draw_candidates_ok [OF assms(2-4), of "[]" 10 g] by auto
  then obtain c cs where cs: "cs' = c # cs" by (cases cs') auto
  have found: "\<forall>k \<in> set (c # cs). find_obj s k \<noteq> None"
    using d(2) kv_objects.in_pool_iff [OF assms(1)] by (auto simp: cs)
  obtain k where k: "k \<in> set (c # cs)" "min_lv_time s c cs = Inr k"
    "\<forall>k' \<in> set (c # cs). lv_time (the (find_obj s k)) \<le> lv_time (the (find_obj s k'))"
    using min_lv_time_ok [OF found] by blast
  obtain s' b where del: "Delete s k = (s', b)" by fastforce
  have e: "KeyEvictionLruHelper rand g s deleted = Inr (s', deleted @ [k], g')" "kv_inv s'"
      "find_obj s' = (find_obj s)(k := None)"
    using Delete_correct [OF assms(1) del] found k(1,2) del d(1) assms(3)
    by (auto simp: KeyEvictionLruHelper_def cs)
  have "set cs' \<subseteq> dom (kv_abs s)" using d(2) pool_abs [OF assms(1)] by auto
  then show ?thesis using d(1) e k(1,3) cs by blast
qed

lemma sample_pool: "keys_pool sample_container \<noteq> []" "length (keys_pool sample_container) = 3"
proof -
  have "dom (kv_abs sample_container) = {''a'', ''h'', ''m''}" by (auto simp: sample_abs split: if_splits)
  then show l: "length (keys_pool sample_container) = 3"
    using kv_objects.pool_card [OF sample_inv] by (simp flip: dom_kv_abs)
  then show "keys_pool sample_container \<noteq> []" by auto
qed

definition first_rand :: "unit rand" where
  "first_rand g a b = (a, g)"

lemma first_rand_in_range: "rand_in_range first_rand"
  by (simp add: rand_in_range_def first_rand_def)

theorem lru_pass_evicts_oldest_witness:
  "\<exists>k s'. KeyEvictionLruHelper first_rand () sample_container [] = Inr (s', [k], ()) \<and> find_obj s' k = None"
  using lru_pass_evicts_oldest [OF sample_inv first_rand_in_range sample_pool(1), of "()" "[]"] sample_pool(2) by auto

lemma LruHelper_step:
  assumes "kv_inv s" "rand_in_range rand" "keys_pool s \<noteq> []" "length (keys_pool s) < 2 ^ 31"
  obtains k s' g' where "KeyEvictionLruHelper rand g s deleted = Inr (s', deleted @ [k], g')" "kv_inv s'"
    "k \<in> dom (kv_abs s)" "kv_abs s' = (kv_abs s)(k := None)" "length (keys_pool s') + 1 = length (keys_pool s)"
proof -
  obtain cs g1 where d: "draw_candidates rand 10 g s [] = Inr (cs, g1)" "set cs \<subseteq> set (keys_pool s)" "cs \<noteq> []"
    using draw_candidates_ok [OF assms(2-4), of "[]" 10 g] by auto
  then obtain c cs' where cs: "cs = c # cs'" by (cases cs) auto
  have found: "\<forall>k \<in> set (c # cs'). find_obj s k \<noteq> None"
    using d(2) kv_objects.in_pool_iff [OF assms(1)] by (auto simp: cs)
  obtain k where k: "k \<in> set (c # cs')" "min_lv_time s c cs' = Inr k" using min_lv_time_ok [OF found] by blast
  have "k \<in> set (keys_pool s)" using k(1) d(2) cs by blast
  then obtain i where i: "i < length (keys_pool s)" "keys_pool s ! i = k" by (metis in_set_conv_nth)
  obtain s' b where del: "Delete s k = (s', b)" by fastforce
  have "b \<and> length (keys_pool s') + 1 = length (keys_pool s)"
    using kv_objects.del_in_pool [OF assms(1) i(1)] i(2) del by simp
  moreover have "kv_inv s'" "kv_abs s' = (kv_abs s)(k := None)"
    using Delete_correct [OF assms(1) del] by (auto simp: kv_abs_def fun_eq_iff)
  moreover have "k \<in> dom (kv_abs s)" using k(1) found by (auto simp: dom_kv_abs)
  ultimately show thesis using that [of s' k g1] k(2) del d(1) assms(3) by (auto simp: KeyEvictionLruHelper_def cs)
qed

lemma lru_loop_correct:
  assumes "kv_inv s" "rand_in_range rand" "length (keys_pool s) < 2 ^ 31" "length (keys_pool s) \<le> length readings"
  shows "\<exists>s' evicted g'. lru_loop rand num 0 start readings g s deleted = Some (Inr (s', deleted @ evicted, g')) \<and>
    kv_inv s' \<and> distinct evicted \<and> set evicted \<subseteq> dom (kv_abs s) \<and> kv_abs s' = kv_abs s |` (- set evicted) \<and>
    (0 < num \<and> (\<forall>t \<in> set readings. t - start \<le> 25) \<longrightarrow> set evicted = dom (kv_abs s))"
  using assms(1,3,4)
proof (induction readings arbitrary: s g deleted)
  case Nil
  then have "keys_pool s = []" by simp
  moreover from this have "dom (kv_abs s) = {}" using pool_abs [OF Nil.prems(1)] by simp
  ultimately show ?case using Nil.prems(1) by (simp add: lru_loop.simps restrict_map_def)
next
  case (Cons t ts)
  show ?case
  proof (cases "keys_pool s = [] \<or> num = 0")
    case True
    moreover have "keys_pool s = [] \<Longrightarrow> dom (kv_abs s) = {}" using pool_abs [OF Cons.prems(1)] by simp
    ultimately show ?thesis using Cons.prems(1)
      by (intro exI [of _ s] exI [of _ "[]"] exI [of _ g]) (auto simp: lru_loop.simps restrict_map_def)
  next
    case False
    obtain k s1 g1 where h: "KeyEvictionLruHelper rand g s deleted = Inr (s1, deleted @ [k], g1)" "kv_inv s1"
      "k \<in> dom (kv_abs s)" "kv_abs s1 = (kv_abs s)(k := None)" "length (keys_pool s1) + 1 = length (keys_pool s)"
      using LruHelper_step [OF Cons.prems(1) assms(2) _ Cons.prems(2)] False by metis
    note unfold = lru_loop.simps [of rand num 0 start "t # ts" g s deleted]
    show ?thesis
    proof (cases "t - start > 25")
      case True
      then show ?thesis using False h unfold
        by (intro exI [of _ s1] exI [of _ "[k]"] exI [of _ g1]) (auto simp: restrict_map_def fun_eq_iff)
    next
      case in_time: False
      obtain s' ev g' where r: "lru_loop rand num 0 start ts g1 s1 (deleted @ [k]) = Some (Inr (s', (deleted @ [k]) @ ev, g'))"
        "kv_inv s'" "distinct ev" "set ev \<subseteq> dom (kv_abs s1)" "kv_abs s' = kv_abs s1 |` (- set ev)"
        "0 < num \<and> (\<forall>t \<in> set ts. t - start \<le> 25) \<longrightarrow> set ev = dom (kv_abs s1)"
        using Cons.IH [OF h(2), of g1 "deleted @ [k]"] Cons.prems h(5) by auto
      have "k \<notin> set ev" "set ev \<subseteq> dom (kv_abs s)" using r(4) h(4) by auto
      moreover have "kv_abs s' = kv_abs s |` (- set (k # ev))"
        by (auto simp: r(5) h(4) restrict_map_def fun_eq_iff)
      moreover have "set ev = dom (kv_abs s1) \<Longrightarrow> set (k # ev) = dom (kv_abs s)" using h(3,4) by auto
      ultimately show ?thesis using False in_time h(1,3) r unfold
        by (intro exI [of _ s'] exI [of _ "k # ev"] exI [of _ g']) auto
    qed
  qed
qed

text \<open>
  C30. The LRU eviction loop always ends, on at most as many clock readings as there are keys. The keys it reports are
  distinct keys of the map and exactly those that are gone. The number of keys asked for only matters when it is 0:
  as \<open>n_deleted\<close> is never incremented, a positive request evicts every key of the container unless
  25 ms pass first.
\<close>

theorem lru_eviction_ends:
  assumes "kv_inv s" "rand_in_range rand" "length (keys_pool s) < 2 ^ 31" "length (keys_pool s) \<le> length readings"
  shows "\<exists>s' evicted g'. KeyEvictionLru rand start readings g s num = Some (Inr (s', evicted, g')) \<and>
    kv_inv s' \<and> distinct evicted \<and> set evicted \<subseteq> dom (kv_abs s) \<and> kv_abs s' = kv_abs s |` (- set evicted) \<and>
    (0 < num \<and> (\<forall>t \<in> set readings. t - start \<le> 25) \<longrightarrow> set evicted = dom (kv_abs s))"
  using lru_loop_correct [OF assms, of num start g "[]"] by (simp add: KeyEvictionLru_def)

theorem lru_eviction_ends_witness:
  "\<exists>s' evicted. KeyEvictionLru first_rand 100 [101, 102, 103] () sample_container 1 = Some (Inr (s', evicted, ())) \<and>
     set evicted = {''a'', ''h'', ''m''} \<and> kv_abs s' = Map.empty"
proof -
  have dom: "dom (kv_abs sample_container) = {''a'', ''h'', ''m''}" by (auto simp: sample_abs split: if_splits)
  have t: "\<forall>t \<in> set [101, 102, 103]. t - 100 \<le> (25 :: u64)" by simp
  have len: "length (keys_pool sample_container) < 2 ^ 31"
    "length (keys_pool sample_container) \<le> length [101, 102, 103 :: u64]" by (simp_all add: sample_pool)
  obtain s' evicted g' where e: "KeyEvictionLru first_rand 100 [101, 102, 103] () sample_container 1 = Some (Inr (s', evicted, g'))"
    "kv_abs s' = kv_abs sample_container |` (- set evicted)"
    and all: "(0 :: nat) < 1 \<and> (\<forall>t \<in> set [101, 102, 103]. t - 100 \<le> (25 :: u64)) \<longrightarrow> set evicted = dom (kv_abs sample_container)"
    using lru_eviction_ends [OF sample_inv first_rand_in_range len, of 100 "()" 1] by blast
  have ev: "set evicted = dom (kv_abs sample_container)" using all t by blast
  have "kv_abs s' = Map.empty" unfolding e(2) ev by (auto simp: restrict_map_def fun_eq_iff)
  then show ?thesis using e(1) ev dom by auto
qed

lemma filter_nth_distinct:
  "distinct xs \<Longrightarrow> i < length xs \<Longrightarrow> filter (\<lambda>x. x \<noteq> xs ! i) xs = take i xs @ drop (Suc i) xs"
proof (induction xs arbitrary: i)
  case (Cons x xs)
  then show ?case by (cases i) (auto simp: filter_id_conv in_set_conv_nth)
qed simp

text \<open>
  C35. Random eviction reports the wrong keys. The deleted key is read through a reference into the pool after the
  deletion: when the drawn position is not the last one, the first reported key is the key behind it, which is
  still in the container; when it is the last one, a destroyed string is read.
\<close>

theorem random_eviction_reports_survivor:
  assumes "kv_inv s" "rand_in_range rand" "keys_pool s \<noteq> []" "length (keys_pool s) < 2 ^ 31"
    and "draw_idx rand g s = (idx, g')"
  shows "(if Suc idx < length (keys_pool s)
     then \<exists>s'. KeyEvictionRandom rand g s 1 = Inr (s', [keys_pool s ! Suc idx], g') \<and>
       kv_abs s' = (kv_abs s)(keys_pool s ! idx := None) \<and> kv_abs s' (keys_pool s ! Suc idx) \<noteq> None
     else KeyEvictionRandom rand g s 1 = Inl UseAfterFree)"
proof -
  let ?p = "keys_pool s" and ?k = "keys_pool s ! idx"
  have idx: "idx < length ?p" by (rule draw_idx_less [OF assms(2-5)])
  obtain s' b where del: "Delete s ?k = (s', b)" by fastforce
  have pool: "distinct ?p" "set ?p = dom (kv_abs s)" using pool_abs [OF assms(1)] by auto
  have d: "b" "length (keys_pool s') + 1 = length ?p" using kv_objects.del_in_pool [OF assms(1) idx del] by auto
  have k: "keys_pool s' = filter (\<lambda>x. x \<noteq> ?k) ?p" "kv_abs s' = (kv_abs s)(?k := None)"
    using Delete_correct [OF assms(1) del] by (auto simp: kv_abs_def fun_eq_iff)
  have p': "keys_pool s' = take idx ?p @ drop (Suc idx) ?p"
    unfolding k(1) by (rule filter_nth_distinct [OF pool(1) idx])
  have min: "min (length ?p) (Suc 0) = Suc 0" using assms(3) by (cases ?p) auto
  have run: "KeyEvictionRandom rand g s (Suc 0) = evict_random rand (Suc 0) g s []"
    unfolding KeyEvictionRandom_def min ..
  show ?thesis
  proof (cases "Suc idx < length ?p")
    case True
    then have n: "keys_pool s' ! idx = ?p ! Suc idx" using idx by (simp add: p' nth_append)
    have "?p ! Suc idx \<noteq> ?k" using True idx pool(1) by (simp add: nth_eq_iff_index_eq)
    moreover have "?p ! Suc idx \<in> dom (kv_abs s)" using True pool(2) by (metis nth_mem)
    ultimately show ?thesis using True idx d del n assms(5) k(2) by (auto simp: run)
  next
    case False
    then show ?thesis using idx d del assms(5) by (simp add: run)
  qed
qed

theorem random_eviction_reports_survivor_witness:
  "\<exists>s'. KeyEvictionRandom first_rand () sample_container 1 = Inr (s', [keys_pool sample_container ! 1], ()) \<and>
     kv_abs s' (keys_pool sample_container ! 1) \<noteq> None"
proof -
  have "draw_idx first_rand () sample_container = (0, ())" by (simp add: draw_idx_def first_rand_def)
  from random_eviction_reports_survivor [OF sample_inv first_rand_in_range sample_pool(1) _ this] sample_pool(2)
  show ?thesis by auto
qed

end
