(* ===== verification/CommandTypes.thy ===== *)
theory CommandTypes
  imports CommandsProps CoreProps
begin

text \<open>
  The typing discipline of the commands: a key has one type from its creation to its deletion or
  overwriting, and a command for another type is refused.
\<close>

text \<open>The commands that fit a value, and the commands that look at the type of the key.\<close>

fun fits :: "avalue \<Rightarrow> string \<Rightarrow> bool" where
  "fits (AInt i) opn \<longleftrightarrow> opn \<in> {''get'', ''incr'', ''decr'', ''incrby'', ''decrby'', ''append''}"
| "fits (AStr s) opn \<longleftrightarrow> opn \<in> {''get'', ''append''}"
| "fits (AList xs) opn \<longleftrightarrow> opn \<in> {''llen'', ''lpop'', ''rpop'', ''lpush'', ''rpush'', ''lrange'', ''lsetindex'', ''lindex''}"
| "fits (AHash h) opn \<longleftrightarrow> opn \<in> {''hset'', ''hget'', ''hdel'', ''hexists'', ''hlen''}"
| "fits (ASet A) opn \<longleftrightarrow> opn \<in> {''sadd'', ''sismember'', ''smismember'', ''srem'', ''scard''}"

abbreviation (input) typed_ops :: "string set" where
  "typed_ops \<equiv> {''get'', ''incr'', ''decr'', ''incrby'', ''decrby'', ''append'', ''llen'', ''lpop'', ''rpop'', ''lpush'', ''rpush'', ''lrange'',
     ''lsetindex'', ''lindex'', ''hset'', ''hget'', ''hdel'', ''hexists'', ''hlen'', ''sadd'', ''sismember'', ''smismember'', ''srem'', ''scard''}"

text \<open>A plan that refuses a value it does not fit. \<open>HGET\<close> with several fields is left out.\<close>

definition refuses :: "string \<times> plan \<times> replies \<Rightarrow> bool" where
  "refuses e \<longleftrightarrow>
     (case e of (opcode, pl, rep) \<Rightarrow> opcode \<in> typed_ops \<longrightarrow>
        (\<forall>args op m v. pl args = Inr op \<longrightarrow> m (key1 args) = Some v \<longrightarrow> \<not> fits v opcode \<longrightarrow>
           (opcode = ''hget'' \<longrightarrow> length args = 3) \<longrightarrow>
           fst (kv_spec m op) = m \<and> rep args (snd (kv_spec m op)) = (kWrongTypeMsg, False)))"

lemma cmd_table_refuses: "list_all refuses cmd_table"
  unfolding cmd_table_def list.pred_inject
  by (intro conjI TrueI)
    (auto simp: refuses_def with_syntax_def plan_defs length_split_pairs split: if_splits option.splits avalue.splits)

text \<open>A plan under which a value keeps its type; an integer that is appended to becomes a string.\<close>

definition keeps_types :: "string \<times> plan \<times> replies \<Rightarrow> bool" where
  "keeps_types e \<longleftrightarrow>
     (case e of (opcode, pl, rep) \<Rightarrow> opcode \<notin> {''set'', ''del''} \<longrightarrow>
        (\<forall>args op m k v. pl args = Inr op \<longrightarrow> m k = Some v \<longrightarrow>
           (\<exists>v'. fst (kv_spec m op) k = Some v' \<and>
              (atype v' = atype v \<or> opcode = ''append'' \<and> (\<exists>i. v = AInt i) \<and> (\<exists>s. v' = AStr s)))))"

lemma cmd_table_keeps_types: "list_all keeps_types cmd_table"
  unfolding cmd_table_def list.pred_inject
  by (intro conjI TrueI)
    (auto simp: keeps_types_def with_syntax_def plan_defs length_split_pairs split: if_splits option.splits avalue.splits sum.splits list.splits)

lemma table_entry:
  assumes "cmd_ok m args" "list_all P cmd_table"
  shows "P (hd args, plan_of (hd args), replies_of (hd args))"
proof -
  obtain pl rep where e: "map_of cmd_table (hd args) = Some (pl, rep)" using assms(1) by (auto simp: cmd_ok_def)
  then show ?thesis using assms(2) map_of_SomeD [OF e] by (auto simp: list_all_iff plan_of_def replies_of_def)
qed

lemma spec_keeps_types:
  assumes "cmd_ok m args" "hd args \<notin> {''set'', ''del''}" "m k = Some v"
  shows "\<exists>v'. fst (cmd_spec m args) k = Some v' \<and> (atype v' = atype v \<or> hd args = ''append'' \<and> (\<exists>i. v = AInt i) \<and> (\<exists>s. v' = AStr s))"
proof (cases "plan_of (hd args) args")
  case (Inr op)
  have "fst (cmd_spec m args) = fst (kv_spec m op)" using Inr by (simp add: cmd_spec_def split: prod.splits)
  moreover have "\<exists>v'. fst (kv_spec m op) k = Some v' \<and> (atype v' = atype v \<or> hd args = ''append'' \<and> (\<exists>i. v = AInt i) \<and> (\<exists>s. v' = AStr s))"
    using table_entry [OF assms(1) cmd_table_keeps_types] unfolding keeps_types_def case_prod_conv
    using assms(2,3) Inr by blast
  ultimately show ?thesis by simp
qed (use assms(3) in \<open>simp add: cmd_spec_def\<close>)

lemma spec_refuses:
  assumes "cmd_ok m args" "hd args \<in> typed_ops" "plan_of (hd args) args = Inr op" "m (key1 args) = Some v" "\<not> fits v (hd args)"
    "hd args = ''hget'' \<longrightarrow> length args = 3"
  shows "cmd_spec m args = (m, kWrongTypeMsg, False)"
proof -
  have "fst (kv_spec m op) = m \<and> replies_of (hd args) args (snd (kv_spec m op)) = (kWrongTypeMsg, False)"
    using table_entry [OF assms(1) cmd_table_refuses] assms(2-6) unfolding refuses_def case_prod_conv by blast
  then show ?thesis using assms(3) by (cases "kv_spec m op") (simp add: cmd_spec_def)
qed

section \<open>Properties\<close>

text \<open>
  C18. The typing of keys. Whatever data command runs, in every well-formed state, every key keeps the type of
  its value until it is overwritten by \<open>SET\<close> or deleted, with one exception: \<open>APPEND\<close> turns an integer into a string. A
  command with correct syntax on a key whose value has another type answers with the type error and
  changes neither the data nor the log; this holds for all 24 commands that look at the type
  of their key except \<open>HGET\<close> with several fields.
\<close>

theorem type_discipline:
  assumes "kv_inv (db_kv db)" "\<not> c_evict c" "cmd_ok (kv_abs (db_kv db)) (lower_op args)"
  shows "\<exists>db' msg. HandleCommand c db args = Some (Inr (db', msg)) \<and> kv_inv (db_kv db') \<and>
    (\<forall>k v. kv_abs (db_kv db) k = Some v \<and> hd (lower_op args) \<notin> {''set'', ''del''} \<longrightarrow>
       (\<exists>v'. kv_abs (db_kv db') k = Some v' \<and>
          (atype v' = atype v \<or> hd (lower_op args) = ''append'' \<and> (\<exists>i. v = AInt i) \<and> (\<exists>s. v' = AStr s)))) \<and>
    (\<forall>op v. hd (lower_op args) \<in> typed_ops \<and> plan_of (hd (lower_op args)) (lower_op args) = Inr op \<and>
       kv_abs (db_kv db) (key1 (lower_op args)) = Some v \<and> \<not> fits v (hd (lower_op args)) \<and> (hd (lower_op args) = ''hget'' \<longrightarrow> length args = 3) \<longrightarrow>
       msg = kWrongTypeMsg \<and> kv_abs (db_kv db') = kv_abs (db_kv db) \<and> db_log db' = db_log db)"
proof -
  let ?m = "kv_abs (db_kv db)" and ?a = "lower_op args"
  obtain m' msg logged where sp: "cmd_spec ?m ?a = (m', msg, logged)" by (cases "cmd_spec ?m ?a")
  obtain db' where h: "HandleCommand c db args = Some (Inr (db', msg))" "kv_inv (db_kv db')" "kv_abs (db_kv db') = m'"
    by (rule cmd_step_one [OF assms sp])
  have step: "cmd_step db (c, args) = (db', Some msg)" using h(1) by (simp add: cmd_step_def)
  have ok: "cmd_call_ok (db_abs db) (c, args)" using assms(2,3) by (simp add: cmd_call_ok_def db_abs_def)
  have log: "db_log db' = db_log db" if "\<not> logged"
    using cmd_step_spec(2) [OF assms(1) ok step] that sp by (simp add: cmd_spec_step_def db_abs_def)
  have len: "length ?a = length args" by (simp add: lower_op_def split: list.split)
  have keep: "\<exists>v'. m' k = Some v' \<and> (atype v' = atype v \<or> hd ?a = ''append'' \<and> (\<exists>i. v = AInt i) \<and> (\<exists>s. v' = AStr s))"
    if "?m k = Some v" "hd ?a \<notin> {''set'', ''del''}" for k v
    using spec_keeps_types [OF assms(3) that(2,1)] sp by simp
  have refuse: "msg = kWrongTypeMsg \<and> m' = ?m \<and> db_log db' = db_log db"
    if "hd ?a \<in> typed_ops" "plan_of (hd ?a) ?a = Inr op" "?m (key1 ?a) = Some v" "\<not> fits v (hd ?a)" "hd ?a = ''hget'' \<longrightarrow> length args = 3" for op v
    using spec_refuses [OF assms(3) that(1-4)] that(5) sp log len by simp
  note keeps = keep [folded h(3)] and refuses = refuse [folded h(3)]
  show ?thesis
    by (intro exI [of _ db'] exI [of _ msg] conjI h(1,2) allI impI; elim conjE) (use keeps refuses in blast)+
qed

theorem type_discipline_witness:
  "\<exists>db'. HandleCommand (sample_ctx 1) (sample_db\<lparr>db_kv := sample_container\<rparr>) [''INCR'', ''m''] = Some (Inr (db', kWrongTypeMsg)) \<and>
     kv_abs (db_kv db') = kv_abs sample_container"
proof -
  let ?db = "sample_db\<lparr>db_kv := sample_container\<rparr>"
  have low: "lower_op [''INCR'', ''m''] = [''incr'', ''m'']" by code_simp
  have k: "Key ''m'' = ''m''" by (simp add: Key_def c_str_def)
  have h: "kv_inv (db_kv ?db)" "\<not> c_evict (sample_ctx 1)" using sample_inv by (simp_all add: sample_ctx_def)
  have ok: "cmd_ok (kv_abs (db_kv ?db)) (lower_op [''INCR'', ''m''])" unfolding low by (simp add: cmd_eval)
  have v: "kv_abs sample_container (key1 [''incr'', ''m'']) = Some (ASet {''x'', ''y''})" by (simp add: sample_abs key1_def k)
  have p: "plan_of ''incr'' [''incr'', ''m''] = Inr (DoIncrBy ''m'' 1)" by (simp add: plan_of_def cmd_table_def with_syntax_def CheckSyntax_def key1_def k)
  from type_discipline [OF h ok] obtain db' msg where d: "HandleCommand (sample_ctx 1) ?db [''INCR'', ''m''] = Some (Inr (db', msg))"
    "\<forall>op v. ''incr'' \<in> typed_ops \<and> plan_of ''incr'' [''incr'', ''m''] = Inr op \<and> kv_abs sample_container (key1 [''incr'', ''m'']) = Some v \<and> \<not> fits v ''incr'' \<and>
       (''incr'' = ''hget'' \<longrightarrow> length [''INCR'', ''m''] = 3) \<longrightarrow>
       msg = kWrongTypeMsg \<and> kv_abs (db_kv db') = kv_abs sample_container \<and> db_log db' = db_log ?db"
    unfolding low by auto
  have "msg = kWrongTypeMsg \<and> kv_abs (db_kv db') = kv_abs sample_container"
    using d(2) [rule_format, of "DoIncrBy ''m'' 1" "ASet {''x'', ''y''}"] p v by simp
  then show ?thesis using d(1) by blast
qed

end
