(* ===== verification/Expiry.thy ===== *)
theory Expiry
  imports CommandsProps
begin

text \<open>
  Expiration: \<open>EXPIRE\<close>, \<open>EXPIREAT\<close> and \<open>TTL\<close> of \<open>src/src/net/commands.cpp\<close> together with the
  timers of the event loop. The state a client sees is a map from keys to deadlines; the
  program keeps it twice, as the list of time events and as \<open>sExpiresMap\<close>, a map from keys to pointers
  to time events. \<open>exp_inv\<close> says that the two agree; it holds in every state the server reaches
  by commands and timer passes, so no pointer of the map is dangling.
\<close>

section \<open>Deadlines\<close>

definition deadline :: "'g db \<Rightarrow> (string \<rightharpoonup> u64)" where
  "deadline db = map_of (map (\<lambda>ev. (te_callback ev, te_when ev)) (event_list (db_timers db)))"

definition exp_inv :: "'g db \<Rightarrow> bool" where
  "exp_inv db \<longleftrightarrow>
     tev_inv (db_timers db) \<and> distinct (map te_callback (event_list (db_timers db))) \<and>
     (\<forall>ev \<in> set (event_list (db_timers db)). te_count ev = 1) \<and>
     db_expires db = map_of (map (\<lambda>ev. (te_callback ev, te_id ev)) (event_list (db_timers db)))"

text \<open>Generic facts on association lists read off a list of records.\<close>

lemma map_of_pairs_Some:
  "distinct (map f xs) \<Longrightarrow> map_of (map (\<lambda>x. (f x, g x)) xs) k = Some v \<longleftrightarrow> (\<exists>x \<in> set xs. f x = k \<and> g x = v)"
  by (subst map_of_eq_Some_iff) (auto simp: comp_def)

lemma map_of_pairs_None: "map_of (map (\<lambda>x. (f x, g x)) xs) k = None \<longleftrightarrow> k \<notin> f ` set xs"
  by (induction xs) auto

lemma map_of_pairs_filter:
  assumes "distinct (map f xs)" "\<And>x. x \<in> set xs \<Longrightarrow> P x \<longleftrightarrow> f x \<notin> K"
  shows "map_of (map (\<lambda>x. (f x, g x)) (filter P xs)) = map_of (map (\<lambda>x. (f x, g x)) xs) |` (- K)"
  using assms by (induction xs) (auto simp: fun_eq_iff restrict_map_def)

lemma map_of_pairs_update:
  assumes "distinct (map f xs)" "y \<in> set xs" "\<And>x. f (u x) = f x"
  shows "map_of (map (\<lambda>x. (f x, g x)) (map (\<lambda>x. if f x = f y then u x else x) xs)) =
    (map_of (map (\<lambda>x. (f x, g x)) xs))(f y \<mapsto> g (u y))"
  using assms
proof (induction xs)
  case (Cons x xs)
  show ?case
  proof (cases "f x = f y")
    case True
    then have "x = y" "\<And>z. z \<in> set xs \<Longrightarrow> f z \<noteq> f y" using Cons.prems by (auto simp: image_iff)
    then have "map (\<lambda>x. if f x = f y then u x else x) xs = xs" by (intro map_idI) auto
    then show ?thesis using \<open>x = y\<close> Cons.prems(3) by auto
  next
    case False
    then show ?thesis using Cons by (auto simp: fun_eq_iff)
  qed
qed simp

lemma same_event:
  assumes "exp_inv db" "e \<in> set (event_list (db_timers db))" "e' \<in> set (event_list (db_timers db))"
  shows "te_id e = te_id e' \<longleftrightarrow> te_callback e = te_callback e'"
  using assms by (auto simp: exp_inv_def tev_inv_def distinct_map dest: inj_onD)

lemma expires_Some:
  assumes "exp_inv db" "db_expires db k = Some i"
  obtains ev where "ev \<in> set (event_list (db_timers db))" "te_callback ev = k" "te_id ev = i" "deadline db k = Some (te_when ev)"
proof -
  have d: "distinct (map te_callback (event_list (db_timers db)))" using assms(1) by (simp add: exp_inv_def)
  then obtain ev where ev: "ev \<in> set (event_list (db_timers db))" "te_callback ev = k" "te_id ev = i"
    using assms by (auto simp: exp_inv_def map_of_pairs_Some)
  then have "deadline db k = Some (te_when ev)" using d unfolding deadline_def by (subst map_of_pairs_Some) auto
  then show thesis using that ev by blast
qed

lemma expires_dom: "exp_inv db \<Longrightarrow> db_expires db k = None \<longleftrightarrow> deadline db k = None"
  by (simp add: exp_inv_def deadline_def map_of_pairs_None)

section \<open>Timer operations on deadlines\<close>

lemma expire_create:
  assumes inv: "exp_inv db" and none: "db_expires db k = None"
    and new: "CreateTimeEvent now (db_timers db) interval k 1 = (h, ev)"
    and db': "db' = db\<lparr>db_timers := h, db_expires := (db_expires db)(k \<mapsto> te_id ev)\<rparr>"
  shows "exp_inv db'" "deadline db' = (deadline db)(k \<mapsto> now + interval)"
proof -
  have h: "event_list h = ev # event_list (db_timers db)" "te_callback ev = k" "te_when ev = now + interval" "te_count ev = 1"
    using new by (auto simp: CreateTimeEvent_def TimeEvent_new_def Let_def)
  have "k \<notin> te_callback ` set (event_list (db_timers db))"
    using inv none by (simp add: exp_inv_def map_of_pairs_None)
  moreover have "tev_inv h" using tev_inv_create [of "db_timers db" 1 now interval k] inv new by (simp add: exp_inv_def)
  ultimately show "exp_inv db'" using inv h by (simp add: exp_inv_def db')
  show "deadline db' = (deadline db)(k \<mapsto> now + interval)" by (simp add: deadline_def db' h)
qed

lemma expire_update:
  assumes inv: "exp_inv db" and some: "db_expires db k = Some i"
    and upd: "UpdateTimeEvent now (db_timers db) i interval 1 = (h, b)" and db': "db' = db\<lparr>db_timers := h\<rparr>"
  shows "b" "exp_inv db'" "deadline db' = (deadline db)(k \<mapsto> now + interval)"
proof -
  let ?evs = "event_list (db_timers db)"
  let ?u = "\<lambda>ev :: string time_event. ev\<lparr>te_count := 1, te_interval := interval, te_when := now + interval\<rparr>"
  obtain ev where ev: "ev \<in> set ?evs" "te_callback ev = k" "te_id ev = i" using expires_Some [OF inv some] .
  have d: "distinct (map te_id ?evs)" "distinct (map te_callback ?evs)" using inv by (simp_all add: exp_inv_def tev_inv_def)
  have u: "b = (i \<in> te_id ` set ?evs)" "event_list h = map (\<lambda>e. if te_id e = i then ?u e else e) ?evs"
    using upd update_event_found [OF d(1)] by (auto simp: UpdateTimeEvent_def)
  show "b" using u(1) ev by auto
  have evs: "event_list h = map (\<lambda>e. if te_callback e = te_callback ev then ?u e else e) ?evs"
    unfolding u(2) using same_event [OF inv _ ev(1)] ev(3) by (intro map_cong refl) auto
  have same: "map te_callback (event_list h) = map te_callback ?evs"
    "map (\<lambda>e. (te_callback e, te_id e)) (event_list h) = map (\<lambda>e. (te_callback e, te_id e)) ?evs"
    unfolding evs by (auto intro!: map_cong)
  have "tev_inv h" using tev_inv_update [of "db_timers db" 1 now i interval] inv upd by (simp add: exp_inv_def)
  moreover have "\<forall>e \<in> set (event_list h). te_count e = 1" using inv unfolding evs by (auto simp: exp_inv_def)
  ultimately show "exp_inv db'" using inv same d by (simp add: exp_inv_def db')
  show "deadline db' = (deadline db)(k \<mapsto> now + interval)"
    unfolding deadline_def db' using map_of_pairs_update [OF d(2) ev(1), of ?u te_when] ev(2) by (simp add: evs)
qed

lemma expire_remove:
  assumes inv: "exp_inv db" and some: "db_expires db k = Some i"
    and rem: "RemoveTimeEvent (db_timers db) i = (h, b)"
    and db': "db' = db\<lparr>db_timers := h, db_expires := (db_expires db)(k := None)\<rparr>"
  shows "b" "exp_inv db'" "deadline db' = (deadline db)(k := None)"
proof -
  let ?evs = "event_list (db_timers db)"
  obtain ev where ev: "ev \<in> set ?evs" "te_callback ev = k" "te_id ev = i" using expires_Some [OF inv some] .
  have d: "distinct (map te_id ?evs)" "distinct (map te_callback ?evs)" using inv by (simp_all add: exp_inv_def tev_inv_def)
  have u: "b = (i \<in> te_id ` set ?evs)" "event_list h = filter (\<lambda>e. te_id e \<noteq> i) ?evs"
    using rem remove_event_found [OF d(1)] by (auto simp: RemoveTimeEvent_def)
  show "b" using u(1) ev by auto
  have p: "te_id e \<noteq> i \<longleftrightarrow> te_callback e \<notin> {k}" if "e \<in> set ?evs" for e
    using same_event [OF inv that ev(1)] ev by auto
  have f: "map_of (map (\<lambda>e. (te_callback e, g e)) (event_list h)) =
      (map_of (map (\<lambda>e. (te_callback e, g e)) ?evs))(k := None)" for g :: "string time_event \<Rightarrow> 'x"
    unfolding u(2) by (subst map_of_pairs_filter [OF d(2) p]) (auto simp: restrict_map_def fun_eq_iff)
  have "tev_inv h" using tev_inv_remove [of "db_timers db" i] inv rem by (simp add: exp_inv_def)
  then show "exp_inv db'" using inv f [of te_id] by (simp add: exp_inv_def db' u(2) distinct_map_filter)
  show "deadline db' = (deadline db)(k := None)" unfolding deadline_def db' using f [of te_when] by simp
qed

lemma expire_keys_spec:
  "kv_inv (db_kv db) \<Longrightarrow> kv_inv (db_kv (fold expire_key ks db)) \<and>
     kv_abs (db_kv (fold expire_key ks db)) = kv_abs (db_kv db) |` (- Key ` set ks)"
proof (induction ks arbitrary: db)
  case (Cons k ks)
  obtain s' b where d: "Delete (db_kv db) (Key k) = (s', b)" by (cases "Delete (db_kv db) (Key k)")
  note del = Delete_correct [OF Cons.prems d]
  then show ?case using Cons.IH [of "expire_key k db"] d
    by (auto simp: expire_key_def kv_abs_def fun_eq_iff restrict_map_def)
qed (simp add: restrict_map_def)

lemma expire_keys_timers:
  "db_timers (fold expire_key ks db) = db_timers db"
  "db_expires (fold expire_key ks db) = db_expires db |` (- set ks)"
  by (induction ks arbitrary: db) (auto simp: expire_key_def fun_eq_iff restrict_map_def)

definition due_keys :: "u64 \<Rightarrow> 'g db \<Rightarrow> string set" where
  "due_keys now db = {k. \<exists>w. deadline db k = Some w \<and> w \<le> now}"

lemma fire_timers_spec:
  assumes inv: "exp_inv db" and db': "db' = fire_timers now later db"
  shows "exp_inv db'" "deadline db' = deadline db |` (- due_keys now db)"
    "kv_inv (db_kv db) \<Longrightarrow> kv_inv (db_kv db')"
    "kv_inv (db_kv db) \<Longrightarrow> kv_abs (db_kv db') = kv_abs (db_kv db) |` (- Key ` due_keys now db)"
proof -
  let ?evs = "event_list (db_timers db)"
  have d: "distinct (map te_callback ?evs)" "\<And>e. e \<in> set ?evs \<Longrightarrow> te_count e = 1" using inv by (auto simp: exp_inv_def)
  obtain h fired n where hf: "HandleFiredTimeEvent now later (db_timers db) = (h, fired, n)" using prod_cases3 by blast
  have due: "due now e \<longleftrightarrow> te_when e \<le> now" "last_firing now e \<longleftrightarrow> te_when e \<le> now" if "e \<in> set ?evs" for e
    using d(2) [OF that] by (auto simp: due_def last_firing_def CanFire_def CannotFire_def)
  have h: "event_list h = filter (\<lambda>e. \<not> te_when e \<le> now) ?evs" "fired = map te_callback (filter (\<lambda>e. te_when e \<le> now) ?evs)"
  proof -
    have "filter (due now) ?evs = filter (\<lambda>e. te_when e \<le> now) ?evs" by (rule filter_cong) (use due in auto)
    moreover have "filter (\<lambda>e. \<not> last_firing now e) ?evs = filter (\<lambda>e. \<not> te_when e \<le> now) ?evs"
      by (rule filter_cong) (use due in auto)
    moreover have "map (after_pass now later) (filter (\<lambda>e. \<not> te_when e \<le> now) ?evs) = filter (\<lambda>e. \<not> te_when e \<le> now) ?evs"
      by (rule map_idI) (auto simp: after_pass_def due_def)
    ultimately show "event_list h = filter (\<lambda>e. \<not> te_when e \<le> now) ?evs"
      "fired = map te_callback (filter (\<lambda>e. te_when e \<le> now) ?evs)"
      using hf by (auto simp: HandleFiredTimeEvent_def fire_events_eq)
  qed
  have K: "due_keys now db = set fired" unfolding due_keys_def deadline_def h(2) by (auto simp: map_of_pairs_Some [OF d(1)])
  have p: "\<not> te_when e \<le> now \<longleftrightarrow> te_callback e \<notin> set fired" if "e \<in> set ?evs" for e
    using that d(1) by (auto simp: h(2) distinct_map dest: inj_onD)
  have f: "map_of (map (\<lambda>e. (te_callback e, g e)) (event_list h)) =
      map_of (map (\<lambda>e. (te_callback e, g e)) ?evs) |` (- set fired)" for g :: "string time_event \<Rightarrow> 'x"
    unfolding h(1) by (rule map_of_pairs_filter [OF d(1) p])
  have eq: "db' = fold expire_key fired (db\<lparr>db_timers := h\<rparr>)" using hf by (simp add: db' fire_timers_def)
  show "deadline db' = deadline db |` (- due_keys now db)"
    unfolding deadline_def eq expire_keys_timers K using f [of te_when] by simp
  have "tev_inv h" using tev_inv_handle [of "db_timers db" now later] inv hf by (simp add: exp_inv_def)
  then show "exp_inv db'" using inv f [of te_id] unfolding exp_inv_def eq expire_keys_timers
    by (simp add: h(1) distinct_map_filter)
  show "kv_inv (db_kv db')" "kv_abs (db_kv db') = kv_abs (db_kv db) |` (- Key ` due_keys now db)" if "kv_inv (db_kv db)"
    using expire_keys_spec [of "db\<lparr>db_timers := h\<rparr>" fired] that by (auto simp: eq K)
qed

section \<open>The expiration commands\<close>

definition expire_spec ::
  "(string \<rightharpoonup> avalue) \<Rightarrow> (string \<rightharpoonup> u64) \<Rightarrow> u64 \<Rightarrow> string \<Rightarrow> int \<Rightarrow> (string \<rightharpoonup> avalue) \<times> (string \<rightharpoonup> u64) \<times> string" where
  "expire_spec m dl now k n =
     (if m (Key k) = None then (m, dl, kInt0Msg)
      else if n < 0 then (m, dl(k := None), kInt1Msg)
      else if n = 0 \<and> dl k = None then (m(Key k := None), dl, kInt1Msg)
      else (m, dl(k \<mapsto> now + word_of_int n * 1000), kInt1Msg))"

definition keeps_expiry :: "('g ctx \<Rightarrow> 'g db \<Rightarrow> string list \<Rightarrow> 'g reply) \<Rightarrow> bool" where
  "keeps_expiry handler \<longleftrightarrow>
     (\<forall>c db args db' msg. handler c db args = Some (Inr (db', msg)) \<longrightarrow>
        db_expires db' = db_expires db \<and> db_timers db' = db_timers db)"

lemma subscribe_loop_keeps:
  "db_expires (fst (subscribe_loop name chs db sess ss)) = db_expires db"
  "db_timers (fst (subscribe_loop name chs db sess ss)) = db_timers db"
  by (induction name chs db sess ss rule: subscribe_loop.induct)
    (simp_all add: Let_def AddSessionToSubscription_def split: option.splits)

lemma unsubscribe_loop_keeps:
  "db_expires (fst (unsubscribe_loop name chs db sess ss)) = db_expires db"
  "db_timers (fst (unsubscribe_loop name chs db sess ss)) = db_timers db"
  by (induction name chs db sess ss rule: unsubscribe_loop.induct)
    (simp_all add: Let_def RemoveSessionFromSubscription_def)

lemma answer_keeps:
  assumes "answer db1 msg1 = Some (Inr (db', msg))" "db_expires db1 = db_expires db" "db_timers db1 = db_timers db"
  shows "db_expires db' = db_expires db \<and> db_timers db' = db_timers db"
  using assms by (simp add: answer_def)

lemmas handler_defs = OverviewCommand_def NumItemsCommand_def PingCommand_def EvictCommand_def DelCommand_def
  ExistsCommand_def TypeCommand_def TTLCommand_def SetCommand_def GetCommand_def IncrCommand_def DecrCommand_def
  IncrByCommand_def DecrByCommand_def StrlenCommand_def AppendCommand_def NotSupportedCommand_def LLenCommand_def
  LPopCommand_def LPushCommand_def RPopCommand_def RPushCommand_def LRangeCommand_def LSetCommand_def LIndexCommand_def
  HSetCommand_def HGetCommand_def HDelCommand_def HExistsCommand_def HGetAllCommand_def HKeysCommand_def HValsCommand_def
  HLenCommand_def SAddCommand_def SIsMemberCommand_def SMIsMemberCommand_def SMembersCommand_def SRemCommand_def
  SCardCommand_def PubSubPublishCommand_def PubSubSubscribeCommand_def PubSubUnsubscribeCommand_def BgsaveCommand_def
  incr_reply_def pop_reply_def push_reply_def entries_reply_def

lemma keeps_expiry_handlers:
  "list_all (\<lambda>(opcode, h). opcode = ''expire'' \<or> opcode = ''expireat'' \<or> keeps_expiry h) sOpCommandMap"
  unfolding sOpCommandMap_def list.pred_inject
  by (intro conjI TrueI)
    (auto simp: keeps_expiry_def handler_defs answer_def AddIntoAppendableDirectly_def Let_def
      split: if_splits option.splits sum.splits prod.splits vvalue.splits
      dest!: arg_cong [where f = fst] intro: subscribe_loop_keeps unsubscribe_loop_keeps)

lemma lazy_evict_keeps:
  "lazy_evict c db = Some (Inr db') \<Longrightarrow> db_expires db' = db_expires db \<and> db_timers db' = db_timers db"
  by (auto simp: lazy_evict_def split: if_splits option.splits sum.splits prod.splits)

lemma exp_inv_cong:
  assumes "db_expires db' = db_expires db" "db_timers db' = db_timers db"
  shows "exp_inv db' = exp_inv db" "deadline db' = deadline db"
  using assms by (simp_all add: exp_inv_def deadline_def)

text \<open>Logging an expiration changes only the log, and reading the value back never faults.\<close>

lemma log_expire_changes:
  assumes "log_expire c db args n = Some (Inr (db', msg))"
  shows "\<exists>l. db' = db\<lparr>db_log := l\<rparr>" "msg = kInt1Msg"
proof -
  have "\<exists>l. db = db\<lparr>db_log := l\<rparr>" by (rule exI [of _ "db_log db"]) simp
  with assms show "\<exists>l. db' = db\<lparr>db_log := l\<rparr>" "msg = kInt1Msg"
    by (auto simp: log_expire_def answer_def AddIntoAppendableDirectly_def Let_def split: if_splits sum.splits prod.splits)
qed

lemma Recover_defined: "kv_inv s \<Longrightarrow> \<exists>cmd code. RecoverCommandFromValue s k = Inr (cmd, code)"
  using found_vinv [of s "Key k"]
  by (auto simp: RecoverCommandFromValue_def DList_RangeAll_correct split: option.splits vvalue.splits)

lemma log_expire_defined:
  assumes "kv_inv (db_kv db)"
  obtains db' where "log_expire c db args n = Some (Inr (db', kInt1Msg))" "\<exists>l. db' = db\<lparr>db_log := l\<rparr>"
proof -
  obtain cmd code where r: "RecoverCommandFromValue (db_kv db) (args ! 1) = Inr (cmd, code)"
    using Recover_defined [OF assms] by blast
  then have "\<exists>db'. log_expire c db args n = Some (Inr (db', kInt1Msg))"
    by (auto simp: log_expire_def answer_def Let_def)
  then show thesis using that log_expire_changes(1) by blast
qed

lemma keep_log:
  assumes "\<exists>l. db' = db\<lparr>db_log := l\<rparr>"
  shows "exp_inv db' = exp_inv db" "deadline db' = deadline db" "db_kv db' = db_kv db"
  using assms by (auto simp: exp_inv_def deadline_def)

text \<open>The state \<open>ExpireCommand\<close> hands to its logging part.\<close>

definition expire_state :: "'g ctx \<Rightarrow> 'g db \<Rightarrow> string \<Rightarrow> int \<Rightarrow> 'g db" where
  "expire_state c db k n =
     (case db_expires db k of
        None \<Rightarrow>
          if n > 0
          then (case CreateTimeEvent (c_now c) (db_timers db) (word_of_int n * 1000) k 1 of
                  (h, ev) \<Rightarrow> db\<lparr>db_timers := h, db_expires := (db_expires db)(k \<mapsto> te_id ev)\<rparr>)
          else if n = 0 then db\<lparr>db_kv := fst (Delete (db_kv db) (Key k))\<rparr> else db
      | Some i \<Rightarrow>
          if n \<ge> 0 then db\<lparr>db_timers := fst (UpdateTimeEvent (c_now c) (db_timers db) i (word_of_int n * 1000) 1)\<rparr>
          else db\<lparr>db_timers := fst (RemoveTimeEvent (db_timers db) i), db_expires := (db_expires db)(k := None)\<rparr>)"

lemma ExpireCommand_state:
  assumes "exp_inv db" "args = [opc, k, ns]" "CanConvertToInt64 ns = Some n" "KeyExists (db_kv db) (Key k)"
  shows "ExpireCommand c db args = log_expire c (expire_state c db k n) args n"
proof (cases "db_expires db k")
  case None
  then show ?thesis using assms(2-4)
    by (auto simp: ExpireCommand_def CheckSyntax_def expire_state_def Let_def split: prod.splits)
next
  case (Some i)
  obtain h b where u: "UpdateTimeEvent (c_now c) (db_timers db) i (word_of_int n * 1000) 1 = (h, b)"
    by (cases "UpdateTimeEvent (c_now c) (db_timers db) i (word_of_int n * 1000) 1")
  obtain h' b' where r: "RemoveTimeEvent (db_timers db) i = (h', b')" by (cases "RemoveTimeEvent (db_timers db) i")
  have "b" "b'" using expire_update(1) [OF assms(1) Some u refl] expire_remove(1) [OF assms(1) Some r refl] by simp_all
  then show ?thesis using assms(2-4) Some u r
    by (simp add: ExpireCommand_def CheckSyntax_def expire_state_def Let_def)
qed

lemma expire_state_fresh:
  assumes inv: "exp_inv db" and db': "db' = expire_state c db k n" and key: "kv_abs (db_kv db) (Key k) \<noteq> None" and None: "db_expires db k = None"
  shows "exp_inv db' \<and> (kv_inv (db_kv db) \<longrightarrow> kv_inv (db_kv db') \<and>
      expire_spec (kv_abs (db_kv db)) (deadline db) (c_now c) k n = (kv_abs (db_kv db'), deadline db', kInt1Msg))"
proof -
  obtain s' b where d: "Delete (db_kv db) (Key k) = (s', b)" by (cases "Delete (db_kv db) (Key k)")
  obtain h ev where cr: "CreateTimeEvent (c_now c) (db_timers db) (word_of_int n * 1000) k 1 = (h, ev)"
    by (cases "CreateTimeEvent (c_now c) (db_timers db) (word_of_int n * 1000) k 1")
  have dl: "deadline db k = None" using expires_dom [OF inv] None by simp
  consider "n > 0" | "n = 0" | "n < 0" by linarith
  then show ?thesis
  proof cases
    case 1
    with None cr have e: "db' = db\<lparr>db_timers := h, db_expires := (db_expires db)(k \<mapsto> te_id ev)\<rparr>"
      by (simp add: db' expire_state_def)
    from expire_create [OF inv None cr e] show ?thesis using 1 key by (auto simp: expire_spec_def e)
  next
    case 2
    with None d have e: "db' = db\<lparr>db_kv := s'\<rparr>" by (simp add: db' expire_state_def)
    have "kv_abs s' = (kv_abs (db_kv db))(Key k := None)" if "kv_inv (db_kv db)"
      using Delete_correct [OF that d] by (auto simp: kv_abs_def fun_eq_iff)
    then show ?thesis using 2 None dl inv key Delete_correct [OF _ d] exp_inv_cong [of db' db]
      by (auto simp: expire_spec_def e)
  next
    case 3
    then show ?thesis using None dl inv key by (auto simp: db' expire_state_def expire_spec_def fun_eq_iff)
  qed
qed

lemma expire_state_again:
  assumes inv: "exp_inv db" and db': "db' = expire_state c db k n" and key: "kv_abs (db_kv db) (Key k) \<noteq> None" and Some: "db_expires db k = Some i"
  shows "exp_inv db' \<and> (kv_inv (db_kv db) \<longrightarrow> kv_inv (db_kv db') \<and>
      expire_spec (kv_abs (db_kv db)) (deadline db) (c_now c) k n = (kv_abs (db_kv db'), deadline db', kInt1Msg))"
proof -
  obtain h1 b1 where u: "UpdateTimeEvent (c_now c) (db_timers db) i (word_of_int n * 1000) 1 = (h1, b1)"
    by (cases "UpdateTimeEvent (c_now c) (db_timers db) i (word_of_int n * 1000) 1")
  obtain h2 b2 where r: "RemoveTimeEvent (db_timers db) i = (h2, b2)" by (cases "RemoveTimeEvent (db_timers db) i")
  have dl: "deadline db k \<noteq> None" using expires_dom [OF inv, of k] Some by simp
  show ?thesis
  proof (cases "n \<ge> 0")
    case True
    then have e: "db' = db\<lparr>db_timers := h1\<rparr>" using Some u by (simp add: db' expire_state_def)
    from expire_update(2,3) [OF inv Some u e] show ?thesis using True key dl by (auto simp: expire_spec_def e)
  next
    case False
    then have e: "db' = db\<lparr>db_timers := h2, db_expires := (db_expires db)(k := None)\<rparr>"
      using Some r by (simp add: db' expire_state_def)
    from expire_remove(2,3) [OF inv Some r e] show ?thesis using False key by (auto simp: expire_spec_def e)
  qed
qed

lemma expire_state_spec:
  assumes "exp_inv db" and "db' = expire_state c db k n" and "kv_abs (db_kv db) (Key k) \<noteq> None"
  shows "exp_inv db'" "kv_inv (db_kv db) \<Longrightarrow> kv_inv (db_kv db') \<and>
      expire_spec (kv_abs (db_kv db)) (deadline db) (c_now c) k n = (kv_abs (db_kv db'), deadline db', kInt1Msg)"
  using expire_state_fresh [OF assms] expire_state_again [OF assms] by (cases "db_expires db k"; simp)+

lemma CheckSyntax_three: "CheckSyntax args 1 1 False \<Longrightarrow> \<exists>opc k ns. args = [opc, k, ns]"
  by (auto simp: CheckSyntax_def length_Suc_conv eval_nat_numeral)

lemma ExpireCommand_inv:
  assumes "exp_inv db" "ExpireCommand c db args = Some (Inr (db', msg))"
  shows "exp_inv db'"
proof (cases "CheckSyntax args 1 1 False \<and> KeyExists (db_kv db) (Key (args ! 1)) \<and> CanConvertToInt64 (args ! 2) \<noteq> None")
  case True
  then obtain opc k ns n where a: "args = [opc, k, ns]" "CanConvertToInt64 ns = Some n" "KeyExists (db_kv db) (Key k)"
    using CheckSyntax_three by fastforce
  have "log_expire c (expire_state c db k n) args n = Some (Inr (db', msg))"
    using ExpireCommand_state [OF assms(1) a(1-3)] assms(2) by simp
  from log_expire_changes(1) [OF this] have "exp_inv db' = exp_inv (expire_state c db k n)" by (rule keep_log)
  then show ?thesis using expire_state_spec(1) [OF assms(1) refl] a(3) by (simp add: KeyExists_abs)
next
  case False
  then have "db' = db" using assms(2) by (auto simp: ExpireCommand_def answer_def Let_def split: if_splits)
  then show ?thesis using assms(1) by simp
qed

lemma ExpireAtCommand_inv:
  assumes "exp_inv db" "ExpireAtCommand c db args = Some (Inr (db', msg))"
  shows "exp_inv db'"
  using assms ExpireCommand_inv
  by (auto simp: ExpireAtCommand_def answer_def Let_def split: if_splits option.splits)

lemma HandleCommand_exp_inv:
  assumes "exp_inv db" "HandleCommand c db args = Some (Inr (db', msg))"
  shows "exp_inv db'"
proof -
  obtain op0 rest where args: "args = op0 # rest" using assms(2) by (cases args) (auto simp: HandleCommand_def)
  let ?op = "map c_tolower op0"
  show ?thesis
  proof (cases "map_of sOpCommandMap ?op :: ('a ctx \<Rightarrow> 'a db \<Rightarrow> string list \<Rightarrow> 'a reply) option")
    case None
    then show ?thesis using assms by (simp add: HandleCommand_def args Let_def answer_def)
  next
    case (Some h)
    then obtain db1 where ev: "lazy_evict c db = Some (Inr db1)" and h: "h c db1 (?op # rest) = Some (Inr (db', msg))"
      using assms(2) by (auto simp: HandleCommand_def args Let_def split: option.splits sum.splits)
    have inv1: "exp_inv db1" using lazy_evict_keeps [OF ev] exp_inv_cong [of db1 db] assms(1) by simp
    have mem: "(?op, h) \<in> set sOpCommandMap" using Some by (rule map_of_SomeD)
    consider "?op = ''expire''" | "?op = ''expireat''" | "keeps_expiry h"
      using keeps_expiry_handlers mem by (auto simp: list_all_iff)
    then show ?thesis
    proof cases
      case 1
      then have "h = ExpireCommand" using Some by (simp add: sOpCommandMap_def)
      then show ?thesis using ExpireCommand_inv [OF inv1] h by blast
    next
      case 2
      then have "h = ExpireAtCommand" using Some by (simp add: sOpCommandMap_def)
      then show ?thesis using ExpireAtCommand_inv [OF inv1] h by blast
    next
      case 3
      then show ?thesis using h inv1 exp_inv_cong [of db' db1] unfolding keeps_expiry_def by blast
    qed
  qed
qed

section \<open>Reachable states\<close>

text \<open>
  The event loop alternates commands and timer passes, in any order. A server starts without timers.
\<close>

inductive reachable :: "'g db \<Rightarrow> bool" where
  start: "db_expires db = Map.empty \<Longrightarrow> db_timers db = TimeEventHolder \<Longrightarrow> reachable db"
| command: "reachable db \<Longrightarrow> HandleCommand c db args = Some (Inr (db', msg)) \<Longrightarrow> reachable db'"
| timers: "reachable db \<Longrightarrow> reachable (fire_timers now later db)"

lemma reachable_inv: "reachable db \<Longrightarrow> exp_inv db"
proof (induction rule: reachable.induct)
  case (start db)
  then show ?case by (simp add: exp_inv_def tev_inv_def TimeEventHolder_def)
next
  case (command db c args db' msg)
  then show ?case using HandleCommand_exp_inv by blast
next
  case (timers db now later)
  then show ?case using fire_timers_spec(1) by blast
qed

lemma find_distinct: "distinct (map f xs) \<Longrightarrow> x \<in> set xs \<Longrightarrow> List.find (\<lambda>y. f y = f x) xs = Some x"
  by (induction xs) (auto simp: image_iff)

lemma TTLCommand_reply:
  assumes "exp_inv db" "args = [opc, k]"
  shows "TTLCommand c db args = answer db
    (if kv_abs (db_kv db) (Key k) = None then kIntMinus2Msg
     else case deadline db k of
            None \<Rightarrow> kIntMinus1Msg
          | Some w \<Rightarrow> PackIntReply (uint ((w - c_now c) div 1000)))"
proof (cases "db_expires db k")
  case None
  then have "deadline db k = None" using expires_dom [OF assms(1)] by simp
  then show ?thesis using None assms(2) by (simp add: TTLCommand_def CheckSyntax_def KeyExists_abs Let_def)
next
  case (Some i)
  obtain ev where ev: "ev \<in> set (event_list (db_timers db))" "te_id ev = i" "deadline db k = Some (te_when ev)"
    using expires_Some [OF assms(1) Some] by blast
  have d: "distinct (map te_id (event_list (db_timers db)))" using assms(1) by (simp add: exp_inv_def tev_inv_def)
  have "List.find (\<lambda>e. te_id e = i) (event_list (db_timers db)) = Some ev"
    using find_distinct [OF d ev(1)] ev(2) by simp
  then show ?thesis using Some ev(3) assms(2) by (simp add: TTLCommand_def CheckSyntax_def KeyExists_abs Let_def)
qed

lemma dispatch:
  assumes "map c_tolower opc = opcode" "map_of sOpCommandMap opcode = Some h" "\<not> c_evict c"
  shows "HandleCommand c db (opc # rest) = h c db (opcode # rest)"
  using assms by (simp add: HandleCommand_def lazy_evict_def Let_def)

lemma ExpireCommand_spec:
  assumes "exp_inv db" "kv_inv (db_kv db)" "args = [opc, k, ns]" "CanConvertToInt64 ns = Some n"
  obtains db' msg where "ExpireCommand c db args = Some (Inr (db', msg))" "kv_inv (db_kv db')"
    "expire_spec (kv_abs (db_kv db)) (deadline db) (c_now c) k n = (kv_abs (db_kv db'), deadline db', msg)"
proof (cases "kv_abs (db_kv db) (Key k) = None")
  case True
  show ?thesis
    by (rule that [of db kInt0Msg])
      (use True assms in \<open>simp_all add: ExpireCommand_def CheckSyntax_def KeyExists_abs answer_def expire_spec_def Let_def\<close>)
next
  case False
  have ex: "KeyExists (db_kv db) (Key k)" using False by (simp add: KeyExists_abs)
  note st = expire_state_spec(2) [OF assms(1) refl False assms(2), of c n]
  obtain db' where l: "log_expire c (expire_state c db k n) args n = Some (Inr (db', kInt1Msg))"
    "\<exists>l. db' = (expire_state c db k n)\<lparr>db_log := l\<rparr>"
    using log_expire_defined st by blast
  show ?thesis
    by (rule that [of db' kInt1Msg])
      (use l st keep_log [OF l(2)] ExpireCommand_state [OF assms(1,3,4) ex] in simp_all)
qed

text \<open>A sample state with one key that expires.\<close>

lemma sample_expiring:
  obtains db :: "unit db" where "reachable db" "kv_inv (db_kv db)" "kv_abs (db_kv db) = [''k'' \<mapsto> AStr ''v'']" "deadline db = [''k'' \<mapsto> 10001]"
proof -
  have low: "lower_op [''set'', ''k'', ''v''] = [''set'', ''k'', ''v'']" "map c_tolower ''expire'' = ''expire''" by code_simp+
  have conv: "CanConvertToInt64 ''v'' = None" "CanConvertToInt64 ''10'' = Some 10" by code_simp+
  have ev: "\<not> c_evict (sample_ctx n)" for n by (simp add: sample_ctx_def)
  have ok: "cmd_ok (kv_abs (db_kv sample_db)) (lower_op [''set'', ''k'', ''v''])"
    "cmd_spec (kv_abs (db_kv sample_db)) (lower_op [''set'', ''k'', ''v'']) = ([''k'' \<mapsto> AStr ''v''], kOkMsg, True)"
    using sample_inv_abs(2) unfolding low by (simp_all add: db_abs_def cmd_eval conv)
  obtain db1 where 1: "HandleCommand (sample_ctx 0) sample_db [''set'', ''k'', ''v''] = Some (Inr (db1, kOkMsg))"
    "kv_inv (db_kv db1)" "kv_abs (db_kv db1) = [''k'' \<mapsto> AStr ''v'']"
    and fr: "db1 = sample_db\<lparr>db_kv := db_kv db1, db_log := db_log db1\<rparr>"
    using cmd_step_one [OF sample_inv_abs(1) ev ok] .
  have r0: "reachable sample_db" by (rule reachable.start) (simp_all add: sample_db_def)
  have r1: "reachable db1" by (rule reachable.command [OF r0 1(1)])
  have dl: "deadline db1 = Map.empty" by (subst fr) (simp add: deadline_def sample_db_def TimeEventHolder_def)
  obtain db2 msg where 2: "ExpireCommand (sample_ctx 1) db1 [''expire'', ''k'', ''10''] = Some (Inr (db2, msg))" "kv_inv (db_kv db2)"
    "expire_spec (kv_abs (db_kv db1)) (deadline db1) (c_now (sample_ctx 1)) ''k'' 10 = (kv_abs (db_kv db2), deadline db2, msg)"
    using ExpireCommand_spec [OF reachable_inv [OF r1] 1(2) refl conv(2)] .
  have tab: "map_of sOpCommandMap ''expire'' = Some ExpireCommand" by (simp add: sOpCommandMap_def)
  have "HandleCommand (sample_ctx 1) db1 [''expire'', ''k'', ''10''] = Some (Inr (db2, msg))"
    using dispatch [OF low(2) tab ev] 2(1) by simp
  then have "reachable db2" by (rule reachable.command [OF r1])
  moreover have "kv_abs (db_kv db2) = [''k'' \<mapsto> AStr ''v'']" "deadline db2 = [''k'' \<mapsto> 10001]"
    using 2(3) by (simp_all add: dl 1(3) expire_spec_def Key_def c_str_def sample_ctx_def)
  ultimately show thesis using that 2(2) by blast
qed

section \<open>Properties\<close>

text \<open>
  C9. The expirations stay consistent. In every state the server reaches from a start without
  timers, by any commands (well-formed or not, also with evictions) and timer passes in any
  order, \<open>sExpiresMap\<close> points to exactly the live time events: each key with an entry has one event
  that will delete that key and fire once, no event is without entry, and identifiers are unique.
  So \<open>TTL\<close> never reads a freed event.
\<close>

theorem expirations_consistent:
  assumes "reachable db"
  shows "(\<forall>k i. db_expires db k = Some i \<longleftrightarrow>
      (\<exists>ev \<in> set (event_list (db_timers db)). te_callback ev = k \<and> te_id ev = i \<and> te_count ev = 1)) \<and>
    distinct (map te_id (event_list (db_timers db))) \<and> distinct (map te_callback (event_list (db_timers db))) \<and>
    (\<forall>c args e. TTLCommand c db args \<noteq> Some (Inl e))"
proof (intro conjI allI)
  have inv: "exp_inv db" by (rule reachable_inv [OF assms])
  then have d: "distinct (map te_id (event_list (db_timers db)))" "distinct (map te_callback (event_list (db_timers db)))"
    by (simp_all add: exp_inv_def tev_inv_def)
  then show "distinct (map te_id (event_list (db_timers db)))" "distinct (map te_callback (event_list (db_timers db)))" .
  show "db_expires db k = Some i \<longleftrightarrow>
      (\<exists>ev \<in> set (event_list (db_timers db)). te_callback ev = k \<and> te_id ev = i \<and> te_count ev = 1)" for k i
    using inv unfolding exp_inv_def by (simp add: map_of_pairs_Some [OF d(2)])
  show "TTLCommand c db args \<noteq> Some (Inl e)" for c args e
  proof (cases "CheckSyntax args 1 0 False")
    case True
    then obtain opc k where "args = [opc, k]" by (auto simp: CheckSyntax_def length_Suc_conv eval_nat_numeral)
    then show ?thesis using TTLCommand_reply [OF inv] by (simp add: answer_def)
  qed (simp add: TTLCommand_def answer_def)
qed

theorem expirations_consistent_witness:
  "\<exists>db :: unit db. reachable db \<and> db_expires db ''k'' \<noteq> None \<and> (\<forall>c args e. TTLCommand c db args \<noteq> Some (Inl e))"
proof -
  obtain db :: "unit db" where db: "reachable db" "kv_inv (db_kv db)" "kv_abs (db_kv db) = [''k'' \<mapsto> AStr ''v'']" "deadline db = [''k'' \<mapsto> 10001]"
    using sample_expiring .
  have "db_expires db ''k'' \<noteq> None" using expires_dom [OF reachable_inv [OF db(1)]] db(4) by simp
  moreover have "\<forall>c args e. TTLCommand c db args \<noteq> Some (Inl e)" using expirations_consistent [OF db(1)] by simp
  ultimately show ?thesis using db(1) by (intro exI [of _ db] conjI)
qed

text \<open>
  C10. Timers delete exactly the keys whose time has come. One timer pass removes every key whose
  deadline is not after the reading of the clock, with its deadline, and leaves every other key,
  its value and its deadline alone.
\<close>

theorem timers_delete_exactly:
  assumes "reachable db" "kv_inv (db_kv db)"
  shows "kv_inv (db_kv (fire_timers now later db)) \<and>
    kv_abs (db_kv (fire_timers now later db)) = kv_abs (db_kv db) |` (- Key ` {k. \<exists>w. deadline db k = Some w \<and> w \<le> now}) \<and>
    deadline (fire_timers now later db) = deadline db |` (- {k. \<exists>w. deadline db k = Some w \<and> w \<le> now})"
  using fire_timers_spec(2-4) [OF reachable_inv [OF assms(1)] refl, of now later] assms(2)
  by (simp add: due_keys_def)

theorem timers_delete_exactly_witness:
  "\<exists>db :: unit db. kv_abs (db_kv db) = [''k'' \<mapsto> AStr ''v''] \<and>
     kv_abs (db_kv (fire_timers 10000 (\<lambda>ev. 0) db)) = [''k'' \<mapsto> AStr ''v''] \<and>
     kv_abs (db_kv (fire_timers 10001 (\<lambda>ev. 0) db)) = Map.empty"
proof -
  obtain db :: "unit db" where db: "reachable db" "kv_inv (db_kv db)" "kv_abs (db_kv db) = [''k'' \<mapsto> AStr ''v'']" "deadline db = [''k'' \<mapsto> 10001]"
    using sample_expiring .
  have d: "{k. \<exists>w. deadline db k = Some w \<and> w \<le> 10000} = {}" "{k. \<exists>w. deadline db k = Some w \<and> w \<le> 10001} = {''k''}"
    unfolding db(4) by auto
  have k: "Key ''k'' = ''k''" by (simp add: Key_def c_str_def)
  from timers_delete_exactly [OF db(1,2), of 10000 "\<lambda>ev. 0"] timers_delete_exactly [OF db(1,2), of 10001 "\<lambda>ev. 0"]
  have "kv_abs (db_kv (fire_timers 10000 (\<lambda>ev. 0) db)) = [''k'' \<mapsto> AStr ''v'']"
    "kv_abs (db_kv (fire_timers 10001 (\<lambda>ev. 0) db)) = Map.empty"
    unfolding d using db(3) k by (simp_all add: restrict_map_def fun_eq_iff)
  then show ?thesis using db(3) by blast
qed

text \<open>
  C11. The expiration commands. On a reachable state \<open>EXPIRE\<close> with a number of seconds, and
  \<open>EXPIREAT\<close> with a time that counts as no seconds when it is past, answer 0 for a missing key; for an
  existing key they answer 1 and set its deadline to that many seconds from now, except that a
  negative number removes the deadline and 0 deletes a key without deadline at once. \<open>TTL\<close> answers
  -2 for a missing key, -1 without deadline, and the whole seconds left otherwise.
\<close>

theorem expire_semantics:
  assumes "reachable db" "kv_inv (db_kv db)" "\<not> c_evict c" "CanConvertToInt64 ns = Some n"
  shows "(\<exists>db' msg. HandleCommand c db [''expire'', k, ns] = Some (Inr (db', msg)) \<and> kv_inv (db_kv db') \<and>
      expire_spec (kv_abs (db_kv db)) (deadline db) (c_now c) k n = (kv_abs (db_kv db'), deadline db', msg)) \<and>
    (\<exists>db' msg. HandleCommand c db [''expireat'', k, ns] = Some (Inr (db', msg)) \<and> kv_inv (db_kv db') \<and>
      expire_spec (kv_abs (db_kv db)) (deadline db) (c_now c) k (max (wrap64 (n - sint (c_sec c))) 0) =
        (kv_abs (db_kv db'), deadline db', msg)) \<and>
    HandleCommand c db [''ttl'', k] = Some (Inr (db,
      if kv_abs (db_kv db) (Key k) = None then kIntMinus2Msg
      else case deadline db k of
             None \<Rightarrow> kIntMinus1Msg
           | Some w \<Rightarrow> PackIntReply (uint ((w - c_now c) div 1000))))"
proof -
  have inv: "exp_inv db" by (rule reachable_inv [OF assms(1)])
  let ?n = "max (wrap64 (n - sint (c_sec c))) 0"
  have low: "map c_tolower ''expire'' = ''expire''" "map c_tolower ''expireat'' = ''expireat''" "map c_tolower ''ttl'' = ''ttl''"
    by code_simp+
  have tab: "map_of sOpCommandMap ''expire'' = Some ExpireCommand" "map_of sOpCommandMap ''expireat'' = Some ExpireAtCommand"
    "map_of sOpCommandMap ''ttl'' = Some TTLCommand" by (simp_all add: sOpCommandMap_def)
  have "in_int64 ?n"
    using sint_greater_eq [of "word_of_int (n - sint (c_sec c)) :: u64"] sint_less [of "word_of_int (n - sint (c_sec c)) :: u64"]
    by (auto simp: wrap64_def in_int64_def)
  then have conv: "CanConvertToInt64 (std_to_string ?n) = Some ?n" by (simp add: CanConvertToInt64_iff)
  have at: "ExpireAtCommand c db [''expireat'', k, ns] = ExpireCommand c db [''expireat'', k, std_to_string ?n]"
    using assms(4) by (simp add: ExpireAtCommand_def CheckSyntax_def Let_def)
  show ?thesis
    unfolding dispatch [OF low(1) tab(1) assms(3)] dispatch [OF low(2) tab(2) assms(3)] dispatch [OF low(3) tab(3) assms(3)] at
      TTLCommand_reply [OF inv refl] answer_def
    using ExpireCommand_spec [OF inv assms(2) refl assms(4), where c = c and opc = "''expire''" and k = k]
      ExpireCommand_spec [OF inv assms(2) refl conv, where c = c and opc = "''expireat''" and k = k]
    by metis
qed

theorem expire_semantics_witness:
  "\<exists>(db :: unit db) db'. HandleCommand (sample_ctx 2) db [''expire'', ''k'', ''-1''] = Some (Inr (db', '':1'' @ CRLF)) \<and>
     deadline db = [''k'' \<mapsto> 10001] \<and> deadline db' = Map.empty \<and> kv_abs (db_kv db') = [''k'' \<mapsto> AStr ''v'']"
proof -
  obtain db :: "unit db" where db: "reachable db" "kv_inv (db_kv db)" "kv_abs (db_kv db) = [''k'' \<mapsto> AStr ''v'']" "deadline db = [''k'' \<mapsto> 10001]"
    using sample_expiring .
  have ev: "\<not> c_evict (sample_ctx 2)" by (simp add: sample_ctx_def)
  have conv: "CanConvertToInt64 ''-1'' = Some (- 1)" by code_simp
  have k: "Key ''k'' = ''k''" by (simp add: Key_def c_str_def)
  from conjunct1 [OF expire_semantics [OF db(1,2) ev conv, of "''k''"]]
  obtain db' msg where e: "HandleCommand (sample_ctx 2) db [''expire'', ''k'', ''-1''] = Some (Inr (db', msg))"
    "expire_spec (kv_abs (db_kv db)) (deadline db) (c_now (sample_ctx 2)) ''k'' (- 1) = (kv_abs (db_kv db'), deadline db', msg)"
    by blast
  then have "deadline db' = Map.empty" "kv_abs (db_kv db') = [''k'' \<mapsto> AStr ''v'']" "msg = kInt1Msg"
    using db(3,4) k by (auto simp: expire_spec_def)
  then show ?thesis using e(1) db(4) by blast
qed

end
