(* ===== verification/Recover.thy ===== *)
theory Recover
  imports CommandsProps CoreProps
begin

text \<open>
  \<open>KVContainer::RecoverCommandFromValue\<close>: the command that is logged instead of \<open>EXPIRE\<close> with a
  negative number, and what its execution makes of the key.
\<close>

text \<open>A string that is the decimal notation of an integer comes back as an integer.\<close>

definition reread :: "avalue \<Rightarrow> avalue" where
  "reread v = (case v of AStr t \<Rightarrow> (case CanConvertToInt64 t of Some i \<Rightarrow> AInt i | None \<Rightarrow> AStr t) | _ \<Rightarrow> v)"

definition empty_value :: "avalue \<Rightarrow> bool" where
  "empty_value v \<longleftrightarrow> v = AList [] \<or> v = AHash Map.empty \<or> v = ASet {}"

definition short_value :: "avalue \<Rightarrow> bool" where
  "short_value v \<longleftrightarrow> (case v of AStr t \<Rightarrow> length t \<le> 2 ^ 31 | _ \<Rightarrow> True)"

text \<open>What the recovered command does to a key that is absent, and to a key that still has the value.\<close>

definition recovers :: "string \<Rightarrow> avalue \<Rightarrow> string list \<Rightarrow> bool" where
  "recovers k v cmd \<longleftrightarrow>
     (\<forall>m. m (Key k) = None \<longrightarrow> cmd_ok m cmd \<and> fst (cmd_spec m cmd) = m(Key k \<mapsto> reread v)) \<and>
     (\<forall>m. m (Key k) = Some v \<longrightarrow> cmd_ok m cmd \<and>
        fst (cmd_spec m cmd) = m(Key k \<mapsto> (case v of AList xs \<Rightarrow> AList (xs @ xs) | _ \<Rightarrow> reread v)))"

lemma recovers_set:
  "short_value (AStr t) \<Longrightarrow> recovers k (AStr t) [''set'', k, t]"
  "in_int64 i \<Longrightarrow> recovers k (AInt i) [''set'', k, std_to_string i]"
proof -
  have c: "CanConvertToInt64 (std_to_string i) = Some i" if "in_int64 i" using that by (simp add: CanConvertToInt64_iff)
  have num: "CanConvertToInt64 t = Some i \<Longrightarrow> in_int64 i" for i by (simp add: CanConvertToInt64_iff)
  show "recovers k (AStr t) [''set'', k, t]" if "short_value (AStr t)"
    using that by (auto simp: recovers_def cmd_eval reread_def short_value_def dest: num split: option.splits)
  show "recovers k (AInt i) [''set'', k, std_to_string i]" if "in_int64 i"
    using that c [OF that] by (simp add: recovers_def cmd_eval reread_def)
qed

lemma recovers_rpush: "xs \<noteq> [] \<Longrightarrow> recovers k (AList xs) ([''rpush'', k] @ xs)"
  by (cases xs) (auto simp: recovers_def cmd_eval reread_def)

lemma recovers_sadd: "xs \<noteq> [] \<Longrightarrow> recovers k (ASet (set xs)) ([''sadd'', k] @ xs)"
  by (cases xs) (auto simp: recovers_def cmd_eval reread_def a_set_def)

lemma split_pairs_concat: "split_pairs (concat (map (\<lambda>e. [f e, g e]) es)) = (map f es, map g es)"
  by (induction es) auto

lemma map_upds_pairs:
  "distinct (map f es) \<Longrightarrow> m(map f es [\<mapsto>] map g es) = m ++ map_of (map (\<lambda>e. (f e, g e)) es)"
proof (induction es arbitrary: m)
  case (Cons e es)
  then have "f e \<notin> dom (map_of (map (\<lambda>e. (f e, g e)) es))" by (auto simp: dom_map_of_conv_image_fst image_image)
  then show ?case using Cons by (auto simp: map_add_upd_left fun_eq_iff map_add_def split: option.splits)
qed simp

lemma recovers_hset:
  assumes "es \<noteq> []" "distinct (map f es)" "h = map_of (map (\<lambda>e. (f e, g e)) es)"
  shows "recovers k (AHash h) ([''hset'', k] @ concat (map (\<lambda>e. [f e, g e]) es))"
proof -
  have len: "length (concat (map (\<lambda>e. [f e, g e]) xs)) = 2 * length xs" for xs by (induction xs) auto
  have h2: "h ++ h = h" by (auto simp: fun_eq_iff map_add_def split: option.splits)
  have "length es \<ge> 1" using assms(1) by (cases es) auto
  moreover have "m(map f es [\<mapsto>] map g es) = m ++ h" for m
    using map_upds_pairs [OF assms(2), of m g] assms(3) by simp
  ultimately show ?thesis using assms(1) by (auto simp: recovers_def cmd_eval reread_def a_hash_def split_pairs_concat len h2)
qed

text \<open>
  C27. \<open>RecoverCommandFromValue\<close> returns a command that recreates a key. For every key of a well-formed container it
  succeeds; unless the value is an empty list, hash or set, executing the command where the key is
  absent gives the key its value again (a string in decimal notation becomes the integer).
  Executing it where the key still has the value, as the replay of the log does after \<open>EXPIRE\<close> with
  a negative number, keeps integers, strings, hashes and sets but doubles a list.
\<close>

theorem recover_command:
  assumes "kv_inv s" "kv_abs s (Key k) = Some v" "short_value v" "\<not> empty_value v"
  shows "\<exists>cmd. RecoverCommandFromValue s k = Inr (cmd, kOkCode) \<and>
    (\<forall>m. m (Key k) = None \<longrightarrow> cmd_ok m cmd \<and> fst (cmd_spec m cmd) = m(Key k \<mapsto> reread v)) \<and>
    (\<forall>m. m (Key k) = Some v \<longrightarrow> cmd_ok m cmd \<and>
       fst (cmd_spec m cmd) = m(Key k \<mapsto> (case v of AList xs \<Rightarrow> AList (xs @ xs) | _ \<Rightarrow> reread v)))"
proof -
  obtain obj where o: "find_obj s (Key k) = Some obj" "v = vabs (vo_value obj)" using assms(2) by (auto simp: kv_abs_def)
  have inv: "vinv (vo_value obj)" by (rule found_vinv [OF assms(1) o(1)])
  have "\<exists>cmd. RecoverCommandFromValue s k = Inr (cmd, kOkCode) \<and> recovers k v cmd"
  proof (cases "vo_value obj")
    case (IntVal i)
    then show ?thesis using o inv recovers_set(2) by (simp add: RecoverCommandFromValue_def ValueObject_ToInt64_def)
  next
    case (StrVal ds)
    then show ?thesis using o assms(3) recovers_set(1) by (simp add: RecoverCommandFromValue_def ValueObject_ToStdString_def)
  next
    case (ListVal d)
    then have "dl_inv d" "dl_abs d \<noteq> []" using o inv assms(4) by (auto simp: empty_value_def)
    then show ?thesis using ListVal o recovers_rpush [of "dl_abs d" k]
      by (simp add: RecoverCommandFromValue_def DList_RangeAll_correct dl_abs_def)
  next
    case (HashVal d)
    then have d: "rh_inv hkey d" "dict_map d \<noteq> Map.empty" using o inv assms(4) by (auto simp: empty_value_def)
    have "rh_entries d \<noteq> []" using d(2) by (auto simp: dict_map_def)
    then show ?thesis using HashVal o recovers_hset [of "rh_entries d" hkey "dict_map d" hvalue k] rh_entries_distinct [OF d(1)]
      by (simp add: RecoverCommandFromValue_def Rehashable_AllEntries_entries [OF d(1)] dict_map_def kv_of_def [abs_def])
  next
    case (SetVal d)
    then have d: "rh_inv skey d" "set_elems d \<noteq> {}" using o inv assms(4) by (auto simp: empty_value_def)
    then have "map skey (rh_entries d) \<noteq> []" by (auto simp: set_elems_def)
    then show ?thesis using SetVal o recovers_sadd [of "map skey (rh_entries d)" k]
      by (simp add: RecoverCommandFromValue_def Rehashable_AllEntries_entries [OF d(1)] set_elems_def)
  qed
  then show ?thesis unfolding recovers_def by blast
qed

theorem recover_command_witness:
  "\<exists>cmd. RecoverCommandFromValue sample_container ''m'' = Inr (cmd, 200) \<and>
     fst (cmd_spec Map.empty cmd) = [''m'' \<mapsto> ASet {''x'', ''y''}]"
proof -
  have k: "Key ''m'' = ''m''" by (simp add: Key_def c_str_def)
  have v: "kv_abs sample_container (Key ''m'') = Some (ASet {''x'', ''y''})" by (simp add: sample_abs k)
  have c: "short_value (ASet {''x'', ''y''})" "\<not> empty_value (ASet {''x'', ''y''})" by (simp_all add: short_value_def empty_value_def)
  from recover_command [OF sample_inv v c] show ?thesis unfolding k by (force simp: reread_def)
qed

end
