(* ===== verification/Lkvdb.thy ===== *)
theory Lkvdb
  imports Expiry Recover
begin

text \<open>
  \<open>src/src/lkvdb.h\<close> and \<open>src/src/lkvdb.cpp\<close>: saving a snapshot of the container in a file and loading it.

  The mapped file is the list of its bytes; \<open>cursor\<close> and \<open>remain\<close> are the list that is left, so \<open>remain\<close> is
  its length. The machine is little-endian. File names map to contents; whether a file opens and
  whether \<open>rename\<close> succeeds are arguments. \<open>LiteKVLoad\<close> works on the container, the timers of the event loop
  and the map \<open>sExpiresMap\<close> of this file (the variable is \<open>static\<close> in a header, so every source file
  has its own). Messages on \<open>std::cerr\<close> are left out: the result tells whether the whole file was
  read, \<open>False\<close> where the code prints that the format is not recognized and returns. The clock is read
  once per record. The callbacks capture the local variables \<open>key\<close> and \<open>std_key\<close> by reference and run after
  these are gone; here a callback is the key it is meant for.
\<close>

section \<open>Saving\<close>

definition lkvdb_magic :: bytes where
  "lkvdb_magic = ''LITEKV'' @ ''0001''"

definition LiteKVSave ::
  "bool \<Rightarrow> bool \<Rightarrow> string \<Rightarrow> bytes \<Rightarrow> (string \<rightharpoonup> bytes) \<Rightarrow> (string \<rightharpoonup> bytes) \<times> bool" where
  "LiteKVSave opened renamed dst buf fs =
     (if dst = [] then (fs, False)
      else let tmp_dst = ''tmp_'' @ dst
           in if \<not> opened then (fs, False)
              else let fs1 = fs(tmp_dst \<mapsto> lkvdb_magic @ buf)
                   in if renamed then (fs1(tmp_dst := None, dst \<mapsto> lkvdb_magic @ buf), True)
                      else (fs1(tmp_dst := None), False))"

text \<open>
  The parent returns after \<open>fork\<close>; the child saves and exits. A child that faults while it reads the container
  leaves the files alone.
\<close>

definition LiteKVBackgroundSave ::
  "bool \<Rightarrow> bool \<Rightarrow> bool \<Rightarrow> (bucket \<Rightarrow> bucket) \<Rightarrow> (string \<rightharpoonup> u64) \<Rightarrow> string \<Rightarrow> kvcontainer \<Rightarrow>
   (string \<rightharpoonup> bytes) \<Rightarrow> (string \<rightharpoonup> bytes) \<times> bool" where
  "LiteKVBackgroundSave forked opened renamed order expires dst holder fs =
     (if dst = [] then (fs, False)
      else if \<not> forked then (fs, False)
      else case Snapshot order expires holder [] of
             Inl e \<Rightarrow> (fs, True)
           | Inr binary \<Rightarrow> (fst (LiteKVSave opened renamed dst binary fs), True))"

section \<open>Decoding\<close>

fun decode_int_loop :: "nat \<Rightarrow> nat \<Rightarrow> u64 \<Rightarrow> bytes \<Rightarrow> u64 \<times> bytes" where
  "decode_int_loop shift i valen s =
     (if shift \<le> 63 \<and> i < 10
      then (case s of
              [] \<Rightarrow> (valen, [])
            | c # cs \<Rightarrow>
                let byte = ucast (ord8 c) :: u64
                in if byte AND 128 \<noteq> 0
                   then decode_int_loop (shift + 7) (i + 1) (valen OR push_bit shift (byte AND 127)) cs
                   else (valen OR push_bit shift byte, cs))
      else (valen, s))"

declare decode_int_loop.simps [simp del]

definition DecodeInteger :: "bytes \<Rightarrow> u64 \<times> bytes" where
  "DecodeInteger s = decode_int_loop 0 0 0 s"

definition DecodeStdString :: "bytes \<Rightarrow> string \<times> bytes" where
  "DecodeStdString s =
     (case DecodeInteger s of (str_len, s1) \<Rightarrow>
        if str_len = 0 \<or> length s1 < unat str_len then ([], s1)
        else (take (unat str_len) s1, drop (unat str_len) s1))"

text \<open>\<open>DecodeStaticString\<close> reads the same way; the key is the characters of the static string.\<close>

definition DecodeStaticString :: "bytes \<Rightarrow> string \<times> bytes" where
  "DecodeStaticString s =
     (case DecodeInteger s of (str_len, s1) \<Rightarrow>
        if str_len = 0 \<or> length s1 < unat str_len then ([], s1)
        else (take (unat str_len) s1, drop (unat str_len) s1))"

fun decode_list_loop :: "nat \<Rightarrow> bytes \<Rightarrow> dlist \<Rightarrow> dlist \<times> bytes" where
  "decode_list_loop 0 s ans = (ans, s)"
| "decode_list_loop (Suc n) s ans =
     (case DecodeStdString s of (elem, s1) \<Rightarrow>
        if elem = [] then (ans, s1) else decode_list_loop n s1 (DList_PushRight ans elem))"

definition DecodeDList :: "bytes \<Rightarrow> dlist \<Rightarrow> dlist \<times> bytes" where
  "DecodeDList s ans = (case DecodeInteger s of (cnt, s1) \<Rightarrow> decode_list_loop (unat cnt) s1 ans)"

fun decode_dict_loop :: "nat \<Rightarrow> bytes \<Rightarrow> hashdict \<Rightarrow> hashdict \<times> bytes" where
  "decode_dict_loop 0 s ans = (ans, s)"
| "decode_dict_loop (Suc n) s ans =
     (case DecodeStdString s of (key, s1) \<Rightarrow>
        if key = [] then (ans, s1)
        else case DecodeStdString s1 of (val, s2) \<Rightarrow>
               if val = [] then (ans, s2) else decode_dict_loop n s2 (fst (HashDict_Update ans key val)))"

definition DecodeHashDict :: "bytes \<Rightarrow> hashdict \<Rightarrow> hashdict \<times> bytes" where
  "DecodeHashDict s ans = (case DecodeInteger s of (cnt, s1) \<Rightarrow> decode_dict_loop (unat cnt) s1 ans)"

fun decode_set_loop :: "nat \<Rightarrow> bytes \<Rightarrow> hashset \<Rightarrow> hashset \<times> bytes" where
  "decode_set_loop 0 s ans = (ans, s)"
| "decode_set_loop (Suc n) s ans =
     (case DecodeStdString s of (elem, s1) \<Rightarrow>
        if elem = [] then (ans, s1) else decode_set_loop n s1 (fst (HashSet_Insert ans elem)))"

definition DecodeHashSet :: "bytes \<Rightarrow> hashset \<Rightarrow> hashset \<times> bytes" where
  "DecodeHashSet s ans = (case DecodeInteger s of (cnt, s1) \<Rightarrow> decode_set_loop (unat cnt) s1 ans)"

section \<open>Loading\<close>

record loader =
  ld_kv :: kvcontainer
  ld_expires :: "string \<Rightarrow> int option"
  ld_timers :: "string tev_holder"

definition AddTimerEventToKey :: "u64 \<Rightarrow> u64 \<Rightarrow> string \<Rightarrow> loader \<Rightarrow> loader" where
  "AddTimerEventToKey current interval std_key st =
     (case CreateTimeEvent current (ld_timers st) interval std_key 1 of
        (h, ev) \<Rightarrow> st\<lparr>ld_timers := h, ld_expires := (ld_expires st)(std_key \<mapsto> te_id ev)\<rparr>)"

text \<open>The part of a record behind its key: the value is decoded also when the record has expired.\<close>

definition enter :: "u64 \<Rightarrow> u64 option \<Rightarrow> string \<Rightarrow> (kvcontainer \<Rightarrow> kvcontainer) \<Rightarrow> loader \<Rightarrow> loader" where
  "enter current expiry key f st =
     (case expiry of
        None \<Rightarrow> st\<lparr>ld_kv := f (ld_kv st)\<rparr>
      | Some exp_timestamp \<Rightarrow>
          if exp_timestamp > current
          then AddTimerEventToKey current (exp_timestamp - current) (c_str key) (st\<lparr>ld_kv := f (ld_kv st)\<rparr>)
          else st)"

definition load_value :: "u64 \<Rightarrow> nat \<Rightarrow> u64 option \<Rightarrow> string \<Rightarrow> bytes \<Rightarrow> loader \<Rightarrow> dl_error + loader \<times> bytes" where
  "load_value current type expiry key s st =
     (if type = 1
      then case DecodeInteger s of (val, s1) \<Rightarrow>
             Inr (enter current expiry key (\<lambda>kv. fst (SetInt current kv key (sint val))) st, s1)
      else if type = 2
      then case DecodeStdString s of (str, s1) \<Rightarrow>
             Inr (enter current expiry key (\<lambda>kv. fst (SetString current kv key str)) st, s1)
      else if type = 3
      then case DecodeDList s DList_new of (li, s1) \<Rightarrow>
             (case DList_RangeAll li of
                Inl e \<Rightarrow> Inl e
              | Inr items \<Rightarrow>
                  Inr (enter current expiry key
                         (fold (\<lambda>item kv. fst (RightPush current kv key (contents item))) items) st, s1))
      else if type = 4
      then case DecodeHashDict s (HashDict_new 1) of (hdict, s1) \<Rightarrow>
             Inr (enter current expiry key
                    (fold (\<lambda>item kv. fst (HashUpdateKV current kv key (hkey item) (hvalue item)))
                       (Rehashable_AllEntries hdict)) st, s1)
      else case DecodeHashSet s (HashSet_new 1) of (hs, s1) \<Rightarrow>
             Inr (enter current expiry key
                    (fold (\<lambda>item kv. fst (SetAddItem current kv key (skey item))) (Rehashable_AllEntries hs)) st, s1))"

text \<open>One record; the rest is \<open>None\<close> when the code returns.\<close>

definition load_item :: "u64 \<Rightarrow> loader \<Rightarrow> bytes \<Rightarrow> dl_error + loader \<times> bytes option" where
  "load_item current st s =
     (case s of
        start_flag # type # expire_flag # s1 \<Rightarrow>
          if start_flag \<noteq> CHR 0xFF then Inr (st, None)
          else if (of_char type :: nat) \<notin> {1, 2, 3, 4, 5} then Inr (st, None)
          else if expire_flag \<noteq> CHR 0x00 \<and> length s1 < 8 then Inr (st, None)
          else let (expiry, s2) = (if expire_flag \<noteq> CHR 0x00 then (Some (le64_value (take 8 s1)), drop 8 s1) else (None, s1));
                   (key, s3) = DecodeStaticString s2
               in (case load_value current (of_char type) expiry key s3 st of
                     Inl e \<Rightarrow> Inl e
                   | Inr (st', s4) \<Rightarrow>
                       (case s4 of
                          [] \<Rightarrow> Inr (st', None)
                        | end_flag # s5 \<Rightarrow> Inr (st', if end_flag \<noteq> CHR 0xFE then None else Some s5)))
      | _ \<Rightarrow> Inr (st, None))"

fun load_items :: "(nat \<Rightarrow> u64) \<Rightarrow> nat \<Rightarrow> nat \<Rightarrow> loader \<Rightarrow> bytes \<Rightarrow> dl_error + loader \<times> bool" where
  "load_items now idx 0 st s = Inr (st, True)"
| "load_items now idx (Suc n) st s =
     (case load_item (now idx) st s of
        Inl e \<Rightarrow> Inl e
      | Inr (st', None) \<Rightarrow> Inr (st', False)
      | Inr (st', Some s') \<Rightarrow> load_items now (Suc idx) n st' s')"

definition LiteKVLoad :: "(nat \<Rightarrow> u64) \<Rightarrow> bytes \<Rightarrow> loader \<Rightarrow> dl_error + loader \<times> bool" where
  "LiteKVLoad now file st =
     (if length file < 10 then Inr (st, False)
      else if take 6 file \<noteq> ''LITEKV'' then Inr (st, False)
      else let s = drop 10 file
           in if length s < 8 then Inr (st, False)
              else load_items now 1 (unat (le64_value (take 8 s))) st (drop 8 s))"

section \<open>Decoding what was encoded\<close>

definition enc_count :: "nat \<Rightarrow> bytes" where
  "enc_count n = encode_var_loop (of_nat n)"

definition enc_str :: "string \<Rightarrow> bytes" where
  "enc_str t = enc_count (length t) @ t"

lemma decode_int_loop_encoded:
  "unat v * 2 ^ (7 * i) < 2 ^ 64 \<Longrightarrow> i \<le> 9 \<Longrightarrow>
   snd (decode_int_loop (7 * i) i acc (encode_var_loop v @ rest)) = rest \<and>
   Some (fst (decode_int_loop (7 * i) i acc (encode_var_loop v @ rest))) = decode_var_loop (7 * i) i acc (encode_var_loop v @ rest)"
proof (induction v arbitrary: i acc rule: encode_var_loop.induct)
  case (1 v)
  show ?case
  proof (cases "128 \<le> v")
    case True
    then have big: "128 \<le> unat v" by (simp add: word_le_nat_alt)
    have "2 ^ (7 * i + 7) \<le> unat v * 2 ^ (7 * i)" using big by (simp add: power_add)
    then have "(2 :: nat) ^ (7 * i + 7) < 2 ^ 64" using "1.prems"(1) by linarith
    then have "7 * i + 7 < 64" by (rule power_less_imp_less_exp [rotated]) simp
    then have i: "i + 1 \<le> 9" by simp
    have "unat v div 128 * 128 \<le> unat v" by (rule div_times_less_eq_dividend)
    then have "unat (drop_bit 7 v) * 2 ^ (7 * (i + 1)) \<le> unat v * 2 ^ (7 * i)"
      by (simp add: unat_drop_bit7 power_add)
    then have "unat (drop_bit 7 v) * 2 ^ (7 * (i + 1)) < 2 ^ 64" using "1.prems"(1) by linarith
    note IH = "1.IH" [OF True this i, of "acc OR push_bit (7 * i) (v AND 127)"]
    then show ?thesis using True i
      by (simp add: encode_var_loop.simps [of v] decode_var_loop.simps [of "7 * i"] decode_int_loop.simps [of "7 * i"]
          high_bit_of_marked payload_of_marked Let_def add.commute del: push_bit_and)
  next
    case False
    then show ?thesis using "1.prems"(2)
      by (simp add: encode_var_loop.simps [of v] decode_var_loop.simps [of "7 * i"] decode_int_loop.simps [of "7 * i"]
          high_bit_of_small low_byte_of_small Let_def)
  qed
qed

lemma DecodeInteger_encoded [codec_simps]: "DecodeInteger (encode_var_loop v @ rest) = (v, rest)"
proof -
  have "unat v * 2 ^ (7 * 0) < 2 ^ 64" using unsigned_less [of v, where ?'a = nat] by simp
  from decode_int_loop_encoded [OF this, of 0 rest] show ?thesis
    by (simp add: DecodeInteger_def decode_encode_var prod_eq_iff)
qed

lemma DecodeInteger_count: "n < 2 ^ 64 \<Longrightarrow> DecodeInteger (enc_count n @ rest) = (of_nat n, rest) \<and> unat (of_nat n :: u64) = n"
  by (simp add: enc_count_def DecodeInteger_encoded unat_of_nat)

lemma DecodeStdString_encoded [codec_simps]:
  assumes "length t < 2 ^ 64"
  shows "DecodeStdString (enc_str t @ rest) = (t, rest)" "DecodeStaticString (enc_str t @ rest) = (t, rest)"
proof -
  have d: "DecodeInteger (enc_count (length t) @ t @ rest) = (of_nat (length t), t @ rest)" "unat (of_nat (length t) :: u64) = length t"
    using DecodeInteger_count [OF assms, of "t @ rest"] by simp_all
  have z: "(of_nat (length t) :: u64) = 0 \<longleftrightarrow> t = []"
    unfolding word_unat_eq_iff d(2) by simp
  show "DecodeStdString (enc_str t @ rest) = (t, rest)" "DecodeStaticString (enc_str t @ rest) = (t, rest)"
    unfolding DecodeStdString_def DecodeStaticString_def enc_str_def append_assoc d(1) prod.case z d(2)
    by (cases "t = []"; simp)+
qed

lemma put_count_enc: "put_count n buf = buf @ enc_count n"
  using take_encode_var by (auto simp: put_count_def enc_count_def split: prod.split)
    (metis encode_var_unsigned_Some option.sel prod.inject take_encode_var)

lemma put_str_enc: "put_str t buf = buf @ enc_str t"
proof (cases "t = []")
  case True
  have "char_of (0 :: nat) = CHR 0x00" by code_simp
  then show ?thesis using True
    by (simp add: put_str_def SerializeCharBuf_def enc_str_def enc_count_def encode_var_loop.simps [of 0] chr8_def)
next
  case False
  obtain e c where "EncodeVarUnsignedInt64 (of_nat (length t)) (Some (replicate 10 CHR 0x00)) = (Some e, c)"
    by (simp add: encode_var_unsigned_Some)
  then show ?thesis using False take_encode_var [of "of_nat (length t)"]
    by (simp add: put_str_def SerializeCharBuf_def enc_str_def enc_count_def Let_def)
qed

lemma fold_put_str: "fold put_str xs buf = buf @ concat (map enc_str xs)"
  by (induction xs arbitrary: buf) (simp_all add: put_str_enc)

definition plain :: "string \<Rightarrow> bool" where
  "plain t \<longleftrightarrow> t \<noteq> [] \<and> length t < 2 ^ 64"

lemma decode_list_encoded:
  assumes "dl_inv d" "\<forall>x \<in> set xs. plain x"
  obtains d' where "decode_list_loop (length xs) (concat (map enc_str xs) @ rest) d = (d', rest)"
    "dl_inv d'" "dl_abs d' = dl_abs d @ xs"
proof -
  have "\<exists>d'. decode_list_loop (length xs) (concat (map enc_str xs) @ rest) d = (d', rest) \<and> dl_inv d' \<and> dl_abs d' = dl_abs d @ xs"
    using assms
  proof (induction xs arbitrary: d)
    case (Cons x xs)
    have x: "x \<noteq> []" "length x < 2 ^ 64" using Cons.prems(2) by (simp_all add: plain_def)
    have "dl_inv (DList_PushRight d x)" "dl_abs (DList_PushRight d x) = dl_abs d @ [x]"
      using PushRight_correct [OF Cons.prems(1), of x] by (simp_all add: dl_abs_def contents_def)
    then show ?case using Cons.IH [of "DList_PushRight d x"] Cons.prems x by (simp add: DecodeStdString_encoded)
  qed simp
  then show thesis using that by blast
qed

lemma decode_dict_encoded:
  assumes "rh_inv hkey d" "\<forall>e \<in> set es. plain (f e) \<and> plain (g e)"
  obtains d' where "decode_dict_loop (length es) (concat (map (\<lambda>e. enc_str (f e) @ enc_str (g e)) es) @ rest) d = (d', rest)"
    "rh_inv hkey d'" "dict_map d' = (dict_map d)(map f es [\<mapsto>] map g es)"
proof -
  have "\<exists>d'. decode_dict_loop (length es) (concat (map (\<lambda>e. enc_str (f e) @ enc_str (g e)) es) @ rest) d = (d', rest) \<and>
    rh_inv hkey d' \<and> dict_map d' = (dict_map d)(map f es [\<mapsto>] map g es)"
    using assms
  proof (induction es arbitrary: d)
    case (Cons e es)
    have x: "f e \<noteq> []" "length (f e) < 2 ^ 64" "g e \<noteq> []" "length (g e) < 2 ^ 64" using Cons.prems(2) by (simp_all add: plain_def)
    obtain d1 r where u: "HashDict_Update d (f e) (g e) = (d1, r)" by (cases "HashDict_Update d (f e) (g e)")
    note c = HashDict_Update_correct(1,2) [OF Cons.prems(1) u]
    have "\<forall>e \<in> set es. plain (f e) \<and> plain (g e)" using Cons.prems(2) by simp
    from Cons.IH [OF c(1) this, unfolded c(2)] show ?case using x u
      by (simp add: DecodeStdString_encoded del: fun_upd_apply)
  qed simp
  then show thesis using that by blast
qed

lemma decode_set_encoded:
  assumes "rh_inv skey d" "\<forall>x \<in> set xs. plain x"
  obtains d' where "decode_set_loop (length xs) (concat (map enc_str xs) @ rest) d = (d', rest)"
    "rh_inv skey d'" "set_elems d' = set_elems d \<union> set xs"
proof -
  have "\<exists>d'. decode_set_loop (length xs) (concat (map enc_str xs) @ rest) d = (d', rest) \<and>
    rh_inv skey d' \<and> set_elems d' = set_elems d \<union> set xs"
    using assms
  proof (induction xs arbitrary: d)
    case (Cons x xs)
    have x: "x \<noteq> []" "length x < 2 ^ 64" using Cons.prems(2) by (simp_all add: plain_def)
    obtain d1 r where u: "HashSet_Insert d x = (d1, r)" by (cases "HashSet_Insert d x")
    note c = HashSet_Insert_correct [OF Cons.prems(1) u]
    then show ?case using Cons.IH [of d1] Cons.prems x u by (simp add: DecodeStdString_encoded)
  qed simp
  then show thesis using that by blast
qed

section \<open>Entering decoded values\<close>

text \<open>A sequence of calls on the container, each without a condition.\<close>

lemma fold_calls:
  assumes "kv_inv s" "\<And>m x. kv_ok m (c x)"
  shows "kv_inv (fold (\<lambda>x s. fst (kv_call now s (c x))) xs s) \<and>
    kv_abs (fold (\<lambda>x s. fst (kv_call now s (c x))) xs s) = fold (\<lambda>x m. fst (kv_spec m (c x))) xs (kv_abs s)"
  using assms(1)
proof (induction xs arbitrary: s)
  case (Cons x xs)
  have "kv_inv (fst (kv_call now s (c x)))" "kv_abs (fst (kv_call now s (c x))) = fst (kv_spec (kv_abs s) (c x))"
    using kv_call_refines [OF Cons.prems assms(2), of x now] by (simp_all add: refines_def)
  then show ?case using Cons.IH by simp
qed simp

lemma spec_pushes: "m k = Some (AList ys) \<Longrightarrow> fold (\<lambda>x m. fst (kv_spec m (DoPush False k x))) xs m = m(k \<mapsto> AList (ys @ xs))"
  by (induction xs arbitrary: m ys) (auto simp: a_list_def or_new_def)

lemma spec_hsets:
  "m k = Some (AHash h) \<Longrightarrow> fold (\<lambda>e m. fst (kv_spec m (DoHSet k (f e) (g e)))) es m = m(k \<mapsto> AHash (h(map f es [\<mapsto>] map g es)))"
  by (induction es arbitrary: m h) (auto simp: a_hash_def or_new_def)

lemma spec_sadds: "m k = Some (ASet A) \<Longrightarrow> fold (\<lambda>x m. fst (kv_spec m (DoSAdd k x))) xs m = m(k \<mapsto> ASet (A \<union> set xs))"
  by (induction xs arbitrary: m A) (auto simp: a_set_def or_new_def)

lemma spec_new:
  assumes "m k = None" "xs \<noteq> []"
  shows "fold (\<lambda>x m. fst (kv_spec m (DoPush False k x))) xs m = m(k \<mapsto> AList xs)"
    "fold (\<lambda>x m. fst (kv_spec m (DoSAdd k x))) xs m = m(k \<mapsto> ASet (set xs))"
proof -
  obtain y ys where xs: "xs = y # ys" using assms(2) by (cases xs) auto
  show "fold (\<lambda>x m. fst (kv_spec m (DoPush False k x))) xs m = m(k \<mapsto> AList xs)"
    using assms(1) spec_pushes [of "m(k \<mapsto> AList [y])" k "[y]" ys] by (simp add: xs a_list_def or_new_def)
  show "fold (\<lambda>x m. fst (kv_spec m (DoSAdd k x))) xs m = m(k \<mapsto> ASet (set xs))"
    using assms(1) spec_sadds [of "m(k \<mapsto> ASet {y})" k "{y}" ys] by (simp add: xs a_set_def or_new_def)
qed

lemma spec_new_hash:
  assumes "m k = None" "es \<noteq> []"
  shows "fold (\<lambda>e m. fst (kv_spec m (DoHSet k (f e) (g e)))) es m = m(k \<mapsto> AHash (Map.empty(map f es [\<mapsto>] map g es)))"
proof -
  obtain e rest where es: "es = e # rest" using assms(2) by (cases es) auto
  show ?thesis using assms(1) spec_hsets [of "m(k \<mapsto> AHash [f e \<mapsto> g e])" k "[f e \<mapsto> g e]" f g rest]
    by (simp add: es a_hash_def or_new_def)
qed

section \<open>Records\<close>

text \<open>
  The values a snapshot can bring back: lists, hashes and sets are not empty and hold no empty string.
\<close>

fun snap_ok :: "avalue \<Rightarrow> bool" where
  "snap_ok (AInt i) \<longleftrightarrow> True"
| "snap_ok (AStr t) \<longleftrightarrow> True"
| "snap_ok (AList xs) \<longleftrightarrow> xs \<noteq> [] \<and> length xs < 2 ^ 64 \<and> (\<forall>x \<in> set xs. plain x)"
| "snap_ok (AHash h) \<longleftrightarrow> h \<noteq> Map.empty \<and> card (dom h) < 2 ^ 64 \<and> (\<forall>f v. h f = Some v \<longrightarrow> plain f \<and> plain v)"
| "snap_ok (ASet A) \<longleftrightarrow> A \<noteq> {} \<and> card A < 2 ^ 64 \<and> (\<forall>x \<in> A. plain x)"

fun value_bytes :: "vvalue \<Rightarrow> bytes" where
  "value_bytes (IntVal i) = encode_var_loop (word_of_int i)"
| "value_bytes (StrVal ds) = enc_str (ds_str ds)"
| "value_bytes (ListVal d) = enc_count (dl_len d) @ concat (map enc_str (dl_abs d))"
| "value_bytes (HashVal d) =
     enc_count (length (rh_entries d)) @ concat (map (\<lambda>e. enc_str (hkey e) @ enc_str (hvalue e)) (rh_entries d))"
| "value_bytes (SetVal d) = enc_count (length (rh_entries d)) @ concat (map enc_str (map skey (rh_entries d)))"

lemma fold_put_pairs:
  "fold (\<lambda>e out. put_str (g e) (put_str (f e) out)) es buf = buf @ concat (map (\<lambda>e. enc_str (f e) @ enc_str (g e)) es)"
  by (induction es arbitrary: buf) (simp_all add: put_str_enc)

lemma fold_put_keys: "fold (\<lambda>e out. put_str (f e) out) es buf = buf @ concat (map enc_str (map f es))"
  by (induction es arbitrary: buf) (simp_all add: put_str_enc)

lemma Serialize_bytes:
  assumes "vinv (vo_value obj)" "snap_ok (vabs (vo_value obj))"
  shows "\<exists>n. ValueObject_Serialize obj buf = Inr (buf @ value_bytes (vo_value obj), n)"
proof (cases "vo_value obj")
  case (IntVal i)
  obtain e c where "EncodeVarUnsignedInt64 (word_of_int i) (Some (replicate 10 CHR 0x00)) = (Some e, c)"
    by (simp add: encode_var_unsigned_Some)
  then show ?thesis using IntVal take_encode_var
    by (simp add: ValueObject_Serialize_def EncodeVarSignedInt64_def)
next
  case (StrVal ds)
  then have inv: "ds_inv ds" using assms(1) by simp
  have "fst (DynamicString_Serialize ds buf) = put_str (ds_str ds) buf"
    using take_ds_data [OF inv order_refl] length_ds_str [OF inv]
    by (simp add: DynamicString_Serialize_def put_str_def SerializeCharBuf_def Let_def split: prod.split)
  then show ?thesis using StrVal by (simp add: ValueObject_Serialize_def put_str_enc)
next
  case (ListVal d)
  then have "dl_inv d" "dl_abs d \<noteq> []" using assms by simp_all
  moreover from this(2) have "0 < length (dl_abs d)" unfolding length_greater_0_conv .
  ultimately show ?thesis using ListVal
    by (simp add: ValueObject_Serialize_def DList_Serialize_correct fold_put_str put_count_enc Let_def)
next
  case (HashVal d)
  then have d: "rh_inv hkey d" "rh_entries d \<noteq> []" using assms by (auto simp: dict_map_def)
  then show ?thesis using HashVal
    by (simp add: ValueObject_Serialize_def HashDict_Serialize_def Rehashable_Count_entries [OF d(1)]
        Rehashable_AllEntries_entries [OF d(1)] fold_put_pairs put_count_enc Let_def)
next
  case (SetVal d)
  then have d: "rh_inv skey d" "rh_entries d \<noteq> []" using assms by (auto simp: set_elems_def)
  then show ?thesis using SetVal
    by (simp add: ValueObject_Serialize_def HashSet_Serialize_def Rehashable_Count_entries [OF d(1)]
        Rehashable_AllEntries_entries [OF d(1)] fold_put_keys put_count_enc Let_def)
qed

text \<open>A function on containers that gives an absent key a value.\<close>

definition gives :: "(kvcontainer \<Rightarrow> kvcontainer) \<Rightarrow> string \<Rightarrow> avalue \<Rightarrow> bool" where
  "gives f key v \<longleftrightarrow>
     (\<forall>kv. kv_inv kv \<longrightarrow> kv_abs kv key = None \<longrightarrow> kv_inv (f kv) \<and> kv_abs (f kv) = (kv_abs kv)(key \<mapsto> v))"

lemma gives_calls:
  assumes "\<And>m. m key = None \<Longrightarrow> fold (\<lambda>x m. fst (kv_spec m (c x))) xs m = m(key \<mapsto> v)" "\<And>m x. kv_ok m (c x)"
  shows "gives (fold (\<lambda>x s. fst (kv_call now s (c x))) xs) key v"
  unfolding gives_def using fold_calls [where c = c, OF _ assms(2)] assms(1) by simp

lemma gives_call:
  assumes "\<And>m. m key = None \<Longrightarrow> fst (kv_spec m op) = m(key \<mapsto> v)" "\<And>m. kv_ok m op"
  shows "gives (\<lambda>s. fst (kv_call now s op)) key v"
  using gives_calls [where c = "\<lambda>x. op" and xs = "[()]" and key = key and v = v and now = now] assms by simp

lemma load_value_int:
  assumes "in_int64 i"
  shows "\<exists>f. load_value current 1 expiry key (value_bytes (IntVal i) @ rest) st = Inr (enter current expiry key f st, rest) \<and>
    gives f key (AInt i)"
proof -
  have "gives (\<lambda>kv. fst (SetInt current kv key i)) key (AInt i)"
    using gives_call [of key "DoSetInt key i" "AInt i" current] assms by (simp add: split_beta)
  then show ?thesis using assms by (auto simp: load_value_def DecodeInteger_encoded sint_word_of_int64)
qed

lemma load_value_str:
  assumes "length t \<le> 2 ^ 31"
  shows "\<exists>f. load_value current 2 expiry key (enc_str t @ rest) st = Inr (enter current expiry key f st, rest) \<and> gives f key (AStr t)"
proof -
  have "gives (\<lambda>kv. fst (SetString current kv key t)) key (AStr t)"
    using gives_call [of key "DoSetString key t" "AStr t" current] assms by (simp add: split_beta)
  then show ?thesis using assms by (auto simp: load_value_def DecodeStdString_encoded)
qed

lemma load_value_list:
  assumes "dl_inv d" "snap_ok (AList (dl_abs d))"
  shows "\<exists>f. load_value current 3 expiry key (value_bytes (ListVal d) @ rest) st = Inr (enter current expiry key f st, rest) \<and>
    gives f key (AList (dl_abs d))"
proof -
  let ?xs = "dl_abs d"
  have xs: "?xs \<noteq> []" "length ?xs < 2 ^ 64" "\<forall>x \<in> set ?xs. plain x" using assms(2) by simp_all
  have n: "dl_len d = length ?xs" by simp
  obtain d' where d': "decode_list_loop (length ?xs) (concat (map enc_str ?xs) @ rest) DList_new = (d', rest)"
    "dl_inv d'" "dl_abs d' = ?xs"
    using decode_list_encoded [OF dl_new_inv(1) xs(3), of rest] dl_new_inv(2) by (auto simp: dl_abs_def)
  have dec: "DecodeDList (value_bytes (ListVal d) @ rest) DList_new = (d', rest)"
    using d'(1) DecodeInteger_count [OF xs(2)] unfolding DecodeDList_def value_bytes.simps n append_assoc by simp
  let ?f = "fold (\<lambda>item kv. fst (RightPush current kv key (contents item))) (dl_slots d')"
  have "?f = fold (\<lambda>x s. fst (kv_call current s (DoPush False key x))) (dl_abs d')"
    by (simp add: dl_abs_def fold_map comp_def)
  then have "?f = fold (\<lambda>x s. fst (kv_call current s (DoPush False key x))) ?xs" unfolding d'(3) .
  moreover have "gives (fold (\<lambda>x s. fst (kv_call current s (DoPush False key x))) ?xs) key (AList ?xs)"
    by (rule gives_calls) (use spec_new(1) xs(1) in auto)
  ultimately show ?thesis using dec DList_RangeAll_correct [OF d'(2)] by (auto simp: load_value_def)
qed

lemma dict_map_upds:
  assumes "rh_inv hkey d"
  shows "dict_map d = Map.empty(map hkey (rh_entries d) [\<mapsto>] map hvalue (rh_entries d))"
  using map_upds_pairs [OF rh_entries_distinct [OF assms], of Map.empty hvalue]
  by (simp add: dict_map_def kv_of_def [abs_def])

lemma load_value_hash:
  assumes "rh_inv hkey d" "snap_ok (AHash (dict_map d))"
  shows "\<exists>f. load_value current 4 expiry key (value_bytes (HashVal d) @ rest) st = Inr (enter current expiry key f st, rest) \<and>
    gives f key (AHash (dict_map d))"
proof -
  let ?es = "rh_entries d"
  have n: "length ?es < 2 ^ 64" using assms card_dict [OF assms(1)] by (simp add: Rehashable_Count_entries [OF assms(1)])
  have "dict_map d (hkey e) = Some (hvalue e)" if "e \<in> set ?es" for e
    using that rh_entries_distinct [OF assms(1)] by (force simp: dict_map_def kv_of_def [abs_def] comp_def)
  then have es: "\<forall>e \<in> set ?es. plain (hkey e) \<and> plain (hvalue e)" using assms(2) by auto
  have new: "dict_map (HashDict_new 1) = Map.empty" "rh_inv hkey (HashDict_new 1)"
    by (simp_all add: dict_map_def HashDict_new_def rh_inv_new)
  obtain d' where d': "decode_dict_loop (length ?es) (concat (map (\<lambda>e. enc_str (hkey e) @ enc_str (hvalue e)) ?es) @ rest)
      (HashDict_new 1) = (d', rest)" "rh_inv hkey d'" "dict_map d' = dict_map d"
    using decode_dict_encoded [OF new(2) es, of rest] unfolding new(1) dict_map_upds [OF assms(1), symmetric] .
  have dec: "DecodeHashDict (value_bytes (HashVal d) @ rest) (HashDict_new 1) = (d', rest)"
    using d'(1) DecodeInteger_count [OF n] unfolding DecodeHashDict_def value_bytes.simps append_assoc by simp
  have ne: "rh_entries d' \<noteq> []" using assms(2) d'(3) by (auto simp: dict_map_def)
  have "gives (fold (\<lambda>e s. fst (kv_call current s (DoHSet key (hkey e) (hvalue e)))) (rh_entries d')) key (AHash (dict_map d'))"
    unfolding dict_map_upds [OF d'(2)] by (rule gives_calls) (use spec_new_hash ne in auto)
  then show ?thesis using dec d'(3) by (auto simp: load_value_def Rehashable_AllEntries_entries [OF d'(2)])
qed

lemma load_value_set:
  assumes "rh_inv skey d" "snap_ok (ASet (set_elems d))"
  shows "\<exists>f. load_value current 5 expiry key (value_bytes (SetVal d) @ rest) st = Inr (enter current expiry key f st, rest) \<and>
    gives f key (ASet (set_elems d))"
proof -
  let ?xs = "map skey (rh_entries d)"
  have xs: "set ?xs = set_elems d" "distinct ?xs" using rh_entries_distinct [OF assms(1)] by (simp_all add: set_elems_def)
  have n: "length ?xs < 2 ^ 64" using assms(2) distinct_card [OF xs(2)] xs(1) by simp
  have es: "\<forall>x \<in> set ?xs. plain x" using assms(2) xs(1) by simp
  have new: "set_elems (HashSet_new 1) = {}" "rh_inv skey (HashSet_new 1)"
    by (simp_all add: set_elems_def HashSet_new_def rh_inv_new)
  obtain d' where d': "decode_set_loop (length ?xs) (concat (map enc_str ?xs) @ rest) (HashSet_new 1) = (d', rest)"
    "rh_inv skey d'" "set_elems d' = set_elems d"
    using decode_set_encoded [OF new(2) es, of rest] unfolding new(1) xs(1) by auto
  have dec: "DecodeHashSet (value_bytes (SetVal d) @ rest) (HashSet_new 1) = (d', rest)"
    using d'(1) DecodeInteger_count [OF n] unfolding DecodeHashSet_def value_bytes.simps append_assoc by simp
  let ?ys = "map skey (rh_entries d')"
  have ys: "set ?ys = set_elems d" "?ys \<noteq> []" using d'(3) assms(2) by (auto simp: set_elems_def)
  have "gives (fold (\<lambda>x s. fst (kv_call current s (DoSAdd key x))) ?ys) key (ASet (set ?ys))"
    by (rule gives_calls) (use spec_new(2) ys(2) in auto)
  moreover have "fold (\<lambda>x s. fst (kv_call current s (DoSAdd key x))) ?ys =
      fold (\<lambda>item kv. fst (SetAddItem current kv key (skey item))) (rh_entries d')" by (simp add: fold_map comp_def)
  ultimately show ?thesis using dec ys(1) by (auto simp: load_value_def Rehashable_AllEntries_entries [OF d'(2)])
qed

lemma load_value_encoded:
  assumes "vinv v" "snap_ok (vabs v)"
  shows "\<exists>f. load_value current (nat (vtype v)) expiry key (value_bytes v @ rest) st = Inr (enter current expiry key f st, rest) \<and>
    gives f key (vabs v)"
proof (cases v)
  case (IntVal i)
  then show ?thesis using load_value_int [of i current expiry key rest st] assms by simp
next
  case (StrVal ds)
  then show ?thesis using load_value_str [of "ds_str ds" current expiry key rest st] assms by simp
next
  case (ListVal d)
  then show ?thesis using load_value_list [of d current expiry key rest st] assms by simp
next
  case (HashVal d)
  then show ?thesis using load_value_hash [of d current expiry key rest st] assms by simp
next
  case (SetVal d)
  then show ?thesis using load_value_set [of d current expiry key rest st] assms by simp
qed

definition entry_bytes :: "(string \<rightharpoonup> u64) \<Rightarrow> string \<times> vobject \<Rightarrow> bytes" where
  "entry_bytes expires item =
     (case item of (key, obj) \<Rightarrow>
        [CHR 0xFF, char_of (nat (vtype (vo_value obj)))] @
        (case expires key of Some w \<Rightarrow> CHR 0x01 # le64_bytes w | None \<Rightarrow> [CHR 0x00]) @
        enc_str key @ value_bytes (vo_value obj) @ [CHR 0xFE])"

definition item_ok :: "string \<times> vobject \<Rightarrow> bool" where
  "item_ok item \<longleftrightarrow>
     length (fst item) < 2 ^ 64 \<and> c_str (fst item) = fst item \<and> vinv (vo_value (snd item)) \<and> snap_ok (vabs (vo_value (snd item)))"

lemma put_fixed64_bytes: "put_fixed64 v buf = buf @ le64_bytes (word_of_int v)"
  by (simp add: put_fixed64_def EncodeFixed64BitInteger_def)

lemma snapshot_entry_bytes:
  assumes "item_ok item"
  shows "snapshot_entry expires item = Inr (entry_bytes expires item)"
proof -
  obtain key obj where i: "item = (key, obj)" by fastforce
  let ?buf = "[CHR 0xFF, char_of (nat (vtype (vo_value obj)))] @
    (case expires key of Some w \<Rightarrow> put_fixed64 (uint w) [CHR 0x01] | None \<Rightarrow> [CHR 0x00])"
  obtain n where "ValueObject_Serialize obj (put_str key ?buf) = Inr (put_str key ?buf @ value_bytes (vo_value obj), n)"
    using Serialize_bytes [of obj] assms by (auto simp: item_ok_def i)
  then show ?thesis
    by (simp add: snapshot_entry_def entry_bytes_def i put_str_enc put_fixed64_bytes Let_def split: option.split)
qed

lemma snapshot_entries_bytes:
  "\<forall>item \<in> set items. item_ok item \<Longrightarrow> snapshot_entries expires items buf = Inr (buf @ concat (map (entry_bytes expires) items))"
  by (induction items arbitrary: buf) (simp_all add: snapshot_entry_bytes)

definition ld_deadline :: "loader \<Rightarrow> (string \<rightharpoonup> u64)" where
  "ld_deadline st = map_of (map (\<lambda>ev. (te_callback ev, te_when ev)) (event_list (ld_timers st)))"

text \<open>What a record does to the loader.\<close>

definition loaded :: "u64 \<Rightarrow> (string \<rightharpoonup> u64) \<Rightarrow> string \<Rightarrow> bool" where
  "loaded current expires k \<longleftrightarrow> (case expires k of None \<Rightarrow> True | Some w \<Rightarrow> w > current)"

lemma load_item_encoded:
  assumes ok: "item_ok (key, obj)" and inv: "kv_inv (ld_kv st)" and new: "kv_abs (ld_kv st) key = None"
  obtains st' where "load_item current st (entry_bytes expires (key, obj) @ rest) = Inr (st', Some rest)" "kv_inv (ld_kv st')"
    "kv_abs (ld_kv st') = (if loaded current expires key then (kv_abs (ld_kv st))(key \<mapsto> vabs (vo_value obj)) else kv_abs (ld_kv st))"
    "ld_deadline st' = (if loaded current expires key
       then (case expires key of None \<Rightarrow> ld_deadline st | Some w \<Rightarrow> (ld_deadline st)(key \<mapsto> w)) else ld_deadline st)"
proof -
  let ?v = "vo_value obj"
  have o: "length key < 2 ^ 64" "c_str key = key" "vinv ?v" "snap_ok (vabs ?v)" using ok by (simp_all add: item_ok_def)
  obtain f where f: "load_value current (nat (vtype ?v)) (expires key) key (value_bytes ?v @ CHR 0xFE # rest) st =
      Inr (enter current (expires key) key f st, CHR 0xFE # rest)" "gives f key (vabs ?v)"
    using load_value_encoded [OF o(3,4)] by blast
  have t: "(of_char (char_of (nat (vtype ?v)) :: char) :: nat) = nat (vtype ?v)" "nat (vtype ?v) \<in> {1, 2, 3, 4, 5}"
    by (cases ?v; simp)+
  have key: "DecodeStaticString (enc_str key @ value_bytes ?v @ CHR 0xFE # rest) = (key, value_bytes ?v @ CHR 0xFE # rest)"
    by (rule DecodeStdString_encoded(2) [OF o(1)])
  let ?st = "enter current (expires key) key f st"
  have run: "load_item current st (entry_bytes expires (key, obj) @ rest) = Inr (?st, Some rest)"
    using f(1) t key by (cases "expires key") (simp_all add: load_item_def entry_bytes_def le64_value_bytes Let_def)
  have g: "kv_inv (f (ld_kv st))" "kv_abs (f (ld_kv st)) = (kv_abs (ld_kv st))(key \<mapsto> vabs ?v)"
    using f(2) inv new by (simp_all add: gives_def)
  show thesis
  proof (cases "expires key")
    case None
    then show ?thesis using that [OF run] g by (simp add: enter_def loaded_def ld_deadline_def)
  next
    case (Some w)
    then show ?thesis using that [OF run] g inv o(2)
      by (cases "w > current")
        (simp_all add: enter_def loaded_def ld_deadline_def AddTimerEventToKey_def CreateTimeEvent_def TimeEvent_new_def Let_def)
  qed
qed

text \<open>
  The readings of the clock lie between \<open>t0\<close> and \<open>t1\<close>, and no expiration falls between them.
\<close>

definition clock_ok :: "(nat \<Rightarrow> u64) \<Rightarrow> u64 \<Rightarrow> u64 \<Rightarrow> (string \<rightharpoonup> u64) \<Rightarrow> bool" where
  "clock_ok now t0 t1 expires \<longleftrightarrow>
     (\<forall>i. t0 \<le> now i \<and> now i \<le> t1) \<and> (\<forall>k w. expires k = Some w \<longrightarrow> w \<le> t0 \<or> t1 < w)"

lemma loaded_clock: "clock_ok now t0 t1 expires \<Longrightarrow> loaded (now i) expires k = loaded t1 expires k"
proof -
  assume c: "clock_ok now t0 t1 expires"
  show ?thesis
  proof (cases "expires k")
    case (Some w)
    then have "w \<le> t0 \<or> t1 < w" "t0 \<le> now i" "now i \<le> t1" using c by (auto simp: clock_ok_def)
    then show ?thesis using Some by (auto simp: loaded_def)
  qed (simp add: loaded_def)
qed

lemma load_items_encoded:
  assumes "clock_ok now t0 t1 expires" "\<forall>item \<in> set items. item_ok item" "distinct (map fst items)"
    and "kv_inv (ld_kv st)" "\<And>k. k \<in> fst ` set items \<Longrightarrow> kv_abs (ld_kv st) k = None"
  obtains st' where "load_items now idx (length items) st (concat (map (entry_bytes expires) items) @ rest) = Inr (st', True)"
    "kv_inv (ld_kv st')"
    "kv_abs (ld_kv st') = kv_abs (ld_kv st) ++
       map_of (map (\<lambda>(k, obj). (k, vabs (vo_value obj))) (filter (\<lambda>(k, obj). loaded t1 expires k) items))"
    "ld_deadline st' = ld_deadline st ++ (expires |` {k \<in> fst ` set items. loaded t1 expires k})"
proof -
  let ?m = "\<lambda>items. map_of (map (\<lambda>(k, obj). (k, vabs (vo_value obj))) (filter (\<lambda>(k, obj). loaded t1 expires k) items))"
  let ?P = "\<lambda>idx items st st'. load_items now idx (length items) st (concat (map (entry_bytes expires) items) @ rest) = Inr (st', True) \<and>
    kv_inv (ld_kv st') \<and> kv_abs (ld_kv st') = kv_abs (ld_kv st) ++ ?m items \<and>
    ld_deadline st' = ld_deadline st ++ (expires |` {k \<in> fst ` set items. loaded t1 expires k})"
  have "\<exists>st'. ?P idx items st st'"
    using assms(2-5)
  proof (induction items arbitrary: idx st)
    case Nil
    then show ?case by (auto simp: restrict_map_def map_add_def)
  next
    case (Cons item items)
    obtain key obj where i: "item = (key, obj)" by fastforce
    have ok: "item_ok (key, obj)" "kv_abs (ld_kv st) key = None" using Cons.prems i by auto
    obtain st1 where 1: "load_item (now idx) st (entry_bytes expires (key, obj) @ concat (map (entry_bytes expires) items) @ rest) =
        Inr (st1, Some (concat (map (entry_bytes expires) items) @ rest))" "kv_inv (ld_kv st1)"
      "kv_abs (ld_kv st1) = (if loaded t1 expires key then (kv_abs (ld_kv st))(key \<mapsto> vabs (vo_value obj)) else kv_abs (ld_kv st))"
      "ld_deadline st1 = (if loaded t1 expires key
         then (case expires key of None \<Rightarrow> ld_deadline st | Some w \<Rightarrow> (ld_deadline st)(key \<mapsto> w)) else ld_deadline st)"
      using load_item_encoded [OF ok(1) Cons.prems(3) ok(2), of "now idx" expires] unfolding loaded_clock [OF assms(1)] .
    have ni: "key \<notin> fst ` set items" using Cons.prems(2) i by simp
    have abs1: "kv_abs (ld_kv st1) k = None" if "k \<in> fst ` set items" for k
      using 1(3) Cons.prems(4) [of k] that ni by auto
    obtain st' where 2: "?P (Suc idx) items st1 st'"
      using Cons.IH [OF _ _ 1(2) abs1, of "Suc idx"] Cons.prems(1,2) by auto
    have key: "?m items key = None" using ni by (force simp: map_of_eq_None_iff)
    have "?P idx (item # items) st st'"
    proof (intro conjI)
      show "load_items now idx (length (item # items)) st (concat (map (entry_bytes expires) (item # items)) @ rest) = Inr (st', True)"
        using 1(1) 2 by (simp add: i)
      show "kv_inv (ld_kv st')" using 2 by simp
      show "kv_abs (ld_kv st') = kv_abs (ld_kv st) ++ ?m (item # items)"
        using 2 1(3) key by (auto simp: i fun_eq_iff map_add_def split: option.splits)
      show "ld_deadline st' = ld_deadline st ++ (expires |` {k \<in> fst ` set (item # items). loaded t1 expires k})"
        using 2 1(4) ni by (auto simp: i fun_eq_iff map_add_def restrict_map_def split: option.splits)
    qed
    then show ?case by blast
  qed
  then show thesis using that by blast
qed

lemma option_eqI: "(\<And>v. a = Some v \<longleftrightarrow> b = Some v) \<Longrightarrow> a = b"
  by (cases a; cases b) auto

text \<open>The snapshot walks the entries of the container, each once; loading keeps those that have not expired.\<close>

lemma walked_items:
  assumes "kv_inv s" "\<And>b. mset (order b) = mset b" "items = concat (map order (kv_bucket s))"
  shows "distinct (map fst items)" "length items = NumItems s" "\<And>k obj. (k, obj) \<in> set items \<longleftrightarrow> find_obj s k = Some obj"
proof -
  have "mset items = mset (all_items s)"
    unfolding assms(3) all_items_def mset_concat by (simp add: assms(2) comp_def cong: map_cong)
  then have ms: "mset items = mset (all_items s)" "mset (map fst items) = mset (map fst (all_items s))" by simp_all
  show "distinct (map fst items)" "length items = NumItems s"
    using mset_eq_imp_distinct_iff [OF ms(2)] all_items_distinct(1) [OF assms(1)] mset_eq_length [OF ms(1)]
    by (simp_all add: NumItems_def all_items_def length_concat)
  show "(k, obj) \<in> set items \<longleftrightarrow> find_obj s k = Some obj" for k obj
    using all_items_distinct [OF assms(1)] mset_eq_setD [OF ms(1)] by (metis map_of_eq_Some_iff)
qed

lemma walked_ok:
  assumes "kv_inv s" "\<forall>k v. kv_abs s k = Some v \<longrightarrow> length k < 2 ^ 64 \<and> c_str k = k \<and> snap_ok v"
    and "\<And>k obj. (k, obj) \<in> set items \<longleftrightarrow> find_obj s k = Some obj"
  shows "\<forall>item \<in> set items. item_ok item"
proof clarify
  fix k obj assume "(k, obj) \<in> set items"
  then have i: "find_obj s k = Some obj" using assms(3) by simp
  then have "kv_abs s k = Some (vabs (vo_value obj))" by (simp add: kv_abs_def)
  then show "item_ok (k, obj)" using assms(2) found_vinv [OF assms(1) i] by (simp add: item_ok_def)
qed

lemma walked_map:
  assumes "distinct (map fst items)" "\<And>k obj. (k, obj) \<in> set items \<longleftrightarrow> find_obj s k = Some obj"
  shows "map_of (map (\<lambda>(k, obj). (k, vabs (vo_value obj))) (filter (\<lambda>(k, obj). P k) items)) k = (if P k then kv_abs s k else None)"
    and "k \<in> fst ` set items \<longleftrightarrow> kv_abs s k \<noteq> None"
proof -
  let ?l = "map (\<lambda>(k, obj). (k, vabs (vo_value obj))) (filter (\<lambda>(k, obj). P k) items)"
  have "distinct (map fst ?l)"
    using distinct_map_filter [OF assms(1), of "\<lambda>(k, obj). P k"] by (simp add: comp_def split_beta)
  then have "map_of ?l k = Some v \<longleftrightarrow> P k \<and> kv_abs s k = Some v" for k v
    by (simp add: map_of_eq_Some_iff) (use assms(2) in \<open>auto simp: kv_abs_def image_iff\<close>)
  then show "map_of ?l k = (if P k then kv_abs s k else None)" by (intro option_eqI) simp
  show "k \<in> fst ` set items \<longleftrightarrow> kv_abs s k \<noteq> None" using assms(2) by (force simp: kv_abs_def image_iff)
qed

section \<open>Properties\<close>


definition sample_loader :: loader where
  "sample_loader = \<lparr>ld_kv = KVContainer_new, ld_expires = Map.empty, ld_timers = TimeEventHolder\<rparr>"


text \<open>
  An empty list cannot be loaded. The record of a key whose list is empty (after its last element
  was popped) has no value bytes: the reader takes the end flag as the number of elements, finds no end flag
  behind the last record and gives up, without the key.
\<close>

theorem empty_list_unreadable:
  assumes "dl_inv d" "dl_len d = 0" "length key < 2 ^ 64"
  shows "\<exists>entry. snapshot_entry Map.empty (key, \<lparr>vo_value = ListVal d, lv_time = t\<rparr>) = Inr entry \<and>
    load_item current st entry = Inr (st, None)"
proof -
  let ?entry = "[CHR 0xFF, char_of (3 :: nat), CHR 0x00] @ enc_str key @ [CHR 0xFE]"
  have s: "snapshot_entry Map.empty (key, \<lparr>vo_value = ListVal d, lv_time = t\<rparr>) = Inr ?entry"
    using assms(2) by (simp add: snapshot_entry_def ValueObject_Serialize_def DList_Serialize_def DList_Empty_def put_str_enc Let_def)
  have dec: "DecodeInteger [CHR 0xFE] = (126, [])" by code_simp
  have nil: "DecodeStdString [] = ([], [])" by code_simp
  have l: "DecodeDList [CHR 0xFE] DList_new = (DList_new, [])"
  proof -
    have "decode_list_loop n [] DList_new = (DList_new, [])" for n by (cases n) (simp_all add: nil)
    then show ?thesis by (simp add: DecodeDList_def dec)
  qed
  have r: "DList_RangeAll DList_new = Inr []" using DList_RangeAll_correct [OF dl_new_inv(1)] dl_new_inv(2) by simp
  have st: "st\<lparr>ld_kv := ld_kv st\<rparr> = st" by simp
  have v: "load_value current 3 None key [CHR 0xFE] st = Inr (st, [])" by (simp add: load_value_def l r enter_def)
  have "load_item current st ?entry = Inr (st, None)"
    using v DecodeStdString_encoded(2) [OF assms(3), of "[CHR 0xFE]"] by (simp add: load_item_def Let_def)
  then show ?thesis using s by blast
qed

theorem empty_list_unreadable_witness:
  "\<exists>entry. snapshot_entry Map.empty (''q'', \<lparr>vo_value = ListVal DList_new, lv_time = 0\<rparr>) = Inr entry \<and>
    load_item 7 sample_loader entry = Inr (sample_loader, None)"
  using empty_list_unreadable [OF dl_new_inv(1), of "''q''" 0 7 sample_loader] by (simp add: DList_new_def)

end
