(* ===== verification/Sockets.thy ===== *)
theory Sockets
  imports Commands
begin

text \<open>
  \<open>src/src/net/utils.cpp\<close>: the loops that read a socket into a buffer and write a buffer to a socket.

  The system calls are arguments: the list of results the successive calls of \<open>read\<close> or \<open>send\<close> give. A
  successful \<open>read\<close> gives the bytes it stores (no byte when the peer has closed the connection), a
  successful \<open>send\<close> the number of bytes it takes; a failed call tells whether it was interrupted (\<open>EINTR\<close>). The value of a
  loop is \<open>None\<close> when it asks for more results than the list has, and \<open>Inl OutOfBounds\<close> when it
  passes the system call an address before the buffer.
\<close>

section \<open>The loops\<close>

datatype read_result = ReadOk string | ReadErr bool

datatype send_result = SendOk nat | SendErr bool

fun read_loop :: "nat \<Rightarrow> read_result list \<Rightarrow> string \<Rightarrow> nat \<Rightarrow> int \<Rightarrow> (dl_error + string \<times> nat) option" where
  "read_loop len [] buf total_read bytes_read = (if total_read < len then None else Some (Inr (buf, total_read)))"
| "read_loop len (r # rs) buf total_read bytes_read =
     (if total_read < len
      then (case r of
              ReadOk s \<Rightarrow>
                if s = [] then Some (Inr (buf, total_read))
                else if bytes_read < 0 then Some (Inl OutOfBounds)
                else read_loop len rs (c_memcpy buf (nat bytes_read) s) (total_read + length s) (int (length s))
            | ReadErr eintr \<Rightarrow>
                if eintr then read_loop len rs buf total_read (- 1) else Some (Inr (buf, total_read)))
      else Some (Inr (buf, total_read)))"

definition ReadToBuf :: "nat \<Rightarrow> read_result list \<Rightarrow> (dl_error + string \<times> nat) option" where
  "ReadToBuf len rs = read_loop len rs (replicate len CHR 0x00) 0 0"

text \<open>
  \<open>len\<close> is an \<open>int\<close>; the result holds the bytes the calls of \<open>send\<close> took, which the peer receives,
  and their number. A call that takes no byte is repeated.
\<close>

fun send_loop :: "int \<Rightarrow> send_result list \<Rightarrow> string \<Rightarrow> nat \<Rightarrow> int \<Rightarrow> (dl_error + string \<times> nat) option" where
  "send_loop len [] buf total_written bytes_written =
     (if int total_written < len then None else Some (Inr ([], total_written)))"
| "send_loop len (r # rs) buf total_written bytes_written =
     (if int total_written < len
      then (case r of
              SendOk n \<Rightarrow>
                if bytes_written < 0 then Some (Inl OutOfBounds)
                else (case send_loop len rs buf (total_written + n) (int n) of
                        Some (Inr (out, written)) \<Rightarrow> Some (Inr (take n (drop (nat bytes_written) buf) @ out, written))
                      | res \<Rightarrow> res)
            | SendErr eintr \<Rightarrow>
                if eintr then send_loop len rs buf total_written (- 1) else Some (Inr ([], total_written)))
      else Some (Inr ([], total_written)))"

definition WriteFromBuf :: "string \<Rightarrow> int \<Rightarrow> send_result list \<Rightarrow> (dl_error + string \<times> nat) option" where
  "WriteFromBuf buf len rs = send_loop len rs buf 0 0"

section \<open>When the loops move the right bytes\<close>

text \<open>
  A transfer that one or two successful calls make, ending because the buffer is full or because
  a call fails without being interrupted.
\<close>

lemma read_one:
  assumes "0 < length s" "length s \<le> len" "length s < len \<longrightarrow> rs \<noteq> [] \<and> hd rs \<in> {ReadOk [], ReadErr False}"
  shows "\<exists>buf. ReadToBuf len (ReadOk s # rs) = Some (Inr (buf, length s)) \<and> take (length s) buf = s"
proof -
  have s: "s \<noteq> []" and len: "0 < len" using assms(1,2) by (auto intro: less_le_trans)
  have "read_loop len rs b (length s) k = Some (Inr (b, length s))" for b k
    using assms(2,3) by (cases rs) auto
  then show ?thesis using s len assms(2) by (simp add: ReadToBuf_def c_memcpy_def)
qed

lemma read_two:
  assumes "s \<noteq> []" "t \<noteq> []" "length s + length t \<le> len"
    "length s + length t < len \<longrightarrow> rs \<noteq> [] \<and> hd rs \<in> {ReadOk [], ReadErr False}"
  shows "\<exists>buf. ReadToBuf len (ReadOk s # ReadOk t # rs) = Some (Inr (buf, length s + length t)) \<and>
    take (length s + length t) buf = s @ t"
proof -
  have len: "0 < len" "length s < len" using assms(1-3) by (cases s; cases t; simp)+
  have "read_loop len rs b (length s + length t) k = Some (Inr (b, length s + length t))" for b k
    using assms(3,4) by (cases rs) auto
  then show ?thesis using assms(1-3) len by (simp add: ReadToBuf_def c_memcpy_def)
qed

lemma send_one:
  assumes "0 < n" "n \<le> length buf" "n < length buf \<longrightarrow> rs \<noteq> [] \<and> hd rs = SendErr False"
  shows "WriteFromBuf buf (int (length buf)) (SendOk n # rs) = Some (Inr (take n buf, n))"
  using assms by (cases rs) (auto simp: WriteFromBuf_def)

lemma send_two:
  assumes "0 < n" "0 < m" "n + m \<le> length buf" "n + m < length buf \<longrightarrow> rs \<noteq> [] \<and> hd rs = SendErr False"
  shows "WriteFromBuf buf (int (length buf)) (SendOk n # SendOk m # rs) = Some (Inr (take (n + m) buf, n + m))"
  using assms by (cases rs) (auto simp: WriteFromBuf_def take_add)

text \<open>The position of a third transfer is the length of the second one.\<close>

lemma send_three:
  assumes "0 < n" "0 < m" "0 < k" "length buf = n + m + k"
  shows "WriteFromBuf buf (int (length buf)) [SendOk n, SendOk m, SendOk k] =
    Some (Inr (take (n + m) buf @ take k (drop m buf), n + m + k))"
  using assms by (auto simp: WriteFromBuf_def take_add)

lemma read_three:
  assumes "s \<noteq> []" "t \<noteq> []" "u \<noteq> []" "len = length s + length t + length u"
  shows "\<exists>buf. ReadToBuf len [ReadOk s, ReadOk t, ReadOk u] = Some (Inr (buf, len)) \<and>
    take (length u) (drop (length t) buf) = u"
proof -
  have len: "0 < len" "length s < len" "length s + length t < len" using assms by auto
  let ?b = "c_memcpy (c_memcpy (c_memcpy (replicate len CHR 0x00) 0 s) (length s) t) (length t) u"
  have run: "ReadToBuf len [ReadOk s, ReadOk t, ReadOk u] = Some (Inr (?b, len))"
    using assms(1-3) len by (simp add: ReadToBuf_def) (simp add: assms(4) add.assoc)
  have "take (length u) (drop (length t) ?b) = u" using assms(4) by (simp add: c_memcpy_def min_def)
  then show ?thesis using run by blast
qed

section \<open>Properties\<close>

text \<open>
  C37. The socket loops move the right bytes when they need one or two transfers and are not
  interrupted: \<open>ReadToBuf\<close> fills the buffer with the bytes received, in order, and
  \<open>WriteFromBuf\<close> sends a prefix of the buffer and returns its length. Both advance
  their pointer by the last transfer instead of all of them, so a third transfer goes
  to (comes from) the wrong place: \<open>WriteFromBuf\<close> sends bytes of the second part again and never the end
  of the buffer unless the bytes happen to agree, \<open>ReadToBuf\<close> leaves the third part at the
  offset of the second one's length; and after an interrupted call both use the address before the buffer.
\<close>

theorem socket_loops:
  "(s \<noteq> [] \<and> t \<noteq> [] \<and> u \<noteq> [] \<and> len = length s + length t + length u \<longrightarrow>
     (\<exists>buf. ReadToBuf len [ReadOk s, ReadErr False] = Some (Inr (buf, length s)) \<and> take (length s) buf = s) \<and>
     (\<exists>buf. ReadToBuf len [ReadOk s, ReadOk t, ReadErr False] = Some (Inr (buf, length s + length t)) \<and>
       take (length s + length t) buf = s @ t) \<and>
     (\<exists>buf. ReadToBuf len [ReadOk s, ReadOk t, ReadOk u] = Some (Inr (buf, len)) \<and> take (length u) (drop (length t) buf) = u) \<and>
     ReadToBuf len [ReadErr True, ReadOk s] = Some (Inl OutOfBounds)) \<and>
   (0 < n \<and> 0 < m \<and> 0 < k \<and> length buf0 = n + m + k \<longrightarrow>
     WriteFromBuf buf0 (int (length buf0)) [SendOk n, SendErr False] = Some (Inr (take n buf0, n)) \<and>
     WriteFromBuf buf0 (int (length buf0)) [SendOk n, SendOk m, SendErr False] = Some (Inr (take (n + m) buf0, n + m)) \<and>
     WriteFromBuf buf0 (int (length buf0)) [SendOk n, SendOk m, SendOk k] =
       Some (Inr (take (n + m) buf0 @ take k (drop m buf0), n + m + k)) \<and>
     WriteFromBuf buf0 (int (length buf0)) [SendErr True, SendOk n] = Some (Inl OutOfBounds))"
proof (intro conjI impI; elim conjE)
  assume a: "s \<noteq> []" "t \<noteq> []" "u \<noteq> []" "len = length s + length t + length u"
  show "\<exists>buf. ReadToBuf len [ReadOk s, ReadErr False] = Some (Inr (buf, length s)) \<and> take (length s) buf = s"
    by (rule read_one) (use a in auto)
  show "\<exists>buf. ReadToBuf len [ReadOk s, ReadOk t, ReadErr False] = Some (Inr (buf, length s + length t)) \<and>
       take (length s + length t) buf = s @ t"
    by (rule read_two) (use a in auto)
  show "\<exists>buf. ReadToBuf len [ReadOk s, ReadOk t, ReadOk u] = Some (Inr (buf, len)) \<and> take (length u) (drop (length t) buf) = u"
    by (rule read_three [OF a])
  show "ReadToBuf len [ReadErr True, ReadOk s] = Some (Inl OutOfBounds)" using a by (simp add: ReadToBuf_def)
next
  assume a: "0 < n" "0 < m" "0 < k" "length buf0 = n + m + k"
  show "WriteFromBuf buf0 (int (length buf0)) [SendOk n, SendErr False] = Some (Inr (take n buf0, n))"
    by (rule send_one) (use a in auto)
  show "WriteFromBuf buf0 (int (length buf0)) [SendOk n, SendOk m, SendErr False] = Some (Inr (take (n + m) buf0, n + m))"
    by (rule send_two) (use a in auto)
  show "WriteFromBuf buf0 (int (length buf0)) [SendOk n, SendOk m, SendOk k] =
       Some (Inr (take (n + m) buf0 @ take k (drop m buf0), n + m + k))"
    by (rule send_three [OF a])
  show "WriteFromBuf buf0 (int (length buf0)) [SendErr True, SendOk n] = Some (Inl OutOfBounds)"
    using a by (simp add: WriteFromBuf_def)
qed

theorem socket_loops_witness:
  "WriteFromBuf ''abcdef'' 6 [SendOk 1, SendOk 2, SendOk 3] = Some (Inr (''abccde'', 6)) \<and>
   ReadToBuf 4 [ReadErr True, ReadOk ''ab''] = Some (Inl OutOfBounds)"
  using socket_loops [of "''ab''" "''c''" "''d''" 4 1 2 3 "''abcdef''"] by (simp add: eval_nat_numeral)

end
