(* ===== verification/PubSub.thy ===== *)
theory PubSub
  imports Expiry
begin

text \<open>
  Publish and subscribe: what \<open>SUBSCRIBE\<close>, \<open>UNSUBSCRIBE\<close> and \<open>PUBLISH\<close> of
  \<open>src/src/net/commands.cpp\<close> do to the subscriptions of \<open>src/src/net/server.cpp\<close> and to the session.
\<close>

section \<open>The loops over the channels\<close>

definition subscribed :: "string list \<Rightarrow> session \<Rightarrow> session" where
  "subscribed chs sess =
     sess\<lparr>sess_channels := fold List.insert chs (sess_channels sess),
          sess_modes := if chs = [] then sess_modes sess else sess_modes sess OR SESSION_MODE_PUBSUB\<rparr>"

definition unsubscribed :: "string list \<Rightarrow> session \<Rightarrow> session" where
  "unsubscribed chs sess =
     sess\<lparr>sess_channels := filter (\<lambda>ch. ch \<notin> set chs) (sess_channels sess),
          sess_modes := if chs = [] then sess_modes sess else sess_modes sess AND NOT SESSION_MODE_PUBSUB\<rparr>"

lemma subscribe_loop_spec:
  assumes "db_sessions db name = Some sess" "subscribe_loop name chs db sess ss = (db', ss')"
  shows "(\<forall>ch. sub_list db' ch = sub_list db ch @ replicate (count_list chs ch) (name, sess_fd sess)) \<and>
    db_sessions db' = (db_sessions db)(name \<mapsto> subscribed chs sess) \<and> db_kv db' = db_kv db"
  using assms
proof (induction chs arbitrary: db sess ss)
  case Nil
  then show ?case by (auto simp: subscribed_def)
next
  case (Cons c chs)
  define sess1 where "sess1 = SetPubSubMode (sess\<lparr>sess_channels := List.insert c (sess_channels sess)\<rparr>)"
  define db1 where "db1 = fst (AddSessionToSubscription (db\<lparr>db_sessions := (db_sessions db)(name \<mapsto> sess1)\<rparr>) c name)"
  have db: "db_sessions db1 = (db_sessions db)(name \<mapsto> sess1)" "db_kv db1 = db_kv db"
    "sub_list db1 ch = sub_list db ch @ (if ch = c then [(name, sess_fd sess)] else [])" for ch
    by (simp_all add: db1_def AddSessionToSubscription_def sub_list_def SetPubSubMode_def sess1_def)
  have s: "sess_fd sess1 = sess_fd sess" "subscribed chs sess1 = subscribed (c # chs) sess"
    by (simp_all add: sess1_def SetPubSubMode_def subscribed_def or.assoc)
  obtain ss1 where "subscribe_loop name chs db1 sess1 ss1 = (db', ss')"
    using Cons.prems(2) by (auto simp: Let_def sess1_def db1_def)
  from Cons.IH [OF _ this] show ?case using db s by auto
qed

lemma unsubscribe_loop_spec:
  assumes "db_sessions db name = Some sess" "unsubscribe_loop name chs db sess ss = (db', ss')"
  shows "(\<forall>ch. sub_list db' ch = filter (\<lambda>p. ch \<in> set chs \<longrightarrow> fst p \<noteq> name) (sub_list db ch)) \<and>
    db_sessions db' = (db_sessions db)(name \<mapsto> unsubscribed chs sess) \<and> db_kv db' = db_kv db"
  using assms
proof (induction chs arbitrary: db sess ss)
  case Nil
  then show ?case by (auto simp: unsubscribed_def)
next
  case (Cons c chs)
  define sess1 where "sess1 = UnsetPubSubMode (sess\<lparr>sess_channels := removeAll c (sess_channels sess)\<rparr>)"
  define db1 where "db1 = RemoveSessionFromSubscription (db\<lparr>db_sessions := (db_sessions db)(name \<mapsto> sess1)\<rparr>) c name"
  have db: "db_sessions db1 = (db_sessions db)(name \<mapsto> sess1)" "db_kv db1 = db_kv db"
    "sub_list db1 ch = filter (\<lambda>p. ch = c \<longrightarrow> fst p \<noteq> name) (sub_list db ch)" for ch
    by (simp_all add: db1_def RemoveSessionFromSubscription_def sub_list_def)
  have s: "unsubscribed chs sess1 = unsubscribed (c # chs) sess"
    by (simp add: sess1_def UnsetPubSubMode_def unsubscribed_def and.assoc removeAll_filter_not_eq eq_commute [of c])
  obtain ss1 where "unsubscribe_loop name chs db1 sess1 ss1 = (db', ss')"
    using Cons.prems(2) by (auto simp: Let_def sess1_def db1_def)
  from Cons.IH [OF _ this] show ?case using db s by (auto intro: filter_cong)
qed

lemma set_fold_insert: "set (fold List.insert chs xs) = set chs \<union> set xs"
  by (induction chs arbitrary: xs) auto

lemma PackPublishMessage_request: "PackPublishMessage chan message = request [''message'', chan, message]"
proof -
  have n: "to_string_nat (Suc (Suc (Suc 0))) = ''3''" "to_string_nat (Suc (Suc (Suc (Suc (Suc (Suc (Suc 0))))))) = ''7''" by code_simp+
  show ?thesis by (simp add: PackPublishMessage_def request_def item_protocol_eq std_to_string_def n)
qed

lemma PackIntReply_0: "PackIntReply 0 = kInt0Msg"
  using PackBoolReply_int [of False] by (simp add: PackBoolReply_def)

section \<open>Properties\<close>

lemma pubsub_dispatch:
  assumes "\<not> c_evict c"
  shows "HandleCommand c db (''subscribe'' # r) = PubSubSubscribeCommand c db (''subscribe'' # r)"
    "HandleCommand c db (''unsubscribe'' # r) = PubSubUnsubscribeCommand c db (''unsubscribe'' # r)"
    "HandleCommand c db (''publish'' # r) = PubSubPublishCommand c db (''publish'' # r)"
proof -
  have low: "map c_tolower ''subscribe'' = ''subscribe''" "map c_tolower ''unsubscribe'' = ''unsubscribe''"
    "map c_tolower ''publish'' = ''publish''" by code_simp+
  have tab: "map_of sOpCommandMap ''subscribe'' = Some PubSubSubscribeCommand"
    "map_of sOpCommandMap ''unsubscribe'' = Some PubSubUnsubscribeCommand"
    "map_of sOpCommandMap ''publish'' = Some PubSubPublishCommand" by (simp_all add: sOpCommandMap_def)
  show "HandleCommand c db (''subscribe'' # r) = PubSubSubscribeCommand c db (''subscribe'' # r)"
    "HandleCommand c db (''unsubscribe'' # r) = PubSubUnsubscribeCommand c db (''unsubscribe'' # r)"
    "HandleCommand c db (''publish'' # r) = PubSubPublishCommand c db (''publish'' # r)"
    by (rule dispatch [OF low(1) tab(1) assms] dispatch [OF low(2) tab(2) assms] dispatch [OF low(3) tab(3) assms])+
qed

lemma subscribe_effect:
  assumes "db_sessions db (c_session c) = Some sess" "\<not> c_evict c" "chs \<noteq> []"
  shows "\<exists>db' msg. HandleCommand c db (''subscribe'' # chs) = Some (Inr (db', msg)) \<and>
    (\<forall>ch. sub_list db' ch = sub_list db ch @ replicate (count_list chs ch) (c_session c, sess_fd sess)) \<and>
    db_sessions db' = (db_sessions db)(c_session c \<mapsto> subscribed chs sess)"
proof -
  obtain db' msg where l: "subscribe_loop (c_session c) chs db sess [] = (db', msg)"
    by (cases "subscribe_loop (c_session c) chs db sess []")
  have "HandleCommand c db (''subscribe'' # chs) = Some (Inr (db', msg))"
    unfolding pubsub_dispatch [OF assms(2)] using assms(1,3) l
    by (cases chs) (simp_all add: PubSubSubscribeCommand_def CheckSyntax_def answer_def)
  then show ?thesis using subscribe_loop_spec [OF assms(1) l] assms(3) by (intro exI [of _ db'] exI [of _ msg]) auto
qed

lemma unsubscribe_effect:
  assumes "db_sessions db (c_session c) = Some sess" "\<not> c_evict c"
    and "cs = (if chs = [] then c_order c (sess_channels sess) else chs)"
  shows "\<exists>db' msg. HandleCommand c db (''unsubscribe'' # chs) = Some (Inr (db', msg)) \<and>
    (\<forall>ch. sub_list db' ch = filter (\<lambda>p. ch \<in> set cs \<longrightarrow> fst p \<noteq> c_session c) (sub_list db ch)) \<and>
    db_sessions db' = (db_sessions db)(c_session c \<mapsto> unsubscribed cs sess)"
proof -
  obtain db1 msg1 where l: "unsubscribe_loop (c_session c) cs db sess [] = (db1, msg1)"
    by (cases "unsubscribe_loop (c_session c) cs db sess []")
  define db' where "db' = (if cs = [] then db else db1)"
  have "\<exists>msg. HandleCommand c db (''unsubscribe'' # chs) = Some (Inr (db', msg))"
    unfolding pubsub_dispatch [OF assms(2)] using assms(1) l
    by (cases chs) (auto simp: PubSubUnsubscribeCommand_def CheckSyntax_def answer_def assms(3) db'_def Let_def)
  moreover have "db' = db1" using l by (auto simp: db'_def)
  ultimately show ?thesis using unsubscribe_loop_spec [OF assms(1) l] by blast
qed

text \<open>
  C26. Publish and subscribe. \<open>SUBSCRIBE\<close> enters the session once per named channel, behind the
  sessions already there, also when it is subscribed already; its channels are a set, and it is
  in publish mode. \<open>UNSUBSCRIBE\<close> removes every entry of the session from the named channels (from
  all its channels when none is named, whatever the order of the unordered set), and leaves publish mode
  even when channels remain. Other sessions and channels stay as they are. \<open>PUBLISH\<close>
  sends every entry of the channel, in order, one message, the request \<open>message channel text\<close> of the protocol,
  and replies the number of entries whose socket took it whole.
\<close>

theorem pubsub_semantics:
  assumes "db_sessions db (c_session c) = Some sess" "\<not> c_evict c" "\<And>l. set (c_order c l) = set l"
  shows "(chs \<noteq> [] \<longrightarrow> (\<exists>db' msg sess'. HandleCommand c db (''subscribe'' # chs) = Some (Inr (db', msg)) \<and>
      (\<forall>ch. sub_list db' ch = sub_list db ch @ replicate (count_list chs ch) (c_session c, sess_fd sess)) \<and>
      db_sessions db' = (db_sessions db)(c_session c \<mapsto> sess') \<and>
      set (sess_channels sess') = set (sess_channels sess) \<union> set chs \<and>
      sess_modes sess' = sess_modes sess OR SESSION_MODE_PUBSUB)) \<and>
    (\<exists>db' msg sess'. HandleCommand c db (''unsubscribe'' # chs) = Some (Inr (db', msg)) \<and>
      (let gone = (if chs = [] then set (sess_channels sess) else set chs)
       in (\<forall>ch. sub_list db' ch = filter (\<lambda>p. ch \<in> gone \<longrightarrow> fst p \<noteq> c_session c) (sub_list db ch)) \<and>
          db_sessions db' = (db_sessions db)(c_session c \<mapsto> sess') \<and>
          set (sess_channels sess') = set (sess_channels sess) - gone \<and>
          (gone \<noteq> {} \<longrightarrow> sess_modes sess' = sess_modes sess AND NOT SESSION_MODE_PUBSUB))) \<and>
    HandleCommand c db [''publish'', ch, m] = Some (Inr (db, PackIntReply (int (length
      (filter (\<lambda>p. c_write c (snd p) (request [''message'', ch, m]) = length (request [''message'', ch, m]))
        (sub_list db ch))))))"
    (is "?S \<and> ?U \<and> ?P")
proof (intro conjI)
  show ?S
  proof
    assume chs: "chs \<noteq> []"
    have "set (sess_channels (subscribed chs sess)) = set (sess_channels sess) \<union> set chs"
      "sess_modes (subscribed chs sess) = sess_modes sess OR SESSION_MODE_PUBSUB"
      using chs by (auto simp: subscribed_def set_fold_insert)
    then show "\<exists>db' msg sess'. HandleCommand c db (''subscribe'' # chs) = Some (Inr (db', msg)) \<and>
      (\<forall>ch. sub_list db' ch = sub_list db ch @ replicate (count_list chs ch) (c_session c, sess_fd sess)) \<and>
      db_sessions db' = (db_sessions db)(c_session c \<mapsto> sess') \<and>
      set (sess_channels sess') = set (sess_channels sess) \<union> set chs \<and>
      sess_modes sess' = sess_modes sess OR SESSION_MODE_PUBSUB"
      using subscribe_effect [OF assms(1,2) chs] by blast
  qed
  show ?U
  proof -
    define cs where "cs = (if chs = [] then c_order c (sess_channels sess) else chs)"
    have cs: "set cs = (if chs = [] then set (sess_channels sess) else set chs)" by (simp add: cs_def assms(3))
    have "set (sess_channels (unsubscribed cs sess)) = set (sess_channels sess) - set cs"
      "set cs \<noteq> {} \<Longrightarrow> sess_modes (unsubscribed cs sess) = sess_modes sess AND NOT SESSION_MODE_PUBSUB"
      by (auto simp: unsubscribed_def)
    then show ?thesis using unsubscribe_effect [OF assms(1,2) cs_def] unfolding cs [symmetric] Let_def by blast
  qed
  show ?P
    unfolding pubsub_dispatch [OF assms(2)]
    by (auto simp: PubSubPublishCommand_def CheckSyntax_def answer_def HasSubscriptionChannel_def sub_list_def
        PackPublishMessage_request PackIntReply_0 Let_def split_beta split: option.splits)
qed

theorem pubsub_semantics_witness:
  "\<exists>db' msg. HandleCommand (sample_ctx 1) sample_db [''subscribe'', ''news'', ''news''] = Some (Inr (db', msg)) \<and>
     sub_list db' ''news'' = [(''s'', 5), (''s'', 5)]"
proof -
  have h: "db_sessions sample_db (c_session (sample_ctx 1)) = Some (Session_new 5)" "\<not> c_evict (sample_ctx 1)"
    "set (c_order (sample_ctx 1) l) = set l" for l
    by (simp_all add: sample_db_def sample_ctx_def)
  from pubsub_semantics [OF h, THEN conjunct1, of "[''news'', ''news'']"]
  show ?thesis by (auto simp: Session_new_def sample_db_def sample_ctx_def sub_list_def numeral_2_eq_2)
qed

end
