(* ===== verification/Server.thy ===== *)
theory Server
  imports Sockets PubSub
begin

text \<open>
  \<open>src/src/net/server.cpp\<close>, \<open>src/src/net/net.cpp\<close> and the sessions of \<open>src/src/net/net.h\<close>: accepting
  connections, reading requests, writing replies, and the event loop that calls these procedures.

  A client session is known by its name. The part of a \<open>Session\<close> the commands use (socket,
  modes, channels) is in the state of the commands (\<open>db_sessions\<close>); the rest is a \<open>conn\<close>: the two
  buffers, the partly parsed request, the events asked for, and the events registered with \<open>epoll\<close> for its
  socket. The state of the server is the state of the commands, the connections
  and the counter of session names. A session that is not in the map has been freed.

  System calls are arguments: the results of \<open>read\<close> and \<open>send\<close> (theory \<open>Sockets\<close>), the
  result of \<open>accept\<close> with the text of the peer's address, whether \<open>epoll_ctl\<close> succeeds, and the
  sessions \<open>epoll_wait\<close> reports with their events. \<open>close\<close> and socket options have no effect on the
  state.
\<close>

section \<open>State\<close>

abbreviation (input) EPOLLIN :: u32 where "EPOLLIN \<equiv> 1"
abbreviation (input) EPOLLOUT :: u32 where "EPOLLOUT \<equiv> 4"
abbreviation (input) NET_READ_BUF_SIZE :: nat where "NET_READ_BUF_SIZE \<equiv> 65536"

record conn =
  cn_mask :: u32
  cn_watched :: bool
  cn_interest :: "u32 option"
  cn_read :: buffer
  cn_write :: buffer
  cn_cache :: command_cache

record 'g server =
  sv_db :: "'g db"
  sv_conns :: "string \<Rightarrow> conn option"
  sv_next_id :: int

type_synonym 'a outcome = "(dl_error + 'a) option"

definition Session_conn :: "u32 \<Rightarrow> conn" where
  "Session_conn events = \<lparr>cn_mask = events, cn_watched = False, cn_interest = None,
     cn_read = Buffer_new 64, cn_write = Buffer_new 64, cn_cache = CommandCache_new\<rparr>"

definition SetRead :: "conn \<Rightarrow> conn" where
  "SetRead cn = cn\<lparr>cn_mask := EPOLLIN\<rparr>"

definition SetWrite :: "conn \<Rightarrow> conn" where
  "SetWrite cn = cn\<lparr>cn_mask := cn_mask cn OR EPOLLOUT\<rparr>"

text \<open>
  \<open>Epoller::AttachSession\<close> adds the socket or changes its registration; \<open>ModifySession\<close> is the same.
\<close>

definition AttachSession :: "bool \<Rightarrow> conn \<Rightarrow> conn \<times> bool" where
  "AttachSession ctl cn =
     (if \<not> cn_watched cn
      then (if ctl then cn\<lparr>cn_watched := True, cn_interest := Some (cn_mask cn)\<rparr> else cn)
      else (if ctl then cn\<lparr>cn_interest := Some (cn_mask cn)\<rparr> else cn), ctl)"

definition ModifySession :: "bool \<Rightarrow> conn \<Rightarrow> conn" where
  "ModifySession ctl cn = fst (AttachSession ctl cn)"

definition DetachSession :: "bool \<Rightarrow> conn \<Rightarrow> conn" where
  "DetachSession ctl cn = (if ctl then cn\<lparr>cn_watched := False, cn_interest := None\<rparr> else cn)"

section \<open>Accepting and closing\<close>

text \<open>A server without clients on a given state of the commands.\<close>

definition Server_new :: "'g db \<Rightarrow> 'g server" where
  "Server_new db = \<lparr>sv_db = db\<lparr>db_sessions := Map.empty, db_subs := Map.empty\<rparr>, sv_conns = Map.empty, sv_next_id = 1\<rparr>"

text \<open>\<open>accept\<close> fails (\<open>None\<close>) or gives the socket and the text of the address; the name is cut to the local array.\<close>

definition session_name :: "string \<Rightarrow> int \<Rightarrow> string" where
  "session_name addr n = take 63 (''*'' @ addr @ ''#'' @ std_to_string n)"

definition AcceptProc :: "bool \<Rightarrow> (int \<times> string) option \<Rightarrow> 'g server \<Rightarrow> 'g server" where
  "AcceptProc ctl remote sv =
     (case remote of
        None \<Rightarrow> sv
      | Some (fd, addr) \<Rightarrow>
          let name = session_name addr (sv_next_id sv);
              sv1 = sv\<lparr>sv_next_id := wrap32 (sv_next_id sv + 1)\<rparr>;
              (cn, attached) = AttachSession ctl (Session_conn EPOLLIN)
          in if attached
             then sv1\<lparr>sv_conns := (sv_conns sv1)(name \<mapsto> cn),
                      sv_db := (sv_db sv1)\<lparr>db_sessions := (db_sessions (sv_db sv1))(name \<mapsto> Session_new fd)\<rparr>\<rparr>
             else sv1)"

text \<open>Erasing a name from \<open>sessions_\<close>.\<close>

definition erase_session :: "string \<Rightarrow> 'g server \<Rightarrow> 'g server" where
  "erase_session name sv = sv\<lparr>sv_conns := (sv_conns sv)(name := None),
     sv_db := (sv_db sv)\<lparr>db_sessions := (db_sessions (sv_db sv))(name := None)\<rparr>\<rparr>"

definition FreeClientSessions :: "'g server \<Rightarrow> 'g server" where
  "FreeClientSessions sv = sv\<lparr>sv_conns := Map.empty,
     sv_db := (sv_db sv)\<lparr>db_subs := Map.empty, db_sessions := Map.empty\<rparr>\<rparr>"

section \<open>Reading requests\<close>

definition FillErrorMsg :: "buffer \<Rightarrow> string \<Rightarrow> string \<Rightarrow> buffer" where
  "FillErrorMsg b errtype msg = Buffer_Append b (''-'' @ errtype @ '' '' @ msg @ CRLF)"

definition AuxiliaryReadProcParseErrorHandling :: "bool \<Rightarrow> conn \<Rightarrow> conn" where
  "AuxiliaryReadProcParseErrorHandling ctl cn =
     ModifySession ctl (SetWrite (cn\<lparr>cn_write :=
       FillErrorMsg (cn_write cn) ''WRONGREQ'' (''unidentified request'' @ CRLF)\<rparr>))"

text \<open>
  The loop of \<open>ReadProc\<close>: every parsed request is executed and its reply appended to the write
  buffer. \<open>env i\<close> is the context of the \<open>i\<close>-th command.
\<close>

definition request_ctx :: "(nat \<Rightarrow> 'g ctx) \<Rightarrow> string \<Rightarrow> nat \<Rightarrow> 'g ctx" where
  "request_ctx env name i = (env i)\<lparr>c_sync := True, c_session := name\<rparr>"

function serve_loop :: "(nat \<Rightarrow> 'g ctx) \<Rightarrow> string \<Rightarrow> nat \<Rightarrow> 'g db \<Rightarrow> buffer \<Rightarrow> command_cache \<Rightarrow> bool \<Rightarrow> buffer \<Rightarrow>
    ('g db \<times> buffer \<times> command_cache \<times> bool \<times> buffer) outcome" where
  "serve_loop env name i db b cache err w =
     (case TryParseFromBuffer b cache err of
        None \<Rightarrow> Some (Inl OutOfBounds)
      | Some (b', cache', err', ok) \<Rightarrow>
          if ok \<and> \<not> err'
          then (case HandleCommand (request_ctx env name i) db (argv cache') of
                  None \<Rightarrow> None
                | Some (Inl e) \<Rightarrow> Some (Inl e)
                | Some (Inr (db', msg)) \<Rightarrow>
                    serve_loop env name (Suc i) db' b' (CommandCache_Clear cache') err' (Buffer_Append w msg))
          else Some (Inr (db, b', cache', err', w)))"
  by auto
termination
  by (relation "measure (\<lambda>(env, name, i, db, b, c, e, w). ReadableBytes b)") (auto dest: parse_success_consumes)

declare serve_loop.simps [simp del]

definition ReadProc :: "bool \<Rightarrow> (nat \<Rightarrow> 'g ctx) \<Rightarrow> read_result list \<Rightarrow> string \<Rightarrow> 'g server \<Rightarrow> ('g server \<times> bool) outcome" where
  "ReadProc ctl env rs name sv =
     (case (sv_conns sv name, db_sessions (sv_db sv) name) of
        (Some cn, Some sess) \<Rightarrow>
          (case ReadToBuf NET_READ_BUF_SIZE rs of
             None \<Rightarrow> None
           | Some (Inl e) \<Rightarrow> Some (Inl e)
           | Some (Inr (buf, nbytes)) \<Rightarrow>
               if nbytes = 0
               then let db1 = fold (\<lambda>ch d. RemoveSessionFromSubscription d ch name) (sess_channels sess) (sv_db sv)
                    in Some (Inr (erase_session name (sv\<lparr>sv_db := db1\<rparr>), True))
               else (case serve_loop env name 0 (sv_db sv) (Buffer_Append (cn_read cn) (take nbytes buf))
                            (cn_cache cn) False (cn_write cn) of
                       None \<Rightarrow> None
                     | Some (Inl e) \<Rightarrow> Some (Inl e)
                     | Some (Inr (db', b', cache', err', w')) \<Rightarrow>
                         let cn1 = ModifySession ctl (SetWrite (cn\<lparr>cn_read := b', cn_cache := cache', cn_write := w'\<rparr>));
                             cn2 = (if err' then AuxiliaryReadProcParseErrorHandling ctl cn1 else cn1)
                         in Some (Inr (sv\<lparr>sv_db := db', sv_conns := (sv_conns sv)(name \<mapsto> cn2)\<rparr>, False))))
      | _ \<Rightarrow> Some (Inl UseAfterFree))"

section \<open>Writing replies\<close>

text \<open>The result holds the bytes sent to the client and whether the session was closed.\<close>

definition WriteProc :: "bool \<Rightarrow> send_result list \<Rightarrow> string \<Rightarrow> 'g server \<Rightarrow> ('g server \<times> string \<times> bool) outcome" where
  "WriteProc ctl ss name sv =
     (case sv_conns sv name of
        None \<Rightarrow> Some (Inl UseAfterFree)
      | Some cn \<Rightarrow>
          if ReadableBytes (cn_write cn) = 0
          then Some (Inr (sv\<lparr>sv_conns := (sv_conns sv)(name \<mapsto> ModifySession ctl (SetRead cn))\<rparr>, [], False))
          else let readable_bytes = ReadableBytes (cn_write cn)
               in (case WriteFromBuf (ReadableAsString (cn_write cn)) (wrap32 (int readable_bytes)) ss of
                     None \<Rightarrow> None
                   | Some (Inl e) \<Rightarrow> Some (Inl e)
                   | Some (Inr (out, nbytes)) \<Rightarrow>
                       let cn1 = (if nbytes > 0
                                  then if nbytes = readable_bytes
                                       then (ModifySession ctl (SetRead cn))\<lparr>cn_write := Buffer_Reset (cn_write cn)\<rparr>
                                       else cn\<lparr>cn_write := ReaderIdxForward (cn_write cn) nbytes\<rparr>
                                  else cn)
                       in if nbytes = 0 \<and> ReadableBytes (cn_write cn1) \<noteq> 0
                          then Some (Inr (erase_session name sv, out, True))
                          else Some (Inr (sv\<lparr>sv_conns := (sv_conns sv)(name \<mapsto> cn1)\<rparr>, out, False))))"

section \<open>The event loop\<close>

text \<open>
  One entry of \<open>epoll_wait\<close>: the listening session with the result of \<open>accept\<close>, or a client session
  with the events fired and what the system calls its procedures make will give.
\<close>

datatype 'g ready =
    ReadyListen "(int \<times> string) option"
  | ReadyClient (rd_name: string) (rd_fired: u32) (rd_env: "nat \<Rightarrow> 'g ctx") (rd_reads: "read_result list") (rd_sends: "send_result list")

definition client_ready :: "bool \<Rightarrow> string \<Rightarrow> u32 \<Rightarrow> (nat \<Rightarrow> 'g ctx) \<Rightarrow> read_result list \<Rightarrow> send_result list \<Rightarrow> 'g server \<Rightarrow>
    ('g server \<times> (string \<times> string) list) outcome" where
  "client_ready ctl name fired env rs ss sv =
     (case sv_conns sv name of
        None \<Rightarrow> Some (Inl UseAfterFree)
      | Some cn \<Rightarrow>
          (case (if cn_mask cn AND fired AND EPOLLIN \<noteq> 0 then ReadProc ctl env rs name sv else Some (Inr (sv, False))) of
             None \<Rightarrow> None
           | Some (Inl e) \<Rightarrow> Some (Inl e)
           | Some (Inr (sv1, gone)) \<Rightarrow>
               if gone then Some (Inr (sv1, []))
               else (case sv_conns sv1 name of
                       None \<Rightarrow> Some (Inl UseAfterFree)
                     | Some cn1 \<Rightarrow>
                         if cn_mask cn1 AND fired AND EPOLLOUT \<noteq> 0
                         then (case WriteProc ctl ss name sv1 of
                                 None \<Rightarrow> None
                               | Some (Inl e) \<Rightarrow> Some (Inl e)
                               | Some (Inr (sv2, out, _)) \<Rightarrow> Some (Inr (sv2, [(name, out)])))
                         else Some (Inr (sv1, [])))))"

fun handle_ready :: "bool \<Rightarrow> 'g ready \<Rightarrow> 'g server \<Rightarrow> ('g server \<times> (string \<times> string) list) outcome" where
  "handle_ready ctl (ReadyListen remote) sv = Some (Inr (AcceptProc ctl remote sv, []))"
| "handle_ready ctl (ReadyClient name fired env rs ss) sv = client_ready ctl name fired env rs ss sv"

fun handle_events :: "bool \<Rightarrow> 'g ready list \<Rightarrow> 'g server \<Rightarrow> ('g server \<times> (string \<times> string) list) outcome" where
  "handle_events ctl [] sv = Some (Inr (sv, []))"
| "handle_events ctl (r # rs) sv =
     (case handle_ready ctl r sv of
        None \<Rightarrow> None
      | Some (Inl e) \<Rightarrow> Some (Inl e)
      | Some (Inr (sv1, out1)) \<Rightarrow>
          (case handle_events ctl rs sv1 of
             Some (Inr (sv2, out2)) \<Rightarrow> Some (Inr (sv2, out1 @ out2))
           | res \<Rightarrow> res))"

text \<open>
  \<open>EventLoop::Loop\<close> until it is stopped: every pass handles what \<open>epoll_wait\<close> reports and then the
  timers, with their readings of the clock.
\<close>

record 'g pass =
  ps_ready :: "'g ready list"
  ps_now :: u64
  ps_later :: "string time_event \<Rightarrow> u64"

fun Loop :: "bool \<Rightarrow> 'g pass list \<Rightarrow> 'g server \<Rightarrow> ('g server \<times> (string \<times> string) list) outcome" where
  "Loop ctl [] sv = Some (Inr (sv, []))"
| "Loop ctl (p # ps) sv =
     (case handle_events ctl (ps_ready p) sv of
        None \<Rightarrow> None
      | Some (Inl e) \<Rightarrow> Some (Inl e)
      | Some (Inr (sv1, out1)) \<Rightarrow>
          (case Loop ctl ps (sv1\<lparr>sv_db := fire_timers (ps_now p) (ps_later p) (sv_db sv1)\<rparr>) of
             Some (Inr (sv2, out2)) \<Rightarrow> Some (Inr (sv2, out1 @ out2))
           | res \<Rightarrow> res))"

section \<open>What the clients see\<close>

text \<open>
  The view of a server: the data with the log, the counter, and for every session the
  bytes that wait to be sent with whether the server wants to be told when it can send. \<open>ev_spec\<close>
  says what one ready session does to the view, given the requests its bytes spell.
\<close>

record server_view =
  vw_data :: "(string \<rightharpoonup> avalue) \<times> string list list option"
  vw_next :: int
  vw_pending :: "string \<Rightarrow> (string \<times> bool) option"

abbreviation (input) both_events :: u32 where "both_events \<equiv> 5"

definition sv_view :: "'g server \<Rightarrow> server_view" where
  "sv_view sv = \<lparr>vw_data = db_abs (sv_db sv), vw_next = sv_next_id sv,
     vw_pending = (\<lambda>name. map_option (\<lambda>cn. (readable (cn_write cn), cn_mask cn = both_events)) (sv_conns sv name))\<rparr>"

primrec queries :: "(nat \<Rightarrow> 'g ctx) \<Rightarrow> string \<Rightarrow> nat \<Rightarrow> string list list \<Rightarrow> ('g ctx \<times> string list) list" where
  "queries env name i [] = []"
| "queries env name i (cmd # cmds) = (request_ctx env name i, cmd) # queries env name (Suc i) cmds"

definition delivers :: "read_result list \<Rightarrow> string list list \<Rightarrow> bool" where
  "delivers rs cmds \<longleftrightarrow>
     (case ReadToBuf NET_READ_BUF_SIZE rs of
        Some (Inr (buf, n)) \<Rightarrow> 0 < n \<and> take n buf = concat (map request cmds)
      | _ \<Rightarrow> False) \<and>
     (\<forall>args \<in> set cmds. length args < 2 ^ 63 \<and> (\<forall>a \<in> set args. length a < 2 ^ 63))"

definition taken :: "send_result list \<Rightarrow> string \<Rightarrow> nat" where
  "taken ss s = (case WriteFromBuf s (int (length s)) ss of Some (Inr (out, n)) \<Rightarrow> n | _ \<Rightarrow> 0)"

definition flushes :: "send_result list \<Rightarrow> string \<Rightarrow> bool" where
  "flushes ss s \<longleftrightarrow> length s < 2 ^ 31 \<and> 0 < taken ss s \<and> taken ss s \<le> length s \<and>
     WriteFromBuf s (int (length s)) ss = Some (Inr (take (taken ss s) s, taken ss s))"

abbreviation (input) fired_in :: "u32 \<Rightarrow> bool" where "fired_in fired \<equiv> fired AND EPOLLIN \<noteq> 0"
abbreviation (input) fired_out :: "u32 \<Rightarrow> bool" where "fired_out fired \<equiv> fired AND EPOLLOUT \<noteq> 0"

definition read_spec :: "u32 \<Rightarrow> ('g ctx \<times> string list) list \<Rightarrow> (string \<rightharpoonup> avalue) \<times> string list list option \<Rightarrow> string \<times> bool \<Rightarrow>
    ((string \<rightharpoonup> avalue) \<times> string list list option) \<times> string \<times> bool" where
  "read_spec fired qs d p =
     (if fired_in fired
      then case run_calls cmd_spec_step d qs of (d', rps) \<Rightarrow> (d', fst p @ concat (map the rps), True)
      else (d, p))"

definition write_spec :: "u32 \<Rightarrow> send_result list \<Rightarrow> string \<times> bool \<Rightarrow> string list \<times> string \<times> bool" where
  "write_spec fired ss p =
     (if snd p \<and> fired_out fired
      then if fst p = [] then ([[]], [], False)
           else ([take (taken ss (fst p)) (fst p)], drop (taken ss (fst p)) (fst p), taken ss (fst p) < length (fst p))
      else ([], p))"

type_synonym 'g event = "'g ready \<times> string list list"

fun ev_spec :: "server_view \<Rightarrow> 'g event \<Rightarrow> server_view \<times> (string \<times> string) list" where
  "ev_spec v (ReadyListen remote, cmds) =
     ((case remote of
         None \<Rightarrow> v
       | Some (fd, addr) \<Rightarrow> v\<lparr>vw_next := vw_next v + 1,
            vw_pending := (vw_pending v)(session_name addr (vw_next v) \<mapsto> ([], False))\<rparr>), [])"
| "ev_spec v (ReadyClient name fired env rs ss, cmds) =
     (case vw_pending v name of
        None \<Rightarrow> (v, [])
      | Some p \<Rightarrow>
          (case read_spec fired (queries env name 0 cmds) (vw_data v) p of (d, p1) \<Rightarrow>
           case write_spec fired ss p1 of (out, p2) \<Rightarrow>
             (v\<lparr>vw_data := d, vw_pending := (vw_pending v)(name \<mapsto> p2)\<rparr>, map (Pair name) out)))"

definition good_addr :: "string \<Rightarrow> bool" where
  "good_addr addr \<longleftrightarrow> length addr \<le> 21 \<and> CHR ''#'' \<notin> set addr"

fun ev_ok :: "server_view \<Rightarrow> 'g event \<Rightarrow> bool" where
  "ev_ok v (ReadyListen remote, cmds) \<longleftrightarrow>
     (case remote of None \<Rightarrow> True | Some (fd, addr) \<Rightarrow> good_addr addr \<and> vw_next v < 2 ^ 31 - 1)"
| "ev_ok v (ReadyClient name fired env rs ss, cmds) \<longleftrightarrow>
     (case vw_pending v name of
        None \<Rightarrow> False
      | Some p \<Rightarrow>
          (if fired_in fired
           then delivers rs cmds \<and> calls_ok cmd_call_ok cmd_spec_step (vw_data v) (queries env name 0 cmds)
           else True) \<and>
          (case read_spec fired (queries env name 0 cmds) (vw_data v) p of (d, p1) \<Rightarrow>
             snd p1 \<and> fired_out fired \<and> fst p1 \<noteq> [] \<longrightarrow> flushes ss (fst p1)))"

text \<open>
  The invariant between events: no partly read request, the registration with \<open>epoll\<close> is what the
  session asks for, and a session with bytes to send asks for \<open>EPOLLOUT\<close>. Names are
  made from distinct numbers.
\<close>

definition conn_idle :: "conn \<Rightarrow> bool" where
  "conn_idle cn \<longleftrightarrow> buf_inv (cn_read cn) \<and> buf_inv (cn_write cn) \<and> readable (cn_read cn) = [] \<and> argv (cn_cache cn) = [] \<and>
     cn_watched cn \<and> cn_mask cn \<in> {EPOLLIN, both_events} \<and> cn_interest cn = Some (cn_mask cn) \<and>
     (readable (cn_write cn) \<noteq> [] \<longrightarrow> cn_mask cn = both_events)"

definition sv_inv :: "'g server \<Rightarrow> bool" where
  "sv_inv sv \<longleftrightarrow> kv_inv (db_kv (sv_db sv)) \<and> event_list (db_timers (sv_db sv)) = [] \<and>
     dom (sv_conns sv) = dom (db_sessions (sv_db sv)) \<and>
     (\<forall>name cn. sv_conns sv name = Some cn \<longrightarrow> conn_idle cn \<and>
       (\<exists>a i. name = session_name a i \<and> good_addr a \<and> 0 < i \<and> i < sv_next_id sv)) \<and>
     0 < sv_next_id sv \<and> sv_next_id sv < 2 ^ 31"

section \<open>Lemmas: one event\<close>

lemma serve_loop_requests:
  assumes "buf_inv b" "readable b = concat (map request cmds)" "argv c = []"
    and "\<forall>args \<in> set cmds. length args < 2 ^ 63 \<and> (\<forall>a \<in> set args. length a < 2 ^ 63)"
    and "buf_inv w" "kv_inv (db_kv db)" "calls_ok cmd_call_ok cmd_spec_step (db_abs db) (queries env name i cmds)"
    and "run_calls cmd_step db (queries env name i cmds) = (db', rps)"
  shows "\<exists>b' c' w'. serve_loop env name i db b c False w = Some (Inr (db', b', c', False, w')) \<and>
    buf_inv b' \<and> readable b' = [] \<and> argv c' = [] \<and> buf_inv w' \<and> readable w' = readable w @ concat (map the rps)"
  using assms
proof (induction cmds arbitrary: b c w db i rps)
  case Nil
  then show ?case by (simp add: serve_loop.simps TryParseFromBuffer_def ReadableBytes_length)
next
  case (Cons args cmds)
  let ?b = "ReaderIdxForward b (length (request args))"
  let ?c = "c\<lparr>argc := of_nat (length args), argv := args, cc_inited := True\<rparr>"
  let ?q = "(request_ctx env name i, args)"
  have p: "TryParseFromBuffer b c False = Some (?b, ?c, False, True)"
    using Cons.prems by (intro TryParse_complete [where rest = "concat (map request cmds)"]) auto
  obtain db1 r where q: "cmd_step db ?q = (db1, r)" by (cases "cmd_step db ?q")
  obtain rps1 where rest: "run_calls cmd_step db1 (queries env name (Suc i) cmds) = (db', rps1)" "rps = r # rps1"
    using Cons.prems(8) q by (auto split: prod.splits)
  note spec = cmd_step_spec [OF Cons.prems(6) _ q]
  have ok: "cmd_call_ok (db_abs db) ?q" using Cons.prems(7) by simp
  obtain msg where r: "r = Some msg" using cmd_spec_step_reply [OF spec(2) [OF ok]] by auto
  have h: "HandleCommand (request_ctx env name i) db args = Some (Inr (db1, msg))"
    using q r by (simp add: cmd_step_def split: option.splits sum.splits prod.splits)
  have b: "readable ?b = concat (map request cmds)" "buf_inv ?b" using Cons.prems by (simp_all add: forward_correct)
  have c: "argv (CommandCache_Clear ?c) = []" by (simp add: CommandCache_Clear_def)
  have w: "buf_inv (Buffer_Append w msg)" "readable (Buffer_Append w msg) = readable w @ msg"
    using Cons.prems(5) by (simp_all add: append_correct)
  have ok1: "calls_ok cmd_call_ok cmd_spec_step (db_abs db1) (queries env name (Suc i) cmds)"
    using Cons.prems(7) spec(2) [OF ok] by simp
  obtain b' c' w' where *: "serve_loop env name (Suc i) db1 ?b (CommandCache_Clear ?c) False (Buffer_Append w msg) =
      Some (Inr (db', b', c', False, w'))" "buf_inv b'" "readable b' = []" "argv c' = []" "buf_inv w'"
    "readable w' = readable (Buffer_Append w msg) @ concat (map the rps1)"
    using Cons.IH [OF b(2,1) c _ w(1) spec(1) [OF ok] ok1 rest(1)] Cons.prems(4) by auto
  then show ?case using p h r rest(2) w(2) by (simp add: serve_loop.simps [of env name i])
qed

lemma armed_events: "(1 OR 4 :: u32) = 5" "(5 OR 4 :: u32) = 5"
  by simp_all

lemma mask_fires:
  assumes "m \<in> {1, 5 :: u32}"
  shows "m AND fired AND 1 = fired AND 1" "m AND fired AND 4 = (if m = 5 then fired AND 4 else 0)"
proof -
  have "m AND fired AND 1 = fired AND (m AND 1)" "m AND fired AND 4 = fired AND (m AND 4)" by (simp_all add: ac_simps)
  moreover have "m AND 1 = 1" "m AND 4 = (if m = 5 then 4 else 0)" using assms by auto
  ultimately show "m AND fired AND 1 = fired AND 1" "m AND fired AND 4 = (if m = 5 then fired AND 4 else 0)" by simp_all
qed

lemma sv_inv_update:
  assumes "sv_inv sv" "sv_conns sv name = Some cn" "conn_idle cn'" "kv_inv (db_kv db')"
    and "db' = (sv_db sv)\<lparr>db_kv := db_kv db', db_log := db_log db'\<rparr>"
  shows "sv_inv (sv\<lparr>sv_db := db', sv_conns := (sv_conns sv)(name \<mapsto> cn')\<rparr>)"
proof -
  have "db_sessions db' = db_sessions (sv_db sv)" "db_timers db' = db_timers (sv_db sv)"
    by (subst assms(5), simp)+
  moreover have "insert name (dom (sv_conns sv)) = dom (sv_conns sv)" using assms(2) by auto
  ultimately show ?thesis using assms(1-4) by (simp add: sv_inv_def)
qed

lemma ReadProc_served:
  assumes "sv_inv sv" "sv_conns sv name = Some cn" "delivers rs cmds"
    and "calls_ok cmd_call_ok cmd_spec_step (db_abs (sv_db sv)) (queries env name 0 cmds)"
    and run: "run_calls cmd_step (sv_db sv) (queries env name 0 cmds) = (db', rps)"
  obtains cn' where "ReadProc True env rs name sv = Some (Inr (sv\<lparr>sv_db := db', sv_conns := (sv_conns sv)(name \<mapsto> cn')\<rparr>, False))"
    "conn_idle cn'" "cn_mask cn' = both_events" "readable (cn_write cn') = readable (cn_write cn) @ concat (map the rps)"
proof -
  have cn: "conn_idle cn" and kv: "kv_inv (db_kv (sv_db sv))" using assms(1,2) by (auto simp: sv_inv_def)
  obtain sess where sess: "db_sessions (sv_db sv) name = Some sess" using assms(1,2) unfolding sv_inv_def by (metis domD domI)
  obtain buf n where r: "ReadToBuf NET_READ_BUF_SIZE rs = Some (Inr (buf, n))" "0 < n" "take n buf = concat (map request cmds)"
    using assms(3) by (auto simp: delivers_def split: option.splits sum.splits)
  let ?b = "Buffer_Append (cn_read cn) (take n buf)"
  have b: "buf_inv ?b" "readable ?b = concat (map request cmds)" "argv (cn_cache cn) = []" "buf_inv (cn_write cn)"
    using cn r(3) by (simp_all add: conn_idle_def append_correct)
  have l: "\<forall>args \<in> set cmds. length args < 2 ^ 63 \<and> (\<forall>a \<in> set args. length a < 2 ^ 63)"
    using assms(3) by (simp add: delivers_def)
  obtain b' c' w' where s: "serve_loop env name 0 (sv_db sv) ?b (cn_cache cn) False (cn_write cn) = Some (Inr (db', b', c', False, w'))"
    "buf_inv b'" "readable b' = []" "argv c' = []" "buf_inv w'" "readable w' = readable (cn_write cn) @ concat (map the rps)"
    using serve_loop_requests [OF b(1-3) l b(4) kv assms(4) run] by blast
  show ?thesis
  proof (rule that)
    show "ReadProc True env rs name sv = Some (Inr (sv\<lparr>sv_db := db', sv_conns := (sv_conns sv)(name \<mapsto>
        ModifySession True (SetWrite (cn\<lparr>cn_read := b', cn_cache := c', cn_write := w'\<rparr>)))\<rparr>, False))"
      using assms(2) sess r(1,2) s(1) by (simp add: ReadProc_def)
  qed (use cn s in \<open>auto simp: conn_idle_def ModifySession_def AttachSession_def SetWrite_def armed_events\<close>)
qed

lemma WriteProc_served:
  assumes "sv_conns sv name = Some cn" "conn_idle cn" "cn_mask cn = both_events" "fired_out fired"
    and "readable (cn_write cn) \<noteq> [] \<longrightarrow> flushes ss (readable (cn_write cn))"
  obtains cn' out where "WriteProc True ss name sv = Some (Inr (sv\<lparr>sv_conns := (sv_conns sv)(name \<mapsto> cn')\<rparr>, out, False))"
    "conn_idle cn'" "write_spec fired ss (readable (cn_write cn), True) = ([out], readable (cn_write cn'), cn_mask cn' = both_events)"
proof (cases "readable (cn_write cn) = []")
  case True
  show ?thesis
    by (rule that [of "ModifySession True (SetRead cn)" "[]"])
      (use assms True in \<open>auto simp: WriteProc_def conn_idle_def ReadableBytes_length ModifySession_def AttachSession_def
        SetRead_def write_spec_def\<close>)
next
  case False
  let ?p = "readable (cn_write cn)"
  define n where "n = taken ss ?p"
  have f: "length ?p < 2 ^ 31" "0 < n" "n \<le> length ?p" "WriteFromBuf ?p (int (length ?p)) ss = Some (Inr (take n ?p, n))"
    using assms(5) False by (simp_all add: flushes_def n_def)
  have w: "buf_inv (cn_write cn)" using assms(2) by (simp add: conn_idle_def)
  have rb: "ReadableBytes (cn_write cn) = length ?p" "ReadableAsString (cn_write cn) = ?p"
    using w by (simp_all add: ReadableBytes_length ReadableAsString_def bytes_from_readable)
  have wr: "wrap32 (int (length ?p)) = int (length ?p)" using f(1) by (simp add: wrap32_id in_int32_def)
  define cn' where "cn' = (if n = length ?p then (ModifySession True (SetRead cn))\<lparr>cn_write := Buffer_Reset (cn_write cn)\<rparr>
     else cn\<lparr>cn_write := ReaderIdxForward (cn_write cn) n\<rparr>)"
  have left: "buf_inv (cn_write cn')" "readable (cn_write cn') = drop n ?p"
    using w f(3) by (simp_all add: cn'_def buf_inv_reset forward_correct)
  show ?thesis
  proof (rule that [of cn' "take n ?p"])
    show "WriteProc True ss name sv = Some (Inr (sv\<lparr>sv_conns := (sv_conns sv)(name \<mapsto> cn')\<rparr>, take n ?p, False))"
      using assms(1) False f(2,4) rb wr by (simp add: WriteProc_def Let_def cn'_def)
    show "conn_idle cn'"
      using assms(2,3) left f(3) by (auto simp: conn_idle_def cn'_def ModifySession_def AttachSession_def SetRead_def)
    show "write_spec fired ss (?p, True) = ([take n ?p], readable (cn_write cn'), cn_mask cn' = both_events)"
      using assms(3,4) False left(2) f(3)
      by (auto simp: write_spec_def n_def [symmetric] cn'_def ModifySession_def AttachSession_def SetRead_def)
  qed
qed

lemma session_name_inject:
  assumes "good_addr a" "good_addr b" "0 < i" "i < 2 ^ 31" "0 < j" "j < 2 ^ 31" "session_name a i = session_name b j"
  shows "i = j"
proof -
  have full: "session_name c k = ''*'' @ c @ ''#'' @ std_to_string k" if "good_addr c" "0 < k" "k < 2 ^ 31" for c k
  proof -
    have "length (std_to_string k) \<le> 20" "length c \<le> 21"
      using that length_std_to_string_int64 [of k] by (simp_all add: good_addr_def in_int64_def)
    then show ?thesis by (simp add: session_name_def)
  qed
  have "a @ CHR ''#'' # std_to_string i = b @ CHR ''#'' # std_to_string j" using assms full by simp
  then have "dropWhile ((\<noteq>) CHR ''#'') (a @ CHR ''#'' # std_to_string i) = dropWhile ((\<noteq>) CHR ''#'') (b @ CHR ''#'' # std_to_string j)"
    by simp
  then show ?thesis using assms(1,2) by (auto simp: good_addr_def dropWhile_append split: if_splits)
qed

lemma AcceptProc_served:
  assumes "sv_inv sv" "good_addr addr" "sv_next_id sv < 2 ^ 31 - 1"
  defines "name \<equiv> session_name addr (sv_next_id sv)"
  shows "sv_inv (AcceptProc True (Some (fd, addr)) sv)" "sv_conns sv name = None"
    "sv_view (AcceptProc True (Some (fd, addr)) sv) =
      (sv_view sv)\<lparr>vw_next := sv_next_id sv + 1, vw_pending := (vw_pending (sv_view sv))(name \<mapsto> ([], False))\<rparr>"
proof -
  let ?cn = "(Session_conn EPOLLIN)\<lparr>cn_watched := True, cn_interest := Some EPOLLIN\<rparr>"
  have next_id: "wrap32 (sv_next_id sv + 1) = sv_next_id sv + 1" "0 < sv_next_id sv"
    using assms(1,3) by (simp_all add: sv_inv_def wrap32_id in_int32_def)
  have acc: "AcceptProc True (Some (fd, addr)) sv = sv\<lparr>sv_next_id := sv_next_id sv + 1, sv_conns := (sv_conns sv)(name \<mapsto> ?cn),
      sv_db := (sv_db sv)\<lparr>db_sessions := (db_sessions (sv_db sv))(name \<mapsto> Session_new fd)\<rparr>\<rparr>"
    by (simp add: AcceptProc_def AttachSession_def next_id name_def Session_conn_def Let_def)
  show "sv_conns sv name = None"
  proof (rule ccontr)
    assume "sv_conns sv name \<noteq> None"
    then obtain a i where "name = session_name a i" "good_addr a" "0 < i" "i < sv_next_id sv"
      using assms(1) unfolding sv_inv_def by blast
    then show False using session_name_inject [OF assms(2), of a "sv_next_id sv" i] assms(3) next_id(2) by (simp add: name_def)
  qed
  have cn: "conn_idle ?cn" by (simp add: conn_idle_def Session_conn_def buf_inv_new CommandCache_new_def)
  have nm: "\<exists>a i. name = session_name a i \<and> good_addr a \<and> 0 < i \<and> i < sv_next_id sv + 1"
    using assms(2) next_id(2) by (auto simp: name_def)
  have old: "\<exists>a i. nm = session_name a i \<and> good_addr a \<and> 0 < i \<and> i < sv_next_id sv + 1" if c: "sv_conns sv nm = Some c" for nm c
  proof -
    obtain a i where "nm = session_name a i" "good_addr a" "0 < i" "i < sv_next_id sv"
      using assms(1) c unfolding sv_inv_def by blast
    then show ?thesis by (intro exI [of _ a] exI [of _ i]) simp
  qed
  show "sv_inv (AcceptProc True (Some (fd, addr)) sv)"
    unfolding acc sv_inv_def using assms(1,3) cn nm old by (auto simp: sv_inv_def split: if_splits)
  show "sv_view (AcceptProc True (Some (fd, addr)) sv) =
      (sv_view sv)\<lparr>vw_next := sv_next_id sv + 1, vw_pending := (vw_pending (sv_view sv))(name \<mapsto> ([], False))\<rparr>"
    unfolding acc by (auto simp: sv_view_def db_abs_def Session_conn_def buf_inv_new fun_eq_iff)
qed

lemma read_event_served:
  assumes "sv_inv sv" "sv_conns sv name = Some cn"
    and "if fired_in fired then delivers rs cmds \<and> calls_ok cmd_call_ok cmd_spec_step (db_abs (sv_db sv)) (queries env name 0 cmds) else True"
  obtains db' cn' where
    "(if cn_mask cn AND fired AND EPOLLIN \<noteq> 0 then ReadProc True env rs name sv else Some (Inr (sv, False))) =
      Some (Inr (sv\<lparr>sv_db := db', sv_conns := (sv_conns sv)(name \<mapsto> cn')\<rparr>, False))"
    "read_spec fired (queries env name 0 cmds) (db_abs (sv_db sv)) (readable (cn_write cn), cn_mask cn = both_events) =
      (db_abs db', readable (cn_write cn'), cn_mask cn' = both_events)"
    "conn_idle cn'" "kv_inv (db_kv db')" "db' = (sv_db sv)\<lparr>db_kv := db_kv db', db_log := db_log db'\<rparr>"
proof (cases "fired_in fired")
  case True
  have kv: "kv_inv (db_kv (sv_db sv))" and m: "cn_mask cn \<in> {1, 5}" using assms(1,2) by (auto simp: sv_inv_def conn_idle_def)
  have d: "delivers rs cmds" "calls_ok cmd_call_ok cmd_spec_step (db_abs (sv_db sv)) (queries env name 0 cmds)"
    using assms(3) True by simp_all
  obtain db' rps where run: "run_calls cmd_step (sv_db sv) (queries env name 0 cmds) = (db', rps)"
    by (cases "run_calls cmd_step (sv_db sv) (queries env name 0 cmds)")
  note spec = server_calls.run_refines [OF kv d(2) run] and frame = run_frame [OF kv d(2) run]
  obtain cn' where cn': "ReadProc True env rs name sv = Some (Inr (sv\<lparr>sv_db := db', sv_conns := (sv_conns sv)(name \<mapsto> cn')\<rparr>, False))"
    "conn_idle cn'" "cn_mask cn' = both_events" "readable (cn_write cn') = readable (cn_write cn) @ concat (map the rps)"
    using ReadProc_served [OF assms(1,2) d run] .
  show ?thesis
    by (rule that [OF _ _ cn'(2) _ frame]) (use True cn' spec mask_fires(1) [OF m] in \<open>simp_all add: read_spec_def\<close>)
next
  case False
  have kv: "kv_inv (db_kv (sv_db sv))" and cn: "conn_idle cn" and m: "cn_mask cn \<in> {1, 5}"
    using assms(1,2) by (auto simp: sv_inv_def conn_idle_def)
  have same: "sv\<lparr>sv_db := sv_db sv, sv_conns := (sv_conns sv)(name \<mapsto> cn)\<rparr> = sv"
    using assms(2) by (simp add: fun_upd_idem)
  show ?thesis
    by (rule that [where db' = "sv_db sv" and cn' = cn]) (use False cn kv same mask_fires(1) [OF m] in \<open>simp_all add: read_spec_def\<close>)
qed

lemma view_update:
  "sv_view (sv\<lparr>sv_db := db', sv_conns := (sv_conns sv)(name \<mapsto> cn)\<rparr>) =
    (sv_view sv)\<lparr>vw_data := db_abs db',
      vw_pending := (vw_pending (sv_view sv))(name \<mapsto> (readable (cn_write cn), cn_mask cn = both_events))\<rparr>"
  by (auto simp: sv_view_def fun_eq_iff)

lemma write_event_served:
  assumes "sv_conns sv name = Some cn" "conn_idle cn"
    and "cn_mask cn = both_events \<and> fired_out fired \<and> readable (cn_write cn) \<noteq> [] \<longrightarrow> flushes ss (readable (cn_write cn))"
  obtains cn' out where
    "(if cn_mask cn = both_events \<and> fired_out fired
      then (case WriteProc True ss name sv of
              None \<Rightarrow> None | Some (Inl e) \<Rightarrow> Some (Inl e)
            | Some (Inr (sv2, out, _)) \<Rightarrow> Some (Inr (sv2, [(name, out)])))
      else Some (Inr (sv, []))) = Some (Inr (sv\<lparr>sv_conns := (sv_conns sv)(name \<mapsto> cn')\<rparr>, map (Pair name) out))" "conn_idle cn'"
    "write_spec fired ss (readable (cn_write cn), cn_mask cn = both_events) = (out, readable (cn_write cn'), cn_mask cn' = both_events)"
proof (cases "cn_mask cn = both_events \<and> fired_out fired")
  case True
  then have "readable (cn_write cn) \<noteq> [] \<longrightarrow> flushes ss (readable (cn_write cn))" using assms(3) by simp
  from WriteProc_served [OF assms(1,2) _ _ this] True obtain cn' out where w:
    "WriteProc True ss name sv = Some (Inr (sv\<lparr>sv_conns := (sv_conns sv)(name \<mapsto> cn')\<rparr>, out, False))" "conn_idle cn'"
    "write_spec fired ss (readable (cn_write cn), True) = ([out], readable (cn_write cn'), cn_mask cn' = both_events)"
    by blast
  show ?thesis by (rule that [of cn' "[out]"]) (use w True in simp_all)
next
  case False
  have "sv\<lparr>sv_conns := (sv_conns sv)(name \<mapsto> cn)\<rparr> = sv" using assms(1) by (simp add: fun_upd_idem)
  then show ?thesis using that [of cn "[]"] False assms(2) by (auto simp: write_spec_def)
qed

lemma client_served:
  assumes "sv_inv sv" "ev_ok (sv_view sv) (ReadyClient name fired env rs ss, cmds)"
  obtains sv' out where "client_ready True name fired env rs ss sv = Some (Inr (sv', out))" "sv_inv sv'"
    "ev_spec (sv_view sv) (ReadyClient name fired env rs ss, cmds) = (sv_view sv', out)"
proof -
  obtain cn where cn: "sv_conns sv name = Some cn"
    using assms(2) by (cases "sv_conns sv name") (simp_all add: sv_view_def)
  let ?p = "(readable (cn_write cn), cn_mask cn = both_events)"
  have v: "vw_pending (sv_view sv) name = Some ?p" "vw_data (sv_view sv) = db_abs (sv_db sv)"
    using cn by (simp_all add: sv_view_def)
  have ok: "if fired_in fired then delivers rs cmds \<and> calls_ok cmd_call_ok cmd_spec_step (db_abs (sv_db sv)) (queries env name 0 cmds) else True"
    and fl: "\<And>d p1. read_spec fired (queries env name 0 cmds) (db_abs (sv_db sv)) ?p = (d, p1) \<Longrightarrow>
      snd p1 \<and> fired_out fired \<and> fst p1 \<noteq> [] \<longrightarrow> flushes ss (fst p1)"
    using assms(2) unfolding ev_ok.simps v option.case by auto
  obtain db' cn' where r:
    "(if cn_mask cn AND fired AND EPOLLIN \<noteq> 0 then ReadProc True env rs name sv else Some (Inr (sv, False))) =
      Some (Inr (sv\<lparr>sv_db := db', sv_conns := (sv_conns sv)(name \<mapsto> cn')\<rparr>, False))"
    "read_spec fired (queries env name 0 cmds) (db_abs (sv_db sv)) ?p = (db_abs db', readable (cn_write cn'), cn_mask cn' = both_events)"
    "conn_idle cn'" "kv_inv (db_kv db')" "db' = (sv_db sv)\<lparr>db_kv := db_kv db', db_log := db_log db'\<rparr>"
    using read_event_served [OF assms(1) cn ok] .
  let ?sv1 = "sv\<lparr>sv_db := db', sv_conns := (sv_conns sv)(name \<mapsto> cn')\<rparr>"
  have m: "cn_mask cn' \<in> {1, 5}" using r(3) by (simp add: conn_idle_def)
  have step: "client_ready True name fired env rs ss sv =
    (if cn_mask cn' = both_events \<and> fired_out fired
     then (case WriteProc True ss name ?sv1 of
             None \<Rightarrow> None | Some (Inl e) \<Rightarrow> Some (Inl e)
           | Some (Inr (sv2, out, _)) \<Rightarrow> Some (Inr (sv2, [(name, out)])))
     else Some (Inr (?sv1, [])))"
    unfolding client_ready_def using cn r(1) mask_fires(2) [OF m] by simp
  have cn1: "sv_conns ?sv1 name = Some cn'" by simp
  have "cn_mask cn' = both_events \<and> fired_out fired \<and> readable (cn_write cn') \<noteq> [] \<longrightarrow> flushes ss (readable (cn_write cn'))"
    using fl [OF r(2)] by simp
  from write_event_served [OF cn1 r(3) this] obtain cn2 out where w: "(if cn_mask cn' = both_events \<and> fired_out fired
      then (case WriteProc True ss name ?sv1 of
              None \<Rightarrow> None | Some (Inl e) \<Rightarrow> Some (Inl e)
            | Some (Inr (sv2, out, _)) \<Rightarrow> Some (Inr (sv2, [(name, out)])))
      else Some (Inr (?sv1, []))) = Some (Inr (?sv1\<lparr>sv_conns := (sv_conns ?sv1)(name \<mapsto> cn2)\<rparr>, map (Pair name) out))" "conn_idle cn2"
    "write_spec fired ss (readable (cn_write cn'), cn_mask cn' = both_events) = (out, readable (cn_write cn2), cn_mask cn2 = both_events)"
    .
  show ?thesis
  proof (rule that [OF _ sv_inv_update [OF assms(1) cn w(2) r(4,5)]])
    show "client_ready True name fired env rs ss sv =
        Some (Inr (sv\<lparr>sv_db := db', sv_conns := (sv_conns sv)(name \<mapsto> cn2)\<rparr>, map (Pair name) out))"
      unfolding step w(1) by simp
  qed (use v r(2) w(3) in \<open>simp add: view_update\<close>)
qed

lemma handle_ready_served:
  assumes "sv_inv sv" "ev_ok (sv_view sv) ev"
  obtains sv' out where "handle_ready True (fst ev) sv = Some (Inr (sv', out))" "sv_inv sv'" "ev_spec (sv_view sv) ev = (sv_view sv', out)"
proof (cases ev)
  case (Pair r cmds)
  show ?thesis
  proof (cases r)
    case (ReadyListen remote)
    show ?thesis
    proof (cases remote)
      case None
      then show ?thesis using that [of sv "[]"] assms Pair ReadyListen by (simp add: AcceptProc_def)
    next
      case (Some fa)
      obtain fd addr where fa: "fa = (fd, addr)" by (cases fa)
      have g: "good_addr addr" "sv_next_id sv < 2 ^ 31 - 1" using assms(2) Pair ReadyListen Some fa by (simp_all add: sv_view_def)
      note acc = AcceptProc_served(1,3) [OF assms(1) g, of fd]
      show ?thesis
        by (rule that [OF _ acc(1)]) (use Pair ReadyListen Some fa acc(2) in \<open>simp_all add: sv_view_def\<close>)
    qed
  next
    case (ReadyClient name fired env rs ss)
    obtain sv' out where "client_ready True name fired env rs ss sv = Some (Inr (sv', out))" "sv_inv sv'"
      "ev_spec (sv_view sv) (ReadyClient name fired env rs ss, cmds) = (sv_view sv', out)"
      using client_served [OF assms(1)] assms(2) Pair ReadyClient by metis
    then show ?thesis using that Pair ReadyClient by simp
  qed
qed

section \<open>Lemmas: runs of the loop\<close>

fun requests_of :: "'g event \<Rightarrow> ('g ctx \<times> string list) list" where
  "requests_of (ReadyListen remote, cmds) = []"
| "requests_of (ReadyClient name fired env rs ss, cmds) = (if fired_in fired then queries env name 0 cmds else [])"

definition replies_to :: "string \<Rightarrow> ('g ctx \<times> string list) list \<Rightarrow> string option list \<Rightarrow> string" where
  "replies_to name qs rps = concat (map (\<lambda>(q, r). the r) (filter (\<lambda>(q, r). c_session (fst q) = name) (zip qs rps)))"

definition sent_to :: "string \<Rightarrow> (string \<times> string) list \<Rightarrow> string" where
  "sent_to name outs = concat (map snd (filter (\<lambda>p. fst p = name) outs))"

definition pending :: "server_view \<Rightarrow> string \<Rightarrow> string" where
  "pending v name = (case vw_pending v name of None \<Rightarrow> [] | Some p \<Rightarrow> fst p)"

lemma run_calls_append:
  "run_calls step s (xs @ ys) =
    (case run_calls step s xs of (s1, rs1) \<Rightarrow> case run_calls step s1 ys of (s2, rs2) \<Rightarrow> (s2, rs1 @ rs2))"
  by (induction xs arbitrary: s) (auto split: prod.splits)

lemma length_run_calls: "length (snd (run_calls step s xs)) = length xs"
  by (induction xs arbitrary: s) (auto split: prod.splits, metis snd_conv)

lemma replies_to_append:
  "length qs = length rps \<Longrightarrow> replies_to name (qs @ qs') (rps @ rps') = replies_to name qs rps @ replies_to name qs' rps'"
  by (simp add: replies_to_def)

lemma sent_to_append: "sent_to name (xs @ ys) = sent_to name xs @ sent_to name ys"
  by (simp add: sent_to_def)

lemma queries_session: "q \<in> set (queries env name i cmds) \<Longrightarrow> c_session (fst q) = name"
  by (induction cmds arbitrary: i) (auto simp: request_ctx_def)

lemma replies_to_queries:
  assumes "length rps = length (queries env name i cmds)"
  shows "replies_to name' (queries env name i cmds) rps = (if name' = name then concat (map the rps) else [])"
proof -
  let ?qs = "queries env name i cmds"
  have s: "c_session (fst q) = name" if "(q, r) \<in> set (zip ?qs rps)" for q r
    using queries_session set_zip_leftD [OF that] by blast
  have "filter (\<lambda>(q, r). c_session (fst q) = name') (zip ?qs rps) = (if name' = name then zip ?qs rps else [])"
    using s by (auto simp: filter_empty_conv intro!: filter_True)
  moreover have "map (\<lambda>(q, r). the r) (zip ?qs rps) = map the rps"
    using map_snd_zip [of ?qs rps] assms by (simp add: case_prod_unfold flip: map_map comp_def [of the snd])
  ultimately show ?thesis by (simp add: replies_to_def)
qed

lemma write_accounts:
  "write_spec fired ss p = (out, p') \<Longrightarrow> fst p = concat out @ fst p'"
  by (auto simp: write_spec_def split: if_splits)

lemma ev_accounts:
  assumes "ev_spec v ev = (v', outs)" "run_calls cmd_spec_step (vw_data v) (requests_of ev) = (d, rps)"
    and "\<And>fd addr. fst ev = ReadyListen (Some (fd, addr)) \<Longrightarrow> vw_pending v (session_name addr (vw_next v)) = None"
    and "\<And>name fired env rs ss. fst ev = ReadyClient name fired env rs ss \<Longrightarrow> vw_pending v name \<noteq> None"
  shows "vw_data v' = d" "pending v name @ replies_to name (requests_of ev) rps = sent_to name outs @ pending v' name"
proof -
  have "vw_data v' = d \<and> pending v name @ replies_to name (requests_of ev) rps = sent_to name outs @ pending v' name"
  proof (cases ev rule: requests_of.cases)
    case (1 remote cmds)
    then show ?thesis using assms
      by (auto simp: replies_to_def sent_to_def pending_def split: option.splits prod.splits if_splits)
  next
    case (2 nm fired env rs ss cmds)
    obtain p where p: "vw_pending v nm = Some p" using assms(4) 2 by fastforce
    obtain d1 p1 where r: "read_spec fired (queries env nm 0 cmds) (vw_data v) p = (d1, p1)"
      by (cases "read_spec fired (queries env nm 0 cmds) (vw_data v) p")
    obtain out p2 where w: "write_spec fired ss p1 = (out, p2)" by (cases "write_spec fired ss p1")
    have v': "v' = v\<lparr>vw_data := d1, vw_pending := (vw_pending v)(nm \<mapsto> p2)\<rparr>" "outs = map (Pair nm) out"
      using assms(1) 2 p r w by simp_all
    have "length rps = length (requests_of ev)" using length_run_calls assms(2) by (metis snd_conv)
    then have "d1 = d" "fst p1 = fst p @ (if fired_in fired then concat (map the rps) else [])"
      "replies_to name (requests_of ev) rps = (if name = nm \<and> fired_in fired then concat (map the rps) else [])"
      using assms(2) 2 r by (auto simp: read_spec_def replies_to_queries split: if_splits prod.splits) (simp add: replies_to_def)
    moreover have "sent_to name outs = (if name = nm then concat out else [])"
      unfolding v'(2) by (auto simp: sent_to_def filter_map comp_def)
    ultimately show ?thesis using write_accounts [OF w] p v'(1) by (auto simp: pending_def)
  qed
  then show "vw_data v' = d" "pending v name @ replies_to name (requests_of ev) rps = sent_to name outs @ pending v' name" by simp_all
qed

lemma handle_ready_accounts:
  assumes "sv_inv sv" "ev_ok (sv_view sv) ev" "run_calls cmd_spec_step (db_abs (sv_db sv)) (requests_of ev) = (d, rps)"
  obtains sv' out where "handle_ready True (fst ev) sv = Some (Inr (sv', out))" "sv_inv sv'"
    "ev_spec (sv_view sv) ev = (sv_view sv', out)" "db_abs (sv_db sv') = d"
    "\<forall>name. pending (sv_view sv) name @ replies_to name (requests_of ev) rps = sent_to name out @ pending (sv_view sv') name"
proof -
  obtain sv' out where s: "handle_ready True (fst ev) sv = Some (Inr (sv', out))" "sv_inv sv'" "ev_spec (sv_view sv) ev = (sv_view sv', out)"
    using handle_ready_served [OF assms(1,2)] .
  have run: "run_calls cmd_spec_step (vw_data (sv_view sv)) (requests_of ev) = (d, rps)" using assms(3) by (simp add: sv_view_def)
  have fresh: "vw_pending (sv_view sv) (session_name addr (vw_next (sv_view sv))) = None"
    if "fst ev = ReadyListen (Some (fd, addr))" for fd addr
  proof -
    have "good_addr addr" "sv_next_id sv < 2 ^ 31 - 1" using assms(2) that by (cases ev; simp add: sv_view_def)+
    from AcceptProc_served(2) [OF assms(1) this] show ?thesis by (simp add: sv_view_def)
  qed
  have live: "vw_pending (sv_view sv) name \<noteq> None" if "fst ev = ReadyClient name fired env rs ss" for name fired env rs ss
    using assms(2) that by (cases ev) (auto split: option.splits)
  note acc = ev_accounts [OF s(3) run fresh live]
  show ?thesis
    by (rule that [OF s]) (use acc in \<open>auto simp: sv_view_def\<close>)
qed

lemma handle_events_accounts:
  assumes "sv_inv sv" "calls_ok ev_ok ev_spec (sv_view sv) evs"
    and "run_calls cmd_spec_step (db_abs (sv_db sv)) (concat (map requests_of evs)) = (d, rps)"
  shows "\<exists>sv' out. handle_events True (map fst evs) sv = Some (Inr (sv', out)) \<and> sv_inv sv' \<and>
    fst (run_calls ev_spec (sv_view sv) evs) = sv_view sv' \<and> db_abs (sv_db sv') = d \<and>
    (\<forall>name. pending (sv_view sv) name @ replies_to name (concat (map requests_of evs)) rps = sent_to name out @ pending (sv_view sv') name)"
  using assms
proof (induction evs arbitrary: sv rps)
  case Nil
  then show ?case by (simp add: replies_to_def sent_to_def)
next
  case (Cons ev evs)
  obtain d1 rps1 where r1: "run_calls cmd_spec_step (db_abs (sv_db sv)) (requests_of ev) = (d1, rps1)"
    by (cases "run_calls cmd_spec_step (db_abs (sv_db sv)) (requests_of ev)")
  have ok: "ev_ok (sv_view sv) ev" using Cons.prems(2) by simp
  obtain sv1 out1 where s: "handle_ready True (fst ev) sv = Some (Inr (sv1, out1))" "sv_inv sv1"
    "ev_spec (sv_view sv) ev = (sv_view sv1, out1)" "db_abs (sv_db sv1) = d1"
    "\<forall>name. pending (sv_view sv) name @ replies_to name (requests_of ev) rps1 = sent_to name out1 @ pending (sv_view sv1) name"
    using handle_ready_accounts [OF Cons.prems(1) ok r1] .
  obtain d2 rps2 where r2: "run_calls cmd_spec_step d1 (concat (map requests_of evs)) = (d2, rps2)"
    by (cases "run_calls cmd_spec_step d1 (concat (map requests_of evs))")
  have eq: "d = d2" "rps = rps1 @ rps2" using Cons.prems(3) r1 r2 by (simp_all add: run_calls_append)
  have len: "length (requests_of ev) = length rps1" using length_run_calls r1 by (metis snd_conv)
  obtain sv2 out2 where t: "handle_events True (map fst evs) sv1 = Some (Inr (sv2, out2))" "sv_inv sv2"
    "fst (run_calls ev_spec (sv_view sv1) evs) = sv_view sv2" "db_abs (sv_db sv2) = d2"
    "\<forall>name. pending (sv_view sv1) name @ replies_to name (concat (map requests_of evs)) rps2 = sent_to name out2 @ pending (sv_view sv2) name"
    using Cons.IH [OF s(2)] Cons.prems(2) s(3,4) r2 eq(1) by auto
  have "pending (sv_view sv) name @ replies_to name (concat (map requests_of (ev # evs))) rps =
      sent_to name (out1 @ out2) @ pending (sv_view sv2) name" for name
    using s(5) t(5) by (simp add: eq(2) replies_to_append [OF len] sent_to_append) (metis append_assoc)
  then show ?case using s t eq by (auto split: prod.splits)
qed

lemma calls_ok_append:
  "calls_ok ok spec a (xs @ ys) \<longleftrightarrow> calls_ok ok spec a xs \<and> calls_ok ok spec (fst (run_calls spec a xs)) ys"
  by (induction xs arbitrary: a) (auto split: prod.splits)

lemma fire_timers_none: "event_list (db_timers db) = [] \<Longrightarrow> fire_timers now later db = db"
  by (simp add: fire_timers_def HandleFiredTimeEvent_def)

type_synonym 'g round = "'g event list \<times> u64 \<times> (string time_event \<Rightarrow> u64)"

definition pass_of :: "'g round \<Rightarrow> 'g pass" where
  "pass_of rd = \<lparr>ps_ready = map fst (fst rd), ps_now = fst (snd rd), ps_later = snd (snd rd)\<rparr>"

definition round_events :: "'g round list \<Rightarrow> 'g event list" where
  "round_events rds = concat (map fst rds)"

definition round_requests :: "'g round list \<Rightarrow> ('g ctx \<times> string list) list" where
  "round_requests rds = concat (map requests_of (round_events rds))"

lemma Loop_accounts:
  assumes "sv_inv sv" "calls_ok ev_ok ev_spec (sv_view sv) (round_events rds)"
    and "run_calls cmd_spec_step (db_abs (sv_db sv)) (round_requests rds) = (d, rps)"
  shows "\<exists>sv' out. Loop True (map pass_of rds) sv = Some (Inr (sv', out)) \<and> sv_inv sv' \<and> db_abs (sv_db sv') = d \<and>
    (\<forall>name. pending (sv_view sv) name @ replies_to name (round_requests rds) rps = sent_to name out @ pending (sv_view sv') name)"
  using assms
proof (induction rds arbitrary: sv rps)
  case Nil
  then show ?case by (simp add: round_events_def round_requests_def replies_to_def sent_to_def)
next
  case (Cons rd rds)
  let ?evs = "fst rd" and ?q = "concat (map requests_of (fst rd))"
  have split: "round_events (rd # rds) = ?evs @ round_events rds" "round_requests (rd # rds) = ?q @ round_requests rds"
    by (simp_all add: round_events_def round_requests_def)
  obtain d1 rps1 where r1: "run_calls cmd_spec_step (db_abs (sv_db sv)) ?q = (d1, rps1)"
    by (cases "run_calls cmd_spec_step (db_abs (sv_db sv)) ?q")
  obtain d2 rps2 where r2: "run_calls cmd_spec_step d1 (round_requests rds) = (d2, rps2)"
    by (cases "run_calls cmd_spec_step d1 (round_requests rds)")
  have eq: "d = d2" "rps = rps1 @ rps2" using Cons.prems(3) r1 r2 by (simp_all add: split run_calls_append)
  have len: "length ?q = length rps1" using length_run_calls r1 by (metis snd_conv)
  have ok: "calls_ok ev_ok ev_spec (sv_view sv) ?evs" using Cons.prems(2) by (simp add: split calls_ok_append)
  obtain sv1 out1 where s: "handle_events True (map fst ?evs) sv = Some (Inr (sv1, out1))" "sv_inv sv1"
    "fst (run_calls ev_spec (sv_view sv) ?evs) = sv_view sv1" "db_abs (sv_db sv1) = d1"
    "\<forall>name. pending (sv_view sv) name @ replies_to name ?q rps1 = sent_to name out1 @ pending (sv_view sv1) name"
    using handle_events_accounts [OF Cons.prems(1) ok r1] by blast
  have quiet: "sv1\<lparr>sv_db := fire_timers now later (sv_db sv1)\<rparr> = sv1" for now later
    using s(2) by (simp add: sv_inv_def fire_timers_none)
  obtain sv2 out2 where t: "Loop True (map pass_of rds) sv1 = Some (Inr (sv2, out2))" "sv_inv sv2" "db_abs (sv_db sv2) = d2"
    "\<forall>name. pending (sv_view sv1) name @ replies_to name (round_requests rds) rps2 = sent_to name out2 @ pending (sv_view sv2) name"
    using Cons.IH [OF s(2)] Cons.prems(2) s(3,4) r2 eq(1) by (auto simp: split calls_ok_append)
  have "pending (sv_view sv) name @ replies_to name (round_requests (rd # rds)) rps =
      sent_to name (out1 @ out2) @ pending (sv_view sv2) name" for name
    using s(5) t(4) by (simp add: eq(2) split replies_to_append [OF len] sent_to_append) (metis append_assoc)
  moreover have "Loop True (map pass_of (rd # rds)) sv = Some (Inr (sv2, out1 @ out2))"
    using s(1) t(1) quiet by (simp add: pass_of_def)
  ultimately show ?case using t(2,3) eq(1) by blast
qed

section \<open>Properties\<close>


text \<open>A server that accepts one client, which sends two requests and is sent both replies.\<close>

definition sample_rounds :: "unit round list" where
  "sample_rounds =
     [([(ReadyListen (Some (7, ''h:1'')), [])], 5, \<lambda>ev. 0),
      ([(ReadyClient (session_name ''h:1'' 1) 5 (\<lambda>i. sample_ctx 9)
          [ReadOk (request [''SET'', ''n'', ''41''] @ request [''Incr'', ''n'']), ReadErr False] [SendOk 10],
         [[''SET'', ''n'', ''41''], [''Incr'', ''n'']])], 6, \<lambda>ev. 0)]"

lemma sample_round_run:
  assumes "qs = queries (\<lambda>i. sample_ctx 9) name 0 [[''SET'', ''n'', ''41''], [''Incr'', ''n'']]"
  shows "calls_ok cmd_call_ok cmd_spec_step (Map.empty, Some []) qs"
    "run_calls cmd_spec_step (Map.empty, Some []) qs =
      (([''n'' \<mapsto> AInt 42], Some [[''set'', ''n'', ''41''], [''incr'', ''n'']]), [Some (''+OK'' @ CRLF), Some ('':42'' @ CRLF)])"
proof -
  have "PackIntReply 42 = '':42'' @ CRLF" by code_simp
  then show "calls_ok cmd_call_ok cmd_spec_step (Map.empty, Some []) qs"
    "run_calls cmd_spec_step (Map.empty, Some []) qs =
      (([''n'' \<mapsto> AInt 42], Some [[''set'', ''n'', ''41''], [''incr'', ''n'']]), [Some (''+OK'' @ CRLF), Some ('':42'' @ CRLF)])"
    by (simp_all add: assms request_ctx_def sample_eval)
qed

lemma sample_delivers:
  "delivers [ReadOk (request [''SET'', ''n'', ''41''] @ request [''Incr'', ''n'']), ReadErr False] [[''SET'', ''n'', ''41''], [''Incr'', ''n'']]"
proof -
  let ?s = "request [''SET'', ''n'', ''41''] @ request [''Incr'', ''n'']"
  have "length ?s = 49" by code_simp
  then obtain buf where "ReadToBuf NET_READ_BUF_SIZE [ReadOk ?s, ReadErr False] = Some (Inr (buf, length ?s))" "take (length ?s) buf = ?s"
    using read_one [of ?s NET_READ_BUF_SIZE "[ReadErr False]"] by auto
  then show ?thesis using \<open>length ?s = 49\<close> by (simp add: delivers_def)
qed

lemma sample_flushes: "flushes [SendOk 10] (''+OK'' @ CRLF @ '':42'' @ CRLF)"
  using send_one [of 10 "''+OK'' @ CRLF @ '':42'' @ CRLF" "[]"] by (simp add: flushes_def taken_def)

lemma sample_server: "sv_inv (Server_new sample_db)" "sv_view (Server_new sample_db) = \<lparr>vw_data = (Map.empty, Some []), vw_next = 1, vw_pending = Map.empty\<rparr>"
  using sample_inv_abs by (simp_all add: sv_inv_def Server_new_def sample_db_def TimeEventHolder_def sv_view_def db_abs_def fun_eq_iff)

lemma sample_rounds_ok: "calls_ok ev_ok ev_spec (sv_view (Server_new sample_db)) (round_events sample_rounds)"
  unfolding sample_server(2)
  by (simp add: sample_rounds_def round_events_def good_addr_def sample_delivers sample_round_run [OF refl] read_spec_def sample_flushes [simplified] del: queries.simps)


end
