(* ===== verification/Sessions.thy ===== *)
theory Sessions
  imports Server
begin

text \<open>
  The life of a session: its name is given once, its subscriptions point back to it, and what
  closing it leaves behind. The server is a state machine whose steps are the entries of
  \<open>epoll_wait\<close> and the passes over the timers, with any commands, well-formed or not.
\<close>

section \<open>What the commands do to sessions\<close>

definition subs_ok :: "'g db \<Rightarrow> bool" where
  "subs_ok db \<longleftrightarrow> (\<forall>ch name fd sess. (name, fd) \<in> set (sub_list db ch) \<longrightarrow> db_sessions db name = Some sess \<longrightarrow>
     sess_fd sess = fd \<and> ch \<in> set (sess_channels sess))"

definition subscribers :: "'g db \<Rightarrow> string set" where
  "subscribers db = {name. \<exists>ch fd. (name, fd) \<in> set (sub_list db ch)}"

definition sess_step :: "'g db \<Rightarrow> 'g db \<Rightarrow> bool" where
  "sess_step db db' \<longleftrightarrow> (subs_ok db \<longrightarrow> subs_ok db') \<and> dom (db_sessions db') = dom (db_sessions db) \<and>
     subscribers db' \<subseteq> subscribers db \<union> dom (db_sessions db)"

lemma sess_step_trans: "sess_step a b \<Longrightarrow> sess_step b c \<Longrightarrow> sess_step a c"
  by (auto simp: sess_step_def)

lemma sess_step_same:
  assumes "db_sessions db' = db_sessions db" "db_subs db' = db_subs db"
  shows "sess_step db db'"
  using assms by (simp add: sess_step_def subs_ok_def subscribers_def sub_list_def)

definition keeps_sessions :: "('g ctx \<Rightarrow> 'g db \<Rightarrow> string list \<Rightarrow> 'g reply) \<Rightarrow> bool" where
  "keeps_sessions handler \<longleftrightarrow>
     (\<forall>c db args db' msg. handler c db args = Some (Inr (db', msg)) \<longrightarrow>
        db_sessions db' = db_sessions db \<and> db_subs db' = db_subs db)"

lemma ExpireCommand_keeps_sessions: "keeps_sessions ExpireCommand" "keeps_sessions ExpireAtCommand"
proof -
  have log: "db_sessions db' = db_sessions db \<and> db_subs db' = db_subs db" if "log_expire c db args n = Some (Inr (db', msg))"
    for c :: "'g ctx" and db args n db' msg using log_expire_changes(1) [OF that] by auto
  have e: "db_sessions db' = db_sessions db \<and> db_subs db' = db_subs db" if "ExpireCommand c db args = Some (Inr (db', msg))"
    for c :: "'g ctx" and db args db' msg
    using that by (auto simp: ExpireCommand_def answer_def Let_def split: if_splits option.splits prod.splits bool.splits dest!: log)
  then show "keeps_sessions ExpireCommand" unfolding keeps_sessions_def by blast
  show "keeps_sessions ExpireAtCommand"
    using e by (fastforce simp: keeps_sessions_def ExpireAtCommand_def answer_def Let_def split: if_splits option.splits)
qed

lemma keeps_sessions_handlers:
  "list_all (\<lambda>(opcode, h). opcode \<in> {''expire'', ''expireat'', ''subscribe'', ''unsubscribe''} \<or> keeps_sessions h) sOpCommandMap"
  unfolding sOpCommandMap_def list.pred_inject
  by (intro conjI TrueI)
    (auto simp: keeps_sessions_def handler_defs answer_def AddIntoAppendableDirectly_def Let_def
      split: if_splits option.splits sum.splits prod.splits vvalue.splits)

lemma subscribe_step:
  assumes "db_sessions db name = Some sess" "subscribe_loop name chs db sess ss = (db', ss')"
  shows "sess_step db db'"
proof -
  note s = subscribe_loop_spec [OF assms]
  have mem: "(nm, fd) \<in> set (sub_list db' ch) \<longleftrightarrow> (nm, fd) \<in> set (sub_list db ch) \<or> ch \<in> set chs \<and> nm = name \<and> fd = sess_fd sess" for nm fd ch
    using s by (auto simp: count_list_0_iff)
  have d: "db_sessions db' = (db_sessions db)(name \<mapsto> subscribed chs sess)" using s by simp
  have c: "sess_fd (subscribed chs sess) = sess_fd sess" "set (sess_channels (subscribed chs sess)) = set chs \<union> set (sess_channels sess)"
    by (simp_all add: subscribed_def set_fold_insert)
  show ?thesis using assms(1) unfolding sess_step_def subs_ok_def subscribers_def mem d
    by (auto simp: c split: if_splits)
qed

lemma unsubscribe_step:
  assumes "db_sessions db name = Some sess" "unsubscribe_loop name chs db sess ss = (db', ss')"
  shows "sess_step db db'"
proof -
  note s = unsubscribe_loop_spec [OF assms]
  have mem: "(nm, fd) \<in> set (sub_list db' ch) \<longleftrightarrow> (nm, fd) \<in> set (sub_list db ch) \<and> (ch \<in> set chs \<longrightarrow> nm \<noteq> name)" for nm fd ch
    using s by simp
  have d: "db_sessions db' = (db_sessions db)(name \<mapsto> unsubscribed chs sess)" using s by simp
  show ?thesis using assms(1) unfolding sess_step_def subs_ok_def subscribers_def mem d
    by (auto simp: unsubscribed_def split: if_splits)
qed

lemma PubSub_step:
  assumes "PubSubSubscribeCommand c db args = Some (Inr (db', msg)) \<or> PubSubUnsubscribeCommand c db args = Some (Inr (db', msg))"
  shows "sess_step db db'"
  using assms
  by (auto simp: PubSubSubscribeCommand_def PubSubUnsubscribeCommand_def answer_def Let_def
      split: if_splits option.splits prod.splits intro: subscribe_step unsubscribe_step sess_step_same)

lemma HandleCommand_step:
  assumes "HandleCommand c db args = Some (Inr (db', msg))"
  shows "sess_step db db'"
proof -
  obtain op0 rest where args: "args = op0 # rest" using assms by (cases args) (auto simp: HandleCommand_def)
  let ?op = "map c_tolower op0"
  show ?thesis
  proof (cases "map_of sOpCommandMap ?op :: ('a ctx \<Rightarrow> 'a db \<Rightarrow> string list \<Rightarrow> 'a reply) option")
    case None
    then show ?thesis using assms by (auto simp: HandleCommand_def args Let_def answer_def intro: sess_step_same)
  next
    case (Some h)
    then obtain db1 where ev: "lazy_evict c db = Some (Inr db1)" and h: "h c db1 (?op # rest) = Some (Inr (db', msg))"
      using assms by (auto simp: HandleCommand_def args Let_def split: option.splits sum.splits)
    have 1: "sess_step db db1"
      using ev by (intro sess_step_same) (auto simp: lazy_evict_def split: if_splits option.splits sum.splits prod.splits)
    have "(?op, h) \<in> set sOpCommandMap" using Some by (rule map_of_SomeD)
    then consider "?op = ''expire''" | "?op = ''expireat''" | "?op = ''subscribe''" | "?op = ''unsubscribe''" | "keeps_sessions h"
      using keeps_sessions_handlers by (fastforce simp: list_all_iff)
    then have "keeps_sessions h \<or> h = PubSubSubscribeCommand \<or> h = PubSubUnsubscribeCommand"
      using Some ExpireCommand_keeps_sessions by cases (auto simp: sOpCommandMap_def)
    then have "sess_step db1 db'"
      using h PubSub_step unfolding keeps_sessions_def by (blast intro: sess_step_same)
    then show ?thesis by (rule sess_step_trans [OF 1])
  qed
qed

lemma fire_timers_step: "sess_step db (fire_timers now later db)"
proof -
  have "db_sessions (fold expire_key ks db) = db_sessions db" "db_subs (fold expire_key ks db) = db_subs db" for ks and db :: "'a db"
    by (induction ks arbitrary: db) (simp_all add: expire_key_def)
  then show ?thesis by (intro sess_step_same) (simp_all add: fire_timers_def split: prod.splits)
qed

lemma serve_loop_step:
  "serve_loop env name i db b cache err w = Some (Inr (db', r)) \<Longrightarrow> sess_step db db'"
proof (induction env name i db b cache err w rule: serve_loop.induct)
  case (1 env name i db b cache err w)
  from 1(2) show ?case
    by (subst (asm) serve_loop.simps)
      (auto split: option.splits prod.splits if_splits sum.splits intro: sess_step_same
        dest!: 1(1) [rotated -1] intro: sess_step_trans [OF HandleCommand_step])
qed

section \<open>Reachable states of the server\<close>

inductive sv_reachable :: "'g server \<Rightarrow> bool" where
  start: "sv_reachable (Server_new db)"
| accept: "sv_reachable sv \<Longrightarrow> good_addr addr \<Longrightarrow> sv_next_id sv < 2 ^ 31 - 1 \<Longrightarrow>
    handle_ready ctl (ReadyListen (Some (fd, addr))) sv = Some (Inr (sv', out)) \<Longrightarrow> sv_reachable sv'"
| client: "sv_reachable sv \<Longrightarrow> handle_ready ctl (ReadyClient name fired env rs ss) sv = Some (Inr (sv', out)) \<Longrightarrow> sv_reachable sv'"
| timers: "sv_reachable sv \<Longrightarrow> sv_reachable (sv\<lparr>sv_db := fire_timers now later (sv_db sv)\<rparr>)"

definition named :: "int \<Rightarrow> string \<Rightarrow> bool" where
  "named n name \<longleftrightarrow> (\<exists>a i. name = session_name a i \<and> good_addr a \<and> 0 < i \<and> i < n)"

definition sess_inv :: "'g server \<Rightarrow> bool" where
  "sess_inv sv \<longleftrightarrow> dom (sv_conns sv) = dom (db_sessions (sv_db sv)) \<and> subs_ok (sv_db sv) \<and>
     (\<forall>name \<in> dom (db_sessions (sv_db sv)) \<union> subscribers (sv_db sv). named (sv_next_id sv) name) \<and>
     0 < sv_next_id sv \<and> sv_next_id sv < 2 ^ 31"

lemma named_fresh: "good_addr addr \<Longrightarrow> 0 < n \<Longrightarrow> n < 2 ^ 31 \<Longrightarrow> \<not> named n (session_name addr n)"
  unfolding named_def using session_name_inject by (metis less_irrefl less_trans)

lemma sess_inv_step:
  assumes "sess_inv sv" "sess_step (sv_db sv) db'" "dom conns' = dom (sv_conns sv)"
  shows "sess_inv (sv\<lparr>sv_db := db', sv_conns := conns'\<rparr>)"
  using assms by (auto simp: sess_inv_def sess_step_def)

lemma sess_inv_erase:
  assumes "sess_inv sv"
  shows "sess_inv (erase_session name sv)"
proof -
  let ?db = "sv_db (erase_session name sv)"
  have sub: "sub_list ?db = sub_list (sv_db sv)" by (simp add: erase_session_def sub_list_def fun_eq_iff)
  have ses: "db_sessions ?db = (db_sessions (sv_db sv))(name := None)" by (simp add: erase_session_def)
  have "subs_ok ?db" using assms unfolding sess_inv_def subs_ok_def sub ses by (auto split: if_splits)
  moreover have "subscribers ?db = subscribers (sv_db sv)" by (simp add: subscribers_def sub)
  moreover have "dom (db_sessions ?db) = dom (db_sessions (sv_db sv)) - {name}" using ses by simp
  moreover have "dom (sv_conns (erase_session name sv)) = dom (sv_conns sv) - {name}" "sv_next_id (erase_session name sv) = sv_next_id sv"
    by (simp_all add: erase_session_def)
  ultimately show ?thesis using assms by (simp add: sess_inv_def) blast
qed

lemma remove_from_channels:
  "db_sessions (fold (\<lambda>ch d. RemoveSessionFromSubscription d ch name) chs db) = db_sessions db \<and>
   sub_list (fold (\<lambda>ch d. RemoveSessionFromSubscription d ch name) chs db) ch =
     filter (\<lambda>p. ch \<in> set chs \<longrightarrow> fst p \<noteq> name) (sub_list db ch)"
proof (induction chs arbitrary: db)
  case (Cons c chs)
  have "sub_list (RemoveSessionFromSubscription db c name) ch = filter (\<lambda>p. ch = c \<longrightarrow> fst p \<noteq> name) (sub_list db ch)"
    by (simp add: RemoveSessionFromSubscription_def sub_list_def)
  then show ?case using Cons by (auto simp: RemoveSessionFromSubscription_def intro: filter_cong)
qed simp

lemma ReadProc_sess_inv:
  assumes "sess_inv sv" "ReadProc ctl env rs name sv = Some (Inr (sv', gone))"
  shows "sess_inv sv'"
proof -
  obtain cn sess where n: "sv_conns sv name = Some cn" "db_sessions (sv_db sv) name = Some sess"
    using assms(2) by (auto simp: ReadProc_def split: option.splits)
  obtain buf nbytes where r: "ReadToBuf NET_READ_BUF_SIZE rs = Some (Inr (buf, nbytes))"
    using assms(2) n by (auto simp: ReadProc_def split: option.splits sum.splits)
  show ?thesis
  proof (cases "nbytes = 0")
    case True
    let ?db1 = "fold (\<lambda>ch d. RemoveSessionFromSubscription d ch name) (sess_channels sess) (sv_db sv)"
    have sub: "sub_list ?db1 ch = filter (\<lambda>p. ch \<in> set (sess_channels sess) \<longrightarrow> fst p \<noteq> name) (sub_list (sv_db sv) ch)" for ch
      using remove_from_channels by blast
    have ses: "db_sessions ?db1 = db_sessions (sv_db sv)" using remove_from_channels by blast
    have "sess_step (sv_db sv) ?db1" unfolding sess_step_def subs_ok_def subscribers_def ses sub by auto
    then have "sess_inv (sv\<lparr>sv_db := ?db1, sv_conns := sv_conns sv\<rparr>)" by (rule sess_inv_step [OF assms(1)]) simp
    then show ?thesis using assms(2) n r True by (auto simp: ReadProc_def intro!: sess_inv_erase)
  next
    case False
    obtain db' b' cache' err' w' where s: "serve_loop env name 0 (sv_db sv) (Buffer_Append (cn_read cn) (take nbytes buf)) (cn_cache cn) False (cn_write cn) =
        Some (Inr (db', b', cache', err', w'))"
      using assms(2) n r False by (auto simp: ReadProc_def split: option.splits sum.splits)
    obtain cn' where "sv' = sv\<lparr>sv_db := db', sv_conns := (sv_conns sv)(name \<mapsto> cn')\<rparr>"
      using assms(2) n r False s by (auto simp: ReadProc_def Let_def)
    moreover have "insert name (dom (sv_conns sv)) = dom (sv_conns sv)" using n(1) by auto
    ultimately show ?thesis using sess_inv_step [OF assms(1) serve_loop_step [OF s]] by simp
  qed
qed

lemma WriteProc_sess_inv:
  assumes "sess_inv sv" "WriteProc ctl ss name sv = Some (Inr (sv', out, gone))"
  shows "sess_inv sv'"
proof -
  obtain cn where n: "sv_conns sv name = Some cn" using assms(2) by (auto simp: WriteProc_def split: option.splits)
  have same: "sess_inv (sv\<lparr>sv_conns := (sv_conns sv)(name \<mapsto> cn')\<rparr>)" for cn'
    using sess_inv_step [OF assms(1) sess_step_same [OF refl refl], of "(sv_conns sv)(name \<mapsto> cn')"] n by (auto simp: insert_absorb)
  show ?thesis using assms(2) n same sess_inv_erase [OF assms(1), of name]
    by (auto simp: WriteProc_def Let_def split: if_splits option.splits sum.splits)
qed

lemma client_sess_inv:
  assumes "sess_inv sv" "client_ready ctl name fired env rs ss sv = Some (Inr (sv', out))"
  shows "sess_inv sv'"
proof -
  obtain cn where cn: "sv_conns sv name = Some cn" using assms(2) by (auto simp: client_ready_def split: option.splits)
  obtain sv1 gone where r: "(if cn_mask cn AND fired AND EPOLLIN \<noteq> 0 then ReadProc ctl env rs name sv else Some (Inr (sv, False))) = Some (Inr (sv1, gone))"
    using assms(2) cn by (auto simp: client_ready_def split: option.splits sum.splits prod.splits)
  have inv1: "sess_inv sv1" using r assms(1) ReadProc_sess_inv [OF assms(1), of ctl env rs name sv1 gone] by (simp split: if_splits)
  have "sv' = sv1 \<or> (\<exists>out' gone'. WriteProc ctl ss name sv1 = Some (Inr (sv', out', gone')))"
    using assms(2) unfolding client_ready_def cn option.case r
    by (simp split: if_splits option.splits sum.splits prod.splits)
  then show ?thesis using inv1 WriteProc_sess_inv by blast
qed

lemma accept_sess_inv:
  assumes "sess_inv sv" "good_addr addr" "sv_next_id sv < 2 ^ 31 - 1"
  shows "sess_inv (AcceptProc ctl (Some (fd, addr)) sv)"
proof -
  let ?n = "sv_next_id sv" and ?name = "session_name addr (sv_next_id sv)"
  have n: "wrap32 (?n + 1) = ?n + 1" "0 < ?n" using assms by (simp_all add: sess_inv_def wrap32_id in_int32_def)
  have fresh: "\<not> named ?n ?name" by (rule named_fresh) (use assms n in simp_all)
  then have none: "?name \<notin> dom (db_sessions (sv_db sv))" "?name \<notin> subscribers (sv_db sv)" using assms(1) by (auto simp: sess_inv_def)
  have more: "named (?n + 1) nm" if "named ?n nm" for nm using that unfolding named_def by force
  have new: "named (?n + 1) ?name" unfolding named_def using assms(2) n(2) by (intro exI [of _ addr] exI [of _ ?n]) simp
  let ?sv = "AcceptProc ctl (Some (fd, addr)) sv"
  have sub: "sub_list (sv_db ?sv) = sub_list (sv_db sv)"
    by (simp add: AcceptProc_def AttachSession_def Let_def sub_list_def fun_eq_iff)
  have ses: "db_sessions (sv_db ?sv) = (if ctl then (db_sessions (sv_db sv))(?name \<mapsto> Session_new fd) else db_sessions (sv_db sv))"
    and next_id: "sv_next_id ?sv = ?n + 1"
    and con: "dom (sv_conns ?sv) = (if ctl then insert ?name (dom (sv_conns sv)) else dom (sv_conns sv))"
    by (simp_all add: AcceptProc_def AttachSession_def n(1) Let_def)
  have "subs_ok (sv_db ?sv)" using assms(1) none(2) unfolding sess_inv_def subs_ok_def sub ses subscribers_def
    by (auto split: if_splits)
  moreover have "subscribers (sv_db ?sv) = subscribers (sv_db sv)" by (simp add: subscribers_def sub)
  moreover have "dom (db_sessions (sv_db ?sv)) = (if ctl then insert ?name (dom (db_sessions (sv_db sv))) else dom (db_sessions (sv_db sv)))"
    by (simp add: ses)
  ultimately show ?thesis using assms(1,3) more new unfolding sess_inv_def con next_id by auto
qed

lemma sv_reachable_inv: "sv_reachable sv \<Longrightarrow> sess_inv sv"
proof (induction rule: sv_reachable.induct)
  case (start db)
  then show ?case by (simp add: sess_inv_def Server_new_def subs_ok_def subscribers_def sub_list_def)
next
  case (accept sv addr ctl fd sv' out)
  then show ?case using accept_sess_inv [of sv addr ctl fd] by simp
next
  case (client sv ctl name fired env rs ss sv' out)
  then show ?case using client_sess_inv by fastforce
next
  case (timers sv now later)
  then show ?case using sess_inv_step [OF timers.IH fire_timers_step refl] by simp
qed

section \<open>Properties\<close>

text \<open>The two ways a session ends.\<close>

lemma peer_closes:
  assumes "sess_inv sv" "name \<in> dom (db_sessions (sv_db sv))"
  shows "\<exists>sv'. ReadProc ctl env (ReadErr False # rs) name sv = Some (Inr (sv', True)) \<and>
    db_sessions (sv_db sv') = (db_sessions (sv_db sv))(name := None) \<and>
    (\<forall>ch. sub_list (sv_db sv') ch = filter (\<lambda>p. fst p \<noteq> name) (sub_list (sv_db sv) ch))"
proof -
  have ok: "subs_ok (sv_db sv)" and dom: "dom (sv_conns sv) = dom (db_sessions (sv_db sv))" using assms(1) by (simp_all add: sess_inv_def)
  obtain sess cn where n: "db_sessions (sv_db sv) name = Some sess" "sv_conns sv name = Some cn" using assms(2) dom by blast
  let ?db1 = "fold (\<lambda>ch d. RemoveSessionFromSubscription d ch name) (sess_channels sess) (sv_db sv)"
  have sub: "sub_list ?db1 ch = filter (\<lambda>p. fst p \<noteq> name) (sub_list (sv_db sv) ch)" for ch
    unfolding remove_from_channels [THEN conjunct2] using ok n(1) by (intro filter_cong refl) (auto simp: subs_ok_def)
  have ses: "db_sessions ?db1 = db_sessions (sv_db sv)" using remove_from_channels by blast
  show ?thesis
    by (rule exI [of _ "erase_session name (sv\<lparr>sv_db := ?db1\<rparr>)"])
      (use n sub ses in \<open>simp add: ReadProc_def ReadToBuf_def erase_session_def sub_list_def\<close>)
qed

lemma write_fails:
  assumes "sv_conns sv name = Some cn" "0 < ReadableBytes (cn_write cn)" "ReadableBytes (cn_write cn) < 2 ^ 31"
  shows "WriteProc ctl (SendErr False # ss) name sv = Some (Inr (erase_session name sv, [], True)) \<and>
    db_sessions (sv_db (erase_session name sv)) name = None \<and>
    (\<forall>ch. sub_list (sv_db (erase_session name sv)) ch = sub_list (sv_db sv) ch)"
  using assms by (auto simp: WriteProc_def WriteFromBuf_def wrap32_id in_int32_def erase_session_def sub_list_def)



end
