(* ===== verification/Skiplist.thy ===== *)
theory Skiplist
  imports DList
begin

text \<open>
  \<open>src/src/skiplist.h\<close> and \<open>src/src/skiplist.cpp\<close>: an ordered set of pairs of a score and a string, as a skip
  list of up to 32 levels.

  The nodes live in a heap, a map from addresses to nodes; an address without a node has never been
  allocated or has been freed. A node holds its score, the bytes of its \<open>DynamicString\<close>, its \<open>prev\<close> pointer
  and its array \<open>nexts\<close>, whose length is its level. \<open>new\<close> takes the next unused address. An
  access to a freed node is \<open>UseAfterFree\<close>, an index outside \<open>nexts\<close> \<open>OutOfBounds\<close>. The
  loops that follow pointers are partial functions: a cycle in the heap would give \<open>None\<close>. The coin
  flips of \<open>GenRandomLevel\<close> are an argument.

  \<open>sk_nodes\<close> reads the addresses of the nodes off the lowest level, \<open>sk_abs\<close> their scores and
  strings. \<open>sk_rep\<close> states that every level is the sublist of the nodes that are high enough.
\<close>

section \<open>Nodes and the comparator\<close>

abbreviation (input) kMaxLevel :: nat where "kMaxLevel \<equiv> 32"

record sknode =
  nd_score :: int
  nd_data :: string
  nd_prev :: "nat option"
  nd_nexts :: "nat option list"

type_synonym skheap = "nat \<Rightarrow> sknode option"

abbreviation level :: "sknode \<Rightarrow> nat" where "level n \<equiv> length (nd_nexts n)"

definition SKNode :: "int \<Rightarrow> string \<Rightarrow> nat \<Rightarrow> sknode" where
  "SKNode sc dat lv = \<lparr>nd_score = sc, nd_data = dat, nd_prev = None, nd_nexts = replicate lv None\<rparr>"

text \<open>\<open>strncmp\<close>: at most \<open>n\<close> bytes, as unsigned values, up to a NUL.\<close>

fun c_strncmp :: "string \<Rightarrow> string \<Rightarrow> nat \<Rightarrow> int" where
  "c_strncmp (a # as) (b # bs) (Suc n) =
     (if a \<noteq> b then int (of_char a) - int (of_char b) else if a = CHR 0x00 then 0 else c_strncmp as bs n)"
| "c_strncmp _ _ _ = 0"

definition SKNodeComparator :: "int \<Rightarrow> string \<Rightarrow> sknode \<Rightarrow> int" where
  "SKNodeComparator sc dat b =
     (if sc = nd_score b
      then let len1 = length dat; len2 = length (nd_data b); res1 = c_strncmp dat (nd_data b) (min len1 len2)
           in if res1 = 0 then if len1 = len2 then 0 else if len1 < len2 then - 1 else 1
              else if res1 < 0 then - 1 else 1
      else if sc < nd_score b then - 1 else 1)"

section \<open>The skip list\<close>

record skiplist =
  sk_heap :: skheap
  sk_head :: nat
  sk_count :: nat
  cur_max_level :: nat
  sk_brk :: nat

text \<open>The levels: one more for every coin that falls on one, up to the maximum.\<close>

function gen_level :: "(nat \<Rightarrow> bool) \<Rightarrow> nat \<Rightarrow> nat" where
  "gen_level coin lv = (if lv < kMaxLevel \<and> coin lv then gen_level coin (lv + 1) else lv)"
  by auto
termination by (relation "measure (\<lambda>(coin, lv). kMaxLevel - lv)") auto

declare gen_level.simps [simp del]

definition GenRandomLevel :: "(nat \<Rightarrow> bool) \<Rightarrow> nat" where
  "GenRandomLevel coin = gen_level coin 1"

definition Skiplist_new :: skiplist where
  "Skiplist_new = \<lparr>sk_heap = [0 \<mapsto> SKNode INT64_MIN [] kMaxLevel], sk_head = 0, sk_count = 0, cur_max_level = 0, sk_brk = 1\<rparr>"

definition read_next :: "skheap \<Rightarrow> nat \<Rightarrow> nat \<Rightarrow> dl_error + nat option" where
  "read_next h a l =
     (case h a of
        None \<Rightarrow> Inl UseAfterFree
      | Some n \<Rightarrow> if l < level n then Inr (nd_nexts n ! l) else Inl OutOfBounds)"

definition write_next :: "skheap \<Rightarrow> nat \<Rightarrow> nat \<Rightarrow> nat option \<Rightarrow> dl_error + skheap" where
  "write_next h a l p =
     (case h a of
        None \<Rightarrow> Inl UseAfterFree
      | Some n \<Rightarrow> if l < level n then Inr (h(a \<mapsto> n\<lparr>nd_nexts := (nd_nexts n)[l := p]\<rparr>)) else Inl OutOfBounds)"

definition write_prev :: "skheap \<Rightarrow> nat \<Rightarrow> nat option \<Rightarrow> dl_error + skheap" where
  "write_prev h a p =
     (case h a of None \<Rightarrow> Inl UseAfterFree | Some n \<Rightarrow> Inr (h(a \<mapsto> n\<lparr>nd_prev := p\<rparr>)))"

definition try_sum :: "'e + 'a \<Rightarrow> ('a \<Rightarrow> 'e + 'b) \<Rightarrow> 'e + 'b" where
  "try_sum x f = (case x of Inl e \<Rightarrow> Inl e | Inr y \<Rightarrow> f y)"

lemma try_sum_simps [simp]: "try_sum (Inl e) f = Inl e" "try_sum (Inr y) f = f y"
  by (simp_all add: try_sum_def)

text \<open>Searching one level from left to right, and the levels from top to down with the path of every level.\<close>

partial_function (option) find_level :: "skheap \<Rightarrow> int \<Rightarrow> string \<Rightarrow> nat \<Rightarrow> nat \<Rightarrow> (dl_error + nat) option" where
  "find_level h sc dat l cur =
     (case read_next h cur l of
        Inl e \<Rightarrow> Some (Inl e)
      | Inr None \<Rightarrow> Some (Inr cur)
      | Inr (Some nx) \<Rightarrow>
          (case h nx of
             None \<Rightarrow> Some (Inl UseAfterFree)
           | Some node \<Rightarrow> if SKNodeComparator sc dat node > 0 then find_level h sc dat l nx else Some (Inr cur)))"

text \<open>The number of levels is \<open>start + 1\<close>; entry \<open>l\<close> of the path is the one of level \<open>l\<close>.\<close>

fun find_down :: "skheap \<Rightarrow> int \<Rightarrow> string \<Rightarrow> nat \<Rightarrow> nat \<Rightarrow> (dl_error + nat \<times> nat list) option" where
  "find_down h sc dat 0 cur = Some (Inr (cur, []))"
| "find_down h sc dat (Suc l) cur =
     (case find_level h sc dat l cur of
        None \<Rightarrow> None
      | Some (Inl e) \<Rightarrow> Some (Inl e)
      | Some (Inr c) \<Rightarrow>
          (case find_down h sc dat l c of
             Some (Inr (r, path)) \<Rightarrow> Some (Inr (r, path @ [c]))
           | res \<Rightarrow> res))"

definition Skiplist_Find :: "skiplist \<Rightarrow> int \<Rightarrow> string \<Rightarrow> nat \<Rightarrow> (dl_error + nat \<times> nat list) option" where
  "Skiplist_Find s sc dat levels = find_down (sk_heap s) sc dat levels (sk_head s)"

text \<open>The overload that keeps no path.\<close>

fun find_cur :: "skheap \<Rightarrow> int \<Rightarrow> string \<Rightarrow> nat \<Rightarrow> nat \<Rightarrow> (dl_error + nat) option" where
  "find_cur h sc dat 0 cur = Some (Inr cur)"
| "find_cur h sc dat (Suc l) cur =
     (case find_level h sc dat l cur of
        None \<Rightarrow> None
      | Some (Inl e) \<Rightarrow> Some (Inl e)
      | Some (Inr c) \<Rightarrow> find_cur h sc dat l c)"

definition Skiplist_Find_cur :: "skiplist \<Rightarrow> int \<Rightarrow> string \<Rightarrow> nat \<Rightarrow> (dl_error + nat) option" where
  "Skiplist_Find_cur s sc dat levels = find_cur (sk_heap s) sc dat levels (sk_head s)"

text \<open>Whether a next pointer leads to a node that compares equal.\<close>

definition same_node :: "skheap \<Rightarrow> int \<Rightarrow> string \<Rightarrow> nat option \<Rightarrow> dl_error + bool" where
  "same_node h sc dat p =
     (case p of
        None \<Rightarrow> Inr False
      | Some a \<Rightarrow> (case h a of None \<Rightarrow> Inl UseAfterFree | Some n \<Rightarrow> Inr (SKNodeComparator sc dat n = 0)))"

text \<open>The loop of \<open>Insert\<close> over the levels of the new node, from level \<open>l\<close> on.\<close>

fun link_levels :: "skheap \<Rightarrow> nat \<Rightarrow> nat \<Rightarrow> nat list \<Rightarrow> dl_error + skheap" where
  "link_levels h new l [] = Inr h"
| "link_levels h new l (p # ps) =
     try_sum (read_next h p l) (\<lambda>nx.
     try_sum (write_next h new l nx) (\<lambda>h1.
     try_sum (write_next h1 p l (Some new)) (\<lambda>h2. link_levels h2 new (Suc l) ps)))"

definition insert_node :: "skiplist \<Rightarrow> int \<Rightarrow> string \<Rightarrow> nat \<Rightarrow> nat \<Rightarrow> nat list \<Rightarrow> nat option \<Rightarrow> dl_error + skiplist" where
  "insert_node s sc dat lv cur path after =
     (let new = sk_brk s; h0 = (sk_heap s)(new \<mapsto> SKNode sc dat lv)
      in try_sum (link_levels h0 new 0 (take lv path)) (\<lambda>h1.
         try_sum (case after of None \<Rightarrow> Inr h1 | Some a \<Rightarrow> write_prev h1 a (Some new)) (\<lambda>h2.
         try_sum (write_prev h2 new (Some cur)) (\<lambda>h3.
         Inr (s\<lparr>sk_heap := h3, sk_brk := new + 1, cur_max_level := max (cur_max_level s) lv, sk_count := sk_count s + 1\<rparr>)))))"

definition Skiplist_Insert :: "(nat \<Rightarrow> bool) \<Rightarrow> skiplist \<Rightarrow> int \<Rightarrow> string \<Rightarrow> (dl_error + skiplist \<times> bool) option" where
  "Skiplist_Insert coin s sc dat =
     (case read_next (sk_heap s) (sk_head s) 0 of
        Inl e \<Rightarrow> Some (Inl e)
      | Inr None \<Rightarrow>
          let new = sk_brk s; h0 = (sk_heap s)(new \<mapsto> (SKNode sc dat 1)\<lparr>nd_prev := Some (sk_head s)\<rparr>)
          in Some (try_sum (write_next h0 (sk_head s) 0 (Some new)) (\<lambda>h1.
               Inr (s\<lparr>sk_heap := h1, sk_brk := new + 1, cur_max_level := 1, sk_count := sk_count s + 1\<rparr>, True)))
      | Inr (Some _) \<Rightarrow>
          let lv = GenRandomLevel coin
          in (case Skiplist_Find s sc dat lv of
                None \<Rightarrow> None
              | Some (Inl e) \<Rightarrow> Some (Inl e)
              | Some (Inr (cur, path)) \<Rightarrow>
                  Some (try_sum (read_next (sk_heap s) cur 0) (\<lambda>after.
                        try_sum (same_node (sk_heap s) sc dat after) (\<lambda>same.
                        if same then Inr (s, False)
                        else try_sum (insert_node s sc dat lv cur path after) (\<lambda>s'. Inr (s', True)))))))"

definition Skiplist_Contains :: "skiplist \<Rightarrow> int \<Rightarrow> string \<Rightarrow> (dl_error + bool) option" where
  "Skiplist_Contains s sc dat =
     (case read_next (sk_heap s) (sk_head s) 0 of
        Inl e \<Rightarrow> Some (Inl e)
      | Inr None \<Rightarrow> Some (Inr False)
      | Inr (Some _) \<Rightarrow>
          (case Skiplist_Find_cur s sc dat (cur_max_level s) of
             None \<Rightarrow> None
           | Some (Inl e) \<Rightarrow> Some (Inl e)
           | Some (Inr cur) \<Rightarrow>
               Some (try_sum (read_next (sk_heap s) cur 0) (same_node (sk_heap s) sc dat))))"

text \<open>
  The loop of \<open>Remove\<close> over the levels of the list, from the top down, and the loop that lowers the level of the list. The latter reads
  \<open>head_->nexts[cur_max_level_ - 1]\<close> before it tests the level, at index \<open>- 1\<close> when the list has become empty; the value read
  there does not matter, because the test fails. The flag records that this happened.
\<close>

fun unlink_levels :: "skheap \<Rightarrow> int \<Rightarrow> string \<Rightarrow> nat \<Rightarrow> nat \<Rightarrow> nat list \<Rightarrow> dl_error + skheap" where
  "unlink_levels h sc dat del 0 path = Inr h"
| "unlink_levels h sc dat del (Suc l) path =
     try_sum (read_next h (path ! l) l) (\<lambda>nx.
     try_sum (same_node h sc dat nx) (\<lambda>same.
     try_sum (if same then try_sum (read_next h del l) (\<lambda>p. write_next h (path ! l) l p) else Inr h) (\<lambda>h1.
     unlink_levels h1 sc dat del l path)))"

fun lower_level :: "skheap \<Rightarrow> nat \<Rightarrow> nat \<Rightarrow> dl_error + nat \<times> bool" where
  "lower_level h hd_addr 0 = Inr (0, True)"
| "lower_level h hd_addr (Suc l) =
     try_sum (read_next h hd_addr l) (\<lambda>p. if p = None then lower_level h hd_addr l else Inr (Suc l, False))"

definition remove_node :: "skiplist \<Rightarrow> int \<Rightarrow> string \<Rightarrow> nat \<Rightarrow> nat \<Rightarrow> nat list \<Rightarrow> dl_error + skiplist \<times> bool" where
  "remove_node s sc dat cur del path =
     try_sum (unlink_levels (sk_heap s) sc dat del (cur_max_level s) path) (\<lambda>h1.
     case h1 del of
       None \<Rightarrow> Inl UseAfterFree
     | Some dn \<Rightarrow>
         try_sum (case nd_nexts dn ! 0 of None \<Rightarrow> Inr h1 | Some a \<Rightarrow> write_prev h1 a (Some cur)) (\<lambda>h2.
         try_sum (if level dn = cur_max_level s then lower_level h2 (sk_head s) (cur_max_level s) else Inr (cur_max_level s, False))
           (\<lambda>(lv, underflow).
             Inr (s\<lparr>sk_heap := h2(del := None), cur_max_level := lv, sk_count := sk_count s - 1\<rparr>, underflow))))"

definition Skiplist_Remove :: "skiplist \<Rightarrow> int \<Rightarrow> string \<Rightarrow> (dl_error + skiplist \<times> bool \<times> bool) option" where
  "Skiplist_Remove s sc dat =
     (case read_next (sk_heap s) (sk_head s) 0 of
        Inl e \<Rightarrow> Some (Inl e)
      | Inr None \<Rightarrow> Some (Inr (s, False, False))
      | Inr (Some _) \<Rightarrow>
          (case Skiplist_Find s sc dat (cur_max_level s) of
             None \<Rightarrow> None
           | Some (Inl e) \<Rightarrow> Some (Inl e)
           | Some (Inr (cur, path)) \<Rightarrow>
               Some (try_sum (read_next (sk_heap s) cur 0) (\<lambda>nx.
                     case nx of
                       None \<Rightarrow> Inr (s, False, False)
                     | Some del \<Rightarrow>
                         try_sum (same_node (sk_heap s) sc dat nx) (\<lambda>same.
                         if same then try_sum (remove_node s sc dat cur del path) (\<lambda>(s', u). Inr (s', True, u))
                         else Inr (s, False, False))))))"

partial_function (option) gather :: "skheap \<Rightarrow> nat option \<Rightarrow> nat list \<Rightarrow> (dl_error + nat list) option" where
  "gather h p nodes =
     (case p of
        None \<Rightarrow> Some (Inr nodes)
      | Some a \<Rightarrow> (case read_next h a 0 of Inl e \<Rightarrow> Some (Inl e) | Inr nx \<Rightarrow> gather h nx (nodes @ [a])))"

definition GatherAllNodes :: "skiplist \<Rightarrow> bool \<Rightarrow> (dl_error + nat list) option" where
  "GatherAllNodes s include_head =
     (if include_head then gather (sk_heap s) (Some (sk_head s)) []
      else case read_next (sk_heap s) (sk_head s) 0 of Inl e \<Rightarrow> Some (Inl e) | Inr p \<Rightarrow> gather (sk_heap s) p [])"

definition Skiplist_Clear :: "skiplist \<Rightarrow> (dl_error + skiplist) option" where
  "Skiplist_Clear s =
     (if sk_count s = 0 then Some (Inr s)
      else case GatherAllNodes s False of
             None \<Rightarrow> None
           | Some (Inl e) \<Rightarrow> Some (Inl e)
           | Some (Inr nodes) \<Rightarrow>
               (case sk_heap s (sk_head s) of
                  None \<Rightarrow> Some (Inl UseAfterFree)
                | Some n \<Rightarrow>
                    Some (Inr (s\<lparr>sk_heap := ((sk_heap s) |` (- set nodes))(sk_head s \<mapsto> n\<lparr>nd_nexts := replicate kMaxLevel None\<rparr>),
                                 cur_max_level := 0, sk_count := 0\<rparr>))))"

text \<open>The destructor: the heap it leaves.\<close>

definition Skiplist_destroy :: "skiplist \<Rightarrow> (dl_error + skheap) option" where
  "Skiplist_destroy s =
     (case GatherAllNodes s True of
        None \<Rightarrow> None
      | Some (Inl e) \<Rightarrow> Some (Inl e)
      | Some (Inr nodes) \<Rightarrow> Some (Inr ((sk_heap s) |` (- set nodes))))"

definition Skiplist_Begin :: "skiplist \<Rightarrow> dl_error + nat option" where
  "Skiplist_Begin s = read_next (sk_heap s) (sk_head s) 0"

partial_function (option) run_right :: "skheap \<Rightarrow> nat \<Rightarrow> nat \<Rightarrow> (dl_error + nat) option" where
  "run_right h l cur =
     (case read_next h cur l of
        Inl e \<Rightarrow> Some (Inl e)
      | Inr None \<Rightarrow> Some (Inr cur)
      | Inr (Some nx) \<Rightarrow> run_right h l nx)"

fun last_down :: "skheap \<Rightarrow> nat \<Rightarrow> nat \<Rightarrow> (dl_error + nat) option" where
  "last_down h 0 cur = Some (Inr cur)"
| "last_down h (Suc l) cur =
     (case run_right h l cur of
        None \<Rightarrow> None
      | Some (Inl e) \<Rightarrow> Some (Inl e)
      | Some (Inr c) \<Rightarrow> last_down h l c)"

definition Skiplist_End :: "skiplist \<Rightarrow> (dl_error + nat option) option" where
  "Skiplist_End s =
     (case read_next (sk_heap s) (sk_head s) 0 of
        Inl e \<Rightarrow> Some (Inl e)
      | Inr None \<Rightarrow> Some (Inr None)
      | Inr (Some _) \<Rightarrow>
          (case last_down (sk_heap s) kMaxLevel (sk_head s) of
             None \<Rightarrow> None
           | Some (Inl e) \<Rightarrow> Some (Inl e)
           | Some (Inr c) \<Rightarrow> Some (Inr (Some c))))"

text \<open>\<open>operator[]\<close> checks its index and returns the first node.\<close>

definition Skiplist_at :: "skiplist \<Rightarrow> nat \<Rightarrow> dl_error + nat option" where
  "Skiplist_at s idx = (if idx \<ge> sk_count s then Inl OutOfRange else read_next (sk_heap s) (sk_head s) 0)"

section \<open>The order\<close>

text \<open>
  The comparator orders by score, then by the bytes up to the first NUL, then by length: two
  strings that differ only behind a NUL and have the same length are one element.
\<close>

type_synonym skkey = "int \<times> string \<times> nat"

definition skey :: "int \<Rightarrow> string \<Rightarrow> skkey" where
  "skey sc dat = (sc, c_str dat, length dat)"

fun klt :: "skkey \<Rightarrow> skkey \<Rightarrow> bool" where
  "klt (a, b, c) (a', b', c') \<longleftrightarrow> a < a' \<or> a = a' \<and> ((b, b') \<in> lexord byte_less \<or> b = b' \<and> c < c')"

definition nkey :: "sknode \<Rightarrow> skkey" where
  "nkey n = skey (nd_score n) (nd_data n)"

lemma byte_less_trans: "trans byte_less"
  by (auto simp: byte_less_def intro: transI)

lemma byte_less_irrefl: "(x, x) \<notin> byte_less"
  by simp

lemma klt_irrefl: "\<not> klt k k"
  using lexord_irreflexive [of byte_less] by (cases k) simp

lemma klt_trans: "klt x y \<Longrightarrow> klt y z \<Longrightarrow> klt x z"
  using lexord_trans [OF _ _ byte_less_trans] by (cases x; cases y; cases z) auto

lemma klt_linear: "klt x y \<or> x = y \<or> klt y x"
proof -
  have "\<forall>a b. (a, b) \<in> byte_less \<or> a = b \<or> (b, a) \<in> byte_less"
    by (auto simp: byte_less_def)
  then have "(s, t) \<in> lexord byte_less \<or> s = t \<or> (t, s) \<in> lexord byte_less" for s t by (rule lexord_linear)
  then show ?thesis by (cases x; cases y) auto
qed

lemma strncmp_key:
  "c_strncmp s t (min (length s) (length t)) < 0 \<or> c_strncmp s t (min (length s) (length t)) = 0 \<and> length s < length t \<longleftrightarrow>
     (c_str s, c_str t) \<in> lexord byte_less \<or> c_str s = c_str t \<and> length s < length t"
  "c_strncmp s t (min (length s) (length t)) = 0 \<and> length s = length t \<longleftrightarrow> c_str s = c_str t \<and> length s = length t"
proof (induction s arbitrary: t)
  case Nil
  { case 1 show ?case by (cases t) (auto simp: c_str_def) }
  { case 2 show ?case by (cases t) (auto simp: c_str_def) }
next
  case (Cons a s)
  have pos: "(0 :: nat) < of_char c" if "c \<noteq> CHR 0x00" for c :: char
  proof -
    have "(of_char c :: nat) \<noteq> of_char (CHR 0x00)" using that by (simp only: of_char_eq_iff not_False_eq_True)
    then show ?thesis by simp
  qed
  { case 1 show ?case using Cons.IH(1) pos by (cases t) (auto simp: c_str_def) }
  { case 2 show ?case using Cons.IH(2) pos by (cases t) (auto simp: c_str_def) }
qed

lemma comparator_less: "SKNodeComparator sc dat n < 0 \<longleftrightarrow> klt (skey sc dat) (nkey n)"
  using strncmp_key(1) [of dat "nd_data n"] by (auto simp: SKNodeComparator_def skey_def nkey_def Let_def)

lemma comparator_equal: "SKNodeComparator sc dat n = 0 \<longleftrightarrow> skey sc dat = nkey n"
  using strncmp_key(2) [of dat "nd_data n"] by (auto simp: SKNodeComparator_def skey_def nkey_def Let_def)

lemma comparator_greater: "SKNodeComparator sc dat n > 0 \<longleftrightarrow> klt (nkey n) (skey sc dat)"
proof -
  have "klt x y \<Longrightarrow> \<not> klt y x \<and> x \<noteq> y" for x y using klt_irrefl klt_trans by blast
  then show ?thesis using comparator_less [of sc dat n] comparator_equal [of sc dat n] klt_linear [of "skey sc dat" "nkey n"]
    by (cases "SKNodeComparator sc dat n" "0 :: int" rule: linorder_cases) auto
qed

section \<open>The heap\<close>

text \<open>Fields of a node by its address, and the updates that the writes make.\<close>

definition lev :: "skheap \<Rightarrow> nat \<Rightarrow> nat" where
  "lev h a = (case h a of None \<Rightarrow> 0 | Some n \<Rightarrow> level n)"

definition akey :: "skheap \<Rightarrow> nat \<Rightarrow> skkey" where
  "akey h a = nkey (the (h a))"

definition entry :: "skheap \<Rightarrow> nat \<Rightarrow> int \<times> string" where
  "entry h a = (nd_score (the (h a)), nd_data (the (h a)))"

definition next_of :: "skheap \<Rightarrow> nat \<Rightarrow> nat \<Rightarrow> nat option" where
  "next_of h l a = nd_nexts (the (h a)) ! l"

definition prev_of :: "skheap \<Rightarrow> nat \<Rightarrow> nat option" where
  "prev_of h a = nd_prev (the (h a))"

definition upd_next :: "skheap \<Rightarrow> nat \<Rightarrow> nat \<Rightarrow> nat option \<Rightarrow> skheap" where
  "upd_next h a l p = h(a \<mapsto> (the (h a))\<lparr>nd_nexts := (nd_nexts (the (h a)))[l := p]\<rparr>)"

definition upd_prev :: "skheap \<Rightarrow> nat \<Rightarrow> nat option \<Rightarrow> skheap" where
  "upd_prev h a p = h(a \<mapsto> (the (h a))\<lparr>nd_prev := p\<rparr>)"

lemma lev_pos: "l < lev h a \<Longrightarrow> h a \<noteq> None"
  by (auto simp: lev_def split: option.splits)

lemma read_next_ok: "l < lev h a \<Longrightarrow> read_next h a l = Inr (next_of h l a)"
  by (auto simp: lev_def read_next_def next_of_def split: option.splits)

lemma write_next_ok: "l < lev h a \<Longrightarrow> write_next h a l p = Inr (upd_next h a l p)"
  by (auto simp: lev_def write_next_def upd_next_def split: option.splits)

lemma write_prev_ok: "h a \<noteq> None \<Longrightarrow> write_prev h a p = Inr (upd_prev h a p)"
  by (auto simp: write_prev_def upd_prev_def)

lemma same_node_ok: "h a \<noteq> None \<Longrightarrow> same_node h sc dat (Some a) = Inr (akey h a = skey sc dat)"
  by (auto simp: same_node_def akey_def comparator_equal)

lemma upd_next_fields [simp]:
  assumes "l < lev h a"
  shows "lev (upd_next h a l p) x = lev h x" "akey (upd_next h a l p) x = akey h x" "entry (upd_next h a l p) x = entry h x"
    "prev_of (upd_next h a l p) x = prev_of h x" "upd_next h a l p x = None \<longleftrightarrow> h x = None"
    "next_of (upd_next h a l p) j x = (if x = a \<and> j = l then p else next_of h j x)"
  using assms by (auto simp: upd_next_def lev_def akey_def nkey_def entry_def prev_of_def next_of_def split: option.splits)

lemma upd_prev_fields [simp]:
  assumes "h a \<noteq> None"
  shows "lev (upd_prev h a p) x = lev h x" "akey (upd_prev h a p) x = akey h x" "entry (upd_prev h a p) x = entry h x"
    "prev_of (upd_prev h a p) x = (if x = a then p else prev_of h x)" "upd_prev h a p x = None \<longleftrightarrow> h x = None"
    "next_of (upd_prev h a p) j x = next_of h j x"
  using assms by (auto simp: upd_prev_def lev_def akey_def nkey_def entry_def prev_of_def next_of_def split: option.splits)

lemma other_fields:
  assumes "h' x = h x"
  shows "lev h' x = lev h x" "akey h' x = akey h x" "entry h' x = entry h x" "prev_of h' x = prev_of h x" "next_of h' j x = next_of h j x"
  using assms by (simp_all add: lev_def akey_def entry_def prev_of_def next_of_def)

section \<open>Levels as sublists\<close>

text \<open>
  A list of nodes is linked when every pointer of a node leads to the next node that is high
  enough, and doubly linked when every node points back to the one before.
\<close>

abbreviation higher :: "skheap \<Rightarrow> nat \<Rightarrow> nat \<Rightarrow> bool" where "higher h l x \<equiv> l < lev h x"

fun linked :: "skheap \<Rightarrow> nat list \<Rightarrow> bool" where
  "linked h [] \<longleftrightarrow> True"
| "linked h (a # as) \<longleftrightarrow> (\<forall>l < lev h a. next_of h l a = List.find (higher h l) as) \<and> linked h as"

fun back_linked :: "skheap \<Rightarrow> nat list \<Rightarrow> bool" where
  "back_linked h (a # b # as) \<longleftrightarrow> prev_of h b = Some a \<and> back_linked h (b # as)"
| "back_linked h _ \<longleftrightarrow> True"

definition maxlev :: "skheap \<Rightarrow> nat list \<Rightarrow> nat" where
  "maxlev h as = foldr (\<lambda>a. max (lev h a)) as 0"

lemma maxlev_simps [simp]: "maxlev h [] = 0" "maxlev h (a # as) = max (lev h a) (maxlev h as)"
  by (simp_all add: maxlev_def)

lemma maxlev_append [simp]: "maxlev h (as @ bs) = max (maxlev h as) (maxlev h bs)"
  by (induction as) auto

lemma find_append: "List.find P (xs @ ys) = (case List.find P xs of None \<Rightarrow> List.find P ys | Some x \<Rightarrow> Some x)"
  by (induction xs) auto

lemma find_filter: "List.find P xs = None \<longleftrightarrow> filter P xs = []"
  by (induction xs) auto

lemma find_cong_on: "(\<And>x. x \<in> set xs \<Longrightarrow> P x = Q x) \<Longrightarrow> List.find P xs = List.find Q xs"
  by (induction xs) auto

lemma find_maxlev: "List.find (higher h l) as = None \<longleftrightarrow> maxlev h as \<le> l"
  by (induction as) auto

lemma linked_append: "linked h (us @ vs) \<Longrightarrow> linked h vs"
  by (induction us) auto

lemma linked_at:
  assumes "linked h (us @ a # vs)" "l < lev h a"
  shows "next_of h l a = List.find (higher h l) vs"
  using linked_append [OF assms(1)] assms(2) by simp

lemma linked_cong:
  assumes "linked h as" "\<And>a. a \<in> set as \<Longrightarrow> lev h' a = lev h a" "\<And>a l. a \<in> set as \<Longrightarrow> l < lev h a \<Longrightarrow> next_of h' l a = next_of h l a"
  shows "linked h' as"
  using assms
proof (induction as)
  case (Cons a as)
  have "List.find (higher h' l) as = List.find (higher h l) as" for l by (rule find_cong_on) (use Cons.prems(2) in simp)
  then show ?case using Cons by simp
qed simp

text \<open>
  Inserting \<open>new\<close> between \<open>xs\<close> and \<open>ys\<close>: on every level below its height, the last
  high node of \<open>xs\<close> (\<open>P l\<close>) is redirected to it.
\<close>

lemma linked_insert:
  assumes "linked h (xs @ ys)" "distinct (xs @ ys)" "new \<notin> set (xs @ ys)"
    and "\<And>a. a \<in> set (xs @ ys) \<Longrightarrow> lev h' a = lev h a"
    and "\<And>a l. a \<in> set (xs @ ys) \<Longrightarrow> l < lev h a \<Longrightarrow> next_of h' l a = (if l < lev h' new \<and> a = P l then Some new else next_of h l a)"
    and "\<And>l. l < lev h' new \<Longrightarrow> next_of h' l new = List.find (higher h l) ys"
    and "\<And>l. filter (higher h l) xs \<noteq> [] \<Longrightarrow> P l = last (filter (higher h l) xs)" "\<And>l. l < lev h' new \<Longrightarrow> P l \<notin> set ys"
  shows "linked h' (xs @ new # ys)"
  using assms
proof (induction xs)
  case Nil
  have "List.find (higher h' l) ys = List.find (higher h l) ys" for l by (rule find_cong_on) (use Nil.prems(4) in simp)
  moreover have "linked h' ys" by (rule linked_cong [of h]) (use Nil.prems in auto)
  ultimately show ?case using Nil.prems(6) by simp
next
  case (Cons x xs)
  have tail: "linked h' (xs @ new # ys)"
  proof (rule Cons.IH)
    show "P l = last (filter (higher h l) xs)" if "filter (higher h l) xs \<noteq> []" for l
      using Cons.prems(7) [of l] that by (auto split: if_splits)
  qed (use Cons.prems in auto)
  have "next_of h' l x = List.find (higher h' l) (xs @ new # ys)" if l: "l < lev h x" for l
  proof -
    have eq: "List.find (higher h' l) xs = List.find (higher h l) xs" "List.find (higher h' l) ys = List.find (higher h l) ys"
      by (rule find_cong_on; use Cons.prems(4) in simp)+
    have old: "next_of h l x = List.find (higher h l) (xs @ ys)" using Cons.prems(1) l by simp
    show ?thesis
    proof (cases "filter (higher h l) xs = []")
      case True
      then have "P l = x" "List.find (higher h l) xs = None" using Cons.prems(7) [of l] l by (simp_all add: find_filter)
      then show ?thesis using Cons.prems(5) [of x l] l old eq by (simp add: find_append)
    next
      case False
      then have "P l = last (filter (higher h l) xs)" using Cons.prems(7) [of l] l by simp
      then have "P l \<in> set xs" using last_in_set [OF False] by auto
      then have "P l \<noteq> x" using Cons.prems(2) by auto
      moreover obtain y where "List.find (higher h l) xs = Some y" using False find_filter by fastforce
      ultimately show ?thesis using Cons.prems(5) [of x l] l old eq by (simp add: find_append)
    qed
  qed
  then show ?case using tail Cons.prems(4) by simp
qed

lemma linked_remove:
  assumes "linked h (xs @ d # ys)" "distinct (xs @ d # ys)"
    and "\<And>a. a \<in> set (xs @ ys) \<Longrightarrow> lev h' a = lev h a"
    and "\<And>a l. a \<in> set (xs @ ys) \<Longrightarrow> l < lev h a \<Longrightarrow> next_of h' l a = (if l < lev h d \<and> a = P l then next_of h l d else next_of h l a)"
    and "\<And>l. filter (higher h l) xs \<noteq> [] \<Longrightarrow> P l = last (filter (higher h l) xs)" "\<And>l. l < lev h d \<Longrightarrow> P l \<notin> set ys"
  shows "linked h' (xs @ ys)"
  using assms
proof (induction xs)
  case Nil
  have "linked h' ys" by (rule linked_cong [of h]) (use Nil.prems in auto)
  then show ?case by simp
next
  case (Cons x xs)
  have tail: "linked h' (xs @ ys)"
  proof (rule Cons.IH)
    show "P l = last (filter (higher h l) xs)" if "filter (higher h l) xs \<noteq> []" for l
      using Cons.prems(5) [of l] that by (auto split: if_splits)
  qed (use Cons.prems in auto)
  have d: "next_of h l d = List.find (higher h l) ys" if "l < lev h d" for l using linked_at [of h "x # xs" d ys l] Cons.prems(1) that by simp
  have "next_of h' l x = List.find (higher h' l) (xs @ ys)" if l: "l < lev h x" for l
  proof -
    have eq: "List.find (higher h' l) xs = List.find (higher h l) xs" "List.find (higher h' l) ys = List.find (higher h l) ys"
      by (rule find_cong_on; use Cons.prems(3) in simp)+
    have old: "next_of h l x = List.find (higher h l) (xs @ d # ys)" using Cons.prems(1) l by simp
    show ?thesis
    proof (cases "filter (higher h l) xs = []")
      case True
      then have "P l = x" "List.find (higher h l) xs = None" using Cons.prems(5) [of l] l by (simp_all add: find_filter)
      then show ?thesis using Cons.prems(4) [of x l] l old eq d by (simp add: find_append)
    next
      case False
      then have "P l = last (filter (higher h l) xs)" using Cons.prems(5) [of l] l by simp
      then have "P l \<in> set xs" using last_in_set [OF False] by auto
      then have "P l \<noteq> x" using Cons.prems(2) by auto
      moreover obtain y where "List.find (higher h l) xs = Some y" using False find_filter by fastforce
      ultimately show ?thesis using Cons.prems(4) [of x l] l old eq by (simp add: find_append)
    qed
  qed
  then show ?case using tail Cons.prems(3) by simp
qed

lemma back_linked_append:
  "back_linked h (us @ a # vs) \<longleftrightarrow> back_linked h (us @ [a]) \<and> back_linked h (a # vs)"
proof (induction us)
  case (Cons u us)
  then show ?case by (cases us) auto
qed (cases vs; simp)

lemma back_linked_cong:
  "back_linked h as \<Longrightarrow> (\<And>a. a \<in> set (tl as) \<Longrightarrow> prev_of h' a = prev_of h a) \<Longrightarrow> back_linked h' as"
  by (induction h as rule: back_linked.induct) auto

section \<open>Searching\<close>

lemma find_splits:
  assumes "List.find P vs = Some x"
  obtains v1 v2 where "vs = v1 @ x # v2" "P x" "filter P v1 = []"
proof -
  have "\<exists>v1 v2. vs = v1 @ x # v2 \<and> P x \<and> filter P v1 = []" using assms
  proof (induction vs)
    case (Cons v vs)
    show ?case
    proof (cases "P v")
      case True
      then show ?thesis using Cons.prems by (intro exI [of _ "[]"] exI [of _ vs]) simp
    next
      case False
      then obtain v1 v2 where "vs = v1 @ x # v2" "P x" "filter P v1 = []" using Cons by auto
      then show ?thesis using False by (intro exI [of _ "v # v1"] exI [of _ v2]) simp
    qed
  qed simp
  then show ?thesis using that by blast
qed

lemma last_filter_splits:
  assumes "filter P vs \<noteq> []"
  obtains v1 c v2 where "vs = v1 @ c # v2" "P c" "filter P v2 = []" "last (filter P vs) = c"
proof -
  have "\<exists>x \<in> set vs. P x" using assms by (auto simp: filter_empty_conv)
  from split_list_last_prop [OF this] obtain v1 c v2 where "vs = v1 @ c # v2" "P c" "\<forall>z \<in> set v2. \<not> P z" by blast
  then show ?thesis using that [of v1 c v2] by simp
qed

abbreviation last_high :: "skheap \<Rightarrow> nat \<Rightarrow> nat \<Rightarrow> nat list \<Rightarrow> nat" where
  "last_high h l a as \<equiv> last (a # filter (higher h l) as)"

lemma find_level_result:
  assumes "linked h (us @ cur # as @ bs)" "\<forall>a \<in> set (as @ bs). h a \<noteq> None" "l < lev h cur"
    and "\<forall>a \<in> set as. klt (akey h a) (skey sc dat)" "\<forall>b \<in> set bs. \<not> klt (akey h b) (skey sc dat)"
  shows "find_level h sc dat l cur = Some (Inr (last_high h l cur as))"
  using assms
proof (induction "length as" arbitrary: us cur as rule: less_induct)
  case less
  have nx: "read_next h cur l = Inr (List.find (higher h l) (as @ bs))"
    using read_next_ok [OF less.prems(3)] linked_at [OF less.prems(1,3)] by simp
  show ?case
  proof (cases "List.find (higher h l) as")
    case None
    then have f: "filter (higher h l) as = []" by (simp add: find_filter)
    show ?thesis
    proof (cases "List.find (higher h l) bs")
      case None
      then show ?thesis using nx \<open>List.find (higher h l) as = None\<close> f by (subst find_level.simps) (simp add: find_append)
    next
      case (Some y)
      then have "y \<in> set bs" by (auto elim!: find_splits)
      then have "h y \<noteq> None" "\<not> klt (akey h y) (skey sc dat)" using less.prems(2,5) by auto
      then show ?thesis using nx \<open>List.find (higher h l) as = None\<close> Some f
        by (subst find_level.simps) (auto simp: find_append akey_def comparator_greater)
    qed
  next
    case (Some y)
    obtain v1 v2 where as: "as = v1 @ y # v2" "l < lev h y" "filter (higher h l) v1 = []" using find_splits [OF Some] .
    have y: "h y \<noteq> None" "klt (akey h y) (skey sc dat)" using less.prems(2,4) as(1) by auto
    have "find_level h sc dat l y = Some (Inr (last_high h l y v2))"
      by (rule less.hyps [of _ "us @ cur # v1"]) (use less.prems as in auto)
    moreover have "last_high h l cur as = last_high h l y v2" using as by simp
    ultimately show ?thesis using nx Some y by (subst find_level.simps) (auto simp: find_append akey_def comparator_greater)
  qed
qed

lemma find_down_result:
  assumes "linked h (us @ cur # as @ bs)" "\<forall>a \<in> set (as @ bs). h a \<noteq> None" "n \<le> lev h cur"
    and "\<forall>a \<in> set as. klt (akey h a) (skey sc dat)" "\<forall>b \<in> set bs. \<not> klt (akey h b) (skey sc dat)"
  shows "find_down h sc dat n cur =
    Some (Inr (if n = 0 then cur else last_high h 0 cur as, map (\<lambda>l. last_high h l cur as) [0..<n]))"
  using assms
proof (induction n arbitrary: us cur as)
  case (Suc n)
  define c where "c = last_high h n cur as"
  have fl: "find_level h sc dat n cur = Some (Inr c)"
    unfolding c_def by (rule find_level_result [OF Suc.prems(1,2) _ Suc.prems(4,5)]) (use Suc.prems(3) in simp)
  obtain us' as' where c: "us @ cur # as @ bs = us' @ c # as' @ bs" "set as' \<subseteq> set as" "n < lev h c"
    "\<And>l. l \<le> n \<Longrightarrow> last_high h l cur as = last_high h l c as'"
  proof (cases "filter (higher h n) as = []")
    case True
    then have "c = cur" by (simp add: c_def)
    then show ?thesis using that [of us as] Suc.prems(3) by simp
  next
    case False
    from last_filter_splits [OF False] obtain v1 v2 where v: "as = v1 @ c # v2" "n < lev h c"
      using False unfolding c_def by (metis last_ConsR)
    then show ?thesis using that [of "us @ cur # v1" v2] by auto
  qed
  have "find_down h sc dat n c = Some (Inr (if n = 0 then c else last_high h 0 c as', map (\<lambda>l. last_high h l c as') [0..<n]))"
    by (rule Suc.IH [of us']) (use Suc.prems c in auto)
  then show ?case using fl c(4) c_def by auto
qed simp

section \<open>Representation\<close>

definition sk_rep :: "skiplist \<Rightarrow> nat list \<Rightarrow> bool" where
  "sk_rep s ns \<longleftrightarrow>
     distinct (sk_head s # ns) \<and> dom (sk_heap s) = set (sk_head s # ns) \<and>
     (\<forall>a \<in> set (sk_head s # ns). sk_heap s a \<noteq> None \<and> a < sk_brk s) \<and>
     lev (sk_heap s) (sk_head s) = kMaxLevel \<and> (\<forall>a \<in> set ns. 0 < lev (sk_heap s) a \<and> lev (sk_heap s) a \<le> kMaxLevel) \<and>
     sorted_wrt (\<lambda>a b. klt (akey (sk_heap s) a) (akey (sk_heap s) b)) ns \<and>
     linked (sk_heap s) (sk_head s # ns) \<and> back_linked (sk_heap s) (sk_head s # ns) \<and>
     sk_count s = length ns \<and> cur_max_level s = maxlev (sk_heap s) ns"

fun walk :: "skheap \<Rightarrow> nat \<Rightarrow> nat option \<Rightarrow> nat list" where
  "walk h (Suc n) (Some a) = a # walk h n (next_of h 0 a)"
| "walk h _ _ = []"

definition sk_nodes :: "skiplist \<Rightarrow> nat list" where
  "sk_nodes s = walk (sk_heap s) (sk_count s) (next_of (sk_heap s) 0 (sk_head s))"

definition sk_abs :: "skiplist \<Rightarrow> (int \<times> string) list" where
  "sk_abs s = map (entry (sk_heap s)) (sk_nodes s)"

definition sk_inv :: "skiplist \<Rightarrow> bool" where
  "sk_inv s \<longleftrightarrow> sk_rep s (sk_nodes s)"

lemma walk_linked:
  "linked h (a # ns) \<Longrightarrow> 0 < lev h a \<Longrightarrow> \<forall>x \<in> set ns. 0 < lev h x \<Longrightarrow> walk h (length ns) (next_of h 0 a) = ns"
  by (induction ns arbitrary: a) auto

lemma sk_rep_nodes: "sk_rep s ns \<Longrightarrow> sk_nodes s = ns"
  unfolding sk_nodes_def using walk_linked [of "sk_heap s" "sk_head s" ns] by (auto simp: sk_rep_def)

lemma sk_rep_inv: "sk_rep s ns \<Longrightarrow> sk_inv s \<and> sk_abs s = map (entry (sk_heap s)) ns"
  using sk_rep_nodes [of s ns] by (simp add: sk_inv_def sk_abs_def)

lemma akey_entry: "akey h a = skey (fst (entry h a)) (snd (entry h a))"
  by (simp add: akey_def nkey_def entry_def)

text \<open>The nodes before and from a key.\<close>

lemma sorted_split:
  assumes "sorted_wrt (\<lambda>a b. klt (f a) (f b)) ns"
  obtains as bs where "ns = as @ bs" "\<forall>a \<in> set as. klt (f a) k" "\<forall>b \<in> set bs. \<not> klt (f b) k"
    "as = takeWhile (\<lambda>a. klt (f a) k) ns" "bs = dropWhile (\<lambda>a. klt (f a) k) ns"
    "\<forall>b \<in> set (tl bs). f b \<noteq> k" "\<forall>a \<in> set as. f a \<noteq> k"
proof -
  let ?as = "takeWhile (\<lambda>a. klt (f a) k) ns" and ?bs = "dropWhile (\<lambda>a. klt (f a) k) ns"
  have s: "sorted_wrt (\<lambda>a b. klt (f a) (f b)) ?bs"
    using assms by (metis sorted_wrt_append takeWhile_dropWhile_id)
  have 1: "\<forall>a \<in> set ?as. klt (f a) k" by (auto dest: set_takeWhileD)
  have 2: "(\<forall>b \<in> set ?bs. \<not> klt (f b) k) \<and> (\<forall>b \<in> set (tl ?bs). f b \<noteq> k)"
  proof (cases ?bs)
    case (Cons b bs)
    have nb: "\<not> klt (f b) k" using Cons by (simp add: dropWhile_eq_Cons_conv)
    have "\<not> klt (f x) k \<and> f x \<noteq> k" if "x \<in> set bs" for x
    proof -
      have "klt (f b) (f x)" using s Cons that by simp
      then show ?thesis using nb klt_trans by metis
    qed
    then show ?thesis using nb unfolding Cons by auto
  next
    case Nil
    then show ?thesis unfolding Nil by simp
  qed
  have 3: "\<forall>a \<in> set ?as. f a \<noteq> k" using 1 klt_irrefl by metis
  show ?thesis by (rule that [OF takeWhile_dropWhile_id [symmetric] 1 conjunct1 [OF 2] refl refl conjunct2 [OF 2] 3])
qed

section \<open>Lemmas: searching a represented list\<close>

lemma last_high_in: "last_high h l a as \<in> insert a (set as)"
proof (cases "filter (higher h l) as = []")
  case False
  then show ?thesis using last_in_set [OF False] by auto
qed simp

lemma last_high_lev: "l < lev h a \<Longrightarrow> l < lev h (last_high h l a as)"
proof (cases "filter (higher h l) as = []")
  case False
  then show ?thesis using last_in_set [OF False] by auto
qed simp

lemma last_high_filter: "l < lev h a \<Longrightarrow> last_high h l a as = last (filter (higher h l) (a # as))"
  by simp

lemma next_last_high:
  assumes "linked h (a # as @ bs)" "l < lev h a"
  shows "next_of h l (last_high h l a as) = List.find (higher h l) bs"
proof (cases "filter (higher h l) as = []")
  case True
  then show ?thesis using assms find_filter [of "higher h l" as] by (simp add: find_append)
next
  case False
  from last_filter_splits [OF False] obtain v1 c v2 where
    v: "as = v1 @ c # v2" "l < lev h c" "filter (higher h l) v2 = []" "last (filter (higher h l) as) = c" .
  have "next_of h l c = List.find (higher h l) (v2 @ bs)" by (rule linked_at [of h "a # v1"]) (use assms v in auto)
  then show ?thesis using v False find_filter [of "higher h l" v2] by (simp add: find_append)
qed

lemma find_cur_down: "find_down h sc dat n cur = Some (Inr (c, path)) \<Longrightarrow> find_cur h sc dat n cur = Some (Inr c)"
  by (induction n arbitrary: cur path) (auto split: option.splits sum.splits prod.splits)

lemma Find_cur_rep: "Skiplist_Find s sc dat n = Some (Inr (c, path)) \<Longrightarrow> Skiplist_Find_cur s sc dat n = Some (Inr c)"
  by (simp add: Skiplist_Find_def Skiplist_Find_cur_def find_cur_down)

lemma find_rep:
  assumes "sk_rep s (as @ bs)" "\<forall>a \<in> set as. klt (akey (sk_heap s) a) (skey sc dat)"
    and "\<forall>b \<in> set bs. \<not> klt (akey (sk_heap s) b) (skey sc dat)" "0 < n" "n \<le> kMaxLevel"
  shows "Skiplist_Find s sc dat n = Some (Inr (last (sk_head s # as), map (\<lambda>l. last_high (sk_heap s) l (sk_head s) as) [0..<n]))"
    "read_next (sk_heap s) (last (sk_head s # as)) 0 = Inr (if bs = [] then None else Some (hd bs))"
proof -
  let ?h = "sk_heap s" and ?hd = "sk_head s"
  have f: "filter (higher ?h 0) as = as" using assms(1) by (auto simp: sk_rep_def)
  then have c: "last_high ?h 0 ?hd as = last (?hd # as)" by simp
  have l: "linked ?h (?hd # as @ bs)" "lev ?h ?hd = kMaxLevel" "\<forall>a \<in> set (as @ bs). ?h a \<noteq> None"
    using assms(1) by (auto simp: sk_rep_def)
  show "Skiplist_Find s sc dat n = Some (Inr (last (?hd # as), map (\<lambda>l. last_high ?h l ?hd as) [0..<n]))"
    unfolding Skiplist_Find_def
    using find_down_result [of ?h "[]" ?hd as bs n sc dat] l assms(2-5) c by simp
  have "List.find (higher ?h 0) bs = (if bs = [] then None else Some (hd bs))"
    using assms(1) by (cases bs) (auto simp: sk_rep_def)
  then show "read_next ?h (last (?hd # as)) 0 = Inr (if bs = [] then None else Some (hd bs))"
    using next_last_high [OF l(1), of 0] read_next_ok [of 0 ?h "last_high ?h 0 ?hd as"] last_high_lev [of 0 ?h ?hd as] l(2) c by simp
qed

section \<open>Lemmas: inserting\<close>

definition same_fields :: "skheap \<Rightarrow> skheap \<Rightarrow> bool" where
  "same_fields h h' \<longleftrightarrow> (\<forall>a. lev h' a = lev h a \<and> akey h' a = akey h a \<and> entry h' a = entry h a \<and> prev_of h' a = prev_of h a \<and>
     (h' a = None \<longleftrightarrow> h a = None))"

lemma link_levels_result:
  assumes "\<forall>i < length ps. l + i < lev h (ps ! i)" "new \<notin> set ps" "l + length ps \<le> lev h new"
  shows "\<exists>h'. link_levels h new l ps = Inr h' \<and> same_fields h h' \<and>
    (\<forall>a j. next_of h' j a =
      (if l \<le> j \<and> j < l + length ps \<and> a = new then next_of h j (ps ! (j - l))
       else if l \<le> j \<and> j < l + length ps \<and> a = ps ! (j - l) then Some new else next_of h j a))"
  using assms
proof (induction ps arbitrary: l h)
  case Nil
  then show ?case by (auto simp: same_fields_def)
next
  case (Cons p ps)
  have lp: "l < lev h p" "l < lev h new" "p \<noteq> new" using Cons.prems by (auto dest: spec [of _ 0])
  let ?h1 = "upd_next h new l (next_of h l p)" and ?h2 = "upd_next (upd_next h new l (next_of h l p)) p l (Some new)"
  have step: "link_levels h new l (p # ps) = link_levels ?h2 new (Suc l) ps"
    using lp by (simp add: read_next_ok write_next_ok)
  have i: "Suc l + i < lev h (ps ! i)" if "i < length ps" for i using Cons.prems(1) that by (auto dest: spec [of _ "Suc i"])
  have h2: "lev ?h2 x = lev h x" "akey ?h2 x = akey h x" "entry ?h2 x = entry h x" "prev_of ?h2 x = prev_of h x"
    "?h2 x = None \<longleftrightarrow> h x = None"
    "next_of ?h2 j x = (if x = p \<and> j = l then Some new else if x = new \<and> j = l then next_of h l p else next_of h j x)" for x j
    using lp by simp_all
  obtain h' where h': "link_levels ?h2 new (Suc l) ps = Inr h'" "same_fields ?h2 h'"
    "\<forall>a j. next_of h' j a =
      (if Suc l \<le> j \<and> j < Suc l + length ps \<and> a = new then next_of ?h2 j (ps ! (j - Suc l))
       else if Suc l \<le> j \<and> j < Suc l + length ps \<and> a = ps ! (j - Suc l) then Some new else next_of ?h2 j a)"
    using Cons.IH [of "Suc l" ?h2] Cons.prems(2,3) i h2(1) by auto
  have "next_of h' j a = (if l \<le> j \<and> j < l + length (p # ps) \<and> a = new then next_of h j ((p # ps) ! (j - l))
       else if l \<le> j \<and> j < l + length (p # ps) \<and> a = (p # ps) ! (j - l) then Some new else next_of h j a)" for a j
  proof -
    consider "j = l" | "j < l" | "l < j" by linarith
    then show ?thesis
    proof cases
      case 3
      then have "(p # ps) ! (j - l) = ps ! (j - Suc l)" by (simp add: nth_Cons')
      then show ?thesis using h'(3) [rule_format, of j a] 3 unfolding h2(6) by auto
    qed (use h'(3) [rule_format, of j a] lp(3) in \<open>simp_all add: h2(6)\<close>)
  qed
  moreover have "same_fields h h'" using h'(2) h2(1-5) by (simp add: same_fields_def)
  ultimately show ?case using step h'(1) by auto
qed

lemma back_linked_insert:
  assumes "back_linked h (xs @ ys)" "xs \<noteq> []" "distinct (xs @ ys)" "new \<notin> set (xs @ ys)"
    and "\<And>a. a \<in> set (xs @ tl ys) \<Longrightarrow> prev_of h' a = prev_of h a" "prev_of h' new = Some (last xs)" "ys \<noteq> [] \<Longrightarrow> prev_of h' (hd ys) = Some new"
  shows "back_linked h' (xs @ new # ys)"
proof -
  obtain us a where xs: "xs = us @ [a]" using assms(2) by (metis append_butlast_last_id)
  have l: "back_linked h xs" and r: "back_linked h (a # ys)"
    using assms(1) back_linked_append [of h us a ys] by (simp_all add: xs)
  have "back_linked h ys" using r by (cases ys) simp_all
  have "back_linked h' xs" by (rule back_linked_cong [OF l]) (use assms(5) in \<open>auto dest: list.set_sel(2) [OF assms(2)]\<close>)
  moreover have "back_linked h' ys" by (rule back_linked_cong [OF \<open>back_linked h ys\<close>]) (use assms(5) in auto)
  then have "back_linked h' (a # new # ys)" using assms(6,7) by (cases ys) (simp_all add: xs)
  ultimately show ?thesis using back_linked_append [of h' us a "new # ys"] by (simp add: xs)
qed

text \<open>The heap after the levels are redirected to a new node.\<close>

lemma insert_heap:
  assumes "linked h (x # as @ bs)" "distinct (x # as @ bs)" "new \<notin> set (x # as @ bs)"
    and old: "\<And>a. a \<noteq> new \<Longrightarrow> h0 a = h a" and "lev h0 new = lv" "lv \<le> lev h x"
  obtains h1 where "link_levels h0 new 0 (map (\<lambda>l. last_high h l x as) [0..<lv]) = Inr h1" "same_fields h0 h1"
    "linked h1 (x # as @ new # bs)"
proof -
  define P where "P l = last_high h l x as" for l
  let ?ps = "map P [0..<lv]"
  have P: "P l \<in> set (x # as)" "P l \<noteq> new" "l < lev h x \<Longrightarrow> l < lev h (P l)" for l
    using last_high_in [where h = h and l = l and a = x and as = as] assms(3) last_high_lev [of l h x as] by (auto simp: P_def)
  have keep: "lev h0 a = lev h a" "next_of h0 j a = next_of h j a" if "a \<noteq> new" for a j
    using other_fields(1,5) [of h0 a h, OF old [OF that]] .
  have nP: "next_of h l (P l) = List.find (higher h l) bs" if "l < lv" for l
    unfolding P_def by (rule next_last_high) (use assms(1,6) that in auto)
  have "\<forall>i < length ?ps. 0 + i < lev h0 (?ps ! i)" using P(2,3) assms(6) by (simp add: keep(1))
  moreover have "new \<notin> set ?ps" using P(2) by force
  moreover have "0 + length ?ps \<le> lev h0 new" using assms(5) by simp
  ultimately have "\<exists>h'. link_levels h0 new 0 ?ps = Inr h' \<and> same_fields h0 h' \<and>
    (\<forall>a j. next_of h' j a = (if 0 \<le> j \<and> j < 0 + length ?ps \<and> a = new then next_of h0 j (?ps ! (j - 0))
       else if 0 \<le> j \<and> j < 0 + length ?ps \<and> a = ?ps ! (j - 0) then Some new else next_of h0 j a))"
    by (rule link_levels_result)
  then obtain h1 where h1: "link_levels h0 new 0 ?ps = Inr h1" "same_fields h0 h1"
    and nx: "\<And>a j. next_of h1 j a = (if j < lv \<and> a = new then next_of h0 j (P j) else if j < lv \<and> a = P j then Some new else next_of h0 j a)"
    by (auto simp: nth_map)
  have l1: "lev h1 a = lev h0 a" for a using h1(2) by (simp add: same_fields_def)
  have "linked h1 ((x # as) @ new # bs)"
  proof (rule linked_insert [where h = h and P = P])
    show "linked h ((x # as) @ bs)" "distinct ((x # as) @ bs)" "new \<notin> set ((x # as) @ bs)" using assms(1-3) by simp_all
    show "lev h1 a = lev h a" if "a \<in> set ((x # as) @ bs)" for a
    proof -
      have "a \<noteq> new" using that assms(3) by auto
      then show ?thesis using keep(1) l1 by simp
    qed
    show "next_of h1 l a = (if l < lev h1 new \<and> a = P l then Some new else next_of h l a)" if a: "a \<in> set ((x # as) @ bs)" for a l
    proof -
      have "a \<noteq> new" using a assms(3) by auto
      then show ?thesis using keep(2) assms(5) l1 by (simp add: nx)
    qed
    show "next_of h1 l new = List.find (higher h l) bs" if "l < lev h1 new" for l
      using that nP keep(2) [OF P(2)] assms(5) l1 by (simp add: nx)
    show "P l = last (filter (higher h l) (x # as))" if "filter (higher h l) (x # as) \<noteq> []" for l
      using that by (cases "l < lev h x") (auto simp: P_def filter_empty_conv)
    show "P l \<notin> set bs" for l using P(1) [of l] assms(2) by auto
  qed
  then show ?thesis using that [of h1] h1 unfolding P_def by simp
qed

lemma maxlev_cong: "(\<And>a. a \<in> set ns \<Longrightarrow> lev h' a = lev h a) \<Longrightarrow> maxlev h' ns = maxlev h ns"
  by (induction ns) auto

lemma sorted_cong:
  assumes "sorted_wrt (\<lambda>a b. klt (akey h a) (akey h b)) ns" "\<And>a. a \<in> set ns \<Longrightarrow> akey h' a = akey h a"
  shows "sorted_wrt (\<lambda>a b. klt (akey h' a) (akey h' b)) ns"
  using assms(1) by (rule sorted_wrt_mono_rel [rotated]) (use assms(2) in simp)

lemma dom_same: "(\<And>a. f a = None \<longleftrightarrow> g a = None) \<Longrightarrow> dom f = dom g"
  unfolding dom_def by simp

text \<open>The heap with a new node, and the invariant that follows.\<close>

definition inserted_into :: "skiplist \<Rightarrow> nat list \<Rightarrow> nat list \<Rightarrow> int \<Rightarrow> string \<Rightarrow> nat \<Rightarrow> skheap \<Rightarrow> bool" where
  "inserted_into s as bs sc dat lv h \<longleftrightarrow> linked h (sk_head s # as @ sk_brk s # bs) \<and> dom h = insert (sk_brk s) (dom (sk_heap s)) \<and>
     lev h (sk_brk s) = lv \<and> akey h (sk_brk s) = skey sc dat \<and> entry h (sk_brk s) = (sc, dat) \<and> prev_of h (sk_brk s) = Some (last (sk_head s # as)) \<and>
     (\<forall>a \<in> set (sk_head s # as @ bs). lev h a = lev (sk_heap s) a \<and> akey h a = akey (sk_heap s) a \<and> entry h a = entry (sk_heap s) a \<and>
        prev_of h a = (if bs \<noteq> [] \<and> a = hd bs then Some (sk_brk s) else prev_of (sk_heap s) a))"

lemma inserted_rep:
  assumes rep: "sk_rep s (as @ bs)" and lv: "0 < lv" "lv \<le> kMaxLevel" and h: "inserted_into s as bs sc dat lv h"
    and key: "\<forall>a \<in> set as. klt (akey (sk_heap s) a) (skey sc dat)" "\<forall>b \<in> set bs. klt (skey sc dat) (akey (sk_heap s) b)"
  shows "sk_rep (s\<lparr>sk_heap := h, sk_brk := sk_brk s + 1, cur_max_level := max (cur_max_level s) lv, sk_count := sk_count s + 1\<rparr>) (as @ sk_brk s # bs)"
    "map (entry h) (as @ sk_brk s # bs) = map (entry (sk_heap s)) as @ (sc, dat) # map (entry (sk_heap s)) bs"
proof -
  let ?h = "sk_heap s" and ?hd = "sk_head s" and ?new = "sk_brk s" and ?xs = "sk_head s # as"
  have r: "distinct (?xs @ bs)" "lev ?h ?hd = kMaxLevel" "back_linked ?h (?xs @ bs)" "dom ?h = set (?xs @ bs)"
    "\<forall>a \<in> set (as @ bs). 0 < lev ?h a \<and> lev ?h a \<le> kMaxLevel" and new: "?new \<notin> set (?xs @ bs)"
    using rep by (auto simp: sk_rep_def)
  have f: "lev h a = lev ?h a" "akey h a = akey ?h a" "entry h a = entry ?h a"
    "prev_of h a = (if bs \<noteq> [] \<and> a = hd bs then Some ?new else prev_of ?h a)" if "a \<in> set (?xs @ bs)" for a
    using h that unfolding inserted_into_def append_Cons by blast+
  have n: "lev h ?new = lv" "akey h ?new = skey sc dat" "entry h ?new = (sc, dat)" "prev_of h ?new = Some (last ?xs)"
    and lk: "linked h (?hd # as @ ?new # bs)" and dom0: "dom h = insert ?new (dom ?h)" using h by (simp_all only: inserted_into_def)
  have dom: "dom h = set (?hd # as @ ?new # bs)" using dom0 r(4) by auto
  then have some: "h a \<noteq> None" if "a \<in> set (?hd # as @ ?new # bs)" for a using that by blast
  have prevs: "back_linked h (?xs @ ?new # bs)"
  proof (rule back_linked_insert [OF r(3) _ r(1) new])
    show "prev_of h a = prev_of ?h a" if "a \<in> set (?xs @ tl bs)" for a
    proof -
      have "a \<in> set (?xs @ bs)" "a \<noteq> hd bs \<or> bs = []" using that r(1) by (cases bs; auto)+
      then show ?thesis using f(4) by auto
    qed
    show "prev_of h (hd bs) = Some ?new" if "bs \<noteq> []" using that f(4) [of "hd bs"] by simp
  qed (use n(4) in simp_all)
  have "sorted_wrt (\<lambda>a b. klt (akey h a) (akey h b)) (as @ bs)"
    by (rule sorted_cong [where h = ?h]) (use rep f(2) in \<open>auto simp: sk_rep_def\<close>)
  then have sorted: "sorted_wrt (\<lambda>a b. klt (akey h a) (akey h b)) (as @ ?new # bs)" using key f(2) n(2) by (auto simp: sorted_wrt_append)
  have each: "\<forall>a \<in> set (?hd # as @ ?new # bs). h a \<noteq> None \<and> a < ?new + 1" "\<forall>a \<in> set (as @ ?new # bs). 0 < lev h a \<and> lev h a \<le> kMaxLevel"
    using some rep r(5) f(1) n(1) lv by (auto simp: sk_rep_def less_Suc_eq)
  have "maxlev h (as @ ?new # bs) = max (maxlev ?h (as @ bs)) lv"
    using maxlev_cong [of as h ?h] maxlev_cong [of bs h ?h] f(1) n(1) by simp
  then show "sk_rep (s\<lparr>sk_heap := h, sk_brk := ?new + 1, cur_max_level := max (cur_max_level s) lv, sk_count := sk_count s + 1\<rparr>) (as @ ?new # bs)"
    using lk prevs sorted r(1,2) new f(1) each dom rep unfolding sk_rep_def by simp
  show "map (entry h) (as @ ?new # bs) = map (entry ?h) as @ (sc, dat) # map (entry ?h) bs" using f(3) n(3) by simp
qed

lemma insert_run:
  assumes rep: "sk_rep s (as @ bs)" and lv: "lv \<le> kMaxLevel"
  shows "\<exists>h. insert_node s sc dat lv (last (sk_head s # as)) (map (\<lambda>l. last_high (sk_heap s) l (sk_head s) as) [0..<lv])
      (if bs = [] then None else Some (hd bs)) =
      Inr (s\<lparr>sk_heap := h, sk_brk := sk_brk s + 1, cur_max_level := max (cur_max_level s) lv, sk_count := sk_count s + 1\<rparr>) \<and>
    inserted_into s as bs sc dat lv h"
proof -
  let ?h = "sk_heap s" and ?hd = "sk_head s" and ?new = "sk_brk s" and ?xs = "sk_head s # as"
  define h0 where "h0 = ?h(?new \<mapsto> SKNode sc dat lv)"
  have r: "distinct (?xs @ bs)" "\<forall>a \<in> set (?xs @ bs). ?h a \<noteq> None" "lev ?h ?hd = kMaxLevel" "linked ?h (?xs @ bs)" "back_linked ?h (?xs @ bs)"
    and new: "?new \<notin> set (?xs @ bs)" using rep by (auto simp: sk_rep_def)
  have old: "a \<noteq> ?new \<Longrightarrow> h0 a = ?h a" for a by (simp add: h0_def)
  have n0: "lev h0 ?new = lv" "akey h0 ?new = skey sc dat" "entry h0 ?new = (sc, dat)" "h0 ?new \<noteq> None"
    by (simp_all add: h0_def lev_def akey_def nkey_def entry_def SKNode_def)
  obtain h1 where h1: "link_levels h0 ?new 0 (map (\<lambda>l. last_high ?h l ?hd as) [0..<lv]) = Inr h1" "same_fields h0 h1" "linked h1 (?xs @ ?new # bs)"
    using insert_heap [of ?h ?hd as bs ?new h0 lv] r(1,3,4) new old n0(1) lv by auto
  define h2 where "h2 = (if bs = [] then h1 else upd_prev h1 (hd bs) (Some ?new))"
  define h3 where "h3 = upd_prev h2 ?new (Some (last ?xs))"
  have hdb: "h0 (hd bs) \<noteq> None" "hd bs \<noteq> ?new" if "bs \<noteq> []" using that r(1,2) new old by (cases bs; auto)+
  have s1: "lev h1 a = lev h0 a" "akey h1 a = akey h0 a" "entry h1 a = entry h0 a" "prev_of h1 a = prev_of h0 a" "h1 a = None \<longleftrightarrow> h0 a = None" for a
    using h1(2) by (simp_all add: same_fields_def)
  have s2: "lev h2 a = lev h0 a" "akey h2 a = akey h0 a" "entry h2 a = entry h0 a" "h2 a = None \<longleftrightarrow> h0 a = None" "next_of h2 j a = next_of h1 j a"
    "prev_of h2 a = (if bs \<noteq> [] \<and> a = hd bs then Some ?new else prev_of h0 a)" for a j
    using s1 hdb(1) by (auto simp: h2_def)
  have s3: "lev h3 a = lev h0 a" "akey h3 a = akey h0 a" "entry h3 a = entry h0 a" "h3 a = None \<longleftrightarrow> h0 a = None" "next_of h3 j a = next_of h1 j a"
    "prev_of h3 a = (if a = ?new then Some (last ?xs) else prev_of h2 a)" for a j
    using s2 n0(4) by (auto simp: h3_def)
  have f3: "lev h3 a = lev ?h a" "akey h3 a = akey ?h a" "entry h3 a = entry ?h a" "h3 a \<noteq> None" "prev_of h0 a = prev_of ?h a"
    if a: "a \<in> set (?xs @ bs)" for a
  proof -
    have e: "h0 a = ?h a" by (rule old) (use a new in metis)
    have "?h a \<noteq> None" using r(2) a by blast
    then show "lev h3 a = lev ?h a" "akey h3 a = akey ?h a" "entry h3 a = entry ?h a" "h3 a \<noteq> None" "prev_of h0 a = prev_of ?h a"
      using s3(1-4) other_fields [of h0 a ?h, OF e] e by simp_all
  qed
  have run: "insert_node s sc dat lv (last ?xs) (map (\<lambda>l. last_high ?h l ?hd as) [0..<lv]) (if bs = [] then None else Some (hd bs)) =
      Inr (s\<lparr>sk_heap := h3, sk_brk := ?new + 1, cur_max_level := max (cur_max_level s) lv, sk_count := sk_count s + 1\<rparr>)"
    using h1(1) s1(5) s2(4) n0(4) hdb(1)
    by (auto simp: insert_node_def Let_def h0_def [symmetric] write_prev_ok h2_def h3_def simp del: fun_upd_apply)
  have linked: "linked h3 (?hd # as @ ?new # bs)" by (rule linked_cong [OF h1(3) [unfolded append_Cons]]) (simp_all add: s1(1) s3(1,5))
  have "dom h3 = dom h0" by (rule dom_same [of h3 h0, OF s3(4)])
  then have dom: "dom h3 = insert ?new (dom ?h)" by (simp add: h0_def)
  have prev: "prev_of h3 a = (if bs \<noteq> [] \<and> a = hd bs then Some ?new else prev_of ?h a)" if "a \<in> set (?xs @ bs)" for a
    using s3(6) [of a] s2(6) [of a] f3(5) [OF that] new that by auto
  have "inserted_into s as bs sc dat lv h3" unfolding inserted_into_def
    using linked dom n0 s3(1-3,6) f3(1-3) prev unfolding append_Cons by simp
  then show ?thesis using run by blast
qed

lemma insert_rep:
  assumes "sk_rep s (as @ bs)" "0 < lv" "lv \<le> kMaxLevel"
    and "\<forall>a \<in> set as. klt (akey (sk_heap s) a) (skey sc dat)" "\<forall>b \<in> set bs. klt (skey sc dat) (akey (sk_heap s) b)"
  shows "\<exists>s'. insert_node s sc dat lv (last (sk_head s # as)) (map (\<lambda>l. last_high (sk_heap s) l (sk_head s) as) [0..<lv])
      (if bs = [] then None else Some (hd bs)) = Inr s' \<and> sk_rep s' (as @ sk_brk s # bs) \<and>
    map (entry (sk_heap s')) (as @ sk_brk s # bs) = map (entry (sk_heap s)) as @ (sc, dat) # map (entry (sk_heap s)) bs"
proof -
  obtain h where h: "insert_node s sc dat lv (last (sk_head s # as)) (map (\<lambda>l. last_high (sk_heap s) l (sk_head s) as) [0..<lv])
      (if bs = [] then None else Some (hd bs)) =
      Inr (s\<lparr>sk_heap := h, sk_brk := sk_brk s + 1, cur_max_level := max (cur_max_level s) lv, sk_count := sk_count s + 1\<rparr>)"
    "inserted_into s as bs sc dat lv h"
    using insert_run [OF assms(1,3)] by blast
  show ?thesis using h(1) inserted_rep [OF assms(1-3) h(2) assms(4,5)] by (intro exI conjI) auto
qed

section \<open>Lemmas: removing\<close>

lemma same_node_cong:
  assumes "same_fields h h'"
  shows "same_node h' sc dat p = same_node h sc dat p"
proof (cases p)
  case (Some a)
  have f: "akey h' a = akey h a" "h' a = None \<longleftrightarrow> h a = None" using assms by (simp_all add: same_fields_def)
  then show ?thesis unfolding Some by (cases "h a = None") (simp add: same_node_def, simp only: same_node_ok not_False_eq_True)
qed (simp add: same_node_def)

lemma unlink_levels_result:
  assumes "\<forall>j < n. j < lev h (path ! j) \<and> path ! j \<noteq> del \<and> same_node h sc dat (next_of h j (path ! j)) = Inr (j < lev h del)"
  shows "\<exists>h'. unlink_levels h sc dat del n path = Inr h' \<and> same_fields h h' \<and>
    (\<forall>a j. next_of h' j a = (if j < n \<and> j < lev h del \<and> a = path ! j then next_of h j del else next_of h j a))"
  using assms
proof (induction n arbitrary: h)
  case 0
  then show ?case by (simp add: same_fields_def)
next
  case (Suc n)
  have p: "n < lev h (path ! n)" "path ! n \<noteq> del" "same_node h sc dat (next_of h n (path ! n)) = Inr (n < lev h del)"
    using Suc.prems by auto
  define h1 where "h1 = (if n < lev h del then upd_next h (path ! n) n (next_of h n del) else h)"
  have step: "unlink_levels h sc dat del (Suc n) path = unlink_levels h1 sc dat del n path"
    using p by (simp add: read_next_ok write_next_ok h1_def)
  have s1: "same_fields h h1" using p(1) by (simp add: same_fields_def h1_def)
  have n1: "next_of h1 j a = (if j = n \<and> n < lev h del \<and> a = path ! n then next_of h n del else next_of h j a)" for j a
    using p(1) by (auto simp: h1_def)
  have l1: "lev h1 a = lev h a" for a using s1 by (simp add: same_fields_def)
  have "\<forall>j < n. j < lev h1 (path ! j) \<and> path ! j \<noteq> del \<and> same_node h1 sc dat (next_of h1 j (path ! j)) = Inr (j < lev h1 del)"
    using Suc.prems n1 l1 same_node_cong [OF s1] by auto
  from Suc.IH [OF this] obtain h' where h': "unlink_levels h1 sc dat del n path = Inr h'" "same_fields h1 h'"
    "\<forall>a j. next_of h' j a = (if j < n \<and> j < lev h1 del \<and> a = path ! j then next_of h1 j del else next_of h1 j a)" by blast
  have "next_of h' j a = (if j < Suc n \<and> j < lev h del \<and> a = path ! j then next_of h j del else next_of h j a)" for a j
    using h'(3) p(2) l1 by (auto simp: n1 less_Suc_eq)
  moreover have "same_fields h h'" using s1 h'(2) by (simp add: same_fields_def)
  ultimately show ?case using step h'(1) by auto
qed

lemma lower_level_result:
  assumes "linked h (a # ns)" "maxlev h ns \<le> n" "n \<le> lev h a"
  shows "lower_level h a n = Inr (maxlev h ns, maxlev h ns = 0)"
  using assms(2,3)
proof (induction n)
  case (Suc n)
  have "read_next h a n = Inr (List.find (higher h n) ns)" using assms(1) Suc.prems(2) by (simp add: read_next_ok)
  then show ?case using Suc find_maxlev [of n h ns] by (auto simp: le_Suc_eq)
qed simp

lemma back_linked_remove:
  assumes "back_linked h (xs @ d # ys)" "xs \<noteq> []" "distinct (xs @ d # ys)"
    and "\<And>a. a \<in> set (xs @ tl ys) \<Longrightarrow> prev_of h' a = prev_of h a" "ys \<noteq> [] \<Longrightarrow> prev_of h' (hd ys) = Some (last xs)"
  shows "back_linked h' (xs @ ys)"
proof -
  obtain us a where xs: "xs = us @ [a]" using assms(2) by (metis append_butlast_last_id)
  have l: "back_linked h xs" and r: "back_linked h (a # d # ys)"
    using assms(1) back_linked_append [of h us a "d # ys"] by (simp_all add: xs)
  have ys: "back_linked h ys" using r by (cases ys) simp_all
  have "back_linked h' xs" by (rule back_linked_cong [OF l]) (use assms(4) in \<open>auto dest: list.set_sel(2) [OF assms(2)]\<close>)
  moreover have "back_linked h' ys" by (rule back_linked_cong [OF ys]) (use assms(4) in auto)
  then have "back_linked h' (a # ys)" using assms(5) by (cases ys) (simp_all add: xs)
  ultimately show ?thesis using back_linked_append [of h' us a ys] by (simp add: xs)
qed

text \<open>The heap after the pointers around the removed node are changed.\<close>

lemma remove_heap:
  assumes "linked h (x # as @ d # bs)" "distinct (x # as @ d # bs)" "\<forall>a \<in> set (x # as @ d # bs). h a \<noteq> None"
    and "akey h d = skey sc dat" "\<forall>b \<in> set bs. akey h b \<noteq> skey sc dat" "n \<le> lev h x" "lev h d \<le> n"
  obtains h1 where "unlink_levels h sc dat d n (map (\<lambda>l. last_high h l x as) [0..<n]) = Inr h1" "same_fields h h1"
    "linked h1 (x # as @ bs)" "\<And>j. next_of h1 j d = next_of h j d"
proof -
  define P where "P l = last_high h l x as" for l
  have P: "P l \<in> insert x (set as)" "P l \<noteq> d" "l < lev h x \<Longrightarrow> l < lev h (P l)" for l
    using last_high_in [where h = h and l = l and a = x and as = as] last_high_lev [of l h x as] assms(2) by (auto simp: P_def)
  have same: "same_node h sc dat (next_of h l (P l)) = Inr (l < lev h d)" if "l < n" for l
  proof -
    have nx: "next_of h l (P l) = List.find (higher h l) (d # bs)"
      unfolding P_def by (rule next_last_high) (use assms(1,6) that in auto)
    show ?thesis
    proof (cases "l < lev h d")
      case True
      then show ?thesis using nx assms(3,4) by (simp add: same_node_ok)
    next
      case False
      show ?thesis
      proof (cases "List.find (higher h l) bs")
        case None
        then show ?thesis using nx False by (simp add: same_node_def)
      next
        case (Some y)
        then have "y \<in> set bs" by (auto elim!: find_splits)
        then show ?thesis using nx False Some assms(3,5) by (simp add: same_node_ok)
      qed
    qed
  qed
  have "\<forall>j < n. j < lev h (map P [0..<n] ! j) \<and> map P [0..<n] ! j \<noteq> d \<and>
      same_node h sc dat (next_of h j (map P [0..<n] ! j)) = Inr (j < lev h d)"
    using P(2,3) same assms(6) by simp
  from unlink_levels_result [OF this] obtain h1 where h1: "unlink_levels h sc dat d n (map P [0..<n]) = Inr h1" "same_fields h h1"
    "\<forall>a j. next_of h1 j a = (if j < n \<and> j < lev h d \<and> a = map P [0..<n] ! j then next_of h j d else next_of h j a)" by blast
  have nx: "next_of h1 j a = (if j < lev h d \<and> a = P j then next_of h j d else next_of h j a)" for j a
    using h1(3) assms(7) by auto
  have "linked h1 ((x # as) @ bs)"
  proof (rule linked_remove [of h "x # as" d bs h1 P])
    show "P l = last (filter (higher h l) (x # as))" if "filter (higher h l) (x # as) \<noteq> []" for l
      using that by (cases "l < lev h x") (auto simp: P_def filter_empty_conv)
    show "P l \<notin> set bs" for l using P(1) [of l] assms(2) by auto
  qed (use assms(1,2) nx h1(2) in \<open>auto simp: same_fields_def\<close>)
  then show ?thesis using that [of h1] h1(1,2) nx P(2) unfolding P_def by simp
qed

lemma maxlev_0: "\<forall>a \<in> set ns. 0 < lev h a \<Longrightarrow> maxlev h ns = 0 \<longleftrightarrow> ns = []"
  by (cases ns) auto

text \<open>
  The heap without a node: what the remaining nodes hold, with the back pointer of the next one changed, and the invariant that follows.
\<close>

definition removed_from :: "skiplist \<Rightarrow> nat list \<Rightarrow> nat \<Rightarrow> nat list \<Rightarrow> skheap \<Rightarrow> bool" where
  "removed_from s as d bs h \<longleftrightarrow> linked h (sk_head s # as @ bs) \<and> dom h = dom (sk_heap s) - {d} \<and>
     (\<forall>a \<in> set (sk_head s # as @ bs). lev h a = lev (sk_heap s) a \<and> akey h a = akey (sk_heap s) a \<and> entry h a = entry (sk_heap s) a \<and>
        prev_of h a = (if bs \<noteq> [] \<and> a = hd bs then Some (last (sk_head s # as)) else prev_of (sk_heap s) a))"

lemma removed_rep:
  assumes rep: "sk_rep s (as @ d # bs)" and h: "removed_from s as d bs h"
  shows "sk_rep (s\<lparr>sk_heap := h, cur_max_level := maxlev (sk_heap s) (as @ bs), sk_count := sk_count s - 1\<rparr>) (as @ bs)"
    "map (entry h) (as @ bs) = map (entry (sk_heap s)) (as @ bs)"
proof -
  let ?h = "sk_heap s" and ?hd = "sk_head s" and ?xs = "sk_head s # as"
  have r: "distinct (?xs @ d # bs)" "lev ?h ?hd = kMaxLevel" "back_linked ?h (?xs @ d # bs)"
    "\<forall>a \<in> set (as @ d # bs). 0 < lev ?h a \<and> lev ?h a \<le> kMaxLevel" "sorted_wrt (\<lambda>a b. klt (akey ?h a) (akey ?h b)) (as @ d # bs)"
    "dom ?h = set (?xs @ d # bs)"
    using rep by (simp_all add: sk_rep_def)
  have f: "lev h a = lev ?h a" "akey h a = akey ?h a" "entry h a = entry ?h a"
    "prev_of h a = (if bs \<noteq> [] \<and> a = hd bs then Some (last ?xs) else prev_of ?h a)" if "a \<in> set (?xs @ bs)" for a
    using h that unfolding removed_from_def append_Cons by blast+
  have dom: "dom h = set (?hd # as @ bs)" using h r(1,6) by (auto simp: removed_from_def)
  then have some: "h a \<noteq> None" if "a \<in> set (?hd # as @ bs)" for a using that by blast
  have prevs: "back_linked h (?xs @ bs)"
  proof (rule back_linked_remove [OF r(3) _ r(1)])
    show "prev_of h a = prev_of ?h a" if "a \<in> set (?xs @ tl bs)" for a
    proof -
      have "a \<in> set (?xs @ bs)" "a \<noteq> hd bs \<or> bs = []" using that r(1) by (cases bs; auto)+
      then show ?thesis using f(4) by auto
    qed
    show "prev_of h (hd bs) = Some (last ?xs)" if "bs \<noteq> []" using that f(4) [of "hd bs"] by simp
  qed simp
  have sorted: "sorted_wrt (\<lambda>a b. klt (akey h a) (akey h b)) (as @ bs)"
    by (rule sorted_cong [where h = ?h]) (use r(5) f(2) in \<open>auto simp: sorted_wrt_append\<close>)
  have each: "\<forall>a \<in> set (?hd # as @ bs). h a \<noteq> None \<and> a < sk_brk s" "\<forall>a \<in> set (as @ bs). 0 < lev h a \<and> lev h a \<le> kMaxLevel"
    using some rep r(4) f(1) by (auto simp: sk_rep_def)
  have lk: "linked h (?hd # as @ bs)" using h by (simp only: removed_from_def)
  have "maxlev h (as @ bs) = maxlev ?h (as @ bs)" by (rule maxlev_cong) (use f(1) in simp)
  then show "sk_rep (s\<lparr>sk_heap := h, cur_max_level := maxlev ?h (as @ bs), sk_count := sk_count s - 1\<rparr>) (as @ bs)"
    using lk prevs sorted r(1,2) f(1) each dom rep unfolding sk_rep_def by simp
  show "map (entry h) (as @ bs) = map (entry ?h) (as @ bs)" using f(3) by simp
qed

text \<open>Lowering the level of the list to the highest remaining node.\<close>

lemma lowered_level:
  assumes "linked h (x # as @ bs)" "n = max ld (maxlev h (as @ bs))" "n \<le> lev h x" "\<forall>a \<in> set (as @ bs). 0 < lev h a"
  shows "(if ld = n then lower_level h x n else Inr (n, False)) = Inr (maxlev h (as @ bs), as @ bs = [])"
proof -
  have m0: "maxlev h (as @ bs) = 0 \<longleftrightarrow> as @ bs = []" by (rule maxlev_0) (use assms(4) in auto)
  show ?thesis
  proof (cases "ld = n")
    case True
    have "lower_level h x n = Inr (maxlev h (as @ bs), maxlev h (as @ bs) = 0)"
      by (rule lower_level_result [OF assms(1)]) (use assms(2,3) in simp_all)
    then show ?thesis using True m0 by simp
  next
    case False
    then have "n = maxlev h (as @ bs)" "maxlev h (as @ bs) \<noteq> 0" using assms(2) by (auto simp: max_def split: if_splits)
    then show ?thesis using False m0 by auto
  qed
qed

lemma remove_run:
  assumes rep: "sk_rep s (as @ d # bs)" and key: "akey (sk_heap s) d = skey sc dat"
  shows "\<exists>h. remove_node s sc dat (last (sk_head s # as)) d (map (\<lambda>l. last_high (sk_heap s) l (sk_head s) as) [0..<cur_max_level s]) =
      Inr (s\<lparr>sk_heap := h, cur_max_level := maxlev (sk_heap s) (as @ bs), sk_count := sk_count s - 1\<rparr>, as @ bs = []) \<and> removed_from s as d bs h"
proof -
  let ?h = "sk_heap s" and ?hd = "sk_head s" and ?xs = "sk_head s # as" and ?n = "cur_max_level s"
  have r: "distinct (?xs @ d # bs)" "\<forall>a \<in> set (?xs @ d # bs). ?h a \<noteq> None" "lev ?h ?hd = kMaxLevel" "linked ?h (?xs @ d # bs)"
    "back_linked ?h (?xs @ d # bs)" "?n = maxlev ?h (as @ d # bs)" "\<forall>a \<in> set (as @ d # bs). 0 < lev ?h a \<and> lev ?h a \<le> kMaxLevel"
    "sorted_wrt (\<lambda>a b. klt (akey ?h a) (akey ?h b)) (as @ d # bs)"
    using rep by (simp_all add: sk_rep_def)
  have ml: "maxlev ?h ns \<le> kMaxLevel" if "set ns \<subseteq> set (as @ d # bs)" for ns using that r(7) by (induction ns) auto
  have n: "?n \<le> lev ?h ?hd" "lev ?h d \<le> ?n" using ml [of "as @ d # bs"] r(3,6) by auto
  have bs: "\<forall>b \<in> set bs. akey ?h b \<noteq> skey sc dat"
    using r(8) key klt_irrefl [of "skey sc dat"] unfolding sorted_wrt_append by (metis list.set_intros(1) sorted_wrt.simps(2))
  obtain h1 where h1: "unlink_levels ?h sc dat d ?n (map (\<lambda>l. last_high ?h l ?hd as) [0..<?n]) = Inr h1" "same_fields ?h h1"
    "linked h1 (?hd # as @ bs)" "\<And>j. next_of h1 j d = next_of ?h j d"
    using remove_heap [OF _ _ _ key bs n, of as] r(1,2,4) by auto
  define h2 where "h2 = (if bs = [] then h1 else upd_prev h1 (hd bs) (Some (last ?xs)))"
  have s1: "lev h1 a = lev ?h a" "akey h1 a = akey ?h a" "entry h1 a = entry ?h a" "prev_of h1 a = prev_of ?h a" "h1 a = None \<longleftrightarrow> ?h a = None" for a
    using h1(2) by (simp_all add: same_fields_def)
  have hdb: "?h (hd bs) \<noteq> None" if "bs \<noteq> []" using that r(2) by (cases bs) auto
  have s2: "lev h2 a = lev ?h a" "akey h2 a = akey ?h a" "entry h2 a = entry ?h a" "h2 a = None \<longleftrightarrow> ?h a = None" "next_of h2 j a = next_of h1 j a"
    "prev_of h2 a = (if bs \<noteq> [] \<and> a = hd bs then Some (last ?xs) else prev_of ?h a)" for a j
    using s1 hdb by (auto simp: h2_def)
  obtain dn where dn: "h1 d = Some dn" using r(2) s1(5) [of d] by auto
  have d0: "nd_nexts dn ! 0 = (if bs = [] then None else Some (hd bs))"
  proof -
    have "nd_nexts dn ! 0 = next_of ?h 0 d" using h1(4) [of 0] dn by (simp add: next_of_def)
    also have "\<dots> = List.find (higher ?h 0) bs" by (rule linked_at [OF r(4)]) (use r(7) in simp)
    also have "\<dots> = (if bs = [] then None else Some (hd bs))" using r(7) by (cases bs) auto
    finally show ?thesis .
  qed
  have ld: "level dn = lev ?h d" using s1(1) [of d] dn by (simp add: lev_def)
  have l2: "linked h2 (?hd # as @ bs)" by (rule linked_cong [OF h1(3)]) (simp_all add: s1(1) s2(1,5))
  have m2: "maxlev h2 ns = maxlev ?h ns" for ns by (rule maxlev_cong) (rule s2(1))
  have low: "(if level dn = ?n then lower_level h2 ?hd ?n else Inr (?n, False)) = Inr (maxlev ?h (as @ bs), as @ bs = [])"
    using lowered_level [OF l2, of ?n "level dn"] r(6,7) n(1) by (auto simp: m2 s2(1) ld)
  have wp: "(case nd_nexts dn ! 0 of None \<Rightarrow> Inr h1 | Some a \<Rightarrow> write_prev h1 a (Some (last ?xs))) = Inr h2"
    using hdb s1(5) by (auto simp: d0 h2_def write_prev_ok)
  have run: "remove_node s sc dat (last ?xs) d (map (\<lambda>l. last_high ?h l ?hd as) [0..<?n]) =
      Inr (s\<lparr>sk_heap := h2(d := None), cur_max_level := maxlev ?h (as @ bs), sk_count := sk_count s - 1\<rparr>, as @ bs = [])"
    unfolding remove_node_def h1(1) try_sum_simps dn option.case wp low by simp
  have same: "(h2(d := None)) a = h2 a" if "a \<in> set (?hd # as @ bs)" for a using that r(1) by auto
  note f = other_fields [of "h2(d := None)" _ h2, OF same]
  have "linked (h2(d := None)) (?hd # as @ bs)" by (rule linked_cong [OF l2]) (use f in simp_all)
  moreover have "dom (h2(d := None)) = dom ?h - {d}" using dom_same [of h2 ?h, OF s2(4)] by simp
  ultimately have "removed_from s as d bs (h2(d := None))" unfolding removed_from_def using f s2(1-3,6) by simp
  then show ?thesis using run by blast
qed

lemma remove_rep:
  assumes "sk_rep s (as @ d # bs)" "akey (sk_heap s) d = skey sc dat"
  shows "\<exists>s'. remove_node s sc dat (last (sk_head s # as)) d (map (\<lambda>l. last_high (sk_heap s) l (sk_head s) as) [0..<cur_max_level s]) =
      Inr (s', as @ bs = []) \<and> sk_rep s' (as @ bs) \<and> map (entry (sk_heap s')) (as @ bs) = map (entry (sk_heap s)) (as @ bs)"
proof -
  obtain h where "remove_node s sc dat (last (sk_head s # as)) d (map (\<lambda>l. last_high (sk_heap s) l (sk_head s) as) [0..<cur_max_level s]) =
      Inr (s\<lparr>sk_heap := h, cur_max_level := maxlev (sk_heap s) (as @ bs), sk_count := sk_count s - 1\<rparr>, as @ bs = [])"
    "removed_from s as d bs h"
    using remove_run [OF assms] by blast
  then show ?thesis using removed_rep [OF assms(1)] by (intro exI conjI) auto
qed

section \<open>The specification\<close>

text \<open>An ordered list without repetition; a fault or a loop without end is \<open>None\<close>.\<close>

definition key_of :: "int \<times> string \<Rightarrow> skkey" where
  "key_of e = skey (fst e) (snd e)"

datatype sk_op = SkInsert "nat \<Rightarrow> bool" int string | SkContains int string | SkRemove int string | SkClear

fun sk_step :: "skiplist \<Rightarrow> sk_op \<Rightarrow> skiplist \<times> bool option" where
  "sk_step s (SkInsert coin sc dat) = (case Skiplist_Insert coin s sc dat of Some (Inr (s', b)) \<Rightarrow> (s', Some b) | _ \<Rightarrow> (s, None))"
| "sk_step s (SkContains sc dat) = (case Skiplist_Contains s sc dat of Some (Inr b) \<Rightarrow> (s, Some b) | _ \<Rightarrow> (s, None))"
| "sk_step s (SkRemove sc dat) = (case Skiplist_Remove s sc dat of Some (Inr (s', b, u)) \<Rightarrow> (s', Some b) | _ \<Rightarrow> (s, None))"
| "sk_step s SkClear = (case Skiplist_Clear s of Some (Inr s') \<Rightarrow> (s', Some True) | _ \<Rightarrow> (s, None))"

fun sk_spec :: "(int \<times> string) list \<Rightarrow> sk_op \<Rightarrow> (int \<times> string) list \<times> bool option" where
  "sk_spec es (SkInsert coin sc dat) =
     (if \<exists>e \<in> set es. key_of e = skey sc dat then (es, Some False)
      else (takeWhile (\<lambda>e. klt (key_of e) (skey sc dat)) es @ (sc, dat) # dropWhile (\<lambda>e. klt (key_of e) (skey sc dat)) es, Some True))"
| "sk_spec es (SkContains sc dat) = (es, Some (\<exists>e \<in> set es. key_of e = skey sc dat))"
| "sk_spec es (SkRemove sc dat) = (filter (\<lambda>e. key_of e \<noteq> skey sc dat) es, Some (\<exists>e \<in> set es. key_of e = skey sc dat))"
| "sk_spec es SkClear = ([], Some True)"

lemma key_of_entry: "key_of (entry h a) = akey h a"
  by (simp add: key_of_def akey_entry)

lemma gen_level_bounds: "lv \<le> kMaxLevel \<Longrightarrow> lv \<le> gen_level coin lv \<and> gen_level coin lv \<le> kMaxLevel"
proof (induction coin lv rule: gen_level.induct)
  case (1 coin lv)
  then show ?case by (subst (1 2) gen_level.simps) auto
qed

lemma GenRandomLevel_bounds: "0 < GenRandomLevel coin" "GenRandomLevel coin \<le> kMaxLevel"
  using gen_level_bounds [of 1 coin] by (simp_all add: GenRandomLevel_def)

lemma first_node:
  assumes "sk_rep s ns"
  shows "read_next (sk_heap s) (sk_head s) 0 = Inr (if ns = [] then None else Some (hd ns))"
proof -
  have "next_of (sk_heap s) 0 (sk_head s) = List.find (higher (sk_heap s) 0) ns" using assms by (simp add: sk_rep_def)
  also have "\<dots> = (if ns = [] then None else Some (hd ns))" using assms by (cases ns) (simp_all add: sk_rep_def)
  finally show ?thesis using assms by (simp add: read_next_ok sk_rep_def)
qed

text \<open>A represented list split at a key: the node behind the split compares equal exactly when the key is in the list.\<close>

lemma rep_split:
  assumes "sk_rep s ns"
  obtains as bs where "ns = as @ bs" "\<forall>a \<in> set as. klt (akey (sk_heap s) a) k" "\<forall>b \<in> set bs. \<not> klt (akey (sk_heap s) b) k"
    "takeWhile (\<lambda>e. klt (key_of e) k) (map (entry (sk_heap s)) ns) = map (entry (sk_heap s)) as"
    "dropWhile (\<lambda>e. klt (key_of e) k) (map (entry (sk_heap s)) ns) = map (entry (sk_heap s)) bs"
    "(\<exists>e \<in> set (map (entry (sk_heap s)) ns). key_of e = k) \<longleftrightarrow> bs \<noteq> [] \<and> akey (sk_heap s) (hd bs) = k"
    "\<forall>b \<in> set (tl bs). akey (sk_heap s) b \<noteq> k" "\<forall>a \<in> set as. akey (sk_heap s) a \<noteq> k"
proof -
  let ?h = "sk_heap s"
  have "sorted_wrt (\<lambda>a b. klt (akey ?h a) (akey ?h b)) ns" using assms by (simp add: sk_rep_def)
  from sorted_split [OF this] obtain as bs where *: "ns = as @ bs" "\<forall>a \<in> set as. klt (akey ?h a) k" "\<forall>b \<in> set bs. \<not> klt (akey ?h b) k"
    "as = takeWhile (\<lambda>a. klt (akey ?h a) k) ns" "bs = dropWhile (\<lambda>a. klt (akey ?h a) k) ns"
    "\<forall>b \<in> set (tl bs). akey ?h b \<noteq> k" "\<forall>a \<in> set as. akey ?h a \<noteq> k" .
  have "(\<exists>e \<in> set (map (entry ?h) ns). key_of e = k) \<longleftrightarrow> (\<exists>a \<in> set bs. akey ?h a = k)"
    using *(1,7) by (auto simp: key_of_entry bex_Un)
  also have "\<dots> \<longleftrightarrow> bs \<noteq> [] \<and> akey ?h (hd bs) = k" using *(6) by (cases bs) auto
  finally show ?thesis using that [OF *(1-3)] *(4-7) by (simp add: takeWhile_map dropWhile_map comp_def key_of_entry)
qed

lemma levels_pos:
  assumes "sk_rep s ns" "ns \<noteq> []"
  shows "0 < cur_max_level s" "cur_max_level s \<le> kMaxLevel"
proof -
  have l: "\<forall>a \<in> set ns. 0 < lev (sk_heap s) a \<and> lev (sk_heap s) a \<le> kMaxLevel" "cur_max_level s = maxlev (sk_heap s) ns"
    using assms(1) by (simp_all add: sk_rep_def)
  show "0 < cur_max_level s" using l maxlev_0 [of ns "sk_heap s"] assms(2) by auto
  have "maxlev (sk_heap s) ms \<le> kMaxLevel" if "set ms \<subseteq> set ns" for ms using that l(1) by (induction ms) auto
  then show "cur_max_level s \<le> kMaxLevel" using l(2) by auto
qed

section \<open>The operations refine the specification\<close>

lemma Insert_first:
  assumes "sk_rep s []"
  shows "Skiplist_Insert coin s sc dat = Some (try_sum (insert_node s sc dat 1 (sk_head s) [sk_head s] None) (\<lambda>s'. Inr (s', True)))"
proof -
  let ?h = "sk_heap s" and ?hd = "sk_head s" and ?new = "sk_brk s"
  obtain n where n: "?h ?hd = Some n" "?hd \<noteq> ?new" "level n = kMaxLevel" using assms by (auto simp: sk_rep_def lev_def)
  have "next_of ?h 0 ?hd = None" "cur_max_level s = 0" using assms by (simp_all add: sk_rep_def)
  then have "nd_nexts n ! 0 = None" using n(1) by (simp add: next_of_def)
  then show ?thesis
    using n first_node [OF assms] \<open>cur_max_level s = 0\<close>
    by (simp add: Skiplist_Insert_def insert_node_def Let_def SKNode_def read_next_def write_next_def write_prev_def fun_upd_twist)
qed

lemma Insert_correct:
  assumes "sk_rep s ns"
  shows "\<exists>s' b. Skiplist_Insert coin s sc dat = Some (Inr (s', b)) \<and> sk_inv s' \<and>
    sk_spec (map (entry (sk_heap s)) ns) (SkInsert coin sc dat) = (sk_abs s', Some b)"
proof -
  let ?h = "sk_heap s" and ?k = "skey sc dat"
  obtain as bs where *: "ns = as @ bs" "\<forall>a \<in> set as. klt (akey ?h a) ?k" "\<forall>b \<in> set bs. \<not> klt (akey ?h b) ?k"
    "takeWhile (\<lambda>e. klt (key_of e) ?k) (map (entry ?h) ns) = map (entry ?h) as"
    "dropWhile (\<lambda>e. klt (key_of e) ?k) (map (entry ?h) ns) = map (entry ?h) bs"
    "(\<exists>e \<in> set (map (entry ?h) ns). key_of e = ?k) \<longleftrightarrow> bs \<noteq> [] \<and> akey ?h (hd bs) = ?k"
    "\<forall>b \<in> set (tl bs). akey ?h b \<noteq> ?k" "\<forall>a \<in> set as. akey ?h a \<noteq> ?k"
    using rep_split [OF assms] .
  have rep: "sk_rep s (as @ bs)" using assms *(1) by simp
  have ex: "\<forall>b \<in> set bs. ?h b \<noteq> None" using rep by (simp add: sk_rep_def)
  define lv where "lv = (if ns = [] then 1 else GenRandomLevel coin)"
  have lv: "0 < lv" "lv \<le> kMaxLevel" using GenRandomLevel_bounds by (simp_all add: lv_def)
  note found = find_rep [OF rep *(2,3) lv]
  show ?thesis
  proof (cases "bs \<noteq> [] \<and> akey ?h (hd bs) = ?k")
    case True
    then have "ns \<noteq> []" "?h (hd bs) \<noteq> None" using *(1) ex by auto
    then have "Skiplist_Insert coin s sc dat = Some (Inr (s, False))"
      using first_node [OF assms] found True by (simp add: Skiplist_Insert_def lv_def same_node_ok)
    then show ?thesis using True *(6) sk_rep_inv [OF assms] by (intro exI [of _ s] exI [of _ False]) simp
  next
    case False
    have "\<forall>b \<in> set bs. akey ?h b \<noteq> ?k" using *(7) False by (cases bs) auto
    then have "\<forall>b \<in> set bs. klt ?k (akey ?h b)" using *(3) klt_linear by metis
    from insert_rep [OF rep lv *(2) this] obtain s' where
      s': "insert_node s sc dat lv (last (sk_head s # as)) (map (\<lambda>l. last_high ?h l (sk_head s) as) [0..<lv])
        (if bs = [] then None else Some (hd bs)) = Inr s'" "sk_rep s' (as @ sk_brk s # bs)"
      "map (entry (sk_heap s')) (as @ sk_brk s # bs) = map (entry ?h) as @ (sc, dat) # map (entry ?h) bs" by blast
    have run: "Skiplist_Insert coin s sc dat = Some (Inr (s', True))"
    proof (cases "ns = []")
      case True
      then show ?thesis using Insert_first [of s] assms s'(1) *(1) by (simp add: lv_def)
    next
      case ne: False
      have "same_node ?h sc dat (if bs = [] then None else Some (hd bs)) = Inr False"
        using False ex by (auto simp: same_node_ok same_node_def [of _ _ _ None])
      then show ?thesis using ne first_node [OF assms] found s'(1) by (simp add: Skiplist_Insert_def lv_def)
    qed
    moreover have "sk_spec (map (entry ?h) ns) (SkInsert coin sc dat) = (map (entry ?h) as @ (sc, dat) # map (entry ?h) bs, Some True)"
      using False *(4-6) by simp
    ultimately show ?thesis using sk_rep_inv [OF s'(2)] s'(3) by (intro exI [of _ s'] exI [of _ True] conjI) simp_all
  qed
qed

lemma Contains_correct:
  assumes "sk_rep s ns"
  shows "Skiplist_Contains s sc dat = Some (Inr (\<exists>e \<in> set (map (entry (sk_heap s)) ns). key_of e = skey sc dat))"
proof -
  let ?h = "sk_heap s" and ?k = "skey sc dat"
  obtain as bs where *: "ns = as @ bs" "\<forall>a \<in> set as. klt (akey ?h a) ?k" "\<forall>b \<in> set bs. \<not> klt (akey ?h b) ?k"
    "takeWhile (\<lambda>e. klt (key_of e) ?k) (map (entry ?h) ns) = map (entry ?h) as"
    "dropWhile (\<lambda>e. klt (key_of e) ?k) (map (entry ?h) ns) = map (entry ?h) bs"
    "(\<exists>e \<in> set (map (entry ?h) ns). key_of e = ?k) \<longleftrightarrow> bs \<noteq> [] \<and> akey ?h (hd bs) = ?k"
    "\<forall>b \<in> set (tl bs). akey ?h b \<noteq> ?k" "\<forall>a \<in> set as. akey ?h a \<noteq> ?k"
    using rep_split [OF assms] .
  show ?thesis
  proof (cases "ns = []")
    case True
    then show ?thesis using first_node [OF assms] by (simp add: Skiplist_Contains_def)
  next
    case False
    have rep: "sk_rep s (as @ bs)" using assms *(1) by simp
    have ex: "bs \<noteq> [] \<Longrightarrow> ?h (hd bs) \<noteq> None" using rep by (simp add: sk_rep_def)
    have "same_node ?h sc dat (if bs = [] then None else Some (hd bs)) = Inr (bs \<noteq> [] \<and> akey ?h (hd bs) = ?k)"
      using ex by (auto simp: same_node_ok same_node_def [of _ _ _ None])
    then show ?thesis using first_node [OF assms] False find_rep [OF rep *(2,3) levels_pos [OF assms False]] *(6)
      by (simp add: Skiplist_Contains_def Find_cur_rep)
  qed
qed

lemma Remove_correct:
  assumes "sk_rep s ns"
  shows "\<exists>s' b. Skiplist_Remove s sc dat = Some (Inr (s', b, b \<and> length ns = 1)) \<and> sk_inv s' \<and>
    sk_spec (map (entry (sk_heap s)) ns) (SkRemove sc dat) = (sk_abs s', Some b)"
proof -
  let ?h = "sk_heap s" and ?k = "skey sc dat"
  obtain as bs where *: "ns = as @ bs" "\<forall>a \<in> set as. klt (akey ?h a) ?k" "\<forall>b \<in> set bs. \<not> klt (akey ?h b) ?k"
    "takeWhile (\<lambda>e. klt (key_of e) ?k) (map (entry ?h) ns) = map (entry ?h) as"
    "dropWhile (\<lambda>e. klt (key_of e) ?k) (map (entry ?h) ns) = map (entry ?h) bs"
    "(\<exists>e \<in> set (map (entry ?h) ns). key_of e = ?k) \<longleftrightarrow> bs \<noteq> [] \<and> akey ?h (hd bs) = ?k"
    "\<forall>b \<in> set (tl bs). akey ?h b \<noteq> ?k" "\<forall>a \<in> set as. akey ?h a \<noteq> ?k"
    using rep_split [OF assms] .
  have rep: "sk_rep s (as @ bs)" using assms *(1) by simp
  have ex: "bs \<noteq> [] \<Longrightarrow> ?h (hd bs) \<noteq> None" using rep by (simp add: sk_rep_def)
  show ?thesis
  proof (cases "bs \<noteq> [] \<and> akey ?h (hd bs) = ?k")
    case False
    then have none: "\<forall>a \<in> set ns. akey ?h a \<noteq> ?k" using *(6) by (auto simp: key_of_entry)
    have "Skiplist_Remove s sc dat = Some (Inr (s, False, False))"
    proof (cases "ns = []")
      case True
      then show ?thesis using first_node [OF assms] by (simp add: Skiplist_Remove_def)
    next
      case ne: False
      show ?thesis using first_node [OF assms] ne False ex find_rep [OF rep *(2,3) levels_pos [OF assms ne]]
        by (auto simp: Skiplist_Remove_def same_node_ok)
    qed
    moreover have "filter (\<lambda>e. key_of e \<noteq> ?k) (map (entry ?h) ns) = map (entry ?h) ns"
      using none by (simp add: filter_map comp_def key_of_entry)
    ultimately show ?thesis using sk_rep_inv [OF assms] none by (auto simp: key_of_entry)
  next
    case True
    then obtain d cs where bs: "bs = d # cs" "akey ?h d = ?k" by (cases bs) auto
    have ne: "ns \<noteq> []" using *(1) bs by simp
    from remove_rep [OF rep [unfolded bs(1)] bs(2)] obtain s' where
      s': "remove_node s sc dat (last (sk_head s # as)) d (map (\<lambda>l. last_high ?h l (sk_head s) as) [0..<cur_max_level s]) = Inr (s', as @ cs = [])"
      "sk_rep s' (as @ cs)" "map (entry (sk_heap s')) (as @ cs) = map (entry ?h) (as @ cs)" by blast
    have len: "(as @ cs = []) = (length ns = 1)" using *(1) bs(1) by simp
    have "Skiplist_Remove s sc dat = Some (Inr (s', True, length ns = 1))"
      using first_node [OF assms] ne ex bs s'(1) find_rep [OF rep *(2,3) levels_pos [OF assms ne]]
      unfolding len by (simp add: Skiplist_Remove_def same_node_ok)
    moreover have "filter (\<lambda>e. key_of e \<noteq> ?k) (map (entry ?h) ns) = map (entry ?h) (as @ cs)"
      using *(1,7,8) bs by (simp add: filter_map comp_def key_of_entry)
    ultimately show ?thesis using sk_rep_inv [OF s'(2)] s'(3) True *(6) by (intro exI [of _ s'] exI [of _ True]) simp
  qed
qed

lemma gather_linked:
  assumes "linked h (a # ns)" "\<forall>x \<in> set (a # ns). 0 < lev h x"
  shows "gather h (Some a) nodes = Some (Inr (nodes @ a # ns))"
  using assms
proof (induction ns arbitrary: a nodes)
  case Nil
  then show ?case by (subst gather.simps) (simp add: read_next_ok gather.simps)
next
  case (Cons b ns)
  then have "gather h (Some b) (nodes @ [a]) = Some (Inr ((nodes @ [a]) @ b # ns))" by simp
  then show ?case using Cons.prems by (subst gather.simps) (simp add: read_next_ok)
qed

lemma Gather_correct:
  assumes "sk_rep s ns"
  shows "GatherAllNodes s True = Some (Inr (sk_head s # ns))" "GatherAllNodes s False = Some (Inr ns)"
proof -
  let ?h = "sk_heap s"
  have l: "linked ?h (sk_head s # ns)" "\<forall>x \<in> set (sk_head s # ns). 0 < lev ?h x" using assms by (simp_all add: sk_rep_def)
  show "GatherAllNodes s True = Some (Inr (sk_head s # ns))" using gather_linked [OF l, of "[]"] by (simp add: GatherAllNodes_def)
  show "GatherAllNodes s False = Some (Inr ns)"
  proof (cases ns)
    case Nil
    then show ?thesis using first_node [OF assms] by (simp add: GatherAllNodes_def gather.simps)
  next
    case (Cons a as)
    then have "gather ?h (Some a) [] = Some (Inr ns)" using gather_linked [of ?h a as "[]"] l by simp
    then show ?thesis using first_node [OF assms] Cons by (simp add: GatherAllNodes_def)
  qed
qed

lemma Skiplist_Clear_correct:
  assumes "sk_rep s ns"
  shows "\<exists>s'. Skiplist_Clear s = Some (Inr s') \<and> sk_rep s' []"
proof (cases "ns = []")
  case True
  then show ?thesis using assms by (intro exI [of _ s]) (simp add: Skiplist_Clear_def sk_rep_def)
next
  case False
  obtain n where n: "sk_heap s (sk_head s) = Some n" "sk_head s < sk_brk s" "sk_head s \<notin> set ns" using assms by (auto simp: sk_rep_def)
  define h where "h = ((sk_heap s) |` (- set ns))(sk_head s \<mapsto> n\<lparr>nd_nexts := replicate kMaxLevel None\<rparr>)"
  have "lev h (sk_head s) = kMaxLevel" "\<And>l. l < kMaxLevel \<Longrightarrow> next_of h l (sk_head s) = None" "h (sk_head s) \<noteq> None"
    unfolding h_def lev_def next_of_def by simp_all
  moreover have "dom h = {sk_head s}" using assms by (auto simp: h_def sk_rep_def)
  ultimately have "sk_rep (s\<lparr>sk_heap := h, cur_max_level := 0, sk_count := 0\<rparr>) []" using n(2) by (simp add: sk_rep_def)
  moreover have "Skiplist_Clear s = Some (Inr (s\<lparr>sk_heap := h, cur_max_level := 0, sk_count := 0\<rparr>))"
    using Gather_correct(2) [OF assms] n(1) False assms by (simp add: Skiplist_Clear_def sk_rep_def h_def)
  ultimately show ?thesis by auto
qed

lemma run_right_result:
  assumes "linked h (us @ cur # as)" "l < lev h cur"
  shows "run_right h l cur = Some (Inr (last_high h l cur as))"
  using assms
proof (induction "length as" arbitrary: us cur as rule: less_induct)
  case less
  have nx: "read_next h cur l = Inr (List.find (higher h l) as)" using read_next_ok [OF less.prems(2)] linked_at [OF less.prems] by simp
  show ?case
  proof (cases "List.find (higher h l) as")
    case None
    then show ?thesis using nx find_filter [of "higher h l" as] by (subst run_right.simps) simp
  next
    case (Some y)
    obtain v1 v2 where as: "as = v1 @ y # v2" "l < lev h y" "filter (higher h l) v1 = []" using find_splits [OF Some] .
    have "run_right h l y = Some (Inr (last_high h l y v2))" by (rule less.hyps [of _ "us @ cur # v1"]) (use less.prems as in auto)
    then show ?thesis using nx Some as by (subst run_right.simps) simp
  qed
qed

lemma last_down_result:
  assumes "linked h (us @ cur # as)" "n \<le> lev h cur" "0 < n" "\<forall>a \<in> set as. 0 < lev h a"
  shows "last_down h n cur = Some (Inr (last (cur # as)))"
  using assms
proof (induction n arbitrary: us cur as)
  case (Suc n)
  define c where "c = last_high h n cur as"
  have rr: "run_right h n cur = Some (Inr c)" unfolding c_def by (rule run_right_result [OF Suc.prems(1)]) (use Suc.prems(2) in simp)
  obtain us' as' where c: "us @ cur # as = us' @ c # as'" "n < lev h c" "last (cur # as) = last (c # as')" "set as' \<subseteq> set as"
  proof (cases "filter (higher h n) as = []")
    case True
    then show ?thesis using that [of us as] Suc.prems(2) by (simp add: c_def)
  next
    case False
    from last_filter_splits [OF False] obtain v1 v2 where "as = v1 @ c # v2" "n < lev h c" using False unfolding c_def by (metis last_ConsR)
    then show ?thesis using that [of "us @ cur # v1" v2] by auto
  qed
  show ?case
  proof (cases "n = 0")
    case True
    have "filter (higher h 0) as = as" using Suc.prems(4) by simp
    then show ?thesis using rr True by (simp add: c_def)
  next
    case False
    then have "last_down h n c = Some (Inr (last (c # as')))"
      by (intro Suc.IH [of us']) (use Suc.prems c in auto)
    then show ?thesis using rr c(3) by simp
  qed
qed simp

lemma End_correct:
  assumes "sk_rep s ns"
  shows "Skiplist_End s = Some (Inr (if ns = [] then None else Some (last ns)))"
proof -
  have "last_down (sk_heap s) kMaxLevel (sk_head s) = Some (Inr (last (sk_head s # ns)))"
    by (rule last_down_result [of _ "[]"]) (use assms in \<open>auto simp: sk_rep_def\<close>)
  then show ?thesis using first_node [OF assms] by (simp add: Skiplist_End_def)
qed

lemma sk_step_correct:
  assumes "sk_inv s" "sk_step s c = (s', r)"
  shows "sk_inv s' \<and> sk_spec (sk_abs s) c = (sk_abs s', r)"
proof -
  have rep: "sk_rep s (sk_nodes s)" using assms(1) by (simp add: sk_inv_def)
  have abs: "sk_abs s = map (entry (sk_heap s)) (sk_nodes s)" by (simp add: sk_abs_def)
  show ?thesis
  proof (cases c)
    case (SkInsert coin sc dat)
    then show ?thesis using Insert_correct [OF rep, of coin sc dat] assms(2) unfolding abs by (auto simp del: sk_spec.simps)
  next
    case (SkContains sc dat)
    then show ?thesis using Contains_correct [OF rep, of sc dat] assms abs by auto
  next
    case (SkRemove sc dat)
    then show ?thesis using Remove_correct [OF rep, of sc dat] assms(2) unfolding abs by (auto simp del: sk_spec.simps)
  next
    case SkClear
    then show ?thesis using Skiplist_Clear_correct [OF rep] sk_rep_inv assms(2) by fastforce
  qed
qed

interpretation sk_calls: call_refinement sk_abs sk_inv "\<lambda>es c. True" sk_step sk_spec
  by unfold_locales (use sk_step_correct in blast)+

lemma sk_rep_new: "sk_rep Skiplist_new []"
  by (simp add: sk_rep_def Skiplist_new_def lev_def SKNode_def next_of_def)

lemma sk_spec_reply: "snd (sk_spec es c) \<noteq> None"
  by (cases c) auto

lemma sk_spec_replies: "None \<notin> set (snd (run_calls sk_spec es cs))"
proof (induction cs arbitrary: es)
  case (Cons c cs)
  then show ?case using sk_spec_reply [of es c] by (auto split: prod.splits) (metis snd_conv)
qed simp

lemma sk_abs_sorted:
  assumes "sk_inv s"
  shows "sorted_wrt (\<lambda>x y. klt (key_of x) (key_of y)) (sk_abs s)" "sk_count s = length (sk_abs s)"
  using assms by (simp_all add: sk_inv_def sk_rep_def sk_abs_def sorted_wrt_map key_of_entry)

section \<open>Properties\<close>




end
