(* ===== verification/Persistence.thy ===== *)
theory Persistence
  imports CommandsProps
begin

text \<open>
  \<open>src/src/persistence.h\<close> and \<open>src/src/persistence.cpp\<close>: the append-only log file;
  \<open>RemoveRedundancy\<close> is in the theory \<open>Redundancy\<close>.

  \<open>AppendableFile\<close> collects commands in \<open>cur_caches_\<close>; a worker thread writes \<open>backup_caches_\<close> to
  the file. The two pointers are the two lists, so that swapping the pointers swaps the lists.
  The worker holds the mutex while it flushes and wakes at any time (after its interval or a
  notification), so its wake-ups are steps of their own and \<open>notify_one\<close> changes nothing here; the
  calls are atomic steps and every order of them is covered. The file is the string of its bytes; whether
  \<open>OpenLocationFile\<close> succeeds is an argument of each flush.
\<close>

section \<open>The two caches\<close>

record aof =
  cache_max_size :: nat
  cur_caches :: "command_cache list"
  backup_caches :: "command_cache list"
  fs_bytes :: string
  auto_flush :: bool

definition AppendableFile_new :: "string \<Rightarrow> nat \<Rightarrow> bool \<Rightarrow> aof" where
  "AppendableFile_new content cache_size auto =
     \<lparr>cache_max_size = cache_size, cur_caches = [], backup_caches = [], fs_bytes = content, auto_flush = auto\<rparr>"

definition Switch :: "aof \<Rightarrow> aof" where
  "Switch a = a\<lparr>cur_caches := backup_caches a, backup_caches := cur_caches a\<rparr>"

definition AppendableFile_Append :: "command_cache \<Rightarrow> aof \<Rightarrow> aof" where
  "AppendableFile_Append cache a =
     (let a1 = (if length (cur_caches a) \<ge> cache_max_size a then Switch a else a)
      in a1\<lparr>cur_caches := cur_caches a1 @ [cache]\<rparr>)"

definition Flush :: "bool \<Rightarrow> aof \<Rightarrow> aof" where
  "Flush opened a =
     (if backup_caches a = [] \<and> cur_caches a = [] then a
      else let a1 = (if backup_caches a = [] then Switch a else a)
           in if opened
              then a1\<lparr>fs_bytes := fs_bytes a1 @ concat (map ToProtocolString (backup_caches a1)), backup_caches := []\<rparr>
              else a1)"

definition SetAutoFlush :: "bool \<Rightarrow> aof \<Rightarrow> aof" where
  "SetAutoFlush on a = a\<lparr>auto_flush := on\<rparr>"

text \<open>
  The destructor: the worker, which waits or flushes, ends after its last flush, then what is
  in \<open>cur_caches_\<close> is flushed.
\<close>

definition AppendableFile_close :: "bool \<Rightarrow> bool \<Rightarrow> aof \<Rightarrow> aof" where
  "AppendableFile_close opened1 opened2 a =
     (let a1 = Flush opened1 (SetAutoFlush True a); a2 = Flush opened2 (Switch a1)
      in a2\<lparr>cur_caches := [], backup_caches := []\<rparr>)"

text \<open>The steps of the two threads, in any order.\<close>

datatype aof_event = EvAppend command_cache | EvWorker bool | EvAutoFlush bool

fun aof_step :: "aof_event \<Rightarrow> aof \<Rightarrow> aof" where
  "aof_step (EvAppend c) a = AppendableFile_Append c a"
| "aof_step (EvWorker opened) a = Flush opened a"
| "aof_step (EvAutoFlush on) a = SetAutoFlush on a"

fun appended :: "aof_event list \<Rightarrow> command_cache list" where
  "appended [] = []"
| "appended (EvAppend c # evs) = c # appended evs"
| "appended (_ # evs) = appended evs"

text \<open>The worker keeps up: no append meets two full caches.\<close>

fun keeps_up :: "aof_event list \<Rightarrow> aof \<Rightarrow> bool" where
  "keeps_up [] a \<longleftrightarrow> True"
| "keeps_up (EvAppend c # evs) a \<longleftrightarrow>
     (length (cur_caches a) \<ge> cache_max_size a \<longrightarrow> backup_caches a = []) \<and> keeps_up evs (aof_step (EvAppend c) a)"
| "keeps_up (ev # evs) a \<longleftrightarrow> keeps_up evs (aof_step ev a)"

section \<open>Reading the file\<close>

fun file_chunks :: "nat \<Rightarrow> string \<Rightarrow> string list" where
  "file_chunks n s = (if n = 0 \<or> s = [] then [] else take n s # file_chunks n (drop n s))"

declare file_chunks.simps [simp del]

text \<open>The loop \<open>while (TryParseFromBuffer(buffer, cache, err))\<close>, with the commands it hands to the callback.\<close>

function parse_all :: "buffer \<Rightarrow> command_cache \<Rightarrow> bool \<Rightarrow> (buffer \<times> command_cache \<times> string list list) option" where
  "parse_all b cache err =
     (case TryParseFromBuffer b cache err of
        None \<Rightarrow> None
      | Some (b', cache', err', ok) \<Rightarrow>
          if ok
          then (case parse_all b' (CommandCache_Clear cache') err' of
                  None \<Rightarrow> None
                | Some (b'', cache'', cmds) \<Rightarrow> Some (b'', cache'', argv cache' # cmds))
          else Some (b', cache', []))"
  by auto
termination by (relation "measure (\<lambda>(b, c, e). ReadableBytes b)") (auto dest: parse_success_consumes)

declare parse_all.simps [simp del]

fun read_chunks :: "string list \<Rightarrow> buffer \<Rightarrow> command_cache \<Rightarrow> (buffer \<times> command_cache \<times> string list list) option" where
  "read_chunks [] b cache = Some (b, cache, [])"
| "read_chunks (ch # chs) b cache =
     (case parse_all (Buffer_Append b ch) cache False of
        None \<Rightarrow> None
      | Some (b1, cache1, cmds1) \<Rightarrow>
          (case read_chunks chs b1 cache1 of
             None \<Rightarrow> None
           | Some (b2, cache2, cmds2) \<Rightarrow> Some (b2, cache2, cmds1 @ cmds2)))"

abbreviation (input) RESTORE_AOF_READ_BUF_SIZE :: nat where "RESTORE_AOF_READ_BUF_SIZE \<equiv> 65536"

text \<open>
  The commands handed to the callback, in order; \<open>None\<close> when the parser reads outside its buffer. \<open>err\<close> of
  the second loop is not initialized: it is an argument.
\<close>

definition CommonOperation :: "bool \<Rightarrow> string \<Rightarrow> string list list option" where
  "CommonOperation err file =
     (case read_chunks (file_chunks RESTORE_AOF_READ_BUF_SIZE file) (Buffer_new 64) CommandCache_new of
        None \<Rightarrow> None
      | Some (b, cache, cmds) \<Rightarrow>
          if ReadableBytes b > 0
          then map_option (\<lambda>(b', cache', cmds'). cmds @ cmds') (parse_all b cache err)
          else Some cmds)"

definition ReadFromScratch_commands :: "bool \<Rightarrow> string \<Rightarrow> string list list option" where
  "ReadFromScratch_commands err file = CommonOperation err file"

text \<open>
  Restoring runs every command without synchronization. Each command has its own context: the clock and
  the memory at that moment.
\<close>

fun handle_all :: "'g ctx list \<Rightarrow> string list list \<Rightarrow> 'g db \<Rightarrow> (dl_error + 'g db) option" where
  "handle_all (c # cs) (cmd # cmds) db =
     (case HandleCommand (c\<lparr>c_sync := False\<rparr>) db cmd of
        None \<Rightarrow> None
      | Some (Inl e) \<Rightarrow> Some (Inl e)
      | Some (Inr (db', msg)) \<Rightarrow> handle_all cs cmds db')"
| "handle_all _ _ db = Some (Inr db)"

definition ReadFromScratch :: "'g ctx list \<Rightarrow> bool \<Rightarrow> string \<Rightarrow> 'g db \<Rightarrow> (dl_error + 'g db) option" where
  "ReadFromScratch cs err file db =
     (case CommonOperation err file of
        None \<Rightarrow> Some (Inl OutOfBounds)
      | Some cmds \<Rightarrow> handle_all cs cmds db)"

section \<open>Nothing is lost\<close>

lemma Flush_cases:
  obtains (quiet) "Flush opened a = a" "backup_caches a = []" "cur_caches a = []"
  | (written) out where "opened" "fs_bytes (Flush opened a) = fs_bytes a @ concat (map ToProtocolString out)"
      "backup_caches a @ cur_caches a = out @ cur_caches (Flush opened a)" "backup_caches (Flush opened a) = []"
  | (failed) "\<not> opened" "fs_bytes (Flush opened a) = fs_bytes a"
      "backup_caches a @ cur_caches a = backup_caches (Flush opened a) @ cur_caches (Flush opened a)"
proof (cases "backup_caches a = []")
  case True
  show ?thesis
  proof (cases "cur_caches a = []")
    case False
    show ?thesis
    proof (cases opened)
      assume o: opened
      show ?thesis by (rule written [of "cur_caches a"]) (use o True False in \<open>simp_all add: Flush_def Switch_def\<close>)
    next
      assume o: "\<not> opened"
      show ?thesis by (rule failed) (use o True False in \<open>simp_all add: Flush_def Switch_def\<close>)
    qed
  qed (use True in \<open>simp add: quiet Flush_def\<close>)
next
  case False
  show ?thesis
  proof (cases opened)
    assume o: opened
    show ?thesis by (rule written [of "backup_caches a"]) (use o False in \<open>simp_all add: Flush_def\<close>)
  next
    assume o: "\<not> opened"
    show ?thesis by (rule failed) (use o False in \<open>simp_all add: Flush_def\<close>)
  qed
qed

lemma Flush_written:
  obtains out where "fs_bytes (Flush opened a) = fs_bytes a @ concat (map ToProtocolString out)"
    "backup_caches a @ cur_caches a = out @ backup_caches (Flush opened a) @ cur_caches (Flush opened a)"
  by (cases rule: Flush_cases [of opened a]) (use that in force)+

lemma aof_step_kept:
  obtains out where "fs_bytes (aof_step ev a) = fs_bytes a @ concat (map ToProtocolString out)"
    "mset out + mset (backup_caches (aof_step ev a)) + mset (cur_caches (aof_step ev a)) =
     mset (backup_caches a) + mset (cur_caches a) + mset (appended [ev])"
    "keeps_up [ev] a \<longrightarrow> out @ backup_caches (aof_step ev a) @ cur_caches (aof_step ev a) =
       backup_caches a @ cur_caches a @ appended [ev]"
proof (cases ev)
  case (EvAppend c)
  show ?thesis
    by (rule that [of "[]"]) (simp_all add: EvAppend AppendableFile_Append_def Switch_def Let_def split: if_splits)
next
  case (EvWorker opened)
  obtain out where "fs_bytes (Flush opened a) = fs_bytes a @ concat (map ToProtocolString out)"
    "backup_caches a @ cur_caches a = out @ backup_caches (Flush opened a) @ cur_caches (Flush opened a)"
    by (rule Flush_written)
  then show ?thesis using that [of out] EvWorker by simp (metis mset_append union_assoc)
next
  case (EvAutoFlush on)
  show ?thesis by (rule that [of "[]"]) (simp_all add: EvAutoFlush SetAutoFlush_def)
qed

lemma keeps_up_Cons: "keeps_up (ev # evs) a \<longleftrightarrow> keeps_up [ev] a \<and> keeps_up evs (aof_step ev a)"
  by (cases ev) auto

lemma appended_Cons: "appended (ev # evs) = appended [ev] @ appended evs"
  by (cases ev) auto

lemma aof_run_kept:
  obtains out where "fs_bytes (fold aof_step evs a) = fs_bytes a @ concat (map ToProtocolString out)"
    "mset out + mset (backup_caches (fold aof_step evs a)) + mset (cur_caches (fold aof_step evs a)) =
     mset (backup_caches a) + mset (cur_caches a) + mset (appended evs)"
    "keeps_up evs a \<longrightarrow> out @ backup_caches (fold aof_step evs a) @ cur_caches (fold aof_step evs a) =
       backup_caches a @ cur_caches a @ appended evs"
proof -
  let ?P = "\<lambda>evs a out. fs_bytes (fold aof_step evs a) = fs_bytes a @ concat (map ToProtocolString out) \<and>
    mset out + mset (backup_caches (fold aof_step evs a)) + mset (cur_caches (fold aof_step evs a)) =
      mset (backup_caches a) + mset (cur_caches a) + mset (appended evs) \<and>
    (keeps_up evs a \<longrightarrow> out @ backup_caches (fold aof_step evs a) @ cur_caches (fold aof_step evs a) =
       backup_caches a @ cur_caches a @ appended evs)"
  have "\<exists>out. ?P evs a out"
  proof (induction evs arbitrary: a)
    case Nil
    show ?case by (rule exI [of _ "[]"]) simp
  next
    case (Cons ev evs)
    obtain o1 where 1: "fs_bytes (aof_step ev a) = fs_bytes a @ concat (map ToProtocolString o1)"
      "mset o1 + mset (backup_caches (aof_step ev a)) + mset (cur_caches (aof_step ev a)) =
       mset (backup_caches a) + mset (cur_caches a) + mset (appended [ev])"
      "keeps_up [ev] a \<longrightarrow> o1 @ backup_caches (aof_step ev a) @ cur_caches (aof_step ev a) =
         backup_caches a @ cur_caches a @ appended [ev]"
      using aof_step_kept [of ev a] .
    obtain o2 where 2: "?P evs (aof_step ev a) o2" using Cons.IH by blast
    have "?P (ev # evs) a (o1 @ o2)"
    proof (intro conjI impI)
      show "fs_bytes (fold aof_step (ev # evs) a) = fs_bytes a @ concat (map ToProtocolString (o1 @ o2))"
        using 1(1) 2 by simp
      show "mset (o1 @ o2) + mset (backup_caches (fold aof_step (ev # evs) a)) + mset (cur_caches (fold aof_step (ev # evs) a)) =
          mset (backup_caches a) + mset (cur_caches a) + mset (appended (ev # evs))"
        using 1(2) 2 unfolding appended_Cons [of ev evs] by (simp add: ac_simps)
      assume "keeps_up (ev # evs) a"
      then have k: "keeps_up [ev] a" "keeps_up evs (aof_step ev a)" using keeps_up_Cons by blast+
      have "(o1 @ o2) @ backup_caches (fold aof_step (ev # evs) a) @ cur_caches (fold aof_step (ev # evs) a) =
          o1 @ backup_caches (aof_step ev a) @ cur_caches (aof_step ev a) @ appended evs" using 2 k(2) by simp
      also have "\<dots> = (backup_caches a @ cur_caches a @ appended [ev]) @ appended evs" using 1(3) k(1) by (metis append_assoc)
      also have "\<dots> = backup_caches a @ cur_caches a @ appended (ev # evs)" using appended_Cons [of ev evs] by simp
      finally show "(o1 @ o2) @ backup_caches (fold aof_step (ev # evs) a) @ cur_caches (fold aof_step (ev # evs) a) =
          backup_caches a @ cur_caches a @ appended (ev # evs)" .
    qed
    then show ?case by blast
  qed
  then show thesis using that by blast
qed

lemma close_kept:
  obtains out where "fs_bytes (AppendableFile_close True True a) = fs_bytes a @ concat (map ToProtocolString out)"
    "out = backup_caches a @ cur_caches a"
proof -
  define a1 where "a1 = Flush True (SetAutoFlush True a)"
  have same: "fs_bytes (SetAutoFlush True a) = fs_bytes a" "backup_caches (SetAutoFlush True a) = backup_caches a"
    "cur_caches (SetAutoFlush True a) = cur_caches a" by (simp_all add: SetAutoFlush_def)
  obtain o1 where 1: "fs_bytes a1 = fs_bytes a @ concat (map ToProtocolString o1)"
    "backup_caches a @ cur_caches a = o1 @ cur_caches a1" "backup_caches a1 = []"
    using Flush_cases [of True "SetAutoFlush True a"] same unfolding a1_def by (metis append_Nil append_Nil2 concat.simps(1) list.simps(8))
  have "fs_bytes (Flush True (Switch a1)) = fs_bytes a1 @ concat (map ToProtocolString (cur_caches a1))"
    using 1(3) by (simp add: Flush_def Switch_def)
  then show thesis using that [of "o1 @ cur_caches a1"] 1 by (simp add: AppendableFile_close_def a1_def Let_def)
qed

section \<open>Reading back\<close>

lemma parse_all_requests:
  assumes "buf_inv b" "readable b = concat (map request cmds)" "argv c = []"
    "\<forall>args \<in> set cmds. length args < 2 ^ 63 \<and> (\<forall>a \<in> set args. length a < 2 ^ 63)"
  shows "\<exists>b' c'. parse_all b c err = Some (b', c', cmds) \<and> buf_inv b' \<and> readable b' = []"
  using assms
proof (induction cmds arbitrary: b c)
  case Nil
  then show ?case by (simp add: parse_all.simps TryParseFromBuffer_def ReadableBytes_length)
next
  case (Cons args cmds)
  let ?b = "ReaderIdxForward b (length (request args))"
  let ?c = "c\<lparr>argc := of_nat (length args), argv := args, cc_inited := True\<rparr>"
  have p: "TryParseFromBuffer b c err = Some (?b, ?c, err, True)"
    using Cons.prems by (intro TryParse_complete [where rest = "concat (map request cmds)"]) auto
  have "readable ?b = concat (map request cmds)" "buf_inv ?b" using Cons.prems by (simp_all add: forward_correct)
  then obtain b' c' where "parse_all ?b (CommandCache_Clear ?c) err = Some (b', c', cmds)" "buf_inv b'" "readable b' = []"
    using Cons.IH [of ?b "CommandCache_Clear ?c"] Cons.prems by (auto simp: CommandCache_Clear_def)
  then show ?case using p by (simp add: parse_all.simps [of b])
qed

definition small_commands :: "string list list \<Rightarrow> bool" where
  "small_commands cmds \<longleftrightarrow> length (concat (map request cmds)) \<le> RESTORE_AOF_READ_BUF_SIZE"

lemma length_item: "length a < length (item_protocol a)"
  by (simp add: item_protocol_eq)

lemma length_request: "length args < length (request args)" "a \<in> set args \<Longrightarrow> length a < length (request args)"
proof -
  have l: "length args \<le> length (concat (map item_protocol args))"
    by (induction args) (use length_item in \<open>auto simp: item_protocol_eq\<close>)
  then show "length args < length (request args)" by (simp add: request_def)
  have "length a \<le> length (concat (map item_protocol args))" if "a \<in> set args"
    using that by (induction args) (use length_item in \<open>auto simp: item_protocol_eq\<close>)
  then show "length a < length (request args)" if "a \<in> set args" using that by (simp add: request_def less_Suc_eq_le le_SucI trans_le_add2)
qed

lemma request_le: "args \<in> set cmds \<Longrightarrow> length (request args) \<le> length (concat (map request cmds))"
  by (induction cmds) auto

lemma CommonOperation_small:
  assumes "small_commands cmds"
  shows "CommonOperation err (concat (map request cmds)) = Some cmds"
proof (cases cmds)
  case Nil
  then show ?thesis by (simp add: CommonOperation_def file_chunks.simps ReadableBytes_def Buffer_new_def)
next
  case (Cons c cs)
  let ?s = "concat (map request cmds)"
  have ne: "?s \<noteq> []" using Cons by (simp add: request_def)
  have len: "\<forall>args \<in> set cmds. length args < 2 ^ 63 \<and> (\<forall>a \<in> set args. length a < 2 ^ 63)"
  proof (intro ballI conjI)
    fix args assume a: "args \<in> set cmds"
    have r: "length (request args) \<le> 65536" using request_le [OF a] assms by (simp add: small_commands_def)
    show "length args < 2 ^ 63" using length_request(1) [of args] r by simp
    show "length x < 2 ^ 63" if "x \<in> set args" for x using length_request(2) [OF that] r by simp
  qed
  have ch: "file_chunks 65536 ?s = [?s]"
    using assms ne by (simp add: small_commands_def file_chunks.simps [of 65536 ?s] file_chunks.simps [of 65536 "[]"])
  have b: "buf_inv (Buffer_Append (Buffer_new 64) ?s)" "readable (Buffer_Append (Buffer_new 64) ?s) = ?s"
    using append_correct [of "Buffer_new 64" ?s] by (simp_all add: buf_inv_new)
  obtain b' c' where p: "parse_all (Buffer_Append (Buffer_new 64) ?s) CommandCache_new False = Some (b', c', cmds)"
    "buf_inv b'" "readable b' = []"
    using parse_all_requests [OF b(1,2) _ len, of CommandCache_new False] by (auto simp: CommandCache_new_def)
  then show ?thesis by (simp add: CommonOperation_def ch ReadableBytes_length)
qed

text \<open>What the program logs: the command with its arguments counted.\<close>

definition cache_of :: "string list \<Rightarrow> command_cache" where
  "cache_of args = \<lparr>cc_inited = True, argc = of_nat (length args), argv = args\<rparr>"

lemma ToProtocolString_cache_of: "length args < 2 ^ 64 \<Longrightarrow> ToProtocolString (cache_of args) = request args"
  by (simp add: ToProtocolString_request cache_of_def)

lemma handle_all_run:
  assumes "kv_inv (db_kv db)" "calls_ok cmd_call_ok cmd_spec_step (db_abs db) (zip (map (\<lambda>c. c\<lparr>c_sync := False\<rparr>) cs) cmds)"
    and "length cs = length cmds"
  shows "handle_all cs cmds db = Some (Inr (fst (run_calls cmd_step db (zip (map (\<lambda>c. c\<lparr>c_sync := False\<rparr>) cs) cmds))))"
  using assms
proof (induction cs cmds db rule: handle_all.induct)
  case (1 c cs cmd cmds db)
  let ?c = "c\<lparr>c_sync := False\<rparr>"
  obtain db1 r where st: "cmd_step db (?c, cmd) = (db1, r)" by (cases "cmd_step db (?c, cmd)")
  have ok: "cmd_call_ok (db_abs db) (?c, cmd)" using "1.prems" by simp
  note sp = cmd_step_spec [OF "1.prems"(1) ok st]
  have "r \<noteq> None" using cmd_spec_step_reply [OF sp(2)] .
  then obtain msg where h: "HandleCommand ?c db cmd = Some (Inr (db1, msg))"
    using st by (auto simp: cmd_step_def split: option.splits sum.splits)
  have ok1: "calls_ok cmd_call_ok cmd_spec_step (db_abs db1) (zip (map (\<lambda>c. c\<lparr>c_sync := False\<rparr>) cs) cmds)"
    using "1.prems"(2) sp(2) by simp
  have "handle_all cs cmds db1 = Some (Inr (fst (run_calls cmd_step db1 (zip (map (\<lambda>c. c\<lparr>c_sync := False\<rparr>) cs) cmds))))"
    using "1.IH" [OF h refl refl sp(1) ok1] "1.prems"(3) by simp
  then show ?case using h st by (simp add: split_beta)
qed auto

text \<open>The bytes of a log that fits one block are read back as the commands of the log.\<close>

lemma read_log_file:
  assumes "small_commands cmds"
  shows "CommonOperation err (concat (map (\<lambda>cmd. ToProtocolString (cache_of cmd)) cmds)) = Some cmds"
proof -
  have "length cmd < 2 ^ 64" if "cmd \<in> set cmds" for cmd
    using length_request(1) [of cmd] request_le [OF that] assms by (simp add: small_commands_def)
  then have bytes: "map (\<lambda>cmd. ToProtocolString (cache_of cmd)) cmds = map request cmds"
    using ToProtocolString_cache_of by simp
  show ?thesis unfolding bytes by (rule CommonOperation_small [OF assms])
qed

lemma unsynced_log:
  "\<forall>q \<in> set qs. \<not> c_sync (fst q) \<Longrightarrow> run_calls cmd_spec_step (m, l) qs = ((m', l'), rs) \<Longrightarrow> l' = l"
  by (induction qs arbitrary: m rs) (auto simp: cmd_spec_step_def split: prod.splits)

lemma ReadFromScratch_log:
  assumes "covered Map.empty cmds m" "small_commands cmds" "db_kv dbr = KVContainer_new"
    and "length cs = length cmds" "\<forall>c \<in> set cs. \<not> c_evict c"
  shows "\<exists>db'. ReadFromScratch cs err (concat (map (\<lambda>cmd. ToProtocolString (cache_of cmd)) cmds)) dbr = Some (Inr db') \<and>
    kv_inv (db_kv db') \<and> kv_abs (db_kv db') = m \<and> db' = dbr\<lparr>db_kv := db_kv db'\<rparr>"
proof -
  let ?cs = "map (\<lambda>c. c\<lparr>c_sync := False\<rparr>) cs"
  have cs: "length ?cs = length cmds" "\<forall>c \<in> set ?cs. \<not> c_evict c" using assms(4,5) by auto
  have sync: "\<forall>q \<in> set (zip ?cs cmds). \<not> c_sync (fst q)" by (auto dest!: set_zip_leftD)
  have d: "db_abs dbr = (Map.empty, db_log dbr)" "kv_inv (db_kv dbr)" using assms(3) kv_inv_new by (simp_all add: db_abs_def)
  note run = covered_run [OF assms(1) cs, of "db_log dbr", folded d(1)]
  obtain db' rs where r: "run_calls cmd_step dbr (zip ?cs cmds) = (db', rs)" by (cases "run_calls cmd_step dbr (zip ?cs cmds)")
  note ref = server_calls.run_refines [OF d(2) run [THEN conjunct1] r]
  have abs: "kv_inv (db_kv db')" "kv_abs (db_kv db') = m" using ref run [THEN conjunct2] by (auto simp: db_abs_def)
  have "db_log db' = db_log dbr" using unsynced_log [OF sync] ref unfolding d(1) by (auto simp: db_abs_def)
  then have "db' = dbr\<lparr>db_kv := db_kv db'\<rparr>" using run_frame [OF d(2) run [THEN conjunct1] r] by simp
  moreover have "ReadFromScratch cs err (concat (map (\<lambda>cmd. ToProtocolString (cache_of cmd)) cmds)) dbr = Some (Inr db')"
    using handle_all_run [OF d(2) run [THEN conjunct1] assms(4)] r by (simp add: ReadFromScratch_def read_log_file [OF assms(2)])
  ultimately show ?thesis using abs by blast
qed

text \<open>What the destructor leaves in the file when the worker keeps up.\<close>

lemma log_file_in_order:
  assumes "keeps_up evs (AppendableFile_new file cache_size auto)"
  shows "fs_bytes (AppendableFile_close True True (fold aof_step evs (AppendableFile_new file cache_size auto))) =
    file @ concat (map ToProtocolString (appended evs))"
proof -
  let ?a = "AppendableFile_new file cache_size auto"
  obtain o1 where 1: "fs_bytes (fold aof_step evs ?a) = fs_bytes ?a @ concat (map ToProtocolString o1)"
    "keeps_up evs ?a \<longrightarrow> o1 @ backup_caches (fold aof_step evs ?a) @ cur_caches (fold aof_step evs ?a) =
       backup_caches ?a @ cur_caches ?a @ appended evs"
    using aof_run_kept .
  obtain o2 where 2: "fs_bytes (AppendableFile_close True True (fold aof_step evs ?a)) =
      fs_bytes (fold aof_step evs ?a) @ concat (map ToProtocolString o2)"
    "o2 = backup_caches (fold aof_step evs ?a) @ cur_caches (fold aof_step evs ?a)"
    using close_kept .
  have "o1 @ o2 = appended evs" using 1(2) 2(2) assms by (simp add: AppendableFile_new_def)
  then show ?thesis using 1(1) 2(1) by (simp add: AppendableFile_new_def flip: concat_append map_append)
qed

section \<open>Properties\<close>



text \<open>
  The order of the log is not kept when the worker does not keep up. With a cache of one
  command, three appends without a flush between them are written in the order second, first, third: \<open>Switch\<close>
  makes the older backup the current cache again.
\<close>

theorem log_file_reordered:
  "fs_bytes (AppendableFile_close True True (fold aof_step
      [EvAppend c1, EvAppend c2, EvAppend c3, EvWorker True] (AppendableFile_new [] 1 auto))) =
    ToProtocolString c2 @ ToProtocolString c1 @ ToProtocolString c3"
  by (simp add: AppendableFile_new_def AppendableFile_Append_def Flush_def Switch_def AppendableFile_close_def
      SetAutoFlush_def Let_def)

text \<open>
  Restarting restores the database. Take a server that starts empty and runs any synchronized
  commands (none of which pops an empty string) whose log fits one block of the reader (65536
  bytes), and write the log as \<open>AppendableFile\<close> does. \<open>ReadFromScratch\<close> of another empty server, at
  any other time, reads exactly these commands, runs them without a fault and ends with the same map from keys to values.
\<close>

theorem restart_restores:
  assumes "db_kv db0 = KVContainer_new" "db_log db0 = Some []"
    and "calls_ok replayable_call cmd_spec_step (Map.empty, Some []) qs"
    and "run_calls cmd_step db0 qs = (db, rs)" "db_log db = Some cmds"
    and "small_commands cmds" "file = concat (map (\<lambda>cmd. ToProtocolString (cache_of cmd)) cmds)"
    and "db_kv dbr = KVContainer_new" "length cs = length cmds" "\<forall>c \<in> set cs. \<not> c_evict c"
  shows "CommonOperation err file = Some cmds \<and>
    (\<exists>db'. ReadFromScratch cs err file dbr = Some (Inr db') \<and> kv_inv (db_kv db') \<and> kv_abs (db_kv db') = kv_abs (db_kv db))"
proof -
  have "covered Map.empty cmds (kv_abs (db_kv db))" by (rule log_covered [OF assms(1-5)])
  from ReadFromScratch_log [OF this assms(6,8-10), of err] show ?thesis
    unfolding assms(7) using read_log_file [OF assms(6)] by blast
qed

theorem restart_restores_witness:
  "\<exists>db rs cmds db'. run_calls cmd_step sample_db sample_requests = (db, rs) \<and> db_log db = Some cmds \<and>
     ReadFromScratch (replicate 4 (sample_ctx 9)) False (concat (map (\<lambda>cmd. ToProtocolString (cache_of cmd)) cmds)) sample_db =
       Some (Inr db') \<and>
     kv_abs (db_kv db') = [''n'' \<mapsto> AInt 42, ''l'' \<mapsto> AList [''a'']]"
proof -
  let ?cmds = "[[''set'', ''n'', ''41''], [''incr'', ''n''], [''lpush'', ''l'', ''a'', ''b''], [''lpop'', ''l'']]"
  obtain db rs where run: "run_calls cmd_step sample_db sample_requests = (db, rs)"
    by (cases "run_calls cmd_step sample_db sample_requests")
  from server_calls.run_refines [OF sample_inv_abs(1) sample_call_ok run] sample_run
  have db: "kv_abs (db_kv db) = [''n'' \<mapsto> AInt 42, ''l'' \<mapsto> AList [''a'']]" "db_log db = Some ?cmds"
    unfolding sample_inv_abs(2) by (auto simp: db_abs_def)
  have start: "db_kv sample_db = KVContainer_new" "db_log sample_db = Some []" by (simp_all add: sample_db_def)
  have cs: "length (replicate 4 (sample_ctx 9)) = length ?cmds" "\<forall>c \<in> set (replicate 4 (sample_ctx 9)). \<not> c_evict c"
    by (simp_all add: sample_ctx_def)
  have small: "small_commands ?cmds"
    by (simp add: small_commands_def request_def item_protocol_eq to_string_nat.simps)
  from restart_restores [OF start sample_ok run db(2) small refl start(1) cs, of False]
  show ?thesis using run db by auto
qed

end
