(* ===== verification/Config.thy ===== *)
theory Config
  imports Str Complex_Main "HOL-Library.AList"
begin

text \<open>
  \<open>src/src/config.h\<close> and \<open>src/src/config.cpp\<close>: the configuration file and the settings of the server.

  The bytes of the file, \<open>None\<close> when it cannot be opened, are an argument, as are the order in which the
  \<open>std::unordered_map\<close> of the settings is walked and \<open>std::stod\<close>, which gives a \<open>double\<close> or throws
  (\<open>None\<close>). A \<open>double\<close> is a rational number, an infinity or not a number. Messages to the
  console are left out.
\<close>

section \<open>Settings\<close>

datatype dbl = Fin rat | PosInf | NegInf | NaN

text \<open>\<open>0.9f\<close> is the number of type \<open>float\<close> next to nine tenths.\<close>

definition CONFIG_DEFAULT_LRU_TRIGGER_RATIO :: dbl where
  "CONFIG_DEFAULT_LRU_TRIGGER_RATIO = Fin (15099494 / 2 ^ 24)"

record config =
  cf_ip :: string
  cf_port :: int
  cf_appendonly_enabled :: bool
  cf_dumpfile :: string
  cf_dump_cachesize :: int
  cf_dump_flush_interval :: u64
  cf_lkvdb_dumpfile :: string
  cf_lru_enabled :: bool
  cf_lru_trigger_ratio :: dbl
  cf_max_memory_limit :: u64
  cf_keepalive_interval :: int
  cf_keepalive_cnt :: int

definition Config_default :: config where
  "Config_default =
     \<lparr>cf_ip = ''127.0.0.1'', cf_port = 9527, cf_appendonly_enabled = False, cf_dumpfile = ''dump.aof'',
      cf_dump_cachesize = 1024, cf_dump_flush_interval = 90, cf_lkvdb_dumpfile = ''dump.lkvdb'', cf_lru_enabled = False,
      cf_lru_trigger_ratio = CONFIG_DEFAULT_LRU_TRIGGER_RATIO, cf_max_memory_limit = 2048,
      cf_keepalive_interval = 100, cf_keepalive_cnt = 3\<rparr>"

section \<open>Values\<close>

text \<open>The pieces \<open>std::getline\<close> finds; a delimiter at the end opens no further piece.\<close>

fun split_on :: "char \<Rightarrow> string \<Rightarrow> string list" where
  "split_on d [] = [[]]"
| "split_on d (c # cs) =
     (if c = d then [] # split_on d cs else case split_on d cs of [] \<Rightarrow> [[c]] | l # ls \<Rightarrow> (c # l) # ls)"

definition getline_pieces :: "char \<Rightarrow> string \<Rightarrow> string list" where
  "getline_pieces d s = (let ps = split_on d s in if last ps = [] then butlast ps else ps)"

text \<open>The counter is a \<open>char\<close>.\<close>

fun count_octets :: "string list \<Rightarrow> 8 word \<Rightarrow> 8 word" where
  "count_octets [] cnt = cnt"
| "count_octets (p # ps) cnt =
     (case CanConvertToInt32 p of
        None \<Rightarrow> cnt
      | Some val \<Rightarrow> if 0 > val \<or> val > 255 then cnt else count_octets ps (cnt + 1))"

definition ValidateIpv4 :: "string \<Rightarrow> bool" where
  "ValidateIpv4 ip \<longleftrightarrow> count_octets (getline_pieces CHR ''.'' ip) 0 = 4"

definition CanConvertToDouble :: "(string \<Rightarrow> dbl option) \<Rightarrow> string \<Rightarrow> dbl option" where
  "CanConvertToDouble stod str = (if str = [] then None else stod str)"

fun dbl_less :: "dbl \<Rightarrow> dbl \<Rightarrow> bool" where
  "dbl_less (Fin a) (Fin b) \<longleftrightarrow> a < b"
| "dbl_less NegInf b \<longleftrightarrow> b = PosInf \<or> (\<exists>x. b = Fin x)"
| "dbl_less (Fin a) b \<longleftrightarrow> b = PosInf"
| "dbl_less _ _ \<longleftrightarrow> False"

definition dbl_leq :: "dbl \<Rightarrow> dbl \<Rightarrow> bool" where
  "dbl_leq a b \<longleftrightarrow> dbl_less a b \<or> a = b \<and> a \<noteq> NaN"

definition lru_ratio :: "dbl option \<Rightarrow> dbl" where
  "lru_ratio r =
     (let f = (case r of None \<Rightarrow> CONFIG_DEFAULT_LRU_TRIGGER_RATIO | Some v \<Rightarrow> v)
      in if dbl_leq f (Fin 0) \<or> dbl_less (Fin 1) f
         then let f1 = (if dbl_less (Fin 0) f then f else Fin 0); f2 = (if dbl_less f1 (Fin 1) then f1 else Fin 1)
              in if f2 = Fin 0 then CONFIG_DEFAULT_LRU_TRIGGER_RATIO else f2
         else f)"

definition int_or :: "int \<Rightarrow> string \<Rightarrow> int" where
  "int_or dflt value = (case CanConvertToInt32 value of None \<Rightarrow> dflt | Some v \<Rightarrow> v)"

definition in_interval :: "int \<Rightarrow> int \<Rightarrow> int \<Rightarrow> int \<Rightarrow> int" where
  "in_interval lo hi dflt v = (if v < lo \<or> v > hi then dflt else v)"

section \<open>Init\<close>

definition Init_item :: "(string \<Rightarrow> dbl option) \<Rightarrow> string \<times> string \<Rightarrow> config \<Rightarrow> std_exception + config" where
  "Init_item stod kv c =
     (case kv of (key, value) \<Rightarrow>
        if key = [] \<or> hd key = CHR ''#'' then Inr c
        else if key = ''ip'' then Inr (if \<not> ValidateIpv4 value then c else c\<lparr>cf_ip := value\<rparr>)
        else if key = ''port'' then Inr (c\<lparr>cf_port := int_or 9527 value\<rparr>)
        else if key = ''appendonly'' then Inr (c\<lparr>cf_appendonly_enabled := int_or 0 value \<noteq> 0\<rparr>)
        else if key = ''dumpfile'' then Inr (c\<lparr>cf_dumpfile := value\<rparr>)
        else if key = ''dump-cachesize'' then Inr (c\<lparr>cf_dump_cachesize := int_or 1024 value\<rparr>)
        else if key = ''dump-flush-interval''
        then Inr (c\<lparr>cf_dump_flush_interval := (case CanConvertToUInt64 value of None \<Rightarrow> 90 | Some v \<Rightarrow> v)\<rparr>)
        else if key = ''lkvdb-dumpfile'' then Inr (c\<lparr>cf_lkvdb_dumpfile := value\<rparr>)
        else if key = ''lru-enable'' then Inr (c\<lparr>cf_lru_enabled := int_or 0 value \<noteq> 0\<rparr>)
        else if key = ''lru-trigger-ratio'' then Inr (c\<lparr>cf_lru_trigger_ratio := lru_ratio (CanConvertToDouble stod value)\<rparr>)
        else if key = ''max-memory-limit''
        then (case std_stoll value of Inl ex \<Rightarrow> Inl ex | Inr num \<Rightarrow> Inr (c\<lparr>cf_max_memory_limit := word_of_int num\<rparr>))
        else if key = ''keepalive-interval'' then Inr (c\<lparr>cf_keepalive_interval := in_interval 30 100 100 (int_or 100 value)\<rparr>)
        else if key = ''keepalive-cnt'' then Inr (c\<lparr>cf_keepalive_cnt := in_interval 1 15 3 (int_or 3 value)\<rparr>)
        else Inr c)"

fun Init :: "(string \<Rightarrow> dbl option) \<Rightarrow> (string \<times> string) list \<Rightarrow> config \<Rightarrow> std_exception + config" where
  "Init stod [] c = Inr c"
| "Init stod (kv # kvs) c = (case Init_item stod kv c of Inl ex \<Rightarrow> Inl ex | Inr c' \<Rightarrow> Init stod kvs c')"

section \<open>Reading the file\<close>

text \<open>
  The local variables of the constructor. One \<open>std::stringstream\<close> serves all lines: \<open>clear\<close> resets its
  state and not its contents, so what a line leaves unread is still there when the next line is
  appended. An extraction that finds no token leaves its variable as it was.
\<close>

record reader =
  rd_unread :: string
  rd_first :: string
  rd_second :: string
  rd_configs :: "(string \<times> string) list"

definition read_token :: "string \<Rightarrow> (string \<times> string) option" where
  "read_token s =
     (let t = dropWhile is_space s
      in if t = [] then None else Some (takeWhile (\<lambda>c. \<not> is_space c) t, dropWhile (\<lambda>c. \<not> is_space c) t))"

definition config_line :: "string \<Rightarrow> reader \<Rightarrow> reader" where
  "config_line line st =
     (if line = [] \<or> hd line = CHR ''#'' then st
      else let unread = rd_unread st @ line;
               (first, unread1, good) = (case read_token unread of None \<Rightarrow> (rd_first st, [], False) | Some (t, r) \<Rightarrow> (t, r, True))
           in if first = [] then st\<lparr>rd_unread := unread1, rd_first := first\<rparr>
              else let (second, unread2) = (case (if good then read_token unread1 else None) of
                                              None \<Rightarrow> (rd_second st, []) | Some (t, r) \<Rightarrow> (t, r))
                   in if second = [] then st\<lparr>rd_unread := unread2, rd_first := first\<rparr>
                      else let first' = map c_tolower first; second' = map c_tolower second
                           in \<lparr>rd_unread = unread2, rd_first = first', rd_second = second',
                               rd_configs = AList.update first' second' (rd_configs st)\<rparr>)"

definition Config_new ::
  "((string \<times> string) list \<Rightarrow> (string \<times> string) list) \<Rightarrow> (string \<Rightarrow> dbl option) \<Rightarrow> string option \<Rightarrow> std_exception + config" where
  "Config_new order stod content =
     (case content of
        None \<Rightarrow> Inr Config_default
      | Some s \<Rightarrow>
          let st = fold config_line (split_on CHR 0x0A s) \<lparr>rd_unread = [], rd_first = [], rd_second = [], rd_configs = []\<rparr>
          in Init stod (order (rd_configs st)) Config_default)"

section \<open>What the settings mean\<close>

text \<open>
  The configuration as a function of the map of settings, whatever order they are walked in:
  each setting decides its own field.
\<close>

definition given :: "(string \<rightharpoonup> string) \<Rightarrow> string \<Rightarrow> (string \<Rightarrow> 'a) \<Rightarrow> 'a \<Rightarrow> 'a" where
  "given m k f d = (case m k of None \<Rightarrow> d | Some v \<Rightarrow> f v)"

definition ip_or :: "string \<Rightarrow> string \<Rightarrow> string" where
  "ip_or dflt v = (if ValidateIpv4 v then v else dflt)"

definition config_over :: "(string \<Rightarrow> dbl option) \<Rightarrow> (string \<rightharpoonup> string) \<Rightarrow> config \<Rightarrow> std_exception + config" where
  "config_over stod m c =
     (case given m ''max-memory-limit'' std_stoll (Inr (uint (cf_max_memory_limit c))) of
        Inl ex \<Rightarrow> Inl ex
      | Inr num \<Rightarrow> Inr
          \<lparr>cf_ip = given m ''ip'' (ip_or (cf_ip c)) (cf_ip c),
           cf_port = given m ''port'' (int_or 9527) (cf_port c),
           cf_appendonly_enabled = given m ''appendonly'' (\<lambda>v. int_or 0 v \<noteq> 0) (cf_appendonly_enabled c),
           cf_dumpfile = given m ''dumpfile'' id (cf_dumpfile c),
           cf_dump_cachesize = given m ''dump-cachesize'' (int_or 1024) (cf_dump_cachesize c),
           cf_dump_flush_interval = given m ''dump-flush-interval''
             (\<lambda>v. case CanConvertToUInt64 v of None \<Rightarrow> 90 | Some n \<Rightarrow> n) (cf_dump_flush_interval c),
           cf_lkvdb_dumpfile = given m ''lkvdb-dumpfile'' id (cf_lkvdb_dumpfile c),
           cf_lru_enabled = given m ''lru-enable'' (\<lambda>v. int_or 0 v \<noteq> 0) (cf_lru_enabled c),
           cf_lru_trigger_ratio = given m ''lru-trigger-ratio'' (\<lambda>v. lru_ratio (CanConvertToDouble stod v)) (cf_lru_trigger_ratio c),
           cf_max_memory_limit = word_of_int num,
           cf_keepalive_interval = given m ''keepalive-interval'' (\<lambda>v. in_interval 30 100 100 (int_or 100 v)) (cf_keepalive_interval c),
           cf_keepalive_cnt = given m ''keepalive-cnt'' (\<lambda>v. in_interval 1 15 3 (int_or 3 v)) (cf_keepalive_cnt c)\<rparr>)"

lemma given_simps [simp]: "given Map.empty k f d = d" "given (m(k \<mapsto> v)) k f d = f v" "k' \<noteq> k \<Longrightarrow> given (m(k' \<mapsto> v)) k f d = given m k f d"
  by (simp_all add: given_def)

lemma given_absent: "m k = None \<Longrightarrow> given m k f d = d"
  by (simp add: given_def)

lemma config_over_empty: "config_over stod Map.empty c = Inr c"
  by (simp add: config_over_def)

abbreviation (input) config_keys :: "string set" where
  "config_keys \<equiv> {''ip'', ''port'', ''appendonly'', ''dumpfile'', ''dump-cachesize'', ''dump-flush-interval'', ''lkvdb-dumpfile'', ''lru-enable'',
     ''lru-trigger-ratio'', ''max-memory-limit'', ''keepalive-interval'', ''keepalive-cnt''}"

lemma config_over_item:
  assumes "m k = None"
  shows "config_over stod (m(k \<mapsto> v)) c = (case Init_item stod (k, v) c of Inl ex \<Rightarrow> Inl ex | Inr c' \<Rightarrow> config_over stod m c')"
proof (cases "k \<in> config_keys")
  case True
  then show ?thesis using assms by (elim insertE emptyE) (simp_all add: config_over_def Init_item_def ip_or_def given_absent split: sum.split)
next
  case False
  then have "Init_item stod (k, v) c = Inr c" by (simp add: Init_item_def)
  moreover have "config_over stod (m(k \<mapsto> v)) c = config_over stod m c" using False by (simp add: config_over_def split: sum.split)
  ultimately show ?thesis by simp
qed

lemma Init_settings: "distinct (map fst kvs) \<Longrightarrow> Init stod kvs c = config_over stod (map_of kvs) c"
proof (induction kvs arbitrary: c)
  case (Cons kv kvs)
  obtain k v where kv: "kv = (k, v)" by (cases kv)
  then have "map_of kvs k = None" using Cons.prems by (simp add: map_of_eq_None_iff)
  note item = config_over_item [of "map_of kvs" k, OF this]
  have "map_of (kv # kvs) = (map_of kvs)(k \<mapsto> v)" using kv by (auto simp: fun_eq_iff)
  then show ?case using Cons kv item by (simp only: Init.simps) (simp split: sum.split)
qed (simp add: config_over_empty)

section \<open>The documented syntax\<close>

text \<open>
  What a line of the file says when it follows the comments of \<open>src/conf/litekv.conf\<close>: nothing (empty
  or a comment), or a key and a value, separated and possibly followed by white space.
\<close>

fun says :: "string \<Rightarrow> (string \<times> string) option \<Rightarrow> bool" where
  "says line None \<longleftrightarrow> line = [] \<or> hd line = CHR ''#''"
| "says line (Some (k, v)) \<longleftrightarrow>
     (\<exists>sep trail. line = k @ sep @ v @ trail \<and> k \<noteq> [] \<and> v \<noteq> [] \<and> sep \<noteq> [] \<and> hd k \<noteq> CHR ''#'' \<and>
        list_all (\<lambda>c. \<not> is_space c) (k @ v) \<and> list_all is_space (sep @ trail))"

definition settings :: "(string \<times> string) option list \<Rightarrow> (string \<rightharpoonup> string)" where
  "settings items = fold (\<lambda>item m. case item of None \<Rightarrow> m | Some (k, v) \<Rightarrow> m(map c_tolower k \<mapsto> map c_tolower v)) items Map.empty"

lemma read_token_word:
  assumes "list_all is_space ws" "w \<noteq> []" "list_all (\<lambda>c. \<not> is_space c) w" "r = [] \<or> is_space (hd r)"
  shows "read_token (ws @ w @ r) = Some (w, r)"
proof -
  have w: "\<not> is_space (hd w)" "w = hd w # tl w" using assms(2,3) by (cases w; simp)+
  have d: "dropWhile is_space (ws @ w @ r) = w @ r"
    using assms(1) w by (subst w(2)) (simp add: dropWhile_append2 list_all_iff, metis append_Cons dropWhile.simps(2))
  have "takeWhile (\<lambda>c. \<not> is_space c) r = []" "dropWhile (\<lambda>c. \<not> is_space c) r = r" using assms(4) by (cases r; auto)+
  then have "takeWhile (\<lambda>c. \<not> is_space c) (w @ r) = w" "dropWhile (\<lambda>c. \<not> is_space c) (w @ r) = r"
    using assms(3) by (simp_all add: list_all_iff takeWhile_append2 dropWhile_append2)
  then show ?thesis using assms(2) unfolding read_token_def d by simp
qed

lemma config_line_says:
  assumes "says line item" "list_all is_space (rd_unread st)"
  shows "list_all is_space (rd_unread (config_line line st)) \<and>
    rd_configs (config_line line st) = (case item of None \<Rightarrow> rd_configs st | Some (k, v) \<Rightarrow> AList.update (map c_tolower k) (map c_tolower v) (rd_configs st))"
proof (cases item)
  case None
  then show ?thesis using assms by (simp add: config_line_def)
next
  case (Some kv)
  obtain k v where kv: "kv = (k, v)" by (cases kv)
  obtain sep trail where l: "line = k @ sep @ v @ trail" "k \<noteq> []" "v \<noteq> []" "sep \<noteq> []" "hd k \<noteq> CHR ''#''"
    "list_all (\<lambda>c. \<not> is_space c) k" "list_all (\<lambda>c. \<not> is_space c) v" "list_all is_space sep" "list_all is_space trail"
    using assms(1) Some kv by auto
  have "is_space (hd (sep @ v @ trail))" using l(4,8) by (cases sep) auto
  then have t1: "read_token (rd_unread st @ line) = Some (k, sep @ v @ trail)"
    unfolding l(1) by (intro read_token_word assms(2) l) simp
  have "trail = [] \<or> is_space (hd trail)" using l(9) by (cases trail) auto
  then have t2: "read_token (sep @ v @ trail) = Some (v, trail)" by (intro read_token_word l)
  have h: "line \<noteq> []" "hd line \<noteq> CHR ''#''" using l(1,2,5) by simp_all
  show ?thesis using h t1 t2 l(2,3,9) Some kv by (simp add: config_line_def Let_def)
qed

lemma config_lines_say:
  assumes "list_all2 says lines items" "list_all is_space (rd_unread st)"
  shows "map_of (rd_configs (fold config_line lines st)) =
    fold (\<lambda>item m. case item of None \<Rightarrow> m | Some (k, v) \<Rightarrow> m(map c_tolower k \<mapsto> map c_tolower v)) items (map_of (rd_configs st))"
  using assms
proof (induction arbitrary: st rule: list_all2_induct)
  case (Cons line lines item items)
  note l = config_line_says [OF Cons(1) Cons.prems]
  have "map_of (rd_configs (config_line line st)) =
      (case item of None \<Rightarrow> map_of (rd_configs st) | Some (k, v) \<Rightarrow> (map_of (rd_configs st))(map c_tolower k \<mapsto> map c_tolower v))"
    using l by (auto simp: update_conv' split: option.splits)
  then show ?case using Cons(3) l by simp
qed simp

lemma config_line_distinct: "distinct (map fst (rd_configs st)) \<Longrightarrow> distinct (map fst (rd_configs (config_line line st)))"
  by (auto simp: config_line_def Let_def distinct_update split: prod.splits)

lemma config_lines_distinct: "distinct (map fst (rd_configs st)) \<Longrightarrow> distinct (map fst (rd_configs (fold config_line lines st)))"
  by (induction lines arbitrary: st) (simp_all add: config_line_distinct)

lemma Config_new_settings:
  assumes "\<forall>xs. mset (order xs) = mset xs"
  obtains m where "Config_new order stod (Some s) = config_over stod m Config_default"
    "\<And>items. list_all2 says (split_on CHR 0x0A s) items \<Longrightarrow> m = settings items"
proof
  let ?st0 = "\<lparr>rd_unread = [], rd_first = [], rd_second = [], rd_configs = []\<rparr>"
  let ?kvs = "rd_configs (fold config_line (split_on CHR 0x0A s) ?st0)"
  have d: "distinct (map fst ?kvs)" by (rule config_lines_distinct) simp
  have m: "mset (order ?kvs) = mset ?kvs" using assms by blast
  have d2: "distinct (map fst (order ?kvs)) = distinct (map fst ?kvs)" by (rule mset_eq_imp_distinct_iff) (simp add: m)
  have "map_of (order ?kvs) = map_of ?kvs" using map_of_inject_set [of "order ?kvs" ?kvs] d d2 mset_eq_setD [OF m] by simp
  then show "Config_new order stod (Some s) = config_over stod (map_of ?kvs) Config_default"
    using Init_settings [of "order ?kvs"] d d2 by (simp add: Config_new_def Let_def)
  show "map_of ?kvs = settings items" if "list_all2 says (split_on CHR 0x0A s) items" for items
    using config_lines_say [OF that, of ?st0] by (simp add: settings_def)
qed

section \<open>Properties\<close>

definition config_in_range :: "config \<Rightarrow> bool" where
  "config_in_range c \<longleftrightarrow> ValidateIpv4 (cf_ip c) \<and> in_int32 (cf_port c) \<and> in_int32 (cf_dump_cachesize c) \<and>
     cf_keepalive_interval c \<in> {30..100} \<and> cf_keepalive_cnt c \<in> {1..15} \<and>
     (cf_lru_trigger_ratio c = NaN \<or> (\<exists>r. cf_lru_trigger_ratio c = Fin r \<and> 0 < r \<and> r \<le> 1))"

lemma default_ratio: obtains r where "CONFIG_DEFAULT_LRU_TRIGGER_RATIO = Fin r" "0 < r" "r < 1"
  by (rule that [of "15099494 / 2 ^ 24"]) (simp_all add: CONFIG_DEFAULT_LRU_TRIGGER_RATIO_def)

lemma lru_ratio_range: "lru_ratio x = NaN \<or> (\<exists>r. lru_ratio x = Fin r \<and> 0 < r \<and> r \<le> 1)"
proof -
  obtain d where d: "CONFIG_DEFAULT_LRU_TRIGGER_RATIO = Fin d" "0 < d" "d < 1" by (rule default_ratio)
  show ?thesis
  proof (cases x)
    case None
    then show ?thesis using d(2,3) by (simp add: lru_ratio_def dbl_leq_def Let_def d(1))
  next
    case (Some f)
    then show ?thesis using d(2,3) by (cases f) (auto simp: lru_ratio_def dbl_leq_def Let_def d(1))
  qed
qed

lemma int_or_range: "in_int32 d \<Longrightarrow> in_int32 (int_or d v)"
  by (auto simp: int_or_def CanConvertToInt32_iff split: option.splits)

lemma given_both: "P d \<Longrightarrow> (\<And>v. P (f v)) \<Longrightarrow> P (given m k f d)"
  by (simp add: given_def split: option.split)

lemma config_over_range:
  assumes "config_over stod m Config_default = Inr c"
  shows "config_in_range c"
  unfolding config_in_range_def
proof (intro conjI)
  have ip: "ValidateIpv4 ''127.0.0.1''" by code_simp
  obtain d where d: "CONFIG_DEFAULT_LRU_TRIGGER_RATIO = Fin d" "0 < d" "d < 1" by (rule default_ratio)
  note c = assms [unfolded config_over_def Config_default_def]
  have i: "in_int32 9527" "in_int32 1024" by (simp_all add: in_int32_def)
  have "cf_ip c = given m ''ip'' (ip_or ''127.0.0.1'') ''127.0.0.1''" using c by (auto split: sum.splits)
  then show "ValidateIpv4 (cf_ip c)" using ip by (simp add: ip_or_def given_def split: option.split)
  have "cf_port c = given m ''port'' (int_or 9527) 9527" "cf_dump_cachesize c = given m ''dump-cachesize'' (int_or 1024) 1024"
    using c by (auto split: sum.splits)
  then show "in_int32 (cf_port c)" "in_int32 (cf_dump_cachesize c)" using i by (simp_all add: given_def int_or_range split: option.split)
  have "cf_keepalive_interval c = given m ''keepalive-interval'' (\<lambda>v. in_interval 30 100 100 (int_or 100 v)) 100"
    "cf_keepalive_cnt c = given m ''keepalive-cnt'' (\<lambda>v. in_interval 1 15 3 (int_or 3 v)) 3"
    using c by (auto split: sum.splits)
  then show "cf_keepalive_interval c \<in> {30..100}" "cf_keepalive_cnt c \<in> {1..15}" by (simp_all add: in_interval_def given_def split: option.split)
  have ra: "cf_lru_trigger_ratio c = given m ''lru-trigger-ratio'' (\<lambda>v. lru_ratio (CanConvertToDouble stod v)) CONFIG_DEFAULT_LRU_TRIGGER_RATIO"
    using c by (auto split: sum.splits)
  show "cf_lru_trigger_ratio c = NaN \<or> (\<exists>r. cf_lru_trigger_ratio c = Fin r \<and> 0 < r \<and> r \<le> 1)"
    unfolding ra by (rule given_both) (use d lru_ratio_range in auto)
qed

text \<open>
  C19. The settings of a configuration file. When every line of the file is empty, a comment, or a key and a value
  separated by white space, the configuration is the one the last value of each key decides, with defaults for absent keys
  and for values that do not parse or are out of range, and the order in which the hash table of the settings is walked makes no difference.
  A memory limit that does not start with a number throws. Whatever the bytes of the file are, a
  configuration that is loaded has a valid address, a keep-alive interval from 30 to 100, a
  keep-alive count from 1 to 15, and a trigger ratio that is in \<open>(0, 1]\<close> or not a number.
\<close>

theorem config_settings:
  assumes "\<forall>xs. mset (order xs) = mset xs"
  shows "(\<forall>items. list_all2 says (split_on CHR 0x0A s) items \<longrightarrow>
      Config_new order stod (Some s) = config_over stod (settings items) Config_default) \<and>
    (\<forall>c. Config_new order stod (Some s) = Inr c \<longrightarrow> config_in_range c)"
proof -
  obtain m where m: "Config_new order stod (Some s) = config_over stod m Config_default"
    "\<And>items. list_all2 says (split_on CHR 0x0A s) items \<Longrightarrow> m = settings items"
    using Config_new_settings [OF assms] by blast
  show ?thesis using m config_over_range by metis
qed

theorem config_settings_witness:
  "Config_new rev (\<lambda>s. None) (Some (''# c'' @ [CHR 0x0A] @ ''PORT 80'' @ [CHR 0x0A] @ ''ip  1.2.3.x'')) =
     Inr (Config_default\<lparr>cf_port := 80\<rparr>)"
proof -
  let ?s = "''# c'' @ [CHR 0x0A] @ ''PORT 80'' @ [CHR 0x0A] @ ''ip  1.2.3.x''"
  let ?items = "[None, Some (''PORT'', ''80''), Some (''ip'', ''1.2.3.x'')]"
  have "split_on CHR 0x0A ?s = [''# c'', ''PORT 80'', ''ip  1.2.3.x'']" by simp
  moreover have "says ''PORT 80'' (Some (''PORT'', ''80''))"
    unfolding says.simps by (intro exI [of _ "'' ''"] exI [of _ "[]"]) (simp add: is_space_def)
  moreover have "says ''ip  1.2.3.x'' (Some (''ip'', ''1.2.3.x''))"
    unfolding says.simps by (intro exI [of _ "''  ''"] exI [of _ "[]"]) (simp add: is_space_def)
  ultimately have says: "list_all2 says (split_on CHR 0x0A ?s) ?items" by simp
  have lower: "map c_tolower ''PORT'' = ''port''" "map c_tolower ''80'' = ''80''" "map c_tolower ''ip'' = ''ip''" "map c_tolower ''1.2.3.x'' = ''1.2.3.x''"
    by code_simp+
  have "settings ?items = [''port'' \<mapsto> ''80'', ''ip'' \<mapsto> ''1.2.3.x'']"
    unfolding settings_def fold_simps option.case prod.case lower comp_def id_def by (rule refl)
  moreover have "int_or 9527 ''80'' = 80" "\<not> ValidateIpv4 ''1.2.3.x''" by code_simp+
  ultimately have over: "config_over (\<lambda>s. None) (settings ?items) Config_default = Inr (Config_default\<lparr>cf_port := 80\<rparr>)"
    by (simp add: config_over_def Config_default_def ip_or_def)
  have "\<forall>xs :: (string \<times> string) list. mset (rev xs) = mset xs" by simp
  from config_settings [OF this, THEN conjunct1, rule_format, OF says] show ?thesis using over by (rule trans)
qed

text \<open>
  Files outside the documented syntax: a third word of a line is glued to the next line, a key without a value takes
  the value of the line before, and an address may go on after four numbers.
\<close>

lemma config_undocumented:
  "Config_new id stod (Some (''port 1 x'' @ [CHR 0x0A] @ ''port 2'')) = Inr (Config_default\<lparr>cf_port := 1\<rparr>)"
  "Config_new id stod (Some (''port 1'' @ [CHR 0x0A] @ ''dump-cachesize'')) = Inr (Config_default\<lparr>cf_port := 1, cf_dump_cachesize := 1\<rparr>)"
  "ValidateIpv4 ''1.2.3.4.x''"
proof -
  let ?st0 = "\<lparr>rd_unread = [], rd_first = [], rd_second = [], rd_configs = []\<rparr>"
  have "fold config_line (split_on CHR 0x0A (''port 1 x'' @ [CHR 0x0A] @ ''port 2'')) ?st0 =
      \<lparr>rd_unread = [], rd_first = ''xport'', rd_second = ''2'', rd_configs = [(''port'', ''1''), (''xport'', ''2'')]\<rparr>"
    "fold config_line (split_on CHR 0x0A (''port 1'' @ [CHR 0x0A] @ ''dump-cachesize'')) ?st0 =
      \<lparr>rd_unread = [], rd_first = ''dump-cachesize'', rd_second = ''1'', rd_configs = [(''port'', ''1''), (''dump-cachesize'', ''1'')]\<rparr>"
    by code_simp+
  moreover have "int_or 9527 ''1'' = 1" "int_or 1024 ''1'' = 1" by code_simp+
  ultimately show "Config_new id stod (Some (''port 1 x'' @ [CHR 0x0A] @ ''port 2'')) = Inr (Config_default\<lparr>cf_port := 1\<rparr>)"
    "Config_new id stod (Some (''port 1'' @ [CHR 0x0A] @ ''dump-cachesize'')) = Inr (Config_default\<lparr>cf_port := 1, cf_dump_cachesize := 1\<rparr>)"
    by (simp_all only: Config_new_def option.case Let_def) (simp_all add: Init_item_def)
  show "ValidateIpv4 ''1.2.3.4.x''" by code_simp
qed

end
