(* ===== verification/Startup.thy ===== *)
theory Startup
  imports Server Persistence Config
begin

text \<open>
  \<open>src/src/main.cpp\<close> and \<open>Engine::RestoreFromAppendableFile\<close> of \<open>src/src/net/commands.cpp\<close>: how a server
  comes up from its configuration and its log file. The bytes of the configuration file and the files on disk are
  arguments. The handler of \<open>SIGINT\<close> deletes the log object, whose destructor is \<open>AppendableFile_close\<close>, and ends the process; it yields
  the files it leaves. When the append-only log is enabled, its constructor opens the file for appending, which creates
  it when it does not exist.
\<close>

definition main_db :: "'g \<Rightarrow> 'g db" where
  "main_db g = \<lparr>db_kv = KVContainer_new, db_expires = Map.empty, db_timers = TimeEventHolder, db_log = None, db_rng = g,
     db_sessions = Map.empty, db_subs = Map.empty\<rparr>"

definition RestoreFromAppendableFile :: "'g ctx list \<Rightarrow> bool \<Rightarrow> string \<Rightarrow> 'g db \<Rightarrow> 'g db outcome" where
  "RestoreFromAppendableFile cs err bytes db = ReadFromScratch cs err bytes (db\<lparr>db_log := Some []\<rparr>)"

definition main_start ::
  "((string \<times> string) list \<Rightarrow> (string \<times> string) list) \<Rightarrow> (string \<Rightarrow> dbl option) \<Rightarrow> string option \<Rightarrow> (string \<Rightarrow> string option) \<Rightarrow>
   'g ctx list \<Rightarrow> bool \<Rightarrow> 'g \<Rightarrow> std_exception + ('g server \<times> aof option) outcome" where
  "main_start order stod conf files cs err g =
     (case Config_new order stod conf of
        Inl ex \<Rightarrow> Inl ex
      | Inr configs \<Rightarrow> Inr
          (if cf_appendonly_enabled configs
           then let bytes = (case files (cf_dumpfile configs) of None \<Rightarrow> [] | Some b \<Rightarrow> b);
                    history = AppendableFile_new bytes (unat (word_of_int (cf_dump_cachesize configs) :: u64)) True
                in (case RestoreFromAppendableFile cs err bytes (main_db g) of
                      None \<Rightarrow> None
                    | Some (Inl e) \<Rightarrow> Some (Inl e)
                    | Some (Inr db) \<Rightarrow> Some (Inr (Server_new db, Some (SetAutoFlush True history))))
           else Some (Inr (Server_new (main_db g), None))))"

definition SigIntHandler :: "bool \<Rightarrow> bool \<Rightarrow> string \<Rightarrow> aof option \<Rightarrow> (string \<Rightarrow> string option) \<Rightarrow> string \<Rightarrow> string option" where
  "SigIntHandler opened1 opened2 location history files =
     (case history of None \<Rightarrow> files | Some a \<Rightarrow> files(location \<mapsto> fs_bytes (AppendableFile_close opened1 opened2 a)))"

lemma SetAutoFlush_new: "SetAutoFlush True (AppendableFile_new bytes n True) = AppendableFile_new bytes n True"
  by (simp add: SetAutoFlush_def AppendableFile_new_def)

lemma Server_new_inv:
  assumes "kv_inv (db_kv db)" "event_list (db_timers db) = []"
  shows "sv_inv (Server_new db)" "db_abs (sv_db (Server_new db)) = db_abs db"
  using assms by (simp_all add: sv_inv_def Server_new_def db_abs_def)

text \<open>Starting from the log of commands that build a map.\<close>

lemma main_start_log:
  assumes "Config_new order stod conf = Inr cf" "cf_appendonly_enabled cf"
    and "covered Map.empty cmds m" "small_commands cmds"
    and "bytes = concat (map (\<lambda>cmd. ToProtocolString (cache_of cmd)) cmds)" "(case files (cf_dumpfile cf) of None \<Rightarrow> [] | Some b \<Rightarrow> b) = bytes"
    and "length cs = length cmds" "\<forall>c \<in> set cs. \<not> c_evict c"
  shows "\<exists>sv. main_start order stod conf files cs err g =
      Inr (Some (Inr (sv, Some (AppendableFile_new bytes (unat (word_of_int (cf_dump_cachesize cf) :: u64)) True)))) \<and>
    sv_inv sv \<and> db_abs (sv_db sv) = (m, Some []) \<and> sv_conns sv = Map.empty"
proof -
  let ?db = "(main_db g)\<lparr>db_log := Some []\<rparr>"
  have "db_kv ?db = KVContainer_new" by (simp add: main_db_def)
  from ReadFromScratch_log [OF assms(3,4) this assms(7,8), of err]
  obtain db' where db: "ReadFromScratch cs err bytes ?db = Some (Inr db')" "kv_inv (db_kv db')" "kv_abs (db_kv db') = m"
    "db' = ?db\<lparr>db_kv := db_kv db'\<rparr>"
    unfolding assms(5) by blast
  have "event_list (db_timers db') = [] \<and> db_log db' = Some []" by (subst (1 2) db(4)) (simp add: main_db_def TimeEventHolder_def)
  then have "sv_inv (Server_new db')" "db_abs (sv_db (Server_new db')) = (m, Some [])" "sv_conns (Server_new db') = Map.empty"
    using Server_new_inv [OF db(2)] db(3) by (simp_all add: db_abs_def Server_new_def)
  moreover have "main_start order stod conf files cs err g =
      Inr (Some (Inr (Server_new db', Some (AppendableFile_new bytes (unat (word_of_int (cf_dump_cachesize cf) :: u64)) True))))"
    using assms(1,2,6) db(1) by (simp add: main_start_def RestoreFromAppendableFile_def SetAutoFlush_new Let_def)
  ultimately show ?thesis by blast
qed

end
