(* ===== verification/StrOrder.thy ===== *)
theory StrOrder
  imports Str
begin

text \<open>
  The rest of \<open>src/src/str.h\<close>: the order of \<open>StaticString\<close>, its moves and assignments, the functors \<open>KeyHasher\<close> and \<open>KeyEqual\<close> that the
  hash tables of the container use, and the comparisons of a \<open>DynamicString\<close> with a C string. The comparisons of both classes are instances of one
  interface: two kinds of strings with a text each, and operators that compare the texts.

  A C string is the bytes up to its first NUL; \<open>operator=\<close> is for two distinct objects, and memory is always available.
\<close>

section \<open>StaticString\<close>

text \<open>The move constructor yields the new object and what is left of the old one.\<close>

definition StaticString_move :: "sstr \<Rightarrow> sstr \<times> sstr" where
  "StaticString_move other =
     (case s_buf other of
        None \<Rightarrow> (StaticString_default, other)
      | Some b \<Rightarrow> (\<lparr>s_len = s_len other, s_buf = Some b\<rparr>, \<lparr>s_len = 0, s_buf = None\<rparr>))"

definition StaticString_assign :: "sstr \<Rightarrow> sstr \<Rightarrow> sstr" where
  "StaticString_assign this other =
     this\<lparr>s_len := s_len other,
       s_buf := Some (put_nul (c_memcpy (malloc (s_len other + 1)) 0 (take (s_len other) (ss_data other))) (s_len other))\<rparr>"

definition StaticString_less :: "sstr \<Rightarrow> sstr \<Rightarrow> bool" where
  "StaticString_less a b \<longleftrightarrow> c_strcmp (ss_data a) (ss_data b) < 0"

definition StaticString_greater :: "sstr \<Rightarrow> sstr \<Rightarrow> bool" where
  "StaticString_greater a b \<longleftrightarrow> c_strcmp (ss_data a) (ss_data b) > 0"

definition StaticString_print :: "sstr \<Rightarrow> string" where
  "StaticString_print s = c_str (ss_data s)"

definition KeyHasher :: "sstr \<Rightarrow> u64" where
  "KeyHasher key = StaticString_Hash key"

definition KeyEqual :: "sstr \<Rightarrow> sstr \<Rightarrow> bool" where
  "KeyEqual a b \<longleftrightarrow> StaticString_eq a b"

section \<open>DynamicString and C strings\<close>

definition DynamicString_eq_cstr :: "dstr \<Rightarrow> string \<Rightarrow> bool" where
  "DynamicString_eq_cstr a other =
     (let l = length (c_str other) in unat (ds_len a) = l \<and> c_memcmp (ds_data a) other l = 0)"

definition DynamicString_neq_cstr :: "dstr \<Rightarrow> string \<Rightarrow> bool" where
  "DynamicString_neq_cstr a other =
     (let l = length (c_str other) in unat (ds_len a) \<noteq> l \<or> c_memcmp (ds_data a) other l \<noteq> 0)"

definition DynamicString_less_cstr :: "dstr \<Rightarrow> string \<Rightarrow> bool" where
  "DynamicString_less_cstr a other =
     (let len2 = length (c_str other); ans1 = c_memcmp (ds_data a) other (min (unat (ds_len a)) len2)
      in if ans1 = 0 then unat (ds_len a) < len2 else ans1 < 0)"

definition DynamicString_greater_cstr :: "dstr \<Rightarrow> string \<Rightarrow> bool" where
  "DynamicString_greater_cstr a other =
     (let len2 = length (c_str other); ans1 = c_memcmp (ds_data a) other (min (unat (ds_len a)) len2)
      in if ans1 = 0 then len2 < unat (ds_len a) else 0 < ans1)"

section \<open>Comparisons as an interface\<close>

lemma text_less_total: "a \<noteq> b \<Longrightarrow> (a, b) \<in> lexord byte_less \<or> (b, a) \<in> lexord byte_less"
proof -
  have "\<forall>c d. (c, d) \<in> byte_less \<or> c = d \<or> (d, c) \<in> byte_less"
    by simp (metis linorder_cases char_of_char)
  then show "a \<noteq> b \<Longrightarrow> ?thesis" using lexord_linear by blast
qed

lemma text_less_irrefl: "(a, a) \<notin> lexord byte_less"
  by (rule lexord_irreflexive) simp

lemma text_less_trans: "(a, b) \<in> lexord byte_less \<Longrightarrow> (b, c) \<in> lexord byte_less \<Longrightarrow> (a, c) \<in> lexord byte_less"
  by (rule lexord_trans) (auto simp: trans_def)

text \<open>Strings of two kinds, well formed (\<open>ok\<close>) and with a text each, compared by their texts.\<close>

locale text_compare =
  fixes ok :: "'a \<Rightarrow> bool" and bytes_of :: "'a \<Rightarrow> string" and ok' :: "'b \<Rightarrow> bool" and bytes_of' :: "'b \<Rightarrow> string"
    and eqt lt gt :: "'a \<Rightarrow> 'b \<Rightarrow> bool"
  assumes eqt: "ok a \<Longrightarrow> ok' b \<Longrightarrow> eqt a b \<longleftrightarrow> bytes_of a = bytes_of' b"
    and lt: "ok a \<Longrightarrow> ok' b \<Longrightarrow> lt a b \<longleftrightarrow> (bytes_of a, bytes_of' b) \<in> lexord byte_less"
    and gt: "ok a \<Longrightarrow> ok' b \<Longrightarrow> gt a b \<longleftrightarrow> (bytes_of' b, bytes_of a) \<in> lexord byte_less"
begin

lemma exactly_one:
  assumes "ok a" "ok' b"
  shows "(eqt a b \<and> \<not> lt a b \<and> \<not> gt a b) \<or> (\<not> eqt a b \<and> lt a b \<and> \<not> gt a b) \<or> (\<not> eqt a b \<and> \<not> lt a b \<and> gt a b)"
  using eqt [OF assms] lt [OF assms] gt [OF assms] text_less_total [of "bytes_of a" "bytes_of' b"] text_less_irrefl text_less_trans
  by metis

end

text \<open>With one kind of strings the operators form a strict order, total up to equality.\<close>

locale text_order = text_compare ok bytes_of ok bytes_of eqt lt gt
  for ok :: "'a \<Rightarrow> bool" and bytes_of eqt lt gt
begin

lemma converse: "ok a \<Longrightarrow> ok b \<Longrightarrow> gt a b \<longleftrightarrow> lt b a"
  by (simp add: lt gt)

lemma strict_order:
  "ok a \<Longrightarrow> \<not> lt a a" "ok a \<Longrightarrow> ok b \<Longrightarrow> ok c \<Longrightarrow> lt a b \<Longrightarrow> lt b c \<Longrightarrow> lt a c"
  using lt text_less_irrefl text_less_trans by blast+

lemma respects_eqt: "ok a \<Longrightarrow> ok a' \<Longrightarrow> ok b \<Longrightarrow> eqt a a' \<Longrightarrow> lt a b \<longleftrightarrow> lt a' b"
  by (simp add: eqt lt)

end

section \<open>Both classes implement it\<close>

text \<open>A \<open>StaticString\<close> that holds a text: its block is the text and the terminator.\<close>

definition ss_ok :: "sstr \<Rightarrow> bool" where
  "ss_ok s \<longleftrightarrow> CHR 0x00 \<notin> set (StaticString_ToStdString s) \<and> s_buf s = Some (StaticString_ToStdString s @ [CHR 0x00]) \<and>
     s_len s = length (StaticString_ToStdString s)"

lemma c_str_terminated: "CHR 0x00 \<notin> set x \<Longrightarrow> c_str (x @ CHR 0x00 # y) = x"
  unfolding c_str_def by (subst takeWhile_append2) auto

lemma ss_okI: "s_buf s = Some (x @ [CHR 0x00]) \<Longrightarrow> s_len s = length x \<Longrightarrow> CHR 0x00 \<notin> set x \<Longrightarrow> ss_ok s \<and> StaticString_ToStdString s = x"
  by (simp add: ss_ok_def StaticString_ToStdString_def c_str_terminated)

lemma ss_okD:
  assumes "ss_ok s"
  shows "ss_data s = StaticString_ToStdString s @ [CHR 0x00]" "s_len s = length (StaticString_ToStdString s)"
    "CHR 0x00 \<notin> set (StaticString_ToStdString s)" "c_str (ss_data s) = StaticString_ToStdString s"
  using assms by (simp_all add: ss_ok_def ss_data_def c_str_terminated)

lemma of_char_pos: "CHR 0x00 \<noteq> c \<Longrightarrow> 0 < (of_char c :: nat)"
  by (cases c) (auto simp: of_char_def)

lemma nul_terminated_cmp:
  assumes "CHR 0x00 \<notin> set a" "CHR 0x00 \<notin> set b"
  shows "byte_cmp (a @ [CHR 0x00]) (b @ [CHR 0x00]) < 0 \<longleftrightarrow> (a, b) \<in> lexord byte_less"
  using assms
proof (induction a arbitrary: b)
  case Nil
  then show ?case by (cases b) (simp_all add: of_char_pos)
next
  case (Cons c a)
  show ?case
  proof (cases b)
    case Nil
    then show ?thesis using Cons.prems by simp
  next
    case (Cons d bs)
    have "c = d" if "(of_char c :: nat) = of_char d" using that by (metis char_of_char)
    then show ?thesis using Cons.IH [of bs] Cons.prems Cons by auto
  qed
qed

lemma strcmp_lexord:
  assumes "ss_ok a" "ss_ok b"
  shows "c_strcmp (ss_data a) (ss_data b) < 0 \<longleftrightarrow> (StaticString_ToStdString a, StaticString_ToStdString b) \<in> lexord byte_less"
  using nul_terminated_cmp [OF ss_okD(3) [OF assms(1)] ss_okD(3) [OF assms(2)]] by (simp add: c_strcmp_def ss_okD(4) assms)

lemma strcmp_sym: "c_strcmp a b > 0 \<longleftrightarrow> c_strcmp b a < 0"
  unfolding c_strcmp_def by (subst byte_cmp_sym) simp

interpretation ss: text_order ss_ok StaticString_ToStdString KeyEqual StaticString_less StaticString_greater
proof unfold_locales
  fix a b assume ab: "ss_ok a" "ss_ok b"
  then show "KeyEqual a b \<longleftrightarrow> StaticString_ToStdString a = StaticString_ToStdString b"
    by (auto simp: KeyEqual_def StaticString_eq_def c_strcmp_eq_0 ss_okD(2,4))
  show "StaticString_less a b \<longleftrightarrow> (StaticString_ToStdString a, StaticString_ToStdString b) \<in> lexord byte_less"
    using strcmp_lexord [OF ab] by (simp add: StaticString_less_def)
  show "StaticString_greater a b \<longleftrightarrow> (StaticString_ToStdString b, StaticString_ToStdString a) \<in> lexord byte_less"
    using strcmp_lexord [OF ab(2) ab(1)] by (simp add: StaticString_greater_def strcmp_sym)
qed

interpretation ds: text_order ds_inv DynamicString_ToStdString DynamicString_eq DynamicString_less DynamicString_greater
  by unfold_locales (simp_all add: eq_contents less_lexord greater_less)

lemma memcmp_cstr:
  assumes "ds_inv a" "n \<le> unat (ds_len a)" "n \<le> length (c_str other)"
  shows "c_memcmp (ds_data a) other n = byte_cmp (take n (ds_str a)) (take n (c_str other))"
proof -
  have "take n other = take n (c_str other)"
    using assms(3) takeWhile_dropWhile_id [of "\<lambda>c. c \<noteq> CHR 0x00" other] by (metis c_str_def take_append diff_is_0_eq take_0 append_Nil2)
  then show ?thesis using assms by (simp add: c_memcmp_def take_ds_data)
qed

interpretation dc: text_compare ds_inv DynamicString_ToStdString "\<lambda>_. True" c_str
  DynamicString_eq_cstr DynamicString_less_cstr DynamicString_greater_cstr
proof unfold_locales
  fix a b assume a: "ds_inv a"
  let ?m = "min (unat (ds_len a)) (length (c_str b))"
  have m: "c_memcmp (ds_data a) b ?m = byte_cmp (take ?m (ds_str a)) (take ?m (c_str b))"
    by (rule memcmp_cstr [OF a]) simp_all
  show "DynamicString_eq_cstr a b \<longleftrightarrow> ds_str a = c_str b"
    using m byte_cmp_eq_0 [of "ds_str a" "c_str b"] length_ds_str [OF a] by (auto simp: DynamicString_eq_cstr_def Let_def)
  show "DynamicString_less_cstr a b \<longleftrightarrow> (ds_str a, c_str b) \<in> lexord byte_less"
    using byte_cmp_lexord [of "ds_str a" "c_str b"] m
    by (auto simp: DynamicString_less_cstr_def length_ds_str [OF a, symmetric] Let_def split: if_splits)
  have "byte_cmp (take ?m (c_str b)) (take ?m (ds_str a)) = - c_memcmp (ds_data a) b ?m" unfolding m by (rule byte_cmp_sym)
  then show "DynamicString_greater_cstr a b \<longleftrightarrow> (c_str b, ds_str a) \<in> lexord byte_less"
    using byte_cmp_lexord [of "c_str b" "ds_str a"]
    by (auto simp: DynamicString_greater_cstr_def length_ds_str [OF a, symmetric] Let_def min.commute split: if_splits)
qed

section \<open>Keys\<close>

lemma ss_std: "ss_ok (StaticString_std s) \<and> StaticString_ToStdString (StaticString_std s) = c_str s"
  by (rule ss_okI) (auto simp: StaticString_std_def StaticString_cstr_def StaticString_len_def malloc_def c_memcpy_def put_nul_def
      dest: set_c_str)

lemma ss_same:
  assumes "ss_ok s" "s_len t = s_len s" "s_buf t = Some (take (s_len s) (ss_data s) @ [CHR 0x00])"
  shows "ss_ok t \<and> StaticString_ToStdString t = StaticString_ToStdString s"
  using assms ss_okI [of t "StaticString_ToStdString s"] ss_okD [of s] by simp

lemma ss_copy: "ss_ok s \<Longrightarrow> ss_ok (StaticString_copy s) \<and> StaticString_ToStdString (StaticString_copy s) = StaticString_ToStdString s"
  by (rule ss_same) (auto simp: ss_ok_def ss_data_def StaticString_copy_def StaticString_len_def malloc_def c_memcpy_def put_nul_def)

lemma ss_assign: "ss_ok s \<Longrightarrow> ss_ok (StaticString_assign t s) \<and> StaticString_ToStdString (StaticString_assign t s) = StaticString_ToStdString s"
  by (rule ss_same) (auto simp: ss_ok_def ss_data_def StaticString_assign_def malloc_def c_memcpy_def put_nul_def)

lemma ss_move: "ss_ok s \<Longrightarrow> StaticString_move s = (s, StaticString_default)"
  by (cases "s_buf s") (simp_all add: ss_ok_def StaticString_move_def StaticString_default_def)

lemma key_hash: "ss_ok s \<Longrightarrow> KeyHasher s = Time33Hash (StaticString_ToStdString s)"
  by (simp add: KeyHasher_def StaticString_Hash_def ss_okD(1,2))

section \<open>Properties\<close>

text \<open>
  Keys are fit for the hash tables and for sorting. Every key made from a \<open>std::string\<close>, and every copy, assignment or move of one, holds the
  bytes before the first NUL; \<open>KeyEqual\<close> is equality of these bytes, so it is an equivalence, equal keys have equal hashes, and \<open>operator<\<close> is
  the lexicographic order of the bytes: exactly one of \<open><\<close>, \<open>==\<close> and \<open>>\<close> holds for two keys.
\<close>

theorem keys_fit_containers:
  assumes "k = StaticString_std s"
    and "l = StaticString_assign (fst (StaticString_move (StaticString_copy k))) (StaticString_std t)"
  shows "StaticString_ToStdString l = c_str t \<and> (KeyEqual k l \<longleftrightarrow> c_str s = c_str t) \<and> (KeyEqual k l \<longrightarrow> KeyHasher k = KeyHasher l) \<and>
    (StaticString_less k l \<longleftrightarrow> (c_str s, c_str t) \<in> lexord byte_less) \<and> (StaticString_greater k l \<longleftrightarrow> StaticString_less l k) \<and>
    of_bool (KeyEqual k l) + of_bool (StaticString_less k l) + of_bool (StaticString_greater k l) = (1 :: nat)"
proof -
  have k: "ss_ok k" "StaticString_ToStdString k = c_str s" and l: "ss_ok l" "StaticString_ToStdString l = c_str t"
    using ss_std ss_assign by (simp_all add: assms)
  show ?thesis
    using ss.eqt [OF k(1) l(1)] ss.lt [OF k(1) l(1)] ss.converse [OF k(1) l(1)] ss.exactly_one [OF k(1) l(1)] k l key_hash
    by auto
qed

theorem keys_fit_containers_witness:
  "StaticString_less (StaticString_std ''ab'')
     (StaticString_assign (fst (StaticString_move (StaticString_copy (StaticString_std ''ab'')))) (StaticString_std ''abc''))"
  using keys_fit_containers [OF refl refl, of "''ab''" "''abc''"] by (simp add: c_str_def)

text \<open>
  The comparisons of a \<open>DynamicString\<close> with a C string agree with its comparisons with the \<open>DynamicString\<close> made from that string.
\<close>

lemma cstr_comparisons_agree:
  assumes "ds_inv a" "ds_inv b" "ds_str b = c_str other"
  shows "(DynamicString_eq_cstr a other \<longleftrightarrow> DynamicString_eq a b) \<and> (DynamicString_neq_cstr a other \<longleftrightarrow> DynamicString_neq a b) \<and>
    (DynamicString_less_cstr a other \<longleftrightarrow> DynamicString_less a b) \<and> (DynamicString_greater_cstr a other \<longleftrightarrow> DynamicString_greater a b)"
proof -
  have "DynamicString_neq_cstr a other \<longleftrightarrow> \<not> DynamicString_eq_cstr a other"
    by (auto simp: DynamicString_neq_cstr_def DynamicString_eq_cstr_def Let_def)
  then show ?thesis
    using assms dc.eqt [of a other] dc.lt [of a other] dc.gt [of a other] ds.eqt [of a b] ds.lt [of a b] ds.gt [of a b] neq_not_eq [of a b]
    by simp
qed

text \<open>
  Assigning an empty \<open>StaticString\<close> yields one that is not \<open>Empty\<close>: the block of one byte is not null. Printing stops at a NUL inside the string, which
  only the constructor with a length can make, and two such strings that differ behind it are not ordered either way and not equal.
\<close>

lemma static_string_defects:
  "\<not> StaticString_Empty (StaticString_assign s StaticString_default)"
  "let a = StaticString_len (Some [CHR ''a'', CHR 0x00]) 2; b = StaticString_len (Some ''a'') 1
   in StaticString_print a = ''a'' \<and> \<not> KeyEqual a b \<and> \<not> StaticString_less a b \<and> \<not> StaticString_greater a b"
  by (simp add: StaticString_Empty_def StaticString_assign_def) code_simp

end
