(* ===== verification/StringKeys.thy ===== *)
theory StringKeys
  imports CoreCorrect
begin

text \<open>
  The overloads of \<open>src/src/core.h\<close> that take the key as a \<open>std::string\<close>. Each makes a \<open>Key\<close> of it, which ends at the first
  NUL, and calls the operation of the theory \<open>Core\<close>. \<open>str_call\<close> is the operation a caller with a \<open>std::string\<close> reaches; for the
  operations on several fields, which have no such overload, the caller makes the \<open>Key\<close> itself.
\<close>

section \<open>The overloads\<close>

definition QueryObjectType_str :: "kvcontainer \<Rightarrow> string \<Rightarrow> int" where
  "QueryObjectType_str s key = QueryObjectType s (Key key)"

definition KeyExists_str :: "kvcontainer \<Rightarrow> string \<Rightarrow> bool" where
  "KeyExists_str s key = KeyExists s (Key key)"

definition SetInt_str :: "u64 \<Rightarrow> kvcontainer \<Rightarrow> string \<Rightarrow> int \<Rightarrow> kvcontainer \<times> bool" where
  "SetInt_str now s key intval = SetInt now s (Key key) intval"

definition IncrIntBy_str :: "u64 \<Rightarrow> kvcontainer \<Rightarrow> string \<Rightarrow> int \<Rightarrow> kvcontainer \<times> int \<times> int" where
  "IncrIntBy_str now s key increment = IncrIntBy now s (Key key) increment"

definition IncrInt_str :: "u64 \<Rightarrow> kvcontainer \<Rightarrow> string \<Rightarrow> kvcontainer \<times> int \<times> int" where
  "IncrInt_str now s key = IncrInt now s (Key key)"

definition DecrIntBy_str :: "u64 \<Rightarrow> kvcontainer \<Rightarrow> string \<Rightarrow> int \<Rightarrow> kvcontainer \<times> int \<times> int" where
  "DecrIntBy_str now s key increment = DecrIntBy now s (Key key) increment"

definition DecrInt_str :: "u64 \<Rightarrow> kvcontainer \<Rightarrow> string \<Rightarrow> kvcontainer \<times> int \<times> int" where
  "DecrInt_str now s key = DecrInt now s (Key key)"

definition SetString_str :: "u64 \<Rightarrow> kvcontainer \<Rightarrow> string \<Rightarrow> string \<Rightarrow> kvcontainer \<times> bool" where
  "SetString_str now s key value = SetString now s (Key key) value"

definition StrLen_str :: "u64 \<Rightarrow> kvcontainer \<Rightarrow> string \<Rightarrow> int \<Rightarrow> kvcontainer \<times> nat \<times> int" where
  "StrLen_str now s key errcode = StrLen now s (Key key) errcode"

definition Get_str :: "u64 \<Rightarrow> kvcontainer \<Rightarrow> string \<Rightarrow> kvcontainer \<times> vobject option \<times> int" where
  "Get_str now s key = Get now s (Key key)"

definition Delete_str :: "kvcontainer \<Rightarrow> string \<Rightarrow> kvcontainer \<times> bool" where
  "Delete_str s key = Delete s (Key key)"

definition Append_str :: "u64 \<Rightarrow> kvcontainer \<Rightarrow> string \<Rightarrow> string \<Rightarrow> kvcontainer \<times> nat \<times> int" where
  "Append_str now s key val = Append now s (Key key) val"

definition LeftPush_str :: "u64 \<Rightarrow> kvcontainer \<Rightarrow> string \<Rightarrow> string \<Rightarrow> kvcontainer \<times> bool \<times> int" where
  "LeftPush_str now s key val = LeftPush now s (Key key) val"

definition RightPush_str :: "u64 \<Rightarrow> kvcontainer \<Rightarrow> string \<Rightarrow> string \<Rightarrow> kvcontainer \<times> bool \<times> int" where
  "RightPush_str now s key val = RightPush now s (Key key) val"

definition LeftPop_str :: "u64 \<Rightarrow> kvcontainer \<Rightarrow> string \<Rightarrow> kvcontainer \<times> string option \<times> int" where
  "LeftPop_str now s key = LeftPop now s (Key key)"

definition RightPop_str :: "u64 \<Rightarrow> kvcontainer \<Rightarrow> string \<Rightarrow> kvcontainer \<times> string option \<times> int" where
  "RightPop_str now s key = RightPop now s (Key key)"

definition ListRange_str :: "u64 \<Rightarrow> kvcontainer \<Rightarrow> string \<Rightarrow> int \<Rightarrow> int \<Rightarrow> dl_error + kvcontainer \<times> string option list \<times> int" where
  "ListRange_str now s key begin_idx end_idx = ListRange now s (Key key) begin_idx end_idx"

definition ListRangeAsStdString_str :: "u64 \<Rightarrow> kvcontainer \<Rightarrow> string \<Rightarrow> int \<Rightarrow> int \<Rightarrow> dl_error + kvcontainer \<times> string list \<times> int" where
  "ListRangeAsStdString_str now s key begin_idx end_idx = ListRangeAsStdString now s (Key key) begin_idx end_idx"

definition ListLen_str :: "u64 \<Rightarrow> kvcontainer \<Rightarrow> string \<Rightarrow> kvcontainer \<times> nat \<times> int" where
  "ListLen_str now s key = ListLen now s (Key key)"

definition ListItemAtIndex_str :: "u64 \<Rightarrow> kvcontainer \<Rightarrow> string \<Rightarrow> int \<Rightarrow> dl_error + kvcontainer \<times> string option \<times> int" where
  "ListItemAtIndex_str now s key index = ListItemAtIndex now s (Key key) index"

definition ListSetItemAtIndex_str :: "u64 \<Rightarrow> kvcontainer \<Rightarrow> string \<Rightarrow> int \<Rightarrow> string \<Rightarrow> dl_error + kvcontainer \<times> bool \<times> int" where
  "ListSetItemAtIndex_str now s key index val = ListSetItemAtIndex now s (Key key) index val"

definition HashUpdateKV_str :: "u64 \<Rightarrow> kvcontainer \<Rightarrow> string \<Rightarrow> string \<Rightarrow> string \<Rightarrow> kvcontainer \<times> bool \<times> int" where
  "HashUpdateKV_str now s key field value = HashUpdateKV now s (Key key) field value"

definition HashGetValue_str :: "u64 \<Rightarrow> kvcontainer \<Rightarrow> string \<Rightarrow> string \<Rightarrow> kvcontainer \<times> string option \<times> int" where
  "HashGetValue_str now s key field = HashGetValue now s (Key key) field"

definition HashDelField_str :: "u64 \<Rightarrow> kvcontainer \<Rightarrow> string \<Rightarrow> string \<Rightarrow> kvcontainer \<times> int \<times> int" where
  "HashDelField_str now s key field = HashDelField now s (Key key) field"

definition HashExistField_str :: "u64 \<Rightarrow> kvcontainer \<Rightarrow> string \<Rightarrow> string \<Rightarrow> kvcontainer \<times> bool \<times> int" where
  "HashExistField_str now s key field = HashExistField now s (Key key) field"

definition HashGetAllEntries_str :: "u64 \<Rightarrow> kvcontainer \<Rightarrow> string \<Rightarrow> kvcontainer \<times> string list \<times> int" where
  "HashGetAllEntries_str now s key = HashGetAllEntries now s (Key key)"

definition HashGetAllFields_str :: "u64 \<Rightarrow> kvcontainer \<Rightarrow> string \<Rightarrow> kvcontainer \<times> string list \<times> int" where
  "HashGetAllFields_str now s key = HashGetAllFields now s (Key key)"

definition HashGetAllValues_str :: "u64 \<Rightarrow> kvcontainer \<Rightarrow> string \<Rightarrow> kvcontainer \<times> string list \<times> int" where
  "HashGetAllValues_str now s key = HashGetAllValues now s (Key key)"

definition HashLen_str :: "u64 \<Rightarrow> kvcontainer \<Rightarrow> string \<Rightarrow> kvcontainer \<times> nat \<times> int" where
  "HashLen_str now s key = HashLen now s (Key key)"

definition SetAddItem_str :: "u64 \<Rightarrow> kvcontainer \<Rightarrow> string \<Rightarrow> string \<Rightarrow> kvcontainer \<times> bool \<times> int" where
  "SetAddItem_str now s key member = SetAddItem now s (Key key) member"

definition SetAddItem_members_str :: "u64 \<Rightarrow> kvcontainer \<Rightarrow> string \<Rightarrow> string list \<Rightarrow> kvcontainer \<times> int \<times> int" where
  "SetAddItem_members_str now s key members = SetAddItem_members now s (Key key) members"

definition SetIsMember_str :: "u64 \<Rightarrow> kvcontainer \<Rightarrow> string \<Rightarrow> string \<Rightarrow> kvcontainer \<times> bool \<times> int" where
  "SetIsMember_str now s key member = SetIsMember now s (Key key) member"

definition SetMIsMember_str :: "u64 \<Rightarrow> kvcontainer \<Rightarrow> string \<Rightarrow> string list \<Rightarrow> kvcontainer \<times> int list \<times> int" where
  "SetMIsMember_str now s key members = SetMIsMember now s (Key key) members"

definition SetGetMembers_str :: "u64 \<Rightarrow> kvcontainer \<Rightarrow> string \<Rightarrow> kvcontainer \<times> string list \<times> int" where
  "SetGetMembers_str now s key = SetGetMembers now s (Key key)"

definition SetGetMemberCount_str :: "u64 \<Rightarrow> kvcontainer \<Rightarrow> string \<Rightarrow> kvcontainer \<times> nat \<times> int" where
  "SetGetMemberCount_str now s key = SetGetMemberCount now s (Key key)"
section \<open>Histories of calls with strings\<close>

fun str_call :: "u64 \<Rightarrow> kvcontainer \<Rightarrow> kv_op \<Rightarrow> kvcontainer \<times> kv_result" where
  "str_call now s (DoType k) = (s, VInt (QueryObjectType_str s k), None)"
| "str_call now s (DoExists k) = (s, VBool (KeyExists_str s k), None)"
| "str_call now s (DoExistKeys ks) = (s, VInt (KeyExists_keys s ks), None)"
| "str_call now s DoNumItems = (s, VNat (NumItems s), None)"
| "str_call now s (DoSetInt k i) = (case SetInt_str now s k i of (s', b) \<Rightarrow> (s', VBool b, None))"
| "str_call now s (DoIncrBy k i) = with_code VInt (IncrIntBy_str now s k i)"
| "str_call now s (DoDecrBy k i) = with_code VInt (DecrIntBy_str now s k i)"
| "str_call now s (DoSetString k v) = (case SetString_str now s k v of (s', b) \<Rightarrow> (s', VBool b, None))"
| "str_call now s (DoStrLen k e) = with_code VNat (StrLen_str now s k e)"
| "str_call now s (DoGet k) = with_code (\<lambda>p. VObj (map_option (\<lambda>obj. vabs (vo_value obj)) p)) (Get_str now s k)"
| "str_call now s (DoDelete k) = (case Delete_str s k of (s', b) \<Rightarrow> (s', VBool b, None))"
| "str_call now s (DoDeleteKeys ks) = (case Delete_keys s ks of (s', n) \<Rightarrow> (s', VInt n, None))"
| "str_call now s (DoAppend k v) = with_code VNat (Append_str now s k v)"
| "str_call now s (DoPush left k v) = with_code VBool (if left then LeftPush_str now s k v else RightPush_str now s k v)"
| "str_call now s (DoPushMany left k vs) =
     with_code VNat (if left then LeftPush_values now s k vs else RightPush_values now s k vs)"
| "str_call now s (DoPop left k) = with_code VStr (if left then LeftPop_str now s k else RightPop_str now s k)"
| "str_call now s (DoRange k b e) = or_fault VStrs s (ListRange_str now s k b e)"
| "str_call now s (DoListLen k) = with_code VNat (ListLen_str now s k)"
| "str_call now s (DoItemAt k i) = or_fault VStr s (ListItemAtIndex_str now s k i)"
| "str_call now s (DoSetItemAt k i v) = or_fault VBool s (ListSetItemAtIndex_str now s k i v)"
| "str_call now s (DoHSet k f v) = with_code VBool (HashUpdateKV_str now s k f v)"
| "str_call now s (DoHSetMany k fs vs) = with_code VInt (HashUpdateKV_fields now s (Key k) fs vs)"
| "str_call now s (DoHGet k f) = with_code VStr (HashGetValue_str now s k f)"
| "str_call now s (DoHGetMany k fs) = with_code VStrs (HashGetValue_fields now s (Key k) fs)"
| "str_call now s (DoHDel k f) = with_code VInt (HashDelField_str now s k f)"
| "str_call now s (DoHDelMany k fs) = with_code VInt (HashDelField_fields now s (Key k) fs)"
| "str_call now s (DoHExists k f) = with_code VBool (HashExistField_str now s k f)"
| "str_call now s (DoHLen k) = with_code VNat (HashLen_str now s k)"
| "str_call now s (DoSAdd k x) = with_code VBool (SetAddItem_str now s k x)"
| "str_call now s (DoSAddMany k xs) = with_code VInt (SetAddItem_members_str now s k xs)"
| "str_call now s (DoSIsMember k x) = with_code VBool (SetIsMember_str now s k x)"
| "str_call now s (DoSMIsMember k xs) = with_code VInts (SetMIsMember_str now s k xs)"
| "str_call now s (DoSRem k xs) = with_code VBool (SetRemoveMembers_str now s k xs)"
| "str_call now s (DoSCard k) = with_code VNat (SetGetMemberCount_str now s k)"

definition str_step :: "kvcontainer \<Rightarrow> u64 \<times> kv_op \<Rightarrow> kvcontainer \<times> kv_result" where
  "str_step s c = str_call (fst c) s (snd c)"

text \<open>The call on keys it stands for, and the result of removing members as a \<open>bool\<close>.\<close>

fun on_key :: "kv_op \<Rightarrow> kv_op" where
  "on_key (DoExistKeys ks) = DoExistKeys ks"
| "on_key DoNumItems = DoNumItems"
| "on_key (DoDeleteKeys ks) = DoDeleteKeys ks"
| "on_key (DoPushMany left k vs) = DoPushMany left k vs"
| "on_key (DoType k) = DoType (Key k)"
| "on_key (DoExists k) = DoExists (Key k)"
| "on_key (DoSetInt k i) = DoSetInt (Key k) i"
| "on_key (DoIncrBy k i) = DoIncrBy (Key k) i"
| "on_key (DoDecrBy k i) = DoDecrBy (Key k) i"
| "on_key (DoSetString k v) = DoSetString (Key k) v"
| "on_key (DoStrLen k e) = DoStrLen (Key k) e"
| "on_key (DoGet k) = DoGet (Key k)"
| "on_key (DoDelete k) = DoDelete (Key k)"
| "on_key (DoAppend k v) = DoAppend (Key k) v"
| "on_key (DoPush left k v) = DoPush left (Key k) v"
| "on_key (DoPop left k) = DoPop left (Key k)"
| "on_key (DoRange k b e) = DoRange (Key k) b e"
| "on_key (DoListLen k) = DoListLen (Key k)"
| "on_key (DoItemAt k i) = DoItemAt (Key k) i"
| "on_key (DoSetItemAt k i v) = DoSetItemAt (Key k) i v"
| "on_key (DoHSet k f v) = DoHSet (Key k) f v"
| "on_key (DoHSetMany k fs vs) = DoHSetMany (Key k) fs vs"
| "on_key (DoHGet k f) = DoHGet (Key k) f"
| "on_key (DoHGetMany k fs) = DoHGetMany (Key k) fs"
| "on_key (DoHDel k f) = DoHDel (Key k) f"
| "on_key (DoHDelMany k fs) = DoHDelMany (Key k) fs"
| "on_key (DoHExists k f) = DoHExists (Key k) f"
| "on_key (DoHLen k) = DoHLen (Key k)"
| "on_key (DoSAdd k x) = DoSAdd (Key k) x"
| "on_key (DoSAddMany k xs) = DoSAddMany (Key k) xs"
| "on_key (DoSIsMember k x) = DoSIsMember (Key k) x"
| "on_key (DoSMIsMember k xs) = DoSMIsMember (Key k) xs"
| "on_key (DoSRem k xs) = DoSRem (Key k) xs"
| "on_key (DoSCard k) = DoSCard (Key k)"

fun as_bool :: "kv_op \<Rightarrow> kv_result \<Rightarrow> kv_result" where
  "as_bool (DoSRem k xs) (VInt n, e) = (VBool (n \<noteq> 0), e)"
| "as_bool c r = r"

definition str_spec :: "(string \<rightharpoonup> avalue) \<Rightarrow> kv_op \<Rightarrow> (string \<rightharpoonup> avalue) \<times> kv_result" where
  "str_spec m c = (case kv_spec m (on_key c) of (m', r) \<Rightarrow> (m', as_bool c r))"

lemmas str_overloads =
  QueryObjectType_str_def KeyExists_str_def SetInt_str_def IncrIntBy_str_def IncrInt_str_def DecrIntBy_str_def
  DecrInt_str_def SetString_str_def StrLen_str_def Get_str_def Delete_str_def Append_str_def LeftPush_str_def RightPush_str_def
  LeftPop_str_def RightPop_str_def ListRange_str_def ListRangeAsStdString_str_def ListLen_str_def
  ListItemAtIndex_str_def ListSetItemAtIndex_str_def HashUpdateKV_str_def HashGetValue_str_def HashDelField_str_def
  HashExistField_str_def HashGetAllEntries_str_def HashGetAllFields_str_def HashGetAllValues_str_def HashLen_str_def
  SetAddItem_str_def SetAddItem_members_str_def SetIsMember_str_def SetMIsMember_str_def SetGetMembers_str_def
  SetGetMemberCount_str_def SetRemoveMembers_str_def


lemma str_call_eq: "str_call now s c = (case kv_call now s (on_key c) of (s', r) \<Rightarrow> (s', as_bool c r))"
  by (cases c) (simp_all add: str_overloads or_fault_def split: prod.split sum.split)

interpretation str_calls: call_refinement kv_abs kv_inv "\<lambda>m c. kv_ok m (on_key (snd c))" str_step "\<lambda>m c. str_spec m (snd c)"
proof
  fix s s' c r
  assume a: "kv_inv s" "kv_ok (kv_abs s) (on_key (snd c))" "str_step s c = (s', r)"
  obtain s1 r1 where k: "kv_call (fst c) s (on_key (snd c)) = (s1, r1)"
    by (cases "kv_call (fst c) s (on_key (snd c))")
  then have "s' = s1" "r = as_bool (snd c) r1" using a(3) by (simp_all add: str_step_def str_call_eq)
  with kv_call_refines [OF a(1,2), of "fst c"] k
  show "kv_inv s'" "str_spec (kv_abs s) (snd c) = (kv_abs s', r)" by (simp_all add: refines_def str_spec_def)
qed

text \<open>No key of the map holds a NUL.\<close>

abbreviation (input) clean_keys :: "(string \<rightharpoonup> avalue) \<Rightarrow> bool" where
  "clean_keys m \<equiv> (\<forall>k \<in> dom m. c_str k = k)"

lemma Key_clean [simp]: "c_str (Key k) = Key k"
  by (simp add: Key_def)

lemma str_spec_clean: "clean_keys m \<Longrightarrow> clean_keys (fst (str_spec m c))"
  by (cases c) (auto simp: str_spec_def Let_def split: option.splits avalue.splits sum.splits list.splits if_splits)

section \<open>Properties\<close>

text \<open>
  C20. Every history of calls with \<open>std::string\<close> keys is a history of the abstract map in which a key stands for
  its characters before the first NUL: the results and error codes are those of the map (removing members reports
  only whether any was removed), strings with the same characters before the first NUL are the same key,
  and no key of the map holds a NUL.
\<close>

theorem string_keys_history:
  assumes "calls_ok (\<lambda>m c. kv_ok m (on_key (snd c))) (\<lambda>m c. str_spec m (snd c)) Map.empty calls"
    and "run_calls str_step KVContainer_new calls = (s, results)"
  shows "run_calls (\<lambda>m c. str_spec m (snd c)) Map.empty calls = (kv_abs s, results) \<and> (\<forall>k \<in> dom (kv_abs s). c_str k = k) \<and>
    (\<forall>now i k k'. c_str k = c_str k' \<longrightarrow> str_call now s (DoGet k) = str_call now s (DoGet k') \<and>
       str_call now s (DoSetInt k i) = str_call now s (DoSetInt k' i) \<and> str_call now s (DoDelete k) = str_call now s (DoDelete k'))"
proof -
  have run: "run_calls (\<lambda>m c. str_spec m (snd c)) Map.empty calls = (kv_abs s, results)"
    using str_calls.run_refines [OF kv_inv_new(1), unfolded kv_inv_new(2), OF assms] by simp
  have "clean_keys m'" if "run_calls (\<lambda>m c. str_spec m (snd c)) m cs = (m', rs)" "clean_keys m" for m m' rs and cs :: "(u64 \<times> kv_op) list"
    using that
  proof (induction cs arbitrary: m rs)
    case (Cons c cs)
    obtain m1 r where c: "str_spec m (snd c) = (m1, r)" by (cases "str_spec m (snd c)")
    then have "clean_keys m1" using str_spec_clean [OF Cons.prems(2), of "snd c"] by simp
    then show ?case using Cons.IH Cons.prems(1) c by (auto split: prod.splits)
  qed simp
  from this [OF run] have "clean_keys (kv_abs s)" by simp
  then show ?thesis using run by (simp add: str_overloads Key_def)
qed

theorem string_keys_history_witness:
  "\<exists>s results. run_calls str_step KVContainer_new
       [(1, DoSetInt [CHR ''n'', CHR 0x00, CHR ''a''] 41), (2, DoIncrBy [CHR ''n'', CHR 0x00, CHR ''b''] 1), (3, DoDelete ''m'')] = (s, results) \<and>
     kv_abs s = [''n'' \<mapsto> AInt 42] \<and> results = [(VBool True, None), (VInt 42, Some 200), (VBool False, None)]"
proof -
  let ?calls = "[(1, DoSetInt [CHR ''n'', CHR 0x00, CHR ''a''] 41), (2, DoIncrBy [CHR ''n'', CHR 0x00, CHR ''b''] 1), (3, DoDelete ''m'')]
    :: (u64 \<times> kv_op) list"
  obtain s results where run: "run_calls str_step KVContainer_new ?calls = (s, results)" by (cases "run_calls str_step KVContainer_new ?calls")
  have k: "Key [CHR ''n'', CHR 0x00, c] = ''n''" "Key ''m'' = ''m''" for c by (simp_all add: Key_def c_str_def)
  have ok: "calls_ok (\<lambda>m c. kv_ok m (on_key (snd c))) (\<lambda>m c. str_spec m (snd c)) Map.empty ?calls"
    by (simp add: str_spec_def k in_int64_def)
  have "run_calls (\<lambda>m c. str_spec m (snd c)) Map.empty ?calls =
      ([''n'' \<mapsto> AInt 42], [(VBool True, None), (VInt 42, Some 200), (VBool False, None)])"
    by (simp add: str_spec_def k)
  with string_keys_history [OF ok run] run show ?thesis by auto
qed

end
