(* ===== verification/AuxParser.thy ===== *)
theory AuxParser
  imports Protocol
begin

text \<open>
  \<open>AuxiliaryReadProc\<close> of \<open>src/src/net/protocol.cpp\<close>, the incremental parser of the arguments of a request. It takes the arguments
  out of the buffer one by one, keeps them in the cache, and leaves the bytes of an unfinished argument for the next call.

  The length of an argument is a \<open>size_t\<close> made from the \<open>long\<close> that \<open>strtol\<close> returns (\<open>size_of\<close>), and adding 2 to it wraps around.
  The result is the buffer, the cache and the returned flag.
\<close>

section \<open>The parser\<close>

definition AuxiliaryReadProcCleanup :: "buffer \<Rightarrow> command_cache \<Rightarrow> buffer \<times> command_cache" where
  "AuxiliaryReadProcCleanup b cache = (Buffer_Reset b, CommandCache_Clear cache)"

definition size_plus :: "nat \<Rightarrow> nat \<Rightarrow> nat" where
  "size_plus a b = size_of (int a + int b)"

lemma ReadableBytes_forward_le: "ReadableBytes (ReaderIdxForward b n) = ReadableBytes b - n"
  by (auto simp: ReaderIdxForward_def ReadableBytes_def)

lemma till_consumes:
  "(b1, Some line) = ReadAndForwardTill b CRLF \<Longrightarrow> 0 < ReadableBytes b \<Longrightarrow> ReadableBytes b1 < ReadableBytes b"
  by (auto simp: ReadAndForwardTill_def ReadableBytes_forward_le CRLF_def split: option.splits)

lemma read_forward_less: "ReadableBytes b < m \<Longrightarrow> ReadableBytes (fst (ReadStdStringAndForward b n)) - 2 < m"
  by (auto simp: ReadStdStringAndForward_def ReadableBytes_forward_le)

function AuxiliaryReadProc :: "buffer \<Rightarrow> command_cache \<Rightarrow> buffer \<times> command_cache \<times> bool" where
  "AuxiliaryReadProc b cache =
     (if ReadableBytes b > 0 \<and> unat (argc cache) > length (argv cache)
      then case ReadAndForwardTill b CRLF of
             (b1, None) \<Rightarrow> (b1, cache, True)
           | (b1, Some line) \<Rightarrow>
               if line = [] then (b1, cache, True)
               else if hd line \<noteq> CHR ''$'' then (case AuxiliaryReadProcCleanup b1 cache of (b', c') \<Rightarrow> (b', c', False))
               else let arg_len = size_of (fst (strtoll (c_str (tl line))))
                    in if ReadableBytes b1 < size_plus arg_len 2
                       then (ReaderIdxBackward b1 (length line + 2), cache, True)
                       else let b2 = fst (ReadStdStringAndForward b1 arg_len); arg = snd (ReadStdStringAndForward b1 arg_len)
                            in if ReadStdString b2 2 \<noteq> CRLF
                               then (case AuxiliaryReadProcCleanup b2 cache of (b', c') \<Rightarrow> (b', c', False))
                               else AuxiliaryReadProc (ReaderIdxForward b2 2) (cache\<lparr>argv := argv cache @ [arg]\<rparr>)
      else (b, cache, True))"
  by auto
termination
  by (relation "measure (\<lambda>(b, c). ReadableBytes b)")
    (auto simp: ReadableBytes_forward_le intro!: read_forward_less till_consumes)

declare AuxiliaryReadProc.simps [simp del]

section \<open>Lemmas\<close>

lemma size_plus_small [simp]: "a + b < 2 ^ 64 \<Longrightarrow> size_plus a b = a + b"
  by (simp add: size_plus_def size_of_def nat_add_distrib)

lemma forward_backward: "n \<le> ReadableBytes b \<Longrightarrow> ReaderIdxBackward (ReaderIdxForward b n) n = b"
  by (simp add: ReaderIdxForward_def ReaderIdxBackward_def PrependableBytes_def)

lemma till_correct:
  assumes "buf_inv b"
  shows "ReadAndForwardTill b CRLF =
    (case std_search CRLF (readable b) of
       None \<Rightarrow> (b, None)
     | Some i \<Rightarrow> (ReaderIdxForward b (i + 2), Some (take i (readable b))))"
proof -
  have "i \<le> length s" if "std_search CRLF s = Some i" for i s
    using that by (induction s arbitrary: i) (auto simp: CRLF_def split: if_splits)
  then show ?thesis
    by (auto simp: ReadAndForwardTill_def ReadableBytes_length [OF assms] bytes_from_readable [OF assms] split: option.split)
qed

text \<open>A proper prefix of a header line holds no CRLF.\<close>

lemma search_no_crlf: "(\<forall>c \<in> set s. c \<noteq> CHR 0x0A) \<Longrightarrow> std_search CRLF s = None"
proof (induction s)
  case (Cons c s)
  then show ?case by (cases s) (auto simp: CRLF_def)
qed (simp add: CRLF_def)

definition item_header :: "string \<Rightarrow> string" where
  "item_header a = CHR ''$'' # to_string_nat (length a) @ CRLF"

lemma item_header_eq: "item_protocol a = item_header a @ a @ CRLF"
  by (simp add: item_protocol_eq item_header_def)

lemma prefix_split: "xs @ s = ys @ t \<Longrightarrow> length ys \<le> length xs \<Longrightarrow> \<exists>u. xs = ys @ u"
  by (rule exI [of _ "drop (length ys) xs"]) (metis append_eq_conv_conj append_take_drop_id take_append take_all)

lemma header_prefix_no_crlf:
  assumes "r @ s = item_header a @ t" "length r < length (item_header a)"
  shows "std_search CRLF r = None"
proof -
  let ?l = "CHR ''$'' # to_string_nat (length a) @ [CHR 0x0D]"
  have h: "item_header a = ?l @ [CHR 0x0A]" by (simp add: item_header_def CRLF_def)
  have "length r \<le> length ?l" using assms(2) by (simp add: h)
  then have "take (length r) (item_header a @ t) = take (length r) ?l" unfolding h append_assoc by (simp only: take_append) simp
  then have "r = take (length r) ?l" using assms(1) by (metis append_eq_conv_conj)
  then have "set r \<subseteq> set ?l" by (metis set_take_subset)
  then show ?thesis using set_to_string_nat [of "CHR 0x0A" "length a"] by (intro search_no_crlf) (auto simp: is_digit_def)
qed

lemma strtol_header: "n < 2 ^ 63 \<Longrightarrow> size_of (fst (strtoll (c_str (to_string_nat n)))) = n"
proof -
  assume n: "n < 2 ^ 63"
  have "c_str (to_string_nat n) = to_string_nat n" using c_str_std_to_string [of "int n"] by (simp add: std_to_string_def)
  moreover have "fst (strtoll (std_to_string (int n))) = int n" using strtoll_to_string [of "int n" "[]"] n by (simp add: in_int64_def)
  ultimately show ?thesis using n by (simp add: std_to_string_def)
qed

lemma till_header:
  assumes "buf_inv b" "readable b = item_header a @ u"
  shows "ReadAndForwardTill b CRLF = (ReaderIdxForward b (length (item_header a)), Some (CHR ''$'' # to_string_nat (length a)))"
proof -
  let ?l = "CHR ''$'' # to_string_nat (length a)"
  have "CHR 0x0D \<notin> set ?l" using set_to_string_nat [of "CHR 0x0D" "length a"] by (auto simp: is_digit_def)
  then have "std_search CRLF (readable b) = Some (length ?l)"
    using std_search_append_crlf [of ?l u] unfolding assms(2) item_header_def CRLF_def by simp
  moreover have "take (length ?l) (readable b) = ?l" by (simp add: assms(2) item_header_def)
  ultimately show ?thesis unfolding till_correct [OF assms(1)] by (simp add: item_header_def)
qed

text \<open>The first item is in the buffer: one iteration takes it out.\<close>

lemma aux_item:
  assumes inv: "buf_inv b" and r: "readable b = item_protocol a @ rest" and n: "length a < 2 ^ 63"
    and more: "length (argv c) < unat (argc c)"
  shows "AuxiliaryReadProc b c =
    AuxiliaryReadProc (ReaderIdxForward (ReaderIdxForward (ReaderIdxForward b (length (item_header a))) (length a)) 2)
      (c\<lparr>argv := argv c @ [a]\<rparr>)"
proof -
  let ?b1 = "ReaderIdxForward b (length (item_header a))"
  have line: "readable b = item_header a @ a @ CRLF @ rest" using r by (simp add: item_header_eq)
  have b1: "buf_inv ?b1" "readable ?b1 = a @ CRLF @ rest" using forward_correct [OF inv] by (simp_all add: line)
  have b2: "buf_inv (ReaderIdxForward ?b1 (length a))" "readable (ReaderIdxForward ?b1 (length a)) = CRLF @ rest"
    using forward_correct [OF b1(1)] b1(2) by simp_all
  have "ReadStdStringAndForward ?b1 (length a) = (ReaderIdxForward ?b1 (length a), a)"
    by (simp add: ReadStdStringAndForward_def ReadableBytes_length b1 bytes_from_readable)
  moreover have "ReadStdString (ReaderIdxForward ?b1 (length a)) 2 = CRLF"
    using ReadStdString_correct [OF b2(1), of 2] by (simp add: b2(2))
  moreover have "0 < ReadableBytes b" by (simp add: ReadableBytes_length inv line)
  moreover have "\<not> ReadableBytes ?b1 < size_plus (length a) 2" using n by (simp add: ReadableBytes_length b1)
  ultimately show ?thesis
    using more by (subst AuxiliaryReadProc.simps) (simp add: till_header [OF inv line] strtol_header [OF n] Let_def)
qed

text \<open>The first item is incomplete: the buffer and the cache stay as they are.\<close>

lemma aux_partial:
  assumes inv: "buf_inv b" and r: "readable b @ s = item_protocol a @ t" "length (readable b) < length (item_protocol a)"
    and n: "length a < 2 ^ 63"
  shows "AuxiliaryReadProc b c = (b, c, True)"
proof (cases "length (readable b) < length (item_header a)")
  case True
  then have "std_search CRLF (readable b) = None"
    using header_prefix_no_crlf [of "readable b" s a "a @ CRLF @ t"] r(1) by (simp add: item_header_eq)
  then show ?thesis by (subst AuxiliaryReadProc.simps) (simp add: till_correct [OF inv])
next
  case False
  let ?b1 = "ReaderIdxForward b (length (item_header a))"
  obtain u where u: "readable b = item_header a @ u" using prefix_split [of "readable b" s "item_header a" "a @ CRLF @ t"] r(1) False
    by (auto simp: item_header_eq)
  have "ReadableBytes ?b1 < length a + 2"
    using r(2) forward_correct [OF inv, of "length (item_header a)"] by (simp add: ReadableBytes_length u item_header_eq)
  moreover have "ReaderIdxBackward ?b1 (Suc (Suc (Suc (length (to_string_nat (length a)))))) = b" using False forward_backward [of "length (item_header a)" b]
    by (simp add: ReadableBytes_length inv item_header_def numeral_3_eq_3)
  ultimately show ?thesis using n
    by (subst AuxiliaryReadProc.simps) (simp add: till_header [OF inv u] strtol_header [OF n] Let_def)
qed

text \<open>A prefix of the items: the complete ones are taken out.\<close>

lemma aux_prefix:
  assumes "buf_inv b" "readable b @ s = concat (map item_protocol as)" "\<forall>a \<in> set as. length a < 2 ^ 63"
    and "unat (argc c) = length (argv c) + length as"
  shows "\<exists>j b'. AuxiliaryReadProc b c = (b', c\<lparr>argv := argv c @ take j as\<rparr>, True) \<and> buf_inv b' \<and>
    readable b' @ s = concat (map item_protocol (drop j as)) \<and> (s = [] \<longrightarrow> length as \<le> j)"
  using assms
proof (induction as arbitrary: b c)
  case Nil
  then show ?case by (subst AuxiliaryReadProc.simps) (auto simp: ReadableBytes_length)
next
  case (Cons a as)
  have r: "readable b @ s = item_protocol a @ concat (map item_protocol as)" and n: "length a < 2 ^ 63" using Cons.prems by simp_all
  show ?case
  proof (cases "length (readable b) < length (item_protocol a)")
    case True
    then have "s \<noteq> []" using r by auto
    then show ?thesis using aux_partial [OF Cons.prems(1) r True n] Cons.prems(1,2)
      by (intro exI [of _ 0] exI [of _ b]) (cases c, simp)
  next
    case False
    then obtain rest where rest: "readable b = item_protocol a @ rest" using prefix_split [OF r] by auto
    let ?b = "ReaderIdxForward (ReaderIdxForward (ReaderIdxForward b (length (item_header a))) (length a)) 2"
    let ?c = "c\<lparr>argv := argv c @ [a]\<rparr>"
    have b: "buf_inv ?b" "readable ?b = rest"
      using Cons.prems(1) by (simp_all add: forward_correct rest item_header_eq)
    have step: "AuxiliaryReadProc b c = AuxiliaryReadProc ?b ?c"
      using Cons.prems(1,4) by (intro aux_item [OF _ rest n]) simp_all
    have "readable ?b @ s = concat (map item_protocol as)" using r rest b(2) by simp
    from Cons.IH [OF b(1) this, of ?c] Cons.prems(3,4) obtain j b' where
      "AuxiliaryReadProc ?b ?c = (b', ?c\<lparr>argv := argv ?c @ take j as\<rparr>, True)" "buf_inv b'"
      "readable b' @ s = concat (map item_protocol (drop j as))" "s = [] \<longrightarrow> length as \<le> j" by auto
    then show ?thesis using step by (intro exI [of _ "Suc j"] exI [of _ b']) simp
  qed
qed

text \<open>A request whose arguments arrive in pieces, the parser called after each piece until it fails.\<close>

definition aux_feed :: "string \<Rightarrow> buffer \<times> command_cache \<times> bool \<Rightarrow> buffer \<times> command_cache \<times> bool" where
  "aux_feed chunk st = (case st of (b, c, ok) \<Rightarrow> if ok then AuxiliaryReadProc (Buffer_Append b chunk) c else st)"

lemma aux_feed_chunks:
  assumes "buf_inv b" "readable b @ concat chunks = concat (map item_protocol as)" "\<forall>a \<in> set as. length a < 2 ^ 63"
    and "unat (argc c) = length (argv c) + length as" "chunks \<noteq> []"
  shows "\<exists>b'. fold aux_feed chunks (b, c, True) = (b', c\<lparr>argv := argv c @ as\<rparr>, True) \<and> buf_inv b' \<and> readable b' = []"
  using assms
proof (induction chunks arbitrary: b c as)
  case (Cons chunk chunks)
  let ?b = "Buffer_Append b chunk"
  have b: "buf_inv ?b" "readable ?b @ concat chunks = concat (map item_protocol as)"
    using Cons.prems(1,2) by (simp_all add: append_correct)
  obtain j b1 where s: "AuxiliaryReadProc ?b c = (b1, c\<lparr>argv := argv c @ take j as\<rparr>, True)" "buf_inv b1"
    "readable b1 @ concat chunks = concat (map item_protocol (drop j as))" "concat chunks = [] \<longrightarrow> length as \<le> j"
    using aux_prefix [OF b Cons.prems(3,4)] by blast
  show ?case
  proof (cases "chunks = []")
    case True
    then show ?thesis using s by (simp add: aux_feed_def)
  next
    case False
    have "aux_feed chunk (b, c, True) = (b1, c\<lparr>argv := argv c @ take j as\<rparr>, True)" by (simp add: aux_feed_def s(1))
    moreover have "\<forall>a \<in> set (drop j as). length a < 2 ^ 63" "length as = min (length as) j + (length as - j)"
      using Cons.prems(3) by (auto dest: in_set_dropD)
    ultimately show ?thesis using Cons.IH [OF s(2,3), of "c\<lparr>argv := argv c @ take j as\<rparr>"] False Cons.prems(4) by simp
  qed
qed simp

section \<open>Properties\<close>

text \<open>
  C21. The incremental parser resumes. However the bytes of the arguments of a request are cut into pieces, calling \<open>AuxiliaryReadProc\<close> after each
  piece yields all arguments in order, consumes exactly their bytes and reports no error: the same arguments \<open>TryParseFromBuffer\<close> finds
  when the whole request is there (and which it loses when the request is cut between arguments).
\<close>

theorem incremental_parser_resumes:
  assumes "buf_inv b" "readable b = []" "argv c = []" "argc c = of_nat (length args)" "chunks \<noteq> []"
    and "concat chunks = concat (map item_protocol args)" "length args < 2 ^ 63" "\<forall>a \<in> set args. length a < 2 ^ 63"
    and "buf_inv b0" "readable b0 = request args" "argv c0 = []"
  shows "\<exists>b' b1 c1. fold aux_feed chunks (b, c, True) = (b', c\<lparr>argv := args\<rparr>, True) \<and> readable b' = [] \<and>
    TryParseFromBuffer b0 c0 err = Some (b1, c1, err, True) \<and> argv c1 = args \<and> readable b1 = []"
proof -
  have "unat (argc c) = length (argv c) + length args" using assms(3,4,7) by (simp add: unat_of_nat)
  from aux_feed_chunks [OF assms(1) _ assms(8) this assms(5)] assms(2,3,6)
  obtain b' where "fold aux_feed chunks (b, c, True) = (b', c\<lparr>argv := args\<rparr>, True)" "readable b' = []" by auto
  moreover have "readable b0 = request args @ []" using assms(10) by simp
  from TryParse_complete [OF assms(9) this assms(7,8,11), of err] forward_correct(2) [OF assms(9), of "length (request args)"] assms(10)
  have "\<exists>b1 c1. TryParseFromBuffer b0 c0 err = Some (b1, c1, err, True) \<and> argv c1 = args \<and> readable b1 = []" by simp
  ultimately show ?thesis by blast
qed

theorem incremental_parser_resumes_witness:
  "\<exists>b'. fold aux_feed [''$2'' @ CRLF @ ''l'', ''p'' @ CRLF @ ''$1'', CRLF @ ''k'' @ CRLF]
      (Buffer_new 8, CommandCache_new\<lparr>argc := 2\<rparr>, True) = (b', CommandCache_new\<lparr>argc := 2, argv := [''lp'', ''k'']\<rparr>, True) \<and> readable b' = []"
proof -
  let ?args = "[''lp'', ''k'']" and ?b0 = "Buffer_Append (Buffer_new 8) (request [''lp'', ''k''])"
  have d: "digit_char 1 = CHR ''1''" "digit_char 2 = CHR ''2''" by (simp_all add: digit_char_def char_of_eq_iff)
  have "item_protocol ''lp'' = ''$2'' @ CRLF @ ''lp'' @ CRLF" "item_protocol ''k'' = ''$1'' @ CRLF @ ''k'' @ CRLF"
    by (simp_all add: item_protocol_eq to_string_nat.simps d [simplified] numeral_2_eq_2 [symmetric])
  then have e: "concat [''$2'' @ CRLF @ ''l'', ''p'' @ CRLF @ ''$1'', CRLF @ ''k'' @ CRLF] = concat (map item_protocol ?args)" by simp
  have b0: "buf_inv ?b0" "readable ?b0 = request ?args" using append_correct buf_inv_new by simp_all
  show ?thesis
    using incremental_parser_resumes [OF buf_inv_new(1) [of 8] buf_inv_new(2) [of 8] _ _ _ e _ _ b0, of "CommandCache_new\<lparr>argc := 2\<rparr>" CommandCache_new False]
    by (auto simp: CommandCache_new_def)
qed

end
