(* ===== verification/Addr.thy ===== *)
theory Addr
  imports Config
begin

text \<open>
  \<open>src/src/net/addr.h\<close>, \<open>src/src/net/addr.cpp\<close> and the byte order helpers of \<open>src/src/net/utils.h\<close>: the IPv4
  address of a server or of a peer, its text, and its form in the socket interface.

  The host is little-endian, so the helpers for the network order reverse the bytes. \<open>inet_pton\<close> reads four decimal
  numbers up to 255 without leading zeros and leaves its destination as it was when the text is anything else;
  \<open>inet_ntop\<close> prints them. An address is four octets; what the memory of an object held before its constructor ran
  is an argument.
\<close>

section \<open>Byte order\<close>

type_synonym u16 = "16 word"

definition HostToNet16 :: "u16 \<Rightarrow> u16" where
  "HostToNet16 host16 = push_bit 8 host16 OR drop_bit 8 host16"

definition HostToNet32 :: "u32 \<Rightarrow> u32" where
  "HostToNet32 host32 =
     (\<Sum>i \<leftarrow> [0 ..< 4]. push_bit (8 * (3 - i)) (take_bit 8 (drop_bit (8 * i) host32)))"

definition HostToNet64 :: "u64 \<Rightarrow> u64" where
  "HostToNet64 host =
     (\<Sum>i \<leftarrow> [0 ..< 8]. push_bit (8 * (7 - i)) (take_bit 8 (drop_bit (8 * i) host)))"

definition NetToHost16 :: "u16 \<Rightarrow> u16" where
  "NetToHost16 net16 = HostToNet16 net16"

definition NetToHost32 :: "u32 \<Rightarrow> u32" where
  "NetToHost32 net32 = HostToNet32 net32"

text \<open>The declared result of \<open>NetToHost64\<close> is a \<open>uint32_t\<close>.\<close>

definition NetToHost64 :: "u64 \<Rightarrow> u32" where
  "NetToHost64 net64 = ucast (HostToNet64 net64)"

section \<open>The text of an address\<close>

type_synonym octets = "u8 \<times> u8 \<times> u8 \<times> u8"

definition octet_text :: "u8 \<Rightarrow> string" where
  "octet_text w = to_string_nat (unat w)"

definition octet_of :: "string \<Rightarrow> u8 option" where
  "octet_of p = (let n = digits_val p in if p = to_string_nat n \<and> n \<le> 255 then Some (of_nat n) else None)"

definition inet_ntop :: "octets \<Rightarrow> string" where
  "inet_ntop q = (case q of (a, b, c, d) \<Rightarrow> octet_text a @ ''.'' @ octet_text b @ ''.'' @ octet_text c @ ''.'' @ octet_text d)"

definition inet_pton :: "string \<Rightarrow> octets option" where
  "inet_pton s =
     (case map octet_of (split_on CHR ''.'' s) of
        [Some a, Some b, Some c, Some d] \<Rightarrow> Some (a, b, c, d)
      | _ \<Rightarrow> None)"

section \<open>Ipv4Addr\<close>

record ipv4_addr =
  addr_str :: string
  addr_port :: u16
  sin_family :: u16
  sin_port :: u16
  sin_addr :: octets

definition InitAddrStr :: "ipv4_addr \<Rightarrow> ipv4_addr" where
  "InitAddrStr a = a\<lparr>addr_str := inet_ntop (sin_addr a)\<rparr>"

definition Ipv4Addr_default :: ipv4_addr where
  "Ipv4Addr_default = \<lparr>addr_str = [], addr_port = 0, sin_family = 0, sin_port = 0, sin_addr = (0, 0, 0, 0)\<rparr>"

definition Ipv4Addr_new :: "octets \<Rightarrow> string \<Rightarrow> u16 \<Rightarrow> ipv4_addr" where
  "Ipv4Addr_new memory ip port =
     InitAddrStr \<lparr>addr_str = ip, addr_port = port, sin_family = 2, sin_port = HostToNet16 port,
       sin_addr = (case inet_pton (c_str ip) of None \<Rightarrow> memory | Some q \<Rightarrow> q)\<rparr>"

definition SyncPort :: "ipv4_addr \<Rightarrow> ipv4_addr" where
  "SyncPort a = InitAddrStr (a\<lparr>addr_port := NetToHost16 (sin_port a)\<rparr>)"

definition Ipv4Addr_ToString :: "ipv4_addr \<Rightarrow> string" where
  "Ipv4Addr_ToString a = addr_str a @ '':'' @ std_to_string (uint (addr_port a))"

text \<open>
  \<open>accept\<close> fills in the family, the port in network order and the address of the peer; then the server calls \<open>SyncPort\<close>.
\<close>

definition peer_addr :: "octets \<Rightarrow> u16 \<Rightarrow> ipv4_addr" where
  "peer_addr q port =
     SyncPort (Ipv4Addr_default\<lparr>sin_family := 2, sin_port := HostToNet16 port, sin_addr := q\<rparr>)"

section \<open>Lemmas\<close>

lemma NetToHost16_HostToNet16 [simp]: "NetToHost16 (HostToNet16 w) = w"
  unfolding NetToHost16_def HostToNet16_def
  by (rule bit_word_eqI) (auto simp: bit_simps)

lemma port_bytes:
  "take_bit 8 (HostToNet16 w) = drop_bit 8 w" "drop_bit 8 (HostToNet16 w) = take_bit 8 w"
  subgoal by (rule bit_word_eqI) (auto simp: HostToNet16_def bit_simps dest: bit_imp_le_length)
  subgoal by (rule bit_word_eqI) (auto simp: HostToNet16_def bit_simps)
  done

lemma split_on_append: "d \<notin> set p \<Longrightarrow> split_on d (p @ d # s) = p # split_on d s"
  by (induction p) auto

lemma split_on_none: "d \<notin> set p \<Longrightarrow> split_on d p = [p]"
  by (induction p) auto

lemma digits_not_dot: "c \<in> set (to_string_nat n) \<Longrightarrow> c \<noteq> CHR ''.'' \<and> c \<noteq> CHR '':'' \<and> c \<noteq> CHR ''#'' \<and> c \<noteq> CHR 0x00"
  using set_to_string_nat [of c n] by (auto simp: is_digit_def)

lemma octet_of_text [simp]: "octet_of (octet_text w) = Some w"
proof -
  have "unat w < 256" using unsigned_less [of w] by simp
  then show ?thesis by (simp add: octet_of_def octet_text_def)
qed

lemma octet_of_Some: "octet_of p = Some w \<Longrightarrow> p = octet_text w"
  by (auto simp: octet_of_def octet_text_def Let_def unat_of_nat split: if_splits)

lemma octet_text_no_dot: "CHR ''.'' \<notin> set (octet_text w)"
  using digits_not_dot by (auto simp: octet_text_def)

lemma split_ntop: "split_on CHR ''.'' (inet_ntop (a, b, c, d)) = map octet_text [a, b, c, d]"
  by (simp add: inet_ntop_def octet_text_no_dot split_on_append split_on_none)

lemma pton_ntop [simp]: "inet_pton (inet_ntop q) = Some q"
  by (cases q) (simp add: inet_pton_def split_ntop)

lemma join_split_on: "concat (map (\<lambda>p. d # p) (split_on d s)) = d # s"
proof (induction s)
  case (Cons c s)
  then show ?case by (cases "split_on d s") auto
qed simp

lemma pton_Some: "inet_pton s = Some q \<longleftrightarrow> s = inet_ntop q"
proof
  assume "inet_pton s = Some q"
  then obtain p1 p2 p3 p4 a b c d where sp: "split_on CHR ''.'' s = [p1, p2, p3, p4]" and q: "q = (a, b, c, d)"
    and o: "octet_of p1 = Some a" "octet_of p2 = Some b" "octet_of p3 = Some c" "octet_of p4 = Some d"
    unfolding inet_pton_def by (auto split: list.splits option.splits)
  have "CHR ''.'' # s = concat (map (\<lambda>p. CHR ''.'' # p) [p1, p2, p3, p4])" using join_split_on [of "CHR ''.''" s] sp by simp
  then show "s = inet_ntop q" using o [THEN octet_of_Some] q by (simp add: inet_ntop_def)
qed simp

lemma length_octet_text: "length (octet_text w) \<le> 3"
  using unsigned_less [of w, where ?'a = nat] length_to_string_nat_le [of "unat w" 2] by (simp add: octet_text_def)

lemma length_ntop: "length (inet_ntop q) \<le> 15"
proof -
  obtain a b c d where q: "q = (a, b, c, d)" by (cases q)
  show ?thesis using length_octet_text [of a] length_octet_text [of b] length_octet_text [of c] length_octet_text [of d]
    by (simp add: q inet_ntop_def)
qed

lemma set_ntop: "c \<in> set (inet_ntop q) \<Longrightarrow> is_digit c \<or> c = CHR ''.''"
  using set_to_string_nat by (cases q) (auto simp: inet_ntop_def octet_text_def)

lemma ToString_eq:
  "sin_addr a = q \<Longrightarrow> addr_str a = inet_ntop q \<Longrightarrow> Ipv4Addr_ToString a = inet_ntop q @ '':'' @ std_to_string (uint (addr_port a))"
  by (simp add: Ipv4Addr_ToString_def)

lemma peer_addr_fields [simp]:
  "addr_port (peer_addr q port) = port" "sin_addr (peer_addr q port) = q" "addr_str (peer_addr q port) = inet_ntop q"
  by (simp_all add: peer_addr_def SyncPort_def InitAddrStr_def)

lemma port_text: "std_to_string (uint (w :: u16)) = to_string_nat (unat w)"
  by (simp add: std_to_string_def)

text \<open>The text of an address ends at its colon, so the text determines the address and the port.\<close>

lemma address_text_inject:
  fixes p p' :: u16
  assumes "inet_ntop q @ '':'' @ std_to_string (uint p) @ r = inet_ntop q' @ '':'' @ std_to_string (uint p') @ r'"
    and "\<not> is_digit (hd (r @ [CHR 0x00]))" "\<not> is_digit (hd (r' @ [CHR 0x00]))"
  shows "q = q' \<and> p = p' \<and> r = r'"
proof -
  let ?t = "takeWhile (\<lambda>c. c \<noteq> CHR '':'')"
  have colon: "c \<noteq> CHR '':''" if "c \<in> set (inet_ntop x)" for c x using set_ntop [OF that] by (auto simp: is_digit_def)
  have t: "?t (inet_ntop x @ '':'' @ y) = inet_ntop x" for x y by (simp add: takeWhile_append2 colon)
  have q: "inet_ntop q = inet_ntop q'" using arg_cong [OF assms(1), of ?t] by (simp only: t)
  have n: "to_string_nat (unat p) @ r = to_string_nat (unat p') @ r'" using assms(1) q by (simp add: port_text)
  have d: "takeWhile is_digit (to_string_nat k @ s) = to_string_nat k" if "\<not> is_digit (hd (s @ [CHR 0x00]))" for k s
    using that set_to_string_nat [of _ k] by (cases s) (simp_all add: takeWhile_append2)
  have "to_string_nat (unat p) = to_string_nat (unat p')" using arg_cong [OF n, of "takeWhile is_digit"] d assms(2,3) by simp
  then have "p = p'" "r = r'" using n by (metis digits_val_to_string unsigned_word_eqI, simp)
  moreover have "q = q'" using q by (metis pton_ntop option.inject)
  ultimately show ?thesis by blast
qed

text \<open>\<open>ValidateIpv4\<close> and \<open>inet_pton\<close> agree on texts of four parts.\<close>

lemma octet_validated: "CanConvertToInt32 p = Some v \<Longrightarrow> 0 \<le> v \<Longrightarrow> v \<le> 255 \<Longrightarrow> octet_of p = Some (word_of_int v)"
  unfolding CanConvertToInt32_iff octet_of_def by (auto simp: std_to_string_def Let_def)

lemma four_octets: "count_octets [p1, p2, p3, p4] 0 = 4 \<Longrightarrow> \<forall>p \<in> {p1, p2, p3, p4}. \<exists>w. octet_of p = Some w"
  by (auto split: option.splits if_splits dest: octet_validated)

lemma three_octets: "count_octets [p1, p2, p3] 0 \<noteq> 4"
  by (simp split: option.split)

lemma length_4: "length xs = 4 \<Longrightarrow> \<exists>a b c d. xs = [a, b, c, d]"
  by (simp add: length_Suc_conv numeral_eq_Suc) blast

lemma validated_address:
  assumes "ValidateIpv4 ip" "length (split_on CHR ''.'' ip) = 4"
  obtains q where "ip = inet_ntop q"
proof -
  obtain p1 p2 p3 p4 where sp: "split_on CHR ''.'' ip = [p1, p2, p3, p4]" using length_4 [OF assms(2)] by blast
  have "p4 \<noteq> []" using assms(1) three_octets by (auto simp: ValidateIpv4_def getline_pieces_def sp)
  then have "count_octets [p1, p2, p3, p4] 0 = 4" using assms(1) by (simp add: ValidateIpv4_def getline_pieces_def sp)
  from four_octets [OF this] obtain q where "inet_pton ip = Some q" unfolding inet_pton_def sp by force
  then show ?thesis using that by (simp add: pton_Some)
qed

lemma validated_address_new:
  assumes "ValidateIpv4 ip" "length (split_on CHR ''.'' ip) = 4"
  shows "inet_ntop (sin_addr (Ipv4Addr_new memory ip port)) = ip"
proof -
  obtain q where q: "ip = inet_ntop q" using validated_address [OF assms] .
  have "c_str ip = ip" using set_ntop [of "CHR 0x00" q] by (intro c_str_id) (auto simp: q is_digit_def)
  then show ?thesis by (simp add: Ipv4Addr_new_def InitAddrStr_def q)
qed

section \<open>Properties\<close>

text \<open>
  C23. Addresses survive their way through the socket interface. An address the configuration accepts as four parts
  is the one the socket is bound to, its port is in network order, and the text of the object is the
  configured text with the port. A peer that \<open>accept\<close> reports is printed as that text exactly
  when it has that address and that port, so texts of addresses never confuse two peers.
\<close>

theorem address_roundtrip:
  assumes "ValidateIpv4 ip" "length (split_on CHR ''.'' ip) = 4" "a = Ipv4Addr_new memory ip port"
  shows "inet_ntop (sin_addr a) = ip \<and> take_bit 8 (sin_port a) = drop_bit 8 port \<and> drop_bit 8 (sin_port a) = take_bit 8 port \<and>
    Ipv4Addr_ToString a = ip @ '':'' @ std_to_string (uint port) \<and>
    (\<forall>q port'. Ipv4Addr_ToString (peer_addr q port') = Ipv4Addr_ToString a \<longleftrightarrow> q = sin_addr a \<and> port' = port)"
proof -
  let ?q = "sin_addr a"
  have q: "inet_ntop ?q = ip" using validated_address_new [OF assms(1,2)] assms(3) by simp
  have a: "addr_str a = inet_ntop ?q" "addr_port a = port" "sin_port a = HostToNet16 port"
    by (simp_all add: assms(3) Ipv4Addr_new_def InitAddrStr_def)
  have "Ipv4Addr_ToString (peer_addr q' port') = Ipv4Addr_ToString a \<longleftrightarrow> q' = ?q \<and> port' = port" for q' port'
    using address_text_inject [of q' port' "[]" ?q port "[]"] by (auto simp: Ipv4Addr_ToString_def a is_digit_def)
  moreover note port_bytes [of port]
  ultimately show ?thesis by (simp add: a Ipv4Addr_ToString_def q)
qed

theorem address_roundtrip_witness:
  "Ipv4Addr_ToString (Ipv4Addr_new (1, 2, 3, 4) ''127.0.0.1'' 9527) = ''127.0.0.1:9527'' \<and>
   inet_ntop (sin_addr (Ipv4Addr_new (1, 2, 3, 4) ''127.0.0.1'' 9527)) = ''127.0.0.1''"
proof -
  have "ValidateIpv4 ''127.0.0.1''" "length (split_on CHR ''.'' ''127.0.0.1'') = 4" 
    by code_simp+
  moreover have "to_string_nat 9527 = ''9527''" by (simp add: to_string_nat.simps digit_char_def char_of_eq_iff)
  ultimately show ?thesis using address_roundtrip [of "''127.0.0.1''" _ "(1, 2, 3, 4)" 9527] by (simp add: std_to_string_def)
qed

text \<open>
  A text with a fifth part also passes \<open>ValidateIpv4\<close>; \<open>inet_pton\<close> rejects it and the address keeps what the memory held. The
  64-bit helper returns the lower half of its result.
\<close>

lemma address_defects:
  "ValidateIpv4 ''1.2.3.4.x'' \<and> sin_addr (Ipv4Addr_new memory ''1.2.3.4.x'' port) = memory"
  "NetToHost64 (HostToNet64 (2 ^ 32)) = 0"
proof -
  have "inet_pton ''1.2.3.4.x'' = None" "c_str ''1.2.3.4.x'' = ''1.2.3.4.x''" "ValidateIpv4 ''1.2.3.4.x''" by code_simp+
  then show "ValidateIpv4 ''1.2.3.4.x'' \<and> sin_addr (Ipv4Addr_new memory ''1.2.3.4.x'' port) = memory"
    by (simp add: Ipv4Addr_new_def InitAddrStr_def)
  show "NetToHost64 (HostToNet64 (2 ^ 32)) = 0" by code_simp
qed

end
