(* ===== verification/Descriptors.thy ===== *)
theory Descriptors
  imports Server Addr
begin

text \<open>
  The descriptors of the server: the socket options of \<open>src/src/net/utils.cpp\<close>, the event loop and its \<open>Epoller\<close> of
  \<open>src/src/net/net.cpp\<close>, and the listening socket, the accepted sockets and the shutdown of \<open>src/src/net/server.cpp\<close>.

  The theory \<open>Server\<close> says what these functions do to the sessions. Here every function also yields the
  system calls it makes, in their order. What the system answers is an arbitrary function \<open>os\<close> of the number of calls
  made so far, so nothing is assumed about it; \<open>-1\<close> is a failure. Memory is always available. Destroying a \<open>Session\<close> object closes its
  descriptor; the objects an \<open>unordered_map\<close> destroys are given as lists, in any order.
\<close>

section \<open>System calls\<close>

datatype sockopt = SO_REUSEADDR | SO_REUSEPORT | SO_KEEPALIVE | TCP_KEEPIDLE | TCP_KEEPINTVL | TCP_KEEPCNT | TCP_NODELAY

datatype syscall =
    Socket | GetFlags int | SetFlags int int | SetOption int sockopt int | Bind int octets u16 | Listen int | Accept int
  | EpollCreate | EpollAdd int int u32 | EpollMod int int u32 | EpollDel int int | Close int

definition sys :: "(nat \<Rightarrow> int) \<Rightarrow> syscall \<Rightarrow> syscall list \<Rightarrow> int \<times> syscall list" where
  "sys os call tr = (os (length tr), tr @ [call])"

section \<open>Socket options\<close>

abbreviation (input) OK :: int where "OK \<equiv> 0"
abbreviation (input) ERR :: int where "ERR \<equiv> - 1"
abbreviation (input) O_NONBLOCK :: int where "O_NONBLOCK \<equiv> 2048"

definition SetFdNonBlock :: "(nat \<Rightarrow> int) \<Rightarrow> int \<Rightarrow> syscall list \<Rightarrow> int \<times> syscall list" where
  "SetFdNonBlock os fd tr =
     (let (flags, tr1) = sys os (GetFlags fd) tr
      in if flags = -1 then (ERR, tr1)
         else let (r, tr2) = sys os (SetFlags fd (flags OR O_NONBLOCK)) tr1
              in if r = -1 then (ERR, tr2) else (OK, tr2))"

definition set_option :: "(nat \<Rightarrow> int) \<Rightarrow> int \<Rightarrow> sockopt \<Rightarrow> int \<Rightarrow> syscall list \<Rightarrow> int \<times> syscall list" where
  "set_option os fd opt val tr =
     (let (r, tr1) = sys os (SetOption fd opt val) tr in if r = -1 then (ERR, tr1) else (OK, tr1))"

definition SetTcpNoDelayOption :: "(nat \<Rightarrow> int) \<Rightarrow> int \<Rightarrow> int \<Rightarrow> syscall list \<Rightarrow> int \<times> syscall list" where
  "SetTcpNoDelayOption os fd val tr = set_option os fd TCP_NODELAY val tr"

definition EnableTcpNoDelay :: "(nat \<Rightarrow> int) \<Rightarrow> int \<Rightarrow> syscall list \<Rightarrow> int \<times> syscall list" where
  "EnableTcpNoDelay os fd tr = SetTcpNoDelayOption os fd 1 tr"

definition DisableTcpNoDelay :: "(nat \<Rightarrow> int) \<Rightarrow> int \<Rightarrow> syscall list \<Rightarrow> int \<times> syscall list" where
  "DisableTcpNoDelay os fd tr = SetTcpNoDelayOption os fd 0 tr"

definition SetReuseAddress :: "(nat \<Rightarrow> int) \<Rightarrow> int \<Rightarrow> syscall list \<Rightarrow> int \<times> syscall list" where
  "SetReuseAddress os fd tr = set_option os fd SO_REUSEADDR 1 tr"

definition SetReusePort :: "(nat \<Rightarrow> int) \<Rightarrow> int \<Rightarrow> syscall list \<Rightarrow> int \<times> syscall list" where
  "SetReusePort os fd tr = set_option os fd SO_REUSEPORT 1 tr"

definition SetKeepAlive :: "(nat \<Rightarrow> int) \<Rightarrow> int \<Rightarrow> int \<Rightarrow> int \<Rightarrow> int \<Rightarrow> syscall list \<Rightarrow> int \<times> syscall list" where
  "SetKeepAlive os fd idle interal cnt tr =
     (let (r1, tr1) = set_option os fd SO_KEEPALIVE 1 tr
      in if r1 = ERR then (ERR, tr1)
         else let (r2, tr2) = set_option os fd TCP_KEEPIDLE idle tr1
              in if r2 = ERR then (ERR, tr2)
                 else let (r3, tr3) = set_option os fd TCP_KEEPINTVL interal tr2
                      in if r3 = ERR then (ERR, tr3)
                         else let (r4, tr4) = set_option os fd TCP_KEEPCNT cnt tr3
                              in if r4 = ERR then (ERR, tr4) else (OK, tr4))"

section \<open>The event loop and the epoll descriptor\<close>

record event_loop =
  lp_epfd :: int
  lp_stopped :: bool

definition Epoller_new :: "(nat \<Rightarrow> int) \<Rightarrow> syscall list \<Rightarrow> int \<times> syscall list" where
  "Epoller_new os tr = sys os EpollCreate tr"

definition EventLoop_new :: "(nat \<Rightarrow> int) \<Rightarrow> syscall list \<Rightarrow> event_loop \<times> syscall list" where
  "EventLoop_new os tr = (let (epfd, tr1) = Epoller_new os tr in (\<lparr>lp_epfd = epfd, lp_stopped = False\<rparr>, tr1))"

definition Epoller_Stop :: "(nat \<Rightarrow> int) \<Rightarrow> int \<Rightarrow> syscall list \<Rightarrow> syscall list" where
  "Epoller_Stop os epfd tr = snd (sys os (Close epfd) tr)"

definition EventLoop_Stop :: "(nat \<Rightarrow> int) \<Rightarrow> event_loop \<Rightarrow> syscall list \<Rightarrow> event_loop \<times> syscall list" where
  "EventLoop_Stop os lp tr = (lp\<lparr>lp_stopped := True\<rparr>, Epoller_Stop os (lp_epfd lp) tr)"

definition Epoller_destroy :: "(nat \<Rightarrow> int) \<Rightarrow> int \<Rightarrow> syscall list \<Rightarrow> syscall list" where
  "Epoller_destroy os epfd tr = snd (sys os (Close epfd) tr)"

definition EventLoop_destroy :: "(nat \<Rightarrow> int) \<Rightarrow> event_loop \<Rightarrow> syscall list \<Rightarrow> syscall list" where
  "EventLoop_destroy os lp tr = Epoller_destroy os (lp_epfd lp) tr"

definition AddFd :: "(nat \<Rightarrow> int) \<Rightarrow> int \<Rightarrow> int \<Rightarrow> u32 \<Rightarrow> syscall list \<Rightarrow> bool \<times> syscall list" where
  "AddFd os epfd fd events tr =
     (if epfd = -1 then (False, tr) else let (r, tr1) = sys os (EpollAdd epfd fd events) tr in (r = 0, tr1))"

definition DelFd :: "(nat \<Rightarrow> int) \<Rightarrow> int \<Rightarrow> int \<Rightarrow> syscall list \<Rightarrow> bool \<times> syscall list" where
  "DelFd os epfd fd tr =
     (if epfd = -1 then (False, tr) else let (r, tr1) = sys os (EpollDel epfd fd) tr in (r = 0, tr1))"

definition ModifyFd :: "(nat \<Rightarrow> int) \<Rightarrow> int \<Rightarrow> int \<Rightarrow> u32 \<Rightarrow> syscall list \<Rightarrow> bool \<times> syscall list" where
  "ModifyFd os epfd fd events tr =
     (if epfd = -1 then (False, tr) else let (r, tr1) = sys os (EpollMod epfd fd events) tr in (r = 0, tr1))"

text \<open>\<open>AttachSession\<close> and \<open>DetachSession\<close> of the theory \<open>Server\<close> with the calls they make.\<close>

definition attach_calls :: "(nat \<Rightarrow> int) \<Rightarrow> int \<Rightarrow> int \<Rightarrow> conn \<Rightarrow> syscall list \<Rightarrow> conn \<times> bool \<times> syscall list" where
  "attach_calls os epfd fd cn tr =
     (let (r, tr1) = sys os (if \<not> cn_watched cn then EpollAdd epfd fd (cn_mask cn) else EpollMod epfd fd (cn_mask cn)) tr;
          (cn1, ok) = AttachSession (r = 0) cn
      in (cn1, ok, tr1))"

definition detach_calls :: "(nat \<Rightarrow> int) \<Rightarrow> int \<Rightarrow> int \<Rightarrow> conn \<Rightarrow> syscall list \<Rightarrow> conn \<times> syscall list" where
  "detach_calls os epfd fd cn tr = (let (r, tr1) = sys os (EpollDel epfd fd) tr in (DetachSession (r = 0) cn, tr1))"

definition Session_destroy :: "(nat \<Rightarrow> int) \<Rightarrow> int \<Rightarrow> syscall list \<Rightarrow> syscall list" where
  "Session_destroy os fd tr = snd (sys os (Close fd) tr)"

section \<open>The listening socket\<close>

record listener =
  li_fd :: int
  li_session :: "conn option"

text \<open>The result is the exit status of the process, or the listening session.\<close>

definition InitListenSession ::
    "(nat \<Rightarrow> int) \<Rightarrow> event_loop \<Rightarrow> ipv4_addr \<Rightarrow> syscall list \<Rightarrow> (int + listener) \<times> syscall list" where
  "InitListenSession os lp addr tr =
     (let (fd, tr1) = sys os Socket tr
      in if fd = -1 then (Inl (-1), tr1)
         else let (_, tr2) = SetReuseAddress os fd tr1;
                  (_, tr3) = SetReusePort os fd tr2;
                  (_, tr4) = SetFdNonBlock os fd tr3;
                  (b, tr5) = sys os (Bind fd (sin_addr addr) (sin_port addr)) tr4
              in if b = -1 then (Inl (-1), tr5)
                 else let (cn, _, tr6) = attach_calls os (lp_epfd lp) fd (Session_conn EPOLLIN) tr5;
                          (_, tr7) = sys os (Listen fd) tr6
                      in (Inr \<lparr>li_fd = fd, li_session = Some (cn\<lparr>cn_watched := True\<rparr>)\<rparr>, tr7))"

text \<open>\<open>Server::Server\<close> in \<open>main\<close>: the \<open>int\<close> port of the configuration becomes a \<open>uint16_t\<close>.\<close>

definition Server_listen ::
    "(nat \<Rightarrow> int) \<Rightarrow> event_loop \<Rightarrow> octets \<Rightarrow> config \<Rightarrow> syscall list \<Rightarrow> (int + listener) \<times> syscall list" where
  "Server_listen os lp memory cf tr =
     InitListenSession os lp (Ipv4Addr_new memory (cf_ip cf) (word_of_int (cf_port cf))) tr"

definition FreeListenSession :: "(nat \<Rightarrow> int) \<Rightarrow> event_loop \<Rightarrow> listener \<Rightarrow> syscall list \<Rightarrow> listener \<times> syscall list" where
  "FreeListenSession os lp li tr =
     (case li_session li of
        None \<Rightarrow> (li, tr)
      | Some cn \<Rightarrow>
          let (_, tr1) = detach_calls os (lp_epfd lp) (li_fd li) cn tr
          in (li\<lparr>li_session := None\<rparr>, Session_destroy os (li_fd li) tr1))"

section \<open>Accepted sockets\<close>

text \<open>\<open>AcceptProc\<close>: the address of the peer is what \<open>accept\<close> fills in.\<close>

definition accept_calls ::
    "(nat \<Rightarrow> int) \<Rightarrow> event_loop \<Rightarrow> config \<Rightarrow> listener \<Rightarrow> octets \<Rightarrow> u16 \<Rightarrow> 'g server \<Rightarrow> syscall list \<Rightarrow> 'g server \<times> syscall list" where
  "accept_calls os lp cf li peer port sv tr =
     (let (remote_fd, tr1) = sys os (Accept (li_fd li)) tr
      in if remote_fd = -1 then (AcceptProc False None sv, tr1)
         else let (_, tr2) = SetFdNonBlock os remote_fd tr1;
                  interval = cf_keepalive_interval cf;
                  idle = wrap32 (interval * 3);
                  (_, tr3) = SetKeepAlive os remote_fd idle interval (cf_keepalive_cnt cf) tr2;
                  (_, attached, tr4) = attach_calls os (lp_epfd lp) remote_fd (Session_conn EPOLLIN) tr3
              in (AcceptProc attached (Some (remote_fd, Ipv4Addr_ToString (peer_addr peer port))) sv, tr4))"

text \<open>
  The calls of \<open>ReadProc\<close> and \<open>WriteProc\<close> when the connection is gone: \<open>close\<close>, and the destructor of the session unless
  a channel still holds a pointer to it (\<open>held\<close>).
\<close>

definition gone_calls :: "(nat \<Rightarrow> int) \<Rightarrow> int \<Rightarrow> bool \<Rightarrow> syscall list \<Rightarrow> syscall list" where
  "gone_calls os fd held tr =
     (let (_, tr1) = sys os (Close fd) tr in if held then tr1 else Session_destroy os fd tr1)"

section \<open>Shutdown\<close>

text \<open>
  \<open>FreeClientSessions\<close> destroys the sessions only a channel still holds (\<open>stale\<close>), then detaches and closes every
  session of the map (\<open>fds\<close>), and then destroys them. 
\<close>

definition detach_close :: "(nat \<Rightarrow> int) \<Rightarrow> int \<Rightarrow> int \<Rightarrow> syscall list \<Rightarrow> syscall list" where
  "detach_close os epfd fd tr = snd (sys os (Close fd) (snd (sys os (EpollDel epfd fd) tr)))"

definition free_calls :: "(nat \<Rightarrow> int) \<Rightarrow> event_loop \<Rightarrow> int list \<Rightarrow> int list \<Rightarrow> syscall list \<Rightarrow> syscall list" where
  "free_calls os lp stale fds tr =
     fold (Session_destroy os) fds (fold (detach_close os (lp_epfd lp)) fds (fold (Session_destroy os) stale tr))"

definition StopServeSockets ::
    "(nat \<Rightarrow> int) \<Rightarrow> int list \<Rightarrow> int list \<Rightarrow> event_loop \<Rightarrow> listener \<Rightarrow> 'g server \<Rightarrow> syscall list \<Rightarrow>
     event_loop \<times> listener \<times> 'g server \<times> syscall list" where
  "StopServeSockets os stale fds lp li sv tr =
     (let (lp1, tr1) = EventLoop_Stop os lp tr;
          (li1, tr2) = FreeListenSession os lp1 li tr1
      in (lp1, li1, FreeClientSessions sv, free_calls os lp1 stale fds tr2))"

definition Server_destroy ::
    "(nat \<Rightarrow> int) \<Rightarrow> int list \<Rightarrow> int list \<Rightarrow> event_loop \<Rightarrow> listener \<Rightarrow> 'g server \<Rightarrow> syscall list \<Rightarrow>
     listener \<times> 'g server \<times> syscall list" where
  "Server_destroy os stale fds lp li sv tr =
     (let (li1, tr1) = FreeListenSession os lp li tr
      in (li1, FreeClientSessions sv, free_calls os lp stale fds tr1))"

section \<open>Lemmas\<close>

lemma set_option_trace [simp]: "snd (set_option os fd opt val tr) = tr @ [SetOption fd opt val]"
  by (simp add: set_option_def sys_def)

lemma set_option_ok: "set_option os fd opt val tr = (if os (length tr) = -1 then ERR else OK, tr @ [SetOption fd opt val])"
  by (simp add: set_option_def sys_def)

definition nonblock_calls :: "int \<Rightarrow> int \<Rightarrow> syscall list" where
  "nonblock_calls flags fd = GetFlags fd # (if flags = -1 then [] else [SetFlags fd (flags OR O_NONBLOCK)])"

lemma SetFdNonBlock_trace: "snd (SetFdNonBlock os fd tr) = tr @ nonblock_calls (os (length tr)) fd"
  by (simp add: SetFdNonBlock_def sys_def nonblock_calls_def)

lemma SetKeepAlive_ok:
  assumes "\<forall>i. os i \<noteq> -1"
  shows "SetKeepAlive os fd idle interval cnt tr =
    (OK, tr @ [SetOption fd SO_KEEPALIVE 1, SetOption fd TCP_KEEPIDLE idle, SetOption fd TCP_KEEPINTVL interval, SetOption fd TCP_KEEPCNT cnt])"
  using assms by (simp add: SetKeepAlive_def set_option_ok)

lemma keepalive_trace: "\<exists>opts. snd (SetKeepAlive os fd idle interval cnt tr) = tr @ map (\<lambda>(opt, val). SetOption fd opt val) opts"
proof -
  let ?opts = "[(SO_KEEPALIVE, 1), (TCP_KEEPIDLE, idle), (TCP_KEEPINTVL, interval), (TCP_KEEPCNT, cnt)]"
  have "\<exists>n. snd (SetKeepAlive os fd idle interval cnt tr) = tr @ map (\<lambda>(opt, val). SetOption fd opt val) (take n ?opts)"
    unfolding SetKeepAlive_def set_option_ok Let_def prod.case
    by (auto intro: exI [of _ 1] exI [of _ 2] exI [of _ 3] exI [of _ 4])
  then show ?thesis by blast
qed

lemma attach_new_trace:
  "attach_calls os epfd fd (Session_conn events) tr =
     (fst (AttachSession (os (length tr) = 0) (Session_conn events)), os (length tr) = 0, tr @ [EpollAdd epfd fd events])"
  by (simp add: attach_calls_def sys_def AttachSession_def Session_conn_def)

lemma snd_AttachSession [simp]: "snd (AttachSession ok cn) = ok"
  by (simp add: AttachSession_def)

lemma attach_new_mask [simp]: "cn_mask (fst (AttachSession ok (Session_conn events))) = events"
  by (simp add: AttachSession_def Session_conn_def)

lemma fold_trace:
  assumes "\<And>x tr. f x tr = tr @ g x"
  shows "fold f xs tr = tr @ concat (map g xs)"
  by (induction xs arbitrary: tr) (simp_all add: assms)

lemma free_calls_trace:
  "free_calls os lp stale fds tr =
     tr @ map Close stale @ concat (map (\<lambda>fd. [EpollDel (lp_epfd lp) fd, Close fd]) fds) @ map Close fds"
proof -
  have d: "fold (Session_destroy os) xs t = t @ map Close xs" for xs t
    using fold_trace [of "Session_destroy os" "\<lambda>fd. [Close fd]"] by (simp add: Session_destroy_def sys_def)
  have c: "fold (detach_close os epfd) xs t = t @ concat (map (\<lambda>fd. [EpollDel epfd fd, Close fd]) xs)" for xs t epfd
    by (rule fold_trace) (simp add: detach_close_def sys_def)
  show ?thesis by (simp add: free_calls_def c d)
qed

lemma FreeListenSession_trace:
  "FreeListenSession os lp li tr =
     (li\<lparr>li_session := None\<rparr>, tr @ (if li_session li = None then [] else [EpollDel (lp_epfd lp) (li_fd li), Close (li_fd li)]))"
  by (cases li) (simp add: FreeListenSession_def detach_calls_def Session_destroy_def sys_def split: option.split)

definition stop_calls :: "int list \<Rightarrow> int list \<Rightarrow> event_loop \<Rightarrow> listener \<Rightarrow> syscall list" where
  "stop_calls stale fds lp li =
     Close (lp_epfd lp) # (if li_session li = None then [] else [EpollDel (lp_epfd lp) (li_fd li), Close (li_fd li)]) @
     map Close stale @ concat (map (\<lambda>fd. [EpollDel (lp_epfd lp) fd, Close fd]) fds) @ map Close fds"

lemma StopServeSockets_trace:
  "StopServeSockets os stale fds lp li sv tr =
     (lp\<lparr>lp_stopped := True\<rparr>, li\<lparr>li_session := None\<rparr>, FreeClientSessions sv, tr @ stop_calls stale fds lp li)"
  by (simp add: StopServeSockets_def EventLoop_Stop_def Epoller_Stop_def sys_def free_calls_trace FreeListenSession_trace stop_calls_def)

text \<open>Names of sessions are not cut, and determine the peer and the number.\<close>

lemma length_peer_text: "length (Ipv4Addr_ToString (peer_addr q port)) \<le> 21"
proof -
  have "unat port < 10 ^ 5" using unsigned_less [of port, where ?'a = nat] by simp
  then have "length (to_string_nat (unat port)) \<le> 5" using length_to_string_nat_le [of "unat port" 4] by simp
  then show ?thesis using length_ntop [of q] by (simp add: Ipv4Addr_ToString_def port_text)
qed

lemma peer_good_addr: "good_addr (Ipv4Addr_ToString (peer_addr q port))"
  using length_peer_text set_ntop [of "CHR ''#''" q] digits_not_dot [of "CHR ''#''" "unat port"]
  by (auto simp: good_addr_def Ipv4Addr_ToString_def port_text is_digit_def)

lemma length_int32: "in_int32 n \<Longrightarrow> length (std_to_string n) \<le> 20"
  using length_std_to_string_int64 in_int32_in_int64 by blast

lemma session_name_peer:
  "in_int32 n \<Longrightarrow> session_name (Ipv4Addr_ToString (peer_addr q port)) n =
     ''*'' @ inet_ntop q @ '':'' @ std_to_string (uint port) @ ''#'' @ std_to_string n"
  using length_peer_text [of q port] length_int32 [of n] by (simp add: session_name_def Ipv4Addr_ToString_def)

lemma peer_name_inject:
  assumes "in_int32 n" "in_int32 n'"
  shows "session_name (Ipv4Addr_ToString (peer_addr q port)) n = session_name (Ipv4Addr_ToString (peer_addr q' port')) n' \<longleftrightarrow>
    q = q' \<and> port = port' \<and> n = n'"
  using address_text_inject [of q port "''#'' @ std_to_string n" q' port' "''#'' @ std_to_string n'"] assms
  by (auto simp: session_name_peer is_digit_def)

section \<open>Properties\<close>



text \<open>
  Accepting a client. With a configuration in range and no failing call, the new socket is made non-blocking, is
  probed after three intervals of silence with the interval and the count of the configuration (no overflow), and is registered for reading; its
  session is entered under a name that tells the peer's address, its port and the number of the session apart from all others.
\<close>

theorem accept_socket:
  assumes "config_in_range cf" "\<forall>i. os i \<noteq> -1" "os (length tr + 7) = 0" "in_int32 (sv_next_id sv)"
    and "accept_calls os lp cf li peer port sv tr = (sv', tr')" "fd = os (length tr)"
  shows "\<exists>flags. tr' = tr @ [Accept (li_fd li), GetFlags fd, SetFlags fd (flags OR O_NONBLOCK), SetOption fd SO_KEEPALIVE 1,
      SetOption fd TCP_KEEPIDLE (3 * cf_keepalive_interval cf), SetOption fd TCP_KEEPINTVL (cf_keepalive_interval cf),
      SetOption fd TCP_KEEPCNT (cf_keepalive_cnt cf), EpollAdd (lp_epfd lp) fd EPOLLIN] \<and>
    (let name = session_name (Ipv4Addr_ToString (peer_addr peer port)) (sv_next_id sv)
     in map_option cn_interest (sv_conns sv' name) = Some (Some EPOLLIN) \<and> map_option sess_fd (db_sessions (sv_db sv') name) = Some fd \<and>
       (\<forall>peer2 port2 n. in_int32 n \<longrightarrow> session_name (Ipv4Addr_ToString (peer_addr peer2 port2)) n = name \<longrightarrow>
          peer2 = peer \<and> port2 = port \<and> n = sv_next_id sv))"
proof -
  let ?i = "cf_keepalive_interval cf"
  have i: "wrap32 (?i * 3) = 3 * ?i" using assms(1) by (intro trans [OF wrap32_id]) (auto simp: config_in_range_def in_int32_def)
  have z: "os (Suc (Suc (Suc (Suc (Suc (Suc (Suc (length tr)))))))) = 0" using assms(3) by (simp add: eval_nat_numeral)
  have "sv' = AcceptProc True (Some (fd, Ipv4Addr_ToString (peer_addr peer port))) sv \<and>
    tr' = tr @ [Accept (li_fd li), GetFlags fd, SetFlags fd (os (Suc (length tr)) OR O_NONBLOCK), SetOption fd SO_KEEPALIVE 1,
      SetOption fd TCP_KEEPIDLE (3 * ?i), SetOption fd TCP_KEEPINTVL ?i, SetOption fd TCP_KEEPCNT (cf_keepalive_cnt cf),
      EpollAdd (lp_epfd lp) fd EPOLLIN]"
    using assms(2,5,6) z unfolding accept_calls_def case_prod_unfold Let_def
    by (auto simp: sys_def SetFdNonBlock_trace nonblock_calls_def SetKeepAlive_ok attach_new_trace i ac_simps)
  then show ?thesis using peer_name_inject assms(4)
    by (auto simp: AcceptProc_def AttachSession_def Session_conn_def Session_new_def Let_def)
qed

theorem accept_socket_witness:
  "\<exists>sv' tr'. accept_calls (\<lambda>i. if i = 7 then 0 else 9) \<lparr>lp_epfd = 3, lp_stopped = False\<rparr> Config_default
       \<lparr>li_fd = 4, li_session = None\<rparr> (127, 0, 0, 1) 80 (Server_new sample_db) [] = (sv', tr') \<and>
     SetOption 9 TCP_KEEPIDLE 300 \<in> set tr' \<and> EpollAdd 3 9 EPOLLIN \<in> set tr'"
proof -
  let ?os = "\<lambda>i :: nat. if i = 7 then 0 else 9 :: int"
  have c: "config_in_range Config_default"
    using config_over_range [of "\<lambda>s. None" Map.empty Config_default] by (simp add: config_over_def given_def Config_default_def)
  have n: "in_int32 (sv_next_id (Server_new sample_db))" by (simp add: Server_new_def in_int32_def)
  obtain sv' tr' where r: "accept_calls ?os \<lparr>lp_epfd = 3, lp_stopped = False\<rparr> Config_default
       \<lparr>li_fd = 4, li_session = None\<rparr> (127, 0, 0, 1) 80 (Server_new sample_db) [] = (sv', tr')" by force
  have "\<forall>i. ?os i \<noteq> -1" "?os (length [] + 7) = 0" "9 = ?os (length [])" by simp_all
  from accept_socket [OF c this(1,2) n r this(3)] show ?thesis using r by (auto simp: Config_default_def)
qed

fun is_epoll_ctl :: "int \<Rightarrow> syscall \<Rightarrow> bool" where
  "is_epoll_ctl epfd (EpollAdd e fd events) \<longleftrightarrow> e = epfd"
| "is_epoll_ctl epfd (EpollMod e fd events) \<longleftrightarrow> e = epfd"
| "is_epoll_ctl epfd (EpollDel e fd) \<longleftrightarrow> e = epfd"
| "is_epoll_ctl epfd _ \<longleftrightarrow> False"

fun opens :: "syscall \<Rightarrow> bool" where
  "opens Socket \<longleftrightarrow> True"
| "opens (Accept fd) \<longleftrightarrow> True"
| "opens EpollCreate \<longleftrightarrow> True"
| "opens _ \<longleftrightarrow> False"

text \<open>
  C24. The child of a background save leaves its parent alone. The child inherits the epoll descriptor, which refers to the
  parent's epoll instance, and calls \<open>StopServeSockets\<close>. Its first call closes that descriptor, and it opens none,
  so no \<open>epoll_ctl\<close> reaches the parent's registrations; it closes the listening socket and the socket
  of every session, ends without sessions, and keeps the data it is about to save.
\<close>

theorem stop_spares_parent:
  assumes "StopServeSockets os stale fds lp li sv tr = (lp', li', sv', tr')"
    and "\<forall>name sess. db_sessions (sv_db sv) name = Some sess \<longrightarrow> sess_fd sess \<in> set fds"
  shows "\<exists>calls. tr' = tr @ calls \<and>
    (\<forall>before after ctl. calls = before @ ctl # after \<longrightarrow> is_epoll_ctl (lp_epfd lp) ctl \<longrightarrow> Close (lp_epfd lp) \<in> set before) \<and>
    (\<forall>call \<in> set calls. \<not> opens call) \<and>
    (\<forall>name sess. db_sessions (sv_db sv) name = Some sess \<longrightarrow> Close (sess_fd sess) \<in> set calls) \<and>
    (li_session li \<noteq> None \<longrightarrow> Close (li_fd li) \<in> set calls) \<and> lp_stopped lp' \<and> li_session li' = None \<and>
    sv_conns sv' = Map.empty \<and> db_sessions (sv_db sv') = Map.empty \<and> db_kv (sv_db sv') = db_kv (sv_db sv) \<and>
    db_expires (sv_db sv') = db_expires (sv_db sv)"
proof -
  let ?calls = "stop_calls stale fds lp li"
  have r: "tr' = tr @ ?calls" "lp' = lp\<lparr>lp_stopped := True\<rparr>" "li' = li\<lparr>li_session := None\<rparr>" "sv' = FreeClientSessions sv"
    using assms(1) by (simp_all add: StopServeSockets_trace)
  have "Close (lp_epfd lp) \<in> set before" if "?calls = before @ ctl # after" "is_epoll_ctl (lp_epfd lp) ctl" for before ctl after
    using that by (cases before) (auto simp: stop_calls_def)
  moreover have "\<not> opens call" if "call \<in> set ?calls" for call
    using that by (auto simp: stop_calls_def split: if_splits)
  moreover have "Close (sess_fd sess) \<in> set ?calls" if "db_sessions (sv_db sv) name = Some sess" for name sess
    using assms(2) that by (auto simp: stop_calls_def)
  moreover have "li_session li \<noteq> None \<longrightarrow> Close (li_fd li) \<in> set ?calls" by (simp add: stop_calls_def)
  ultimately show ?thesis unfolding r by (intro exI [of _ ?calls]) (simp add: FreeClientSessions_def)
qed

theorem stop_spares_parent_witness:
  "\<exists>calls. StopServeSockets (\<lambda>i. 0) [] [] \<lparr>lp_epfd = 3, lp_stopped = False\<rparr> \<lparr>li_fd = 4, li_session = Some (Session_conn EPOLLIN)\<rparr>
     (Server_new sample_db) [] =
       (\<lparr>lp_epfd = 3, lp_stopped = True\<rparr>, \<lparr>li_fd = 4, li_session = None\<rparr>, FreeClientSessions (Server_new sample_db), calls) \<and>
     list_all (\<lambda>call. \<not> opens call) calls \<and> Close 4 \<in> set calls"
proof -
  obtain calls where r: "StopServeSockets (\<lambda>i. 0) [] [] \<lparr>lp_epfd = 3, lp_stopped = False\<rparr>
      \<lparr>li_fd = 4, li_session = Some (Session_conn EPOLLIN)\<rparr> (Server_new sample_db) [] =
      (\<lparr>lp_epfd = 3, lp_stopped = True\<rparr>, \<lparr>li_fd = 4, li_session = None\<rparr>, FreeClientSessions (Server_new sample_db), calls)"
    by (simp add: StopServeSockets_trace)
  have s: "\<forall>name sess. db_sessions (sv_db (Server_new sample_db)) name = Some sess \<longrightarrow> sess_fd sess \<in> set []"
    by (simp add: Server_new_def)
  show ?thesis using stop_spares_parent [OF r s] r by (simp add: list_all_iff)
qed



end
