(* ===== verification/Memory.thy ===== *)
theory Memory
  imports Config
begin

text \<open>
  \<open>src/src/mem.h\<close>, and the memory watcher of \<open>Engine\<close> in \<open>src/src/net/commands.cpp\<close>: the sizes are read from the text of
  \<open>/proc/self/status\<close> and compared with the limit of the configuration before every command.

  The text of the file, \<open>None\<close> when it cannot be opened, is an argument. \<open>std::string::npos\<close> is \<open>2 ^ 64 - 1\<close>, so adding the length of the
  label to it wraps around. Arithmetic on \<open>double\<close> is exact arithmetic followed by a rounding \<open>rnd\<close>, an argument; \<open>rounds\<close> states what IEEE 754 promises of
  it. Converting a \<open>double\<close> that is out of the range of \<open>size_t\<close> is undefined (\<open>None\<close>).
\<close>

section \<open>Reading the sizes\<close>

text \<open>\<open>std::stol(s.substr(s.find(label) + strlen(label)))\<close>.\<close>

definition number_after :: "string \<Rightarrow> string \<Rightarrow> std_exception + u64" where
  "number_after label s =
     (let pos = (case std_search label s of None \<Rightarrow> (- 1 :: u64) | Some i \<Rightarrow> of_nat i);
          start = unat (pos + of_nat (length label))
      in if start > length s then Inl out_of_range
         else case std_stoll (drop start s) of Inl ex \<Rightarrow> Inl ex | Inr v \<Rightarrow> Inr (word_of_int v))"

definition CatSelfMemInfo :: "string option \<Rightarrow> u64 \<times> u64 \<Rightarrow> std_exception + (u64 \<times> u64) \<times> bool" where
  "CatSelfMemInfo text sizes =
     (case text of
        None \<Rightarrow> Inr (sizes, False)
      | Some s \<Rightarrow>
          (case number_after ''VmSize:'' s of
             Inl ex \<Rightarrow> Inl ex
           | Inr vmsize \<Rightarrow>
               (case number_after ''VmRSS:'' s of Inl ex \<Rightarrow> Inl ex | Inr rss \<Rightarrow> Inr ((vmsize, rss), True))))"

text \<open>
  The stream extractions of \<open>CatMemInfo\<close>: a stream is what is left to read and whether all extractions succeeded. Extracting a number
  takes an optional sign and digits, stores 0 when there are none and the largest value when it is too large.
\<close>

definition extract_word :: "string \<times> bool \<Rightarrow> string \<times> bool" where
  "extract_word st =
     (if \<not> snd st then st else case read_token (fst st) of None \<Rightarrow> ([], False) | Some (w, rest) \<Rightarrow> (rest, True))"

definition extract_size :: "string \<times> bool \<Rightarrow> u64 \<Rightarrow> (string \<times> bool) \<times> u64" where
  "extract_size st old =
     (if \<not> snd st then (st, old)
      else let s = dropWhile is_space (fst st);
               neg = (s \<noteq> [] \<and> hd s = CHR ''-'');
               t = (if s \<noteq> [] \<and> hd s \<in> {CHR ''-'', CHR ''+''} then tl s else s);
               ds = takeWhile is_digit t; rest = dropWhile is_digit t
           in if s = [] then (([], False), old)
              else if ds = [] then ((rest, False), 0)
              else if digits_val ds \<ge> 2 ^ 64 then ((rest, False), - 1)
              else ((rest, True), (if neg then - of_nat (digits_val ds) else of_nat (digits_val ds))))"

definition CatMemInfo :: "string option \<Rightarrow> u64 \<times> u64 \<times> u64 \<Rightarrow> (u64 \<times> u64 \<times> u64) \<times> bool" where
  "CatMemInfo text sizes =
     (case text of
        None \<Rightarrow> (sizes, False)
      | Some s \<Rightarrow>
          let (st1, mem_total) = extract_size (extract_word (s, True)) (fst sizes);
              (st2, mem_free) = extract_size (extract_word (extract_word st1)) (fst (snd sizes));
              (st3, mem_avail) = extract_size (extract_word (extract_word st2)) (snd (snd sizes))
          in ((mem_total, mem_free, mem_avail), True))"

section \<open>The watcher\<close>

text \<open>\<open>Engine::UpdateMemInfo\<close>: one reading for each turn of its loop; an exception ends the process.\<close>

fun UpdateMemInfo :: "string option list \<Rightarrow> u64 \<times> u64 \<Rightarrow> std_exception + u64 \<times> u64" where
  "UpdateMemInfo [] sizes = Inr sizes"
| "UpdateMemInfo (text # texts) sizes =
     (case CatSelfMemInfo text sizes of Inl ex \<Rightarrow> Inl ex | Inr (sizes', ok) \<Rightarrow> UpdateMemInfo texts sizes')"

text \<open>\<open>Engine::Engine\<close> chooses the policy.\<close>

definition evict_policy :: "config \<Rightarrow> int" where
  "evict_policy cf = (if cf_lru_enabled cf then 1 else 0)"

definition IfNeedKeyEviction :: "(rat \<Rightarrow> rat) \<Rightarrow> config \<Rightarrow> u64 \<Rightarrow> bool option" where
  "IfNeedKeyEviction rnd cf cur_rss_size =
     (case cf_lru_trigger_ratio cf of
        Fin ratio \<Rightarrow>
          let x = rnd (rnd (rnd (of_nat (unat (cf_max_memory_limit cf))) * 1024) * ratio)
          in if 0 \<le> \<lfloor>x\<rfloor> \<and> \<lfloor>x\<rfloor> < 2 ^ 64 then Some (nat \<lfloor>x\<rfloor> < unat cur_rss_size) else None
      | _ \<Rightarrow> None)"

text \<open>Rounding to \<open>double\<close> is monotone and exact on the integers up to \<open>2 ^ 53\<close>.\<close>

definition rounds :: "(rat \<Rightarrow> rat) \<Rightarrow> bool" where
  "rounds rnd \<longleftrightarrow> mono rnd \<and> (\<forall>n \<le> 2 ^ 53. rnd (of_nat n) = of_nat n)"

section \<open>Lemmas\<close>

text \<open>A line of the file: the label, blanks, the number and the rest.\<close>

definition status_line :: "string \<Rightarrow> nat \<Rightarrow> string \<Rightarrow> bool" where
  "status_line label v s \<longleftrightarrow>
     (\<exists>i blanks rest. std_search label s = Some i \<and> drop (i + length label) s = blanks @ to_string_nat v @ rest \<and>
        (\<forall>c \<in> set blanks. is_space c) \<and> (rest = [] \<or> \<not> is_digit (hd rest)))"

lemma c_str_append: "\<forall>c \<in> set a. c \<noteq> CHR 0x00 \<Longrightarrow> c_str (a @ b) = a @ c_str b"
  by (simp add: c_str_def takeWhile_append2)

lemma strto_scan_blanks:
  assumes "\<forall>c \<in> set blanks. is_space c" "rest = [] \<or> \<not> is_digit (hd rest)"
  shows "strto_scan (blanks @ to_string_nat v @ rest) = (length blanks, False, to_string_nat v)"
proof -
  obtain d ds where v: "to_string_nat v = d # ds" using to_string_nat_nonempty by (cases "to_string_nat v") auto
  have d: "\<not> is_space d" "d \<noteq> CHR ''-''" "d \<noteq> CHR ''+''"
    using is_digit_not_special set_to_string_nat [of d v] v by auto
  have "takeWhile is_space (blanks @ to_string_nat v @ rest) = blanks" using assms(1) d(1) by (simp add: v takeWhile_append2)
  moreover have "takeWhile is_digit (to_string_nat v @ rest) = to_string_nat v"
    using assms(2) set_to_string_nat [of _ v] by (cases rest) (simp_all add: takeWhile_append2)
  ultimately show ?thesis using d by (simp add: strto_scan_def v)
qed

lemma std_stoll_line:
  assumes "v < 2 ^ 63" "\<forall>c \<in> set blanks. is_space c" "rest = [] \<or> \<not> is_digit (hd rest)"
  shows "std_stoll (blanks @ to_string_nat v @ rest) = Inr (int v)"
proof -
  have nul: "\<forall>c \<in> set (blanks @ to_string_nat v). c \<noteq> CHR 0x00"
    using assms(2) set_to_string_nat [of "CHR 0x00" v] by (auto simp: is_space_def is_digit_def)
  have "c_str rest = [] \<or> \<not> is_digit (hd (c_str rest))" using assms(3) by (cases rest) (auto simp: c_str_def)
  from strto_scan_blanks [OF assms(2) this] show ?thesis
    using c_str_append [OF nul, of rest] assms(1) by (simp add: std_stoll_def strtoll_def Let_def in_int64_def)
qed

lemma number_after_line:
  assumes "status_line label v s" "v < 2 ^ 63" "length s < 2 ^ 64"
  shows "number_after label s = Inr (of_nat v)"
proof -
  obtain i blanks rest where s: "std_search label s = Some i" "drop (i + length label) s = blanks @ to_string_nat v @ rest"
    "\<forall>c \<in> set blanks. is_space c" "rest = [] \<or> \<not> is_digit (hd rest)"
    using assms(1) by (auto simp: status_line_def)
  have "i + length label < length s" using s(2) to_string_nat_nonempty by (metis append_is_Nil_conv drop_eq_Nil not_le)
  then have "unat (of_nat i + of_nat (length label) :: u64) = i + length label"
    using assms(3) by (simp add: unat_of_nat flip: of_nat_add)
  then show ?thesis using s(1,2) std_stoll_line [OF assms(2) s(3,4)] \<open>i + length label < length s\<close>
    by (simp add: number_after_def Let_def)
qed

lemma threshold:
  assumes "rounds rnd" "limit * 1024 \<le> 2 ^ 53" "0 < r" "r \<le> 1"
  shows "0 \<le> rnd (rnd (rnd (of_nat limit) * 1024) * r)" "rnd (rnd (rnd (of_nat limit) * 1024) * r) \<le> of_nat (limit * 1024)"
proof -
  have ex: "rnd (of_nat n) = of_nat n" if "n \<le> 2 ^ 53" for n using assms(1) that by (simp add: rounds_def)
  have m: "mono rnd" using assms(1) by (simp add: rounds_def)
  have "rnd (rnd (of_nat limit) * 1024) = of_nat (limit * 1024)" using ex [of limit] ex [OF assms(2)] assms(2) by simp
  moreover have "0 \<le> of_nat (limit * 1024) * r" "of_nat (limit * 1024) * r \<le> of_nat (limit * 1024)"
    using assms(3,4) by (simp_all add: mult_left_le)
  ultimately show "0 \<le> rnd (rnd (rnd (of_nat limit) * 1024) * r)" "rnd (rnd (rnd (of_nat limit) * 1024) * r) \<le> of_nat (limit * 1024)"
    using monoD [OF m, of 0] monoD [OF m, of _ "of_nat (limit * 1024)"] ex [of 0] ex [OF assms(2)] by simp_all
qed

section \<open>Properties\<close>

text \<open>
  C33. The memory watch. One turn of the watcher stores the two numbers of the status file. A configuration in range whose ratio is a number and whose limit
  is below eight billion megabytes sets one threshold, in kilobytes: a command is preceded by an eviction exactly when the resident
  size is above it. Whatever the rounding of \<open>double\<close>, the threshold is never above the limit, and for the ratio 1 it is the limit.
\<close>

theorem memory_watch:
  assumes "status_line ''VmSize:'' v s" "status_line ''VmRSS:'' r s" "v < 2 ^ 63" "r < 2 ^ 63" "length s < 2 ^ 64"
    and "rounds rnd" "config_in_range cf" "cf_lru_trigger_ratio cf = Fin ratio" "unat (cf_max_memory_limit cf) * 1024 \<le> 2 ^ 53"
  shows "UpdateMemInfo [Some s] sizes = Inr (of_nat v, of_nat r) \<and>
    (\<exists>t \<le> unat (cf_max_memory_limit cf) * 1024. (ratio = 1 \<longrightarrow> t = unat (cf_max_memory_limit cf) * 1024) \<and>
       (\<forall>rss. IfNeedKeyEviction rnd cf rss = Some (t < unat rss)))"
proof -
  let ?limit = "unat (cf_max_memory_limit cf)"
  let ?x = "rnd (rnd (rnd (of_nat ?limit) * 1024) * ratio)"
  have ratio: "0 < ratio" "ratio \<le> 1" using assms(7,8) by (auto simp: config_in_range_def)
  note x = threshold [OF assms(6,9) ratio]
  have le: "\<lfloor>?x\<rfloor> \<le> int (?limit * 1024)" using floor_mono [OF x(2)] by (simp only: floor_of_nat)
  have pos: "0 \<le> \<lfloor>?x\<rfloor>" using x(1) by simp
  have "int (?limit * 1024) \<le> int (2 ^ 53)" using assms(9) by (simp only: of_nat_le_iff)
  moreover have "int (2 ^ 53) < 2 ^ 64" by simp
  ultimately have lt: "\<lfloor>?x\<rfloor> < 2 ^ 64" using le by linarith
  have "IfNeedKeyEviction rnd cf rss = Some (nat \<lfloor>?x\<rfloor> < unat rss)" for rss
    unfolding IfNeedKeyEviction_def assms(8) using pos lt by (simp only: dbl.case Let_def simp_thms if_True)
  moreover have "nat \<lfloor>?x\<rfloor> \<le> ?limit * 1024" using le by linarith
  moreover have "nat \<lfloor>?x\<rfloor> = ?limit * 1024" if "ratio = 1"
  proof -
    have "rnd (of_nat n) = of_nat n" if "n \<le> 2 ^ 53" for n using assms(6) that by (simp add: rounds_def)
    from this [of ?limit] this [OF assms(9)] assms(9) have "?x = of_nat (?limit * 1024)" using that by simp
    then show ?thesis by (metis floor_of_nat nat_int)
  qed
  moreover have "UpdateMemInfo [Some s] sizes = Inr (of_nat v, of_nat r)"
    using number_after_line [OF assms(1,3,5)] number_after_line [OF assms(2,4,5)] by (simp add: CatSelfMemInfo_def)
  ultimately show ?thesis by blast
qed

theorem memory_watch_witness:
  "UpdateMemInfo [Some (''VmSize:  20 kB'' @ [CHR 0x0A] @ ''VmRSS: 7 kB'')] (0, 0) = Inr (20, 7) \<and>
   (\<exists>t \<le> 2048 * 1024. \<forall>rss. IfNeedKeyEviction id Config_default rss = Some (t < unat rss))"
proof -
  let ?s = "''VmSize:  20 kB'' @ [CHR 0x0A] @ ''VmRSS: 7 kB''"
  have n: "to_string_nat 20 = ''20''" "to_string_nat 7 = ''7''" by code_simp+
  have f: "std_search ''VmSize:'' ?s = Some 0" "std_search ''VmRSS:'' ?s = Some 15" by code_simp+
  have "status_line ''VmSize:'' 20 ?s" unfolding status_line_def f(1) n
    by (intro exI [of _ 0] exI [of _ "''  ''"] exI [of _ "'' kB'' @ [CHR 0x0A] @ ''VmRSS: 7 kB''"]) (simp add: is_space_def is_digit_def)
  moreover have "status_line ''VmRSS:'' 7 ?s" unfolding status_line_def f(2) n
    by (intro exI [of _ 15] exI [of _ "'' ''"] exI [of _ "'' kB''"]) (simp add: is_space_def is_digit_def)
  moreover have "rounds id" by (simp add: rounds_def mono_def)
  moreover have "config_in_range Config_default"
    using config_over_range [of "\<lambda>s. None" Map.empty Config_default] by (simp add: config_over_def given_def Config_default_def)
  ultimately show ?thesis
    using memory_watch [of 20 ?s 7 id Config_default "15099494 / 2 ^ 24" "(0, 0)"]
    by (auto simp: Config_default_def CONFIG_DEFAULT_LRU_TRIGGER_RATIO_def)
qed

text \<open>
  A text without the label makes the watcher throw, which ends the process; a ratio that is not a number makes the conversion undefined.
\<close>

lemma memory_watch_defects:
  "UpdateMemInfo [Some ''Name: litekv''] sizes = Inl invalid_argument"
  "IfNeedKeyEviction rnd (Config_default\<lparr>cf_lru_trigger_ratio := NaN\<rparr>) rss = None"
proof -
  have "number_after ''VmSize:'' ''Name: litekv'' = Inl invalid_argument" by code_simp
  then show "UpdateMemInfo [Some ''Name: litekv''] sizes = Inl invalid_argument" by (simp add: CatSelfMemInfo_def)
qed (simp add: IfNeedKeyEviction_def)

end
