(* ===== verification/Clock.thy ===== *)
theory Clock
  imports Expiry CoreProps
begin

text \<open>
  The clock of \<open>src/src/net/time_event.h\<close>: seconds, milliseconds and microseconds from one \<open>struct timeval\<close>, which \<open>gettimeofday\<close> fills in and
  which is an argument here, and the sums that make deadlines. The members are \<open>long\<close>; \<open>1000ul\<close> makes a product unsigned, and dividing by a
  \<open>long\<close> truncates. The theorem relates the two units the server uses: deadlines are milliseconds, the log has seconds.
\<close>

section \<open>Readings\<close>

record timeval =
  tv_sec :: int
  tv_usec :: int

definition GetCurrentSec :: "timeval \<Rightarrow> u64" where
  "GetCurrentSec tv = word_of_int (tv_sec tv)"

definition GetCurrentMs :: "timeval \<Rightarrow> u64" where
  "GetCurrentMs tv = word_of_int (tv_sec tv) * 1000 + word_of_int (sgn (tv_usec tv) * (\<bar>tv_usec tv\<bar> div 1000))"

definition GetCurrentUs :: "timeval \<Rightarrow> u64" where
  "GetCurrentUs tv = word_of_int (wrap64 (tv_sec tv * 1000)) * 1000 + word_of_int (tv_usec tv)"

definition GetCurrentTime :: "timeval \<Rightarrow> int \<times> int" where
  "GetCurrentTime tv = (tv_sec tv, sgn (tv_usec tv) * (\<bar>tv_usec tv\<bar> div 1000))"

definition AddSecondToNowSec :: "timeval \<Rightarrow> u64 \<Rightarrow> u64" where
  "AddSecondToNowSec tv seconds = GetCurrentSec tv + seconds"

definition AddMillSecToNowMillSec :: "timeval \<Rightarrow> u64 \<Rightarrow> u64" where
  "AddMillSecToNowMillSec tv milliseconds = GetCurrentMs tv + milliseconds"

definition AddSecondToNowMillSec :: "timeval \<Rightarrow> u64 \<Rightarrow> u64" where
  "AddSecondToNowMillSec tv seconds = GetCurrentMs tv + seconds * 1000"

section \<open>Lemmas\<close>

text \<open>What \<open>gettimeofday\<close> yields until the year 36812, and the microseconds it stands for.\<close>

definition clock_time :: "timeval \<Rightarrow> bool" where
  "clock_time tv \<longleftrightarrow> 0 \<le> tv_sec tv \<and> tv_sec tv < 2 ^ 40 \<and> 0 \<le> tv_usec tv \<and> tv_usec tv < 1000000"

definition microseconds :: "timeval \<Rightarrow> int" where
  "microseconds tv = tv_sec tv * 1000000 + tv_usec tv"

lemma uint_small: "0 \<le> i \<Longrightarrow> i < 2 ^ 64 \<Longrightarrow> uint (word_of_int i :: u64) = i"
  by (simp add: uint_word_of_int)

lemma truncated: "clock_time tv \<Longrightarrow> sgn (tv_usec tv) * (\<bar>tv_usec tv\<bar> div 1000) = tv_usec tv div 1000"
  by (cases "tv_usec tv = 0") (simp_all add: clock_time_def)

lemma ms_part:
  assumes "clock_time tv"
  shows "0 \<le> tv_usec tv div 1000" "tv_usec tv div 1000 < 1000"
proof -
  have "tv_usec tv div 1000 \<le> 999999 div 1000" using assms by (intro zdiv_mono1) (simp_all add: clock_time_def)
  then show "0 \<le> tv_usec tv div 1000" "tv_usec tv div 1000 < 1000" using assms by (simp_all add: clock_time_def pos_imp_zdiv_nonneg_iff)
qed

lemma clock_readings:
  assumes "clock_time tv"
  shows "uint (GetCurrentSec tv) = tv_sec tv" "uint (GetCurrentMs tv) = tv_sec tv * 1000 + tv_usec tv div 1000"
    "uint (GetCurrentUs tv) = microseconds tv"
proof -
  note b = assms [unfolded clock_time_def]
  note ms_part [OF assms]
  moreover have "GetCurrentMs tv = word_of_int (tv_sec tv * 1000 + tv_usec tv div 1000)"
    unfolding GetCurrentMs_def truncated [OF assms] by simp
  ultimately show "uint (GetCurrentMs tv) = tv_sec tv * 1000 + tv_usec tv div 1000"
    using b uint_small [of "tv_sec tv * 1000 + tv_usec tv div 1000"] by simp
  show "uint (GetCurrentSec tv) = tv_sec tv" using b by (simp add: GetCurrentSec_def uint_small)
  have "wrap64 (tv_sec tv * 1000) = tv_sec tv * 1000" by (rule wrap64_id) (use b in \<open>simp add: in_int64_def\<close>)
  then have "GetCurrentUs tv = word_of_int (microseconds tv)" by (simp add: GetCurrentUs_def microseconds_def)
  then show "uint (GetCurrentUs tv) = microseconds tv" using b uint_small [of "microseconds tv"] by (simp add: microseconds_def)
qed

text \<open>The three readings of one instant agree, and none goes backwards when the time does not.\<close>

lemma clock_units:
  assumes "clock_time tv"
  shows "uint (GetCurrentMs tv) = uint (GetCurrentUs tv) div 1000" "uint (GetCurrentSec tv) = uint (GetCurrentMs tv) div 1000"
    "GetCurrentTime tv = (uint (GetCurrentSec tv), uint (GetCurrentMs tv) mod 1000)"
proof -
  note u = ms_part [OF assms]
  have "microseconds tv = tv_usec tv + (tv_sec tv * 1000) * 1000" by (simp add: microseconds_def)
  then show "uint (GetCurrentMs tv) = uint (GetCurrentUs tv) div 1000" unfolding clock_readings [OF assms] by simp
  show "uint (GetCurrentSec tv) = uint (GetCurrentMs tv) div 1000" unfolding clock_readings [OF assms] using u by simp
  show "GetCurrentTime tv = (uint (GetCurrentSec tv), uint (GetCurrentMs tv) mod 1000)"
    unfolding clock_readings [OF assms] GetCurrentTime_def truncated [OF assms] using u by simp
qed

lemma clock_monotone:
  assumes "clock_time tv" "clock_time tv'" "microseconds tv \<le> microseconds tv'"
  shows "GetCurrentSec tv \<le> GetCurrentSec tv'" "GetCurrentMs tv \<le> GetCurrentMs tv'" "GetCurrentUs tv \<le> GetCurrentUs tv'"
  using clock_units(1,2) [OF assms(1)] clock_units(1,2) [OF assms(2)] clock_readings(3) [OF assms(1)] clock_readings(3) [OF assms(2)] assms(3)
  by (simp_all add: word_le_def zdiv_mono1)

lemma deadline_ms:
  assumes "clock_time tv" "0 \<le> tv_sec tv + i" "tv_sec tv + i < 2 ^ 41"
  shows "uint (GetCurrentMs tv + word_of_int i * 1000) = (tv_sec tv + i) * 1000 + tv_usec tv div 1000"
proof -
  have "GetCurrentMs tv + word_of_int i * 1000 = word_of_int ((tv_sec tv + i) * 1000 + tv_usec tv div 1000)"
    unfolding GetCurrentMs_def truncated [OF assms(1)] by (simp add: algebra_simps)
  then show ?thesis using assms(2,3) ms_part [OF assms(1)] by (simp only:) (rule uint_small; simp)
qed

section \<open>Deadlines and the log\<close>

definition at_time :: "timeval \<Rightarrow> 'g ctx \<Rightarrow> bool" where
  "at_time tv c \<longleftrightarrow> clock_time tv \<and> c_now c = GetCurrentMs tv \<and> c_sec c = GetCurrentSec tv"

lemma expire_logged:
  assumes "exp_inv db" "kv_inv (db_kv db)" "\<not> c_evict c" "c_sync c" "db_log db = Some l" "CanConvertToInt64 ns = Some n" "0 < n"
    and "kv_abs (db_kv db) (Key k) \<noteq> None"
  obtains db' where "HandleCommand c db [''expire'', k, ns] = Some (Inr (db', kInt1Msg))"
    "db_log db' = Some (l @ [[''expireat'', k, std_to_string (uint (c_sec c + word_of_int n))]])"
    "deadline db' k = Some (c_now c + word_of_int n * 1000)"
proof -
  let ?st = "expire_state c db k n" and ?cmd = "[''expireat'', k, std_to_string (uint (c_sec c + word_of_int n))]"
  have low: "map c_tolower ''expire'' = ''expire''" by code_simp
  have tab: "map_of sOpCommandMap ''expire'' = Some ExpireCommand" by (simp add: sOpCommandMap_def)
  have ex: "KeyExists (db_kv db) (Key k)" using assms(8) by (simp add: KeyExists_abs)
  have log: "db_log ?st = Some l" using assms(5,7) by (simp add: expire_state_def split: option.splits prod.splits)
  have h: "HandleCommand c db [''expire'', k, ns] = log_expire c ?st [''expire'', k, ns] n"
    unfolding dispatch [OF low tab assms(3)] by (rule ExpireCommand_state [OF assms(1) refl assms(6) ex])
  also have "\<dots> = Some (Inr (?st\<lparr>db_log := Some (l @ [?cmd])\<rparr>, kInt1Msg))"
    using assms(4,7) log by (simp add: log_expire_def answer_def AddIntoAppendableDirectly_def numeral_2_eq_2)
  finally have "HandleCommand c db [''expire'', k, ns] = Some (Inr (?st\<lparr>db_log := Some (l @ [?cmd])\<rparr>, kInt1Msg))" .
  moreover have "deadline (?st\<lparr>db_log := x\<rparr>) = deadline ?st" for x by (simp add: deadline_def)
  moreover have "deadline ?st k = Some (c_now c + word_of_int n * 1000)"
    using expire_state_spec(2) [OF assms(1) refl assms(8,2), of c n] assms(7,8) by (auto simp: expire_spec_def dest: fun_cong [where x = k])
  ultimately show ?thesis using that by simp
qed

lemma expireat_replayed:
  assumes "exp_inv db" "kv_inv (db_kv db)" "\<not> c_evict c" "at_time tv c" "CanConvertToInt64 ns = Some u" "tv_sec tv < u" "u < 2 ^ 41"
    and "kv_abs (db_kv db) (Key k) \<noteq> None"
  obtains db' where "HandleCommand c db [''expireat'', k, ns] = Some (Inr (db', kInt1Msg))"
    "deadline db' k = Some (c_now c + word_of_int (u - tv_sec tv) * 1000)"
proof -
  have low: "map c_tolower ''expireat'' = ''expireat''" by code_simp
  have tab: "map_of sOpCommandMap ''expireat'' = Some ExpireAtCommand" by (simp add: sOpCommandMap_def)
  have t: "0 \<le> tv_sec tv" "tv_sec tv < 2 ^ 40" using assms(4) by (simp_all add: at_time_def clock_time_def)
  have "sint (c_sec c) = tv_sec tv"
    using assms(4) t sint_word_of_int64 [of "tv_sec tv"] by (simp add: at_time_def GetCurrentSec_def in_int64_def)
  moreover have "wrap64 (u - tv_sec tv) = u - tv_sec tv" by (rule wrap64_id) (use t assms(6,7) in \<open>simp add: in_int64_def\<close>)
  ultimately have at: "ExpireAtCommand c db [''expireat'', k, ns] = ExpireCommand c db [''expireat'', k, std_to_string (u - tv_sec tv)]"
    using assms(5,6) by (simp add: ExpireAtCommand_def CheckSyntax_def Let_def numeral_2_eq_2)
  have conv: "CanConvertToInt64 (std_to_string (u - tv_sec tv)) = Some (u - tv_sec tv)"
    using t assms(6,7) by (simp add: CanConvertToInt64_iff in_int64_def)
  obtain db' msg where "ExpireCommand c db [''expireat'', k, std_to_string (u - tv_sec tv)] = Some (Inr (db', msg))"
    "expire_spec (kv_abs (db_kv db)) (deadline db) (c_now c) k (u - tv_sec tv) = (kv_abs (db_kv db'), deadline db', msg)"
    using ExpireCommand_spec [OF assms(1,2) refl conv] .
  then show ?thesis
    using that assms(6,8) unfolding dispatch [OF low tab assms(3)] at by (auto simp: expire_spec_def dest: fun_cong [where x = k])
qed

section \<open>Properties\<close>

text \<open>
  C12. A deadline survives a restart to within a second. A synchronized \<open>EXPIRE\<close> of a positive number of seconds (below \<open>2 ^ 40\<close>) on an existing key logs an \<open>EXPIREAT\<close>
  with the second of the deadline; a server that executes the logged command at any later time before that second, on a state that has
  the key, gives the key a deadline that differs from the original one by less than 1000 milliseconds. (The log keeps
  whole seconds, and the milliseconds of the restart are added to them.)
\<close>

theorem deadline_survives_restart:
  assumes "reachable db" "kv_inv (db_kv db)" "kv_abs (db_kv db) (Key k) \<noteq> None" "\<not> c_evict c" "c_sync c" "at_time tv c" "db_log db = Some l"
    and "CanConvertToInt64 ns = Some n" "0 < n" "n < 2 ^ 40"
    and "reachable db2" "kv_inv (db_kv db2)" "kv_abs (db_kv db2) (Key k) \<noteq> None" "\<not> c_evict c2" "at_time tv2 c2" "tv_sec tv2 < tv_sec tv + n"
  shows "\<exists>db' cmd db2' d d2. HandleCommand c db [''expire'', k, ns] = Some (Inr (db', kInt1Msg)) \<and> db_log db' = Some (l @ [cmd]) \<and>
    HandleCommand c2 db2 cmd = Some (Inr (db2', kInt1Msg)) \<and> deadline db' k = Some d \<and> deadline db2' k = Some d2 \<and>
    \<bar>uint d - uint d2\<bar> < 1000"
proof -
  let ?u = "tv_sec tv + n"
  have t: "clock_time tv" "clock_time tv2" "c_now c = GetCurrentMs tv" "c_sec c = GetCurrentSec tv" "c_now c2 = GetCurrentMs tv2"
    using assms(6,15) by (simp_all add: at_time_def)
  note b = t(1,2) [unfolded clock_time_def]
  have small: "uint (GetCurrentSec tv + word_of_int n) = ?u"
    using b assms(9,10) uint_small [of ?u] by (simp add: GetCurrentSec_def)
  obtain db' where e: "HandleCommand c db [''expire'', k, ns] = Some (Inr (db', kInt1Msg))"
    "db_log db' = Some (l @ [[''expireat'', k, std_to_string ?u]])" "deadline db' k = Some (c_now c + word_of_int n * 1000)"
    using expire_logged [OF reachable_inv [OF assms(1)] assms(2,4,5,7,8,9,3)] small t(4) by metis
  have conv: "CanConvertToInt64 (std_to_string ?u) = Some ?u" using b assms(9,10) by (simp add: CanConvertToInt64_iff in_int64_def)
  have lim: "?u < 2 ^ 41" using b assms(10) by simp
  obtain db2' where r: "HandleCommand c2 db2 [''expireat'', k, std_to_string ?u] = Some (Inr (db2', kInt1Msg))"
    "deadline db2' k = Some (c_now c2 + word_of_int (?u - tv_sec tv2) * 1000)"
    using expireat_replayed [OF reachable_inv [OF assms(11)] assms(12,14,15) conv assms(16) lim assms(13)] .
  have "uint (c_now c + word_of_int n * 1000) = ?u * 1000 + tv_usec tv div 1000"
    "uint (c_now c2 + word_of_int (?u - tv_sec tv2) * 1000) = ?u * 1000 + tv_usec tv2 div 1000"
    using deadline_ms [OF t(1), of n] deadline_ms [OF t(2), of "?u - tv_sec tv2"] b assms(9) lim by (simp_all add: t(3,5))
  then have "\<bar>uint (c_now c + word_of_int n * 1000) - uint (c_now c2 + word_of_int (?u - tv_sec tv2) * 1000)\<bar> < 1000"
    using ms_part [OF t(1)] ms_part [OF t(2)] by linarith
  then show ?thesis using e r by blast
qed

theorem deadline_survives_restart_witness:
  "\<exists>c c2 :: unit ctx. \<exists>db' cmd db2' d d2.
     HandleCommand c (sample_db\<lparr>db_kv := sample_container\<rparr>) [''expire'', ''m'', ''10''] = Some (Inr (db', '':1'' @ CRLF)) \<and>
     db_log db' = Some [cmd] \<and> HandleCommand c2 (sample_db\<lparr>db_kv := sample_container\<rparr>) cmd = Some (Inr (db2', '':1'' @ CRLF)) \<and>
     deadline db' ''m'' = Some d \<and> deadline db2' ''m'' = Some d2 \<and> \<bar>uint d - uint d2\<bar> < 1000"
proof -
  let ?db = "sample_db\<lparr>db_kv := sample_container\<rparr>" and ?tv = "\<lparr>tv_sec = 100, tv_usec = 400000\<rparr>" and ?tv2 = "\<lparr>tv_sec = 105, tv_usec = 900000\<rparr>"
  let ?at = "\<lambda>tv. (sample_ctx 0)\<lparr>c_now := GetCurrentMs tv, c_sec := GetCurrentSec tv\<rparr>"
  have r: "reachable ?db" by (rule reachable.start) (simp_all add: sample_db_def)
  have inv: "kv_inv (db_kv ?db)" using sample_inv by simp
  have key: "kv_abs (db_kv ?db) (Key ''m'') \<noteq> None" by (simp add: sample_abs Key_def c_str_def)
  have log: "db_log ?db = Some []" by (simp add: sample_db_def)
  have conv: "CanConvertToInt64 ''10'' = Some 10" by code_simp
  have c: "\<not> c_evict (?at tv)" "c_sync (?at tv)" for tv by (simp_all add: sample_ctx_def)
  have t: "at_time ?tv (?at ?tv)" "at_time ?tv2 (?at ?tv2)" by (simp_all add: at_time_def clock_time_def)
  show ?thesis
    using deadline_survives_restart [OF r inv key c(1) c(2) t(1) log conv _ _ r inv key c(1) t(2)]
    by (intro exI [of _ "?at ?tv"] exI [of _ "?at ?tv2"]) simp
qed

end
