(* ===== verification/BenchTool.thy ===== *)
theory BenchTool
  imports Config
begin

text \<open>
  \<open>src/tools/litekv-benchmark.cpp\<close>: the options of the (unfinished) benchmark client. The arguments are the list of strings behind the name of the program;
  \<open>std::atol\<close> is \<open>strtol\<close> without error handling, and its result is stored in a \<open>size_t\<close>. The console output is left out, except for
  \<open>ToString\<close>. \<open>ParseArgs\<close> returns the configuration and the argument it complains about.
\<close>

section \<open>The configuration\<close>

record bench_config =
  bm_host :: string
  bm_port :: u64
  bm_n_clients :: u64
  bm_n_requests :: u64
  bm_keyspace_len :: u64
  bm_testing_cmds :: "string list"
  bm_testing_cmds_str :: string

definition BenchMarkConfig_default :: bench_config where
  "BenchMarkConfig_default = \<lparr>bm_host = ''127.0.0.1'', bm_port = 9527, bm_n_clients = 50, bm_n_requests = 100000, bm_keyspace_len = 10,
     bm_testing_cmds = [], bm_testing_cmds_str = []\<rparr>"

definition BenchMarkConfig_ToString :: "bench_config \<Rightarrow> string" where
  "BenchMarkConfig_ToString c =
     ''BenchMarkConfig: '' @ [CHR 0x0A] @
     ''==> host: '' @ bm_host c @ [CHR 0x0A] @
     ''==> port: '' @ std_to_string (uint (bm_port c)) @ [CHR 0x0A] @
     ''==> n_clients: '' @ std_to_string (uint (bm_n_clients c)) @ [CHR 0x0A] @
     ''==> n_requests: '' @ std_to_string (uint (bm_n_requests c)) @ [CHR 0x0A] @
     ''==> keyspace_len: '' @ std_to_string (uint (bm_keyspace_len c)) @ [CHR 0x0A] @
     ''==> testing_cmds: '' @ bm_testing_cmds_str c @ [CHR 0x0A]"

section \<open>Parsing the arguments\<close>

definition atol_size :: "string \<Rightarrow> u64" where
  "atol_size s = word_of_int (fst (strtoll (c_str s)))"

definition add_tests :: "string \<Rightarrow> bench_config \<Rightarrow> bench_config" where
  "add_tests tests c = c\<lparr>bm_testing_cmds := bm_testing_cmds c @ filter (\<lambda>t. t \<noteq> []) (getline_pieces CHR '','' tests),
     bm_testing_cmds_str := tests\<rparr>"

definition takes_value :: "string \<Rightarrow> bool" where
  "takes_value arg \<longleftrightarrow> arg \<in> {''-h'', ''-p'', ''-c'', ''-n'', ''-k'', ''-t''}"

definition bench_option :: "string \<Rightarrow> string \<Rightarrow> bench_config \<Rightarrow> bench_config" where
  "bench_option arg value c =
     (if arg = ''-h'' then c\<lparr>bm_host := value\<rparr>
      else if arg = ''-p'' then c\<lparr>bm_port := atol_size value\<rparr>
      else if arg = ''-c'' then c\<lparr>bm_n_clients := atol_size value\<rparr>
      else if arg = ''-n'' then c\<lparr>bm_n_requests := atol_size value\<rparr>
      else if arg = ''-k'' then c\<lparr>bm_keyspace_len := atol_size value\<rparr>
      else add_tests value c)"

fun ParseArgs :: "string list \<Rightarrow> bench_config \<Rightarrow> bench_config \<times> string option" where
  "ParseArgs [] c = (c, None)"
| "ParseArgs [arg] c = (if takes_value arg then (c, Some arg) else (c, None))"
| "ParseArgs (arg # value # args) c =
     (if takes_value arg then ParseArgs args (bench_option arg value c) else ParseArgs (value # args) c)"

definition benchmark_main :: "string list \<Rightarrow> string" where
  "benchmark_main args = BenchMarkConfig_ToString (fst (ParseArgs args BenchMarkConfig_default))"

section \<open>Properties\<close>

fun join_with :: "char \<Rightarrow> string list \<Rightarrow> string" where
  "join_with d [] = []"
| "join_with d [p] = p"
| "join_with d (p # ps) = p @ d # join_with d ps"

lemma split_join:
  "ps \<noteq> [] \<Longrightarrow> \<forall>p \<in> set ps. d \<notin> set p \<Longrightarrow> split_on d (join_with d ps) = ps"
proof (induction d ps rule: join_with.induct)
  case (2 d p)
  then show ?case by (induction p) auto
next
  case (3 d p q ps)
  have "split_on d (p @ d # s) = p # split_on d s" if "d \<notin> set p" for p s using that by (induction p) auto
  then show ?case using 3 by simp
qed simp

lemma getline_join:
  assumes "\<forall>p \<in> set ps. p \<noteq> [] \<and> d \<notin> set p"
  shows "filter (\<lambda>t. t \<noteq> []) (getline_pieces d (join_with d ps)) = ps"
proof (cases "ps = []")
  case False
  then have "split_on d (join_with d ps) = ps" "last ps \<noteq> []" using split_join assms by auto
  then show ?thesis using assms by (simp add: getline_pieces_def Let_def filter_id_conv)
qed (simp add: getline_pieces_def)

lemma atol_printed: "uint w < 2 ^ 63 \<Longrightarrow> atol_size (std_to_string (uint w)) = w"
  using strtoll_to_string [of "uint w" "[]"] order_trans [OF _ unsigned_greater_eq [of w, where ?'a = int], of INT64_MIN] by (simp add: atol_size_def in_int64_def)

definition bench_args :: "bench_config \<Rightarrow> string list" where
  "bench_args c = [''-h'', bm_host c, ''-p'', std_to_string (uint (bm_port c)), ''-c'', std_to_string (uint (bm_n_clients c)),
     ''-n'', std_to_string (uint (bm_n_requests c)), ''-k'', std_to_string (uint (bm_keyspace_len c)), ''-t'', bm_testing_cmds_str c]"

text \<open>
  The options of the benchmark client round trip: the arguments that print a configuration, with numbers below \<open>2 ^ 63\<close> and test names without
  commas, are parsed to that configuration. A flag without a value is reported, and what came before it keeps its effect.
\<close>

theorem bench_options_roundtrip:
  assumes "\<forall>n \<in> {bm_port c, bm_n_clients c, bm_n_requests c, bm_keyspace_len c}. uint n < 2 ^ 63"
    and "\<forall>t \<in> set (bm_testing_cmds c). t \<noteq> [] \<and> CHR '','' \<notin> set t" "bm_testing_cmds_str c = join_with CHR '','' (bm_testing_cmds c)"
  shows "ParseArgs (bench_args c) BenchMarkConfig_default = (c, None) \<and>
    (takes_value flag \<longrightarrow> ParseArgs (bench_args c @ [flag]) BenchMarkConfig_default = (c, Some flag))"
  using assms(1,3) getline_join [OF assms(2)]
  by (simp add: bench_args_def takes_value_def bench_option_def add_tests_def atol_printed BenchMarkConfig_default_def)

end
