(* ===== verification/PseudoData.thy ===== *)
theory PseudoData
  imports Persistence
begin

text \<open>
  \<open>src/tools/litekv-gen-pseudo-data.cpp\<close>: the tool that writes a log of random commands. The random engine is a state \<open>'g\<close> and a function
  \<open>draw lo hi g\<close> that yields a number between its bounds (\<open>in_bounds\<close>) and the next state; the second distribution draws between 1 and the number of records.
\<close>

section \<open>The generator\<close>

type_synonym 'g draw = "int \<Rightarrow> int \<Rightarrow> 'g \<Rightarrow> int \<times> 'g"

definition in_bounds :: "'g draw \<Rightarrow> bool" where
  "in_bounds draw \<longleftrightarrow> (\<forall>lo hi g. lo \<le> hi \<longrightarrow> lo \<le> fst (draw lo hi g) \<and> fst (draw lo hi g) \<le> hi)"

abbreviation (input) alphabet :: string where "alphabet \<equiv> ''0123456789abcdefghijklmnopqrstuvwxyz''"

definition GenRandomStr :: "'g draw \<Rightarrow> int \<Rightarrow> int \<Rightarrow> 'g \<Rightarrow> string \<times> 'g" where
  "GenRandomStr draw num n g = (case draw 1 num g of (r, g1) \<Rightarrow> (replicate (nat n) (alphabet ! nat (r mod 36)), g1))"

fun GenRandomStr2 :: "'g draw \<Rightarrow> int \<Rightarrow> nat \<Rightarrow> 'g \<Rightarrow> string \<times> 'g" where
  "GenRandomStr2 draw num 0 g = ([], g)"
| "GenRandomStr2 draw num (Suc n) g =
     (case GenRandomStr draw num 1 g of (s, g1) \<Rightarrow> case GenRandomStr2 draw num n g1 of (t, g2) \<Rightarrow> (s @ t, g2))"

fun gen_fields :: "'g draw \<Rightarrow> int \<Rightarrow> nat \<Rightarrow> 'g \<Rightarrow> string list \<times> 'g" where
  "gen_fields draw num 0 g = ([], g)"
| "gen_fields draw num (Suc n) g =
     (case draw 1 4 g of (a, g1) \<Rightarrow>
      case draw 1 4 g1 of (len, g2) \<Rightarrow>
      case GenRandomStr draw num len g2 of (s, g3) \<Rightarrow>
      case draw 3 15 g3 of (m, g4) \<Rightarrow>
      case GenRandomStr2 draw num (nat m) g4 of (v, g5) \<Rightarrow>
      case gen_fields draw num n g5 of (kvs, g6) \<Rightarrow> ((std_to_string (a mod num) @ s) # v # kvs, g6))"

text \<open>One turn of the loop: the arguments of the command.\<close>

definition gen_command :: "'g draw \<Rightarrow> int \<Rightarrow> 'g \<Rightarrow> string list \<times> 'g" where
  "gen_command draw num g =
     (case draw 1 4 g of (opt, g1) \<Rightarrow>
      case draw 1 num g1 of (r, g2) \<Rightarrow>
        let key = std_to_string (r mod num)
        in if opt = 1 then (case draw 1 4 g2 of (v, g3) \<Rightarrow> ([''set'', key, std_to_string (v mod num)], g3))
           else if opt = 2
           then (case draw 3 15 g2 of (m, g3) \<Rightarrow> case GenRandomStr2 draw num (nat m) g3 of (v, g4) \<Rightarrow> ([''set'', key, v], g4))
           else if opt = 3
           then (case draw 1 4 g2 of (pop, g3) \<Rightarrow> case draw 1 4 g3 of (n0, g4) \<Rightarrow>
                   let n = max (n0 mod 20) 5; vals = map (\<lambda>j. std_to_string (int j)) [0 ..< nat n]
                   in ((if pop \<ge> 2 then [''lpush'', key] else [''rpush'', key]) @ vals, g4))
           else if opt = 4
           then (case draw 1 4 g2 of (n0, g3) \<Rightarrow>
                   let n = max (n0 mod 20) 5 in case gen_fields draw num (nat n) g3 of (kvs, g4) \<Rightarrow> ([''hset'', key] @ kvs, g4))
           else ([], g2))"

fun gen_commands :: "'g draw \<Rightarrow> int \<Rightarrow> nat \<Rightarrow> 'g \<Rightarrow> string list list \<times> 'g" where
  "gen_commands draw num 0 g = ([], g)"
| "gen_commands draw num (Suc n) g =
     (case gen_command draw num g of (c, g1) \<Rightarrow> case gen_commands draw num n g1 of (cs, g2) \<Rightarrow> (c # cs, g2))"

text \<open>The bytes \<open>main\<close> appends to the file for the arguments behind the name of the program; \<open>None\<close> is the message on the usage.\<close>

definition gen_main :: "'g draw \<Rightarrow> 'g \<Rightarrow> string list \<Rightarrow> string option" where
  "gen_main draw g args =
     (if length args \<noteq> 2 then None
      else let num = fst (strtoll (c_str (args ! 0)))
           in Some (concat (map (\<lambda>c. ToProtocolString (cache_of c)) (fst (gen_commands draw num (nat num) g)))))"

section \<open>Lemmas\<close>

text \<open>The commands the generator can write: the key is a number below the number of records and the strings are short.\<close>

definition generated :: "int \<Rightarrow> string list \<Rightarrow> bool" where
  "generated num c \<longleftrightarrow>
     (\<exists>k. 0 \<le> k \<and> k < num \<and>
       ((\<exists>v. c = [''set'', std_to_string k, v] \<and> length v \<le> 20) \<or>
        (\<exists>opn vs. c = opn # std_to_string k # vs \<and> opn \<in> {''lpush'', ''rpush''} \<and> vs \<noteq> []) \<or>
        (\<exists>kvs. c = ''hset'' # std_to_string k # kvs \<and> kvs \<noteq> [] \<and> even (length kvs))))"

lemma in_boundsD: "in_bounds draw \<Longrightarrow> lo \<le> hi \<Longrightarrow> lo \<le> fst (draw lo hi g) \<and> fst (draw lo hi g) \<le> hi"
  by (simp add: in_bounds_def)

lemma length_GenRandomStr2: "length (fst (GenRandomStr2 draw num n g)) = n"
  by (induction n arbitrary: g) (auto simp: GenRandomStr_def split_beta)

lemma length_gen_fields: "length (fst (gen_fields draw num n g)) = 2 * n"
proof (induction n arbitrary: g)
  case (Suc n)
  then show ?case by (auto simp: split_beta)
qed simp

lemma gen_command_generated:
  assumes "in_bounds draw" "0 < num" "num < 2 ^ 31"
  shows "generated num (fst (gen_command draw num g))"
proof -
  obtain opt g1 where o: "draw 1 4 g = (opt, g1)" by (cases "draw 1 4 g")
  obtain r g2 where r: "draw 1 num g1 = (r, g2)" by (cases "draw 1 num g1")
  have "1 \<le> opt" "opt \<le> 4" using in_boundsD [OF assms(1), of 1 4 g] o by simp_all
  then have opt: "opt = 1 \<or> opt = 2 \<or> opt = 3 \<or> opt = 4" by linarith
  have k: "0 \<le> r mod num" "r mod num < num" using assms(2) by simp_all
  have v: "length (std_to_string (v mod num)) \<le> 20" for v
  proof -
    have "0 \<le> v mod num" "v mod num < num" using assms(2) by simp_all
    then show ?thesis using assms(3) by (intro length_std_to_string_int64) (simp add: in_int64_def)
  qed
  have m: "nat (fst (draw 3 15 g')) \<le> 20" for g'
    using in_boundsD [OF assms(1), of 3 15 g'] by linarith
  consider "opt = 1" | "opt = 2" | "opt = 3" | "opt = 4" using opt by blast
  then show ?thesis
  proof cases
    case 1
    then show ?thesis using k v by (auto simp: generated_def gen_command_def o r split_beta Let_def)
  next
    case 2
    then show ?thesis using k m by (auto simp: generated_def gen_command_def o r split_beta Let_def length_GenRandomStr2)
  next
    case 3
    then show ?thesis using k by (auto simp: generated_def gen_command_def o r split_beta Let_def)
  next
    case 4
    have ne: "fst (gen_fields draw num (nat (max n 5)) g') \<noteq> []" for n g'
      using length_gen_fields [of draw num "nat (max n 5)" g'] by (auto simp del: length_gen_fields)
    show ?thesis using k 4 ne by (auto simp: generated_def gen_command_def o r split_beta Let_def length_gen_fields)
  qed
qed

lemma gen_commands_generated:
  assumes "in_bounds draw" "0 < num" "num < 2 ^ 31"
  shows "length (fst (gen_commands draw num n g)) = n \<and> (\<forall>c \<in> set (fst (gen_commands draw num n g)). generated num c)"
  using gen_command_generated [OF assms] by (induction n arbitrary: g) (auto simp: split_beta)

text \<open>Such a command is accepted by any server and changes only its key.\<close>

lemma generated_lower: "generated num c \<Longrightarrow> lower_op c = c"
  by (auto simp: generated_def lower_op_def c_tolower_def)

lemmas plan_eval = plan_of_def cmd_table_def with_syntax_def CheckSyntax_def key1_def

lemma set_plan:
  "plan_of ''set'' [''set'', k, v] =
     (case CanConvertToInt64 v of Some i \<Rightarrow> Inr (DoSetInt (Key k) i) | None \<Rightarrow> Inr (DoSetString (Key k) v))"
  by (cases "CanConvertToInt64 v") (simp_all add: plan_eval)

lemma push_plan:
  "vs \<noteq> [] \<Longrightarrow> plan_of ''lpush'' (''lpush'' # k # vs) = Inr (DoPushMany True k vs)"
  "vs \<noteq> [] \<Longrightarrow> plan_of ''rpush'' (''rpush'' # k # vs) = Inr (DoPushMany False k vs)"
  by (cases vs; simp add: plan_eval)+

lemma hset_plan:
  "kvs \<noteq> [] \<Longrightarrow> even (length kvs) \<Longrightarrow>
     plan_of ''hset'' (''hset'' # k # kvs) = Inr (DoHSetMany (Key k) (fst (split_pairs kvs)) (snd (split_pairs kvs)))"
  by (cases kvs) (simp_all add: plan_eval)

lemma generated_plan:
  assumes "generated num c"
  obtains (int) i where "plan_of (hd c) c = Inr (DoSetInt (Key (c ! 1)) i)" "in_int64 i"
  | (str) v where "plan_of (hd c) c = Inr (DoSetString (Key (c ! 1)) v)" "length v \<le> 20"
  | (push) left vs where "plan_of (hd c) c = Inr (DoPushMany left (c ! 1) vs)"
  | (hash) fs vs where "plan_of (hd c) c = Inr (DoHSetMany (Key (c ! 1)) fs vs)"
proof -
  obtain k where "(\<exists>v. c = [''set'', k, v] \<and> length v \<le> 20) \<or> (\<exists>opn vs. c = opn # k # vs \<and> opn \<in> {''lpush'', ''rpush''} \<and> vs \<noteq> []) \<or>
      (\<exists>kvs. c = ''hset'' # k # kvs \<and> kvs \<noteq> [] \<and> even (length kvs))"
    using assms by (auto simp: generated_def)
  then consider v where "c = [''set'', k, v]" "length v \<le> 20" | opn vs where "c = opn # k # vs" "opn \<in> {''lpush'', ''rpush''}" "vs \<noteq> []"
    | kvs where "c = ''hset'' # k # kvs" "kvs \<noteq> []" "even (length kvs)" by blast
  then show ?thesis
  proof cases
    case (1 v)
    then show ?thesis using that(1,2) by (cases "CanConvertToInt64 v") (simp_all add: set_plan CanConvertToInt64_iff)
  next
    case (2 opn vs)
    then show ?thesis using that(3) push_plan [OF 2(3), of k] by auto
  next
    case (3 kvs)
    then show ?thesis using that(4) hset_plan [OF 3(2,3), of k] by simp
  qed
qed

lemma generated_opcode: "generated num c \<Longrightarrow> c \<noteq> [] \<and> map_of cmd_table (hd c) \<noteq> None"
  unfolding generated_def by (elim exE conjE disjE insertE) (simp_all add: cmd_table_def)

lemma generated_ok:
  assumes "generated num c"
  shows "cmd_ok m c"
  using assms by (cases rule: generated_plan) (use generated_opcode [OF assms] in \<open>simp_all add: cmd_ok_def\<close>)

lemma generated_dom:
  assumes "generated num c"
  shows "dom (fst (cmd_spec m c)) \<subseteq> insert (Key (c ! 1)) (dom m)"
proof -
  have p: "dom (fst (kv_spec m (DoPushMany left k vs))) \<subseteq> insert (Key k) (dom m)" for left k vs
    by (auto split: sum.splits if_splits)
  have h: "dom (fst (kv_spec m (DoHSetMany k fs vs))) \<subseteq> insert k (dom m)" for k fs vs
    by (auto split: sum.splits if_splits)
  have f: "fst (cmd_spec m c) = fst (kv_spec m op)" if "plan_of (hd c) c = Inr op" for op
    using that by (simp add: cmd_spec_def split_beta)
  from assms show ?thesis
  proof (cases rule: generated_plan)
    case (push left vs)
    show ?thesis unfolding f [OF push] by (rule p)
  next
    case (hash fs vs)
    show ?thesis unfolding f [OF hash] by (rule h)
  qed (auto simp: f split: if_splits)
qed

lemma generated_key:
  assumes "generated num c"
  shows "Key (c ! 1) \<in> std_to_string ` {0 ..< num}"
  using assms by (auto simp: generated_def Key_def)

lemma generated_run:
  assumes "\<forall>c \<in> set cmds. generated num c" "length cs = length cmds" "\<forall>c \<in> set cs. \<not> c_evict c"
  shows "calls_ok cmd_call_ok cmd_spec_step (m, l) (zip cs cmds) \<and>
    (dom m \<subseteq> std_to_string ` {0 ..< num} \<longrightarrow> dom (fst (fst (run_calls cmd_spec_step (m, l) (zip cs cmds)))) \<subseteq> std_to_string ` {0 ..< num})"
  using assms(2,1,3)
proof (induction cs cmds arbitrary: m l rule: list_induct2)
  case (Cons c cs cmd cmds)
  obtain m' l' r where st: "cmd_spec_step (m, l) (c, cmd) = ((m', l'), r)" by (metis prod.exhaust)
  have g: "generated num cmd" using Cons.prems by simp
  have m': "m' = fst (cmd_spec m cmd)" using st by (auto simp: cmd_spec_step_def generated_lower [OF g] split: prod.splits)
  have "cmd_call_ok (m, l) (c, cmd)" using Cons.prems generated_ok [OF g] by (simp add: cmd_call_ok_def generated_lower [OF g])
  moreover have "dom m \<subseteq> std_to_string ` {0 ..< num} \<longrightarrow> dom m' \<subseteq> std_to_string ` {0 ..< num}"
    using generated_dom [OF g, of m] generated_key [OF g] m' by blast
  ultimately show ?case using Cons.IH [of m' l'] Cons.prems st by (auto simp: split_beta)
qed simp

section \<open>Properties\<close>

text \<open>
  The data the tool generates can be loaded. For any number of records \<open>num\<close> between 1 and \<open>2 ^ 31 - 1\<close> and any random engine, the tool writes that many commands; a
  file of at most one block is read back as exactly these commands, and an empty server that is restored from it executes all of
  them without a fault and ends with keys among the numbers below \<open>num\<close>.
\<close>

theorem pseudo_data_loads:
  assumes "in_bounds draw" "0 < num" "num < 2 ^ 31" "cmds = fst (gen_commands draw num (nat num) g)" "small_commands cmds"
    and "db_kv db = KVContainer_new" "length cs = nat num" "\<forall>c \<in> set cs. \<not> c_evict c"
  shows "\<exists>bytes db'. gen_main draw g [std_to_string num, file] = Some bytes \<and> CommonOperation err bytes = Some cmds \<and> length cmds = nat num \<and>
    ReadFromScratch cs err bytes db = Some (Inr db') \<and> kv_inv (db_kv db') \<and> dom (kv_abs (db_kv db')) \<subseteq> std_to_string ` {0 ..< num}"
proof -
  let ?cs = "map (\<lambda>c. c\<lparr>c_sync := False\<rparr>) cs" and ?bytes = "concat (map (\<lambda>cmd. ToProtocolString (cache_of cmd)) cmds)"
  have g: "length cmds = nat num" "\<forall>c \<in> set cmds. generated num c" using gen_commands_generated [OF assms(1-3)] assms(4) by simp_all
  have "strtoll (std_to_string num) = (num, length (std_to_string num), False)"
    using strtoll_to_string [of num "[]"] assms(2,3) by (simp add: in_int64_def)
  then have main: "gen_main draw g [std_to_string num, file] = Some ?bytes" by (simp add: gen_main_def assms(4))
  have read: "CommonOperation err ?bytes = Some cmds" by (rule read_log_file [OF assms(5)])
  have d: "kv_inv (db_kv db)" "db_abs db = (Map.empty, db_log db)" using assms(6) kv_inv_new by (simp_all add: db_abs_def)
  note ok = generated_run [of cmds num ?cs Map.empty "db_log db", folded d(2), OF g(2)]
  have ok1: "calls_ok cmd_call_ok cmd_spec_step (db_abs db) (zip ?cs cmds)" using ok g(1) assms(7,8) by simp
  obtain db' rs where run: "run_calls cmd_step db (zip ?cs cmds) = (db', rs)" by (cases "run_calls cmd_step db (zip ?cs cmds)")
  have "handle_all cs cmds db = Some (Inr db')" using handle_all_run [OF d(1) ok1] g(1) assms(7) run by simp
  moreover from server_calls.run_refines [OF d(1) ok1 run]
  have "kv_inv (db_kv db')" "run_calls cmd_spec_step (db_abs db) (zip ?cs cmds) = (db_abs db', rs)" by simp_all
  moreover from this(2) have "dom (kv_abs (db_kv db')) \<subseteq> std_to_string ` {0 ..< num}"
    using ok g(1) assms(7,8) by (simp add: db_abs_def)
  ultimately show ?thesis using main read g(1) by (auto simp: ReadFromScratch_def)
qed

theorem pseudo_data_loads_witness:
  "\<exists>bytes db'. gen_main (\<lambda>lo hi g. (lo, g)) () [std_to_string 1, ''dump''] = Some bytes \<and>
     CommonOperation False bytes = Some [[''set'', std_to_string 0, std_to_string 0]] \<and> ReadFromScratch [sample_ctx 9] False bytes sample_db = Some (Inr db')"
proof -
  let ?draw = "\<lambda>lo hi g. (lo, g) :: int \<times> unit"
  have c: "[[''set'', std_to_string 0, std_to_string 0]] = fst (gen_commands ?draw 1 (nat 1) ())" by (simp add: gen_command_def)
  have "small_commands [[''set'', std_to_string 0, std_to_string 0]]"
    by (simp add: small_commands_def request_def item_protocol_eq std_to_string_def to_string_nat.simps)
  from pseudo_data_loads [OF _ _ _ c this, of sample_db "[sample_ctx 9]" "''dump''" False] show ?thesis
    by (auto simp: in_bounds_def sample_db_def sample_ctx_def)
qed

end
