(* ===== verification/Redundancy.thy ===== *)
theory Redundancy
  imports Persistence Recover
begin

text \<open>
  \<open>AppendableFile::RemoveRedundancy\<close> of \<open>src/src/persistence.cpp\<close>, the rewriting of a log file: the
  commands are sorted by key, those before the last \<open>del\<close> or \<open>set\<close> of a key are dropped, the
  rest is executed on local containers and one command that builds the result is appended to the new log.

  The local \<open>std::unordered_map\<close> and \<open>std::unordered_set\<close> are lists without repeated keys, walked in an order that is
  an argument (\<open>iteration\<close>); \<open>sec key i\<close> is the \<open>i\<close>-th reading of the clock made for a key.
\<close>

section \<open>Faults and local containers\<close>

datatype rr_error = OutsideContainer | Thrown std_exception | AssertFailed

datatype op_type = OP_TYPE_LIST | OP_TYPE_HASH | OP_TYPE_STRING | OP_TYPE_INTEGER | OP_TYPE_SET | OP_TYPE_OTHER

record aux =
  aux_list :: "string list"
  aux_hash :: "(string \<times> string) list"
  aux_uset :: "string list"
  aux_string :: string
  aux_int64 :: int
  aux_type :: "op_type option"

record iteration =
  it_keys :: "(string \<times> string list list) list \<Rightarrow> (string \<times> string list list) list"
  it_hash :: "(string \<times> string) list \<Rightarrow> (string \<times> string) list"
  it_uset :: "string list \<Rightarrow> string list"

definition aux_new :: aux where
  "aux_new = \<lparr>aux_list = [], aux_hash = [], aux_uset = [], aux_string = [], aux_int64 = 0, aux_type = None\<rparr>"

definition operand :: "string list \<Rightarrow> nat \<Rightarrow> rr_error + string" where
  "operand ops i = (if i < length ops then Inr (ops ! i) else Inl OutsideContainer)"

definition try_op :: "rr_error + 'a \<Rightarrow> ('a \<Rightarrow> rr_error + 'b) \<Rightarrow> rr_error + 'b" where
  "try_op x f = (case x of Inl e \<Rightarrow> Inl e | Inr a \<Rightarrow> f a)"

lemma try_op_simps [simp]: "try_op (Inl e) f = Inl e" "try_op (Inr a) f = f a"
  by (simp_all add: try_op_def)

section \<open>Commands by key\<close>

definition populate_caches_func :: "(string \<times> string list list) list \<Rightarrow> string list \<Rightarrow> rr_error + (string \<times> string list list) list" where
  "populate_caches_func cache_map cache =
     try_op (operand cache 1) (\<lambda>key.
       Inr (AList.update key ((case map_of cache_map key of None \<Rightarrow> [] | Some l \<Rightarrow> l) @ [cache]) cache_map))"

fun populate :: "string list list \<Rightarrow> (string \<times> string list list) list \<Rightarrow> rr_error + (string \<times> string list list) list" where
  "populate [] cache_map = Inr cache_map"
| "populate (c # cs) cache_map = try_op (populate_caches_func cache_map c) (populate cs)"

text \<open>
  The first loop over the commands of a key. A \<open>del\<close>, a \<open>set\<close> or an expired \<open>expireat\<close> empties the queue.
\<close>

definition sequential_step :: "u64 \<Rightarrow> u64 \<Rightarrow> string list \<Rightarrow> string list list \<Rightarrow> rr_error + string list list" where
  "sequential_step now1 now2 cmd sequential =
     (let operation = cmd ! 0
      in try_op
           (if operation = ''del'' \<or> operation = ''set'' \<or> operation = ''expireat''
            then if operation = ''expireat''
                 then try_op (operand cmd 2) (\<lambda>t.
                        let expireat = (case CanConvertToUInt64 t of None \<Rightarrow> now1 | Some v \<Rightarrow> v)
                        in Inr (if now2 \<ge> expireat then [] else sequential @ [cmd]))
                 else Inr []
            else Inr sequential)
           (\<lambda>sequential1. Inr (if operation \<noteq> ''del'' \<and> operation \<noteq> ''expireat'' then sequential1 @ [cmd] else sequential1)))"

fun sequential_commands :: "(nat \<Rightarrow> u64) \<Rightarrow> nat \<Rightarrow> string list list \<Rightarrow> string list list \<Rightarrow> rr_error + string list list" where
  "sequential_commands sec i [] sequential = Inr sequential"
| "sequential_commands sec i (cmd # cmds) sequential =
     try_op (sequential_step (sec (2 * i)) (sec (2 * i + 1)) cmd sequential) (sequential_commands sec (Suc i) cmds)"

section \<open>Execution on the local containers\<close>

definition list_op :: "string \<Rightarrow> string list \<Rightarrow> string list \<Rightarrow> rr_error + string list" where
  "list_op opn operands xs =
     (if opn = ''lpush'' then Inr (fold (\<lambda>x l. x # l) (drop 2 operands) xs)
      else if opn = ''rpush'' then Inr (fold (\<lambda>x l. l @ [x]) (drop 2 operands) xs)
      else if opn = ''lpop'' then (if xs = [] then Inl OutsideContainer else Inr (tl xs))
      else if opn = ''rpop'' then (if xs = [] then Inl OutsideContainer else Inr (butlast xs))
      else try_op (operand operands 2) (\<lambda>idx.
             case std_stoull idx of
               Inl ex \<Rightarrow> Inl (Thrown ex)
             | Inr j \<Rightarrow> if unat j < length xs then try_op (operand operands 3) (\<lambda>v. Inr (xs[unat j := v]))
                        else Inl OutsideContainer))"

fun update_pairs :: "string list \<Rightarrow> (string \<times> string) list \<Rightarrow> rr_error + (string \<times> string) list" where
  "update_pairs (f # v # rest) h = update_pairs rest (AList.update f v h)"
| "update_pairs [f] h = Inl OutsideContainer"
| "update_pairs [] h = Inr h"

definition int_op :: "string \<Rightarrow> string list \<Rightarrow> aux \<Rightarrow> rr_error + aux" where
  "int_op opn operands ax =
     (let conv = CanConvertToInt64 (aux_string ax);
          i = (case conv of Some v \<Rightarrow> v | None \<Rightarrow> aux_int64 ax);
          ax1 = ax\<lparr>aux_int64 := i\<rparr>
      in if conv \<noteq> None \<or> aux_string ax = []
         then if opn = ''incr'' then Inr (ax1\<lparr>aux_string := std_to_string (wrap64 (i + 1))\<rparr>)
              else if opn = ''decr'' then Inr (ax1\<lparr>aux_string := std_to_string (wrap64 (i - 1))\<rparr>)
              else try_op (operand operands 2) (\<lambda>s.
                     case std_stoll s of
                       Inl ex \<Rightarrow> Inl (Thrown ex)
                     | Inr n \<Rightarrow> Inr (ax1\<lparr>aux_string := std_to_string (wrap64 (if opn = ''incrby'' then i + n else i - n))\<rparr>))
         else Inr ax)"

text \<open>
  One command of the queue, with whether it is the last one, and the commands it appends to the new log.
\<close>

definition aux_step :: "bool \<Rightarrow> string list \<Rightarrow> aux \<Rightarrow> rr_error + aux \<times> command_cache list" where
  "aux_step last_one operands ax =
     (let opn = operands ! 0
      in if opn \<in> {''lpush'', ''rpush'', ''lpop'', ''rpop'', ''lsetindex''}
         then try_op (list_op opn operands (aux_list ax)) (\<lambda>xs. Inr (ax\<lparr>aux_list := xs, aux_type := Some OP_TYPE_LIST\<rparr>, []))
         else if opn = ''hset''
         then try_op (update_pairs (drop 2 operands) (aux_hash ax)) (\<lambda>h. Inr (ax\<lparr>aux_hash := h, aux_type := Some OP_TYPE_HASH\<rparr>, []))
         else if opn = ''hdel''
         then Inr (ax\<lparr>aux_hash := fold AList.delete (drop 2 operands) (aux_hash ax), aux_type := Some OP_TYPE_HASH\<rparr>, [])
         else if opn = ''sadd''
         then Inr (ax\<lparr>aux_uset := fold List.insert (drop 2 operands) (aux_uset ax), aux_type := Some OP_TYPE_SET\<rparr>, [])
         else if opn = ''srem''
         then Inr (ax\<lparr>aux_uset := fold remove1 (drop 2 operands) (aux_uset ax), aux_type := Some OP_TYPE_SET\<rparr>, [])
         else if opn = ''append''
         then try_op (operand operands 2) (\<lambda>s. Inr (ax\<lparr>aux_string := aux_string ax @ s, aux_type := Some OP_TYPE_STRING\<rparr>, []))
         else if opn \<in> {''incr'', ''decr'', ''incrby'', ''decrby''}
         then try_op (int_op opn operands (ax\<lparr>aux_type := Some OP_TYPE_INTEGER\<rparr>)) (\<lambda>ax'. Inr (ax', []))
         else if opn \<noteq> ''set'' then Inl AssertFailed
         else if last_one then Inr (ax\<lparr>aux_type := Some OP_TYPE_OTHER\<rparr>, [cache_of operands])
         else try_op (operand operands 2) (\<lambda>s. Inr (ax\<lparr>aux_string := s, aux_type := Some OP_TYPE_OTHER\<rparr>, [])))"

fun aux_run :: "string list list \<Rightarrow> aux \<Rightarrow> rr_error + aux \<times> command_cache list" where
  "aux_run [] ax = Inr (ax, [])"
| "aux_run (c # cs) ax =
     try_op (aux_step (cs = []) c ax) (\<lambda>(ax1, out1).
       try_op (aux_run cs ax1) (\<lambda>(ax2, out2). Inr (ax2, out1 @ out2)))"

section \<open>The new log\<close>

definition built_cache :: "string list \<Rightarrow> command_cache" where
  "built_cache args = \<lparr>cc_inited = False, argc = of_nat (length args), argv = args\<rparr>"

definition restore_command :: "iteration \<Rightarrow> string \<Rightarrow> aux \<Rightarrow> command_cache list" where
  "restore_command it key ax =
     (case aux_type ax of
        Some OP_TYPE_LIST \<Rightarrow> [built_cache (''rpush'' # key # aux_list ax)]
      | Some OP_TYPE_HASH \<Rightarrow> [built_cache (''hset'' # key # concat (map (\<lambda>e. [fst e, snd e]) (it_hash it (aux_hash ax))))]
      | Some OP_TYPE_SET \<Rightarrow> [built_cache (''sadd'' # key # it_uset it (aux_uset ax))]
      | Some OP_TYPE_INTEGER \<Rightarrow> [built_cache [''set'', key, aux_string ax]]
      | Some OP_TYPE_STRING \<Rightarrow> [built_cache [''set'', key, aux_string ax]]
      | _ \<Rightarrow> [])"

definition process_key :: "iteration \<Rightarrow> (string \<Rightarrow> nat \<Rightarrow> u64) \<Rightarrow> string list list \<Rightarrow> rr_error + command_cache list" where
  "process_key it sec commands =
     (let key = hd commands ! 1
      in try_op (sequential_commands (sec key) 0 commands []) (\<lambda>sequential.
           if sequential = [] then Inr []
           else try_op (aux_run sequential aux_new) (\<lambda>(ax, out). Inr (out @ restore_command it key ax))))"

fun process_keys :: "iteration \<Rightarrow> (string \<Rightarrow> nat \<Rightarrow> u64) \<Rightarrow> (string \<times> string list list) list \<Rightarrow> aof \<Rightarrow> rr_error + aof" where
  "process_keys it sec [] a = Inr a"
| "process_keys it sec (item # items) a =
     try_op (process_key it sec (snd item)) (\<lambda>out. process_keys it sec items (fold AppendableFile_Append out a))"

text \<open>\<open>None\<close> is a file that cannot be opened. The parser leaving its buffer is \<open>OutsideContainer\<close>.\<close>

definition RemoveRedundancy :: "iteration \<Rightarrow> (string \<Rightarrow> nat \<Rightarrow> u64) \<Rightarrow> bool \<Rightarrow> string option \<Rightarrow> aof \<Rightarrow> rr_error + aof" where
  "RemoveRedundancy it sec err source_file a =
     (case source_file of
        None \<Rightarrow> Inr a
      | Some bytes \<Rightarrow>
          (case CommonOperation err bytes of
             None \<Rightarrow> Inl OutsideContainer
           | Some cmds \<Rightarrow> try_op (populate cmds []) (\<lambda>cache_map. process_keys it sec (it_keys it cache_map) a)))"


section \<open>The logged commands\<close>

text \<open>
  The commands of a log, as they act on one key. \<open>simple_command\<close> names the commands
  the rewriting can handle: the key has no NUL byte, \<open>del\<close> has one key, the index of \<open>lsetindex\<close> is not
  negative.
\<close>

definition simple_command :: "string list \<Rightarrow> bool" where
  "simple_command c \<longleftrightarrow> Key (c ! 1) = c ! 1 \<and> (hd c = ''del'' \<longrightarrow> length c = 2) \<and> (hd c = ''lsetindex'' \<longrightarrow> hd (c ! 2) \<noteq> CHR ''-'')"

fun key_effect :: "string list \<Rightarrow> avalue option \<Rightarrow> avalue option \<Rightarrow> bool" where
  "key_effect (opn # k # rest) v v' \<longleftrightarrow>
     (if opn = ''del'' then rest = [] \<and> v' = None
      else if opn = ''set'' then (\<exists>s. rest = [s] \<and> length s \<le> 2 ^ 31 \<and> v' = Some (reread (AStr s)))
      else if opn \<in> {''incr'', ''decr'', ''incrby'', ''decrby''}
      then (\<exists>i d. (v = None \<and> i = 0 \<or> v = Some (AInt i)) \<and> v' = Some (AInt (i + d)) \<and> in_int64 (i + d) \<and>
             (opn = ''incr'' \<and> rest = [] \<and> d = 1 \<or> opn = ''decr'' \<and> rest = [] \<and> d = - 1 \<or>
              (\<exists>n. rest = [std_to_string n] \<and> in_int64 n \<and> (opn = ''incrby'' \<and> d = n \<or> opn = ''decrby'' \<and> d = - n))))
      else if opn = ''append''
      then (\<exists>s w. rest = [s] \<and> (v = None \<and> w = [] \<or> v = Some (AStr w) \<or> (\<exists>i. v = Some (AInt i) \<and> w = std_to_string i)) \<and>
             length (w @ s) \<le> 2 ^ 31 \<and> v' = Some (AStr (w @ s)))
      else if opn \<in> {''lpush'', ''rpush''}
      then rest \<noteq> [] \<and> (\<exists>xs. (v = None \<and> xs = [] \<or> v = Some (AList xs)) \<and>
             v' = Some (AList (if opn = ''lpush'' then rev rest @ xs else xs @ rest)))
      else if opn \<in> {''lpop'', ''rpop''}
      then (\<exists>xs. v = Some (AList xs) \<and> xs \<noteq> [] \<and> v' = Some (AList (if opn = ''lpop'' then tl xs else butlast xs)))
      else if opn = ''lsetindex''
      then (\<exists>xs i x. v = Some (AList xs) \<and> rest = [std_to_string (int i), x] \<and> i < length xs \<and> i < 2 ^ 31 \<and> v' = Some (AList (xs[i := x])))
      else if opn = ''hset''
      then rest \<noteq> [] \<and> even (length rest) \<and> (\<exists>h. (v = None \<and> h = Map.empty \<or> v = Some (AHash h)) \<and>
             v' = Some (AHash (h(fst (split_pairs rest) [\<mapsto>] snd (split_pairs rest)))))
      else if opn = ''hdel''
      then v = None \<and> v' = None \<or> (\<exists>h. v = Some (AHash h) \<and> v' = Some (AHash (h |` (- set rest))))
      else if opn = ''sadd''
      then rest \<noteq> [] \<and> (\<exists>A. (v = None \<and> A = {} \<or> v = Some (ASet A)) \<and> v' = Some (ASet (A \<union> set rest)))
      else opn = ''srem'' \<and> (v = None \<and> v' = None \<or> (\<exists>A. v = Some (ASet A) \<and> v' = Some (ASet (A - set rest)))))"
| "key_effect _ v v' \<longleftrightarrow> False"

definition good_value :: "avalue option \<Rightarrow> bool" where
  "good_value v \<longleftrightarrow> (\<forall>i. v = Some (AInt i) \<longrightarrow> in_int64 i)"


text \<open>The one change a logged command makes.\<close>

definition changes_key :: "(string \<rightharpoonup> avalue) \<Rightarrow> string list \<Rightarrow> (string \<rightharpoonup> avalue) \<Rightarrow> bool" where
  "changes_key m c m' \<longleftrightarrow> (\<exists>v'. m' = m(c ! 1 := v') \<and> key_effect c (m (c ! 1)) v')"

abbreviation (input) write_ops :: "string set" where
  "write_ops \<equiv> {''del'', ''set'', ''incr'', ''decr'', ''incrby'', ''decrby'', ''append'', ''lpop'', ''rpop'', ''lpush'', ''rpush'',
     ''lsetindex'', ''hset'', ''hdel'', ''sadd'', ''srem''}"

lemma cmd_table_writes: "list_all (\<lambda>(opcode, pl, rep). opcode \<in> write_ops \<or> (\<forall>args r. \<not> snd (rep args r))) cmd_table"
  unfolding cmd_table_def list.pred_inject by (intro conjI TrueI) (simp_all add: read_int_def read_str_def)

lemma logged_is_write:
  assumes "logs_command m c m'"
  shows "hd c \<in> write_ops"
proof -
  obtain pl rep where e: "map_of cmd_table (hd c) = Some (pl, rep)" using assms by (auto simp: cmd_ok_def logs_command_def)
  then have "\<exists>r. snd (rep c r)" using assms
    by (auto simp: logs_command_def cmd_spec_def plan_of_def replies_of_def split: sum.splits prod.splits) (metis snd_conv)
  then show ?thesis using cmd_table_writes map_of_SomeD [OF e] by (fastforce simp: list_all_iff)
qed

text \<open>The facts every case below evaluates with.\<close>

lemma effect_lengths:
  "length xs = 2 \<longleftrightarrow> (\<exists>a b. xs = [a, b])" "length xs = 3 \<longleftrightarrow> (\<exists>a b c. xs = [a, b, c])"
  "length xs = 4 \<longleftrightarrow> (\<exists>a b c d. xs = [a, b, c, d])"
  by (auto simp: length_Suc_conv eval_nat_numeral)

lemma effect_length_ge: "3 \<le> length xs \<longleftrightarrow> (\<exists>a b c r. xs = a # b # c # r)"
  by (auto simp: Suc_le_length_iff eval_nat_numeral)

lemmas effect_eval = logs_command_def changes_key_def plan_of_def replies_of_def cmd_table_def with_syntax_def CheckSyntax_def key1_def cmd_ok_def
  cmd_spec_def a_list_def a_hash_def a_set_def or_new_def write_int_def int_val_def str_val_def remove_int_def pop_str_def int_operand_def
  simple_command_def good_value_def Let_def effect_lengths effect_length_ge

lemmas effect_splits = if_splits option.splits avalue.splits sum.splits list.splits

lemma effect_del: "logs_command m c m' \<Longrightarrow> simple_command c \<Longrightarrow> hd c = ''del'' \<Longrightarrow> changes_key m c m'"
  by (auto simp: effect_eval fun_eq_iff restrict_map_def split: if_splits)

lemma convertible_short: "CanConvertToInt64 s = Some i \<Longrightarrow> length s \<le> 2147483648"
  by (auto simp: CanConvertToInt64_def split: if_splits)

lemma effect_set: "logs_command m c m' \<Longrightarrow> simple_command c \<Longrightarrow> hd c = ''set'' \<Longrightarrow> changes_key m c m'"
  by (auto simp: effect_eval reread_def dest: convertible_short split: effect_splits)

lemma effect_incr: "logs_command m c m' \<Longrightarrow> simple_command c \<Longrightarrow> good_value (m (c ! 1)) \<Longrightarrow> hd c \<in> {''incr'', ''decr''} \<Longrightarrow> changes_key m c m'"
  by (auto simp: effect_eval in_int64_def split: effect_splits)

lemma effect_incrby: "logs_command m c m' \<Longrightarrow> simple_command c \<Longrightarrow> good_value (m (c ! 1)) \<Longrightarrow> hd c \<in> {''incrby'', ''decrby''} \<Longrightarrow> changes_key m c m'"
  by (auto simp: effect_eval in_int64_def CanConvertToInt64_iff split: effect_splits)

lemma effect_append: "logs_command m c m' \<Longrightarrow> simple_command c \<Longrightarrow> hd c = ''append'' \<Longrightarrow> changes_key m c m'"
  by (auto simp: effect_eval split: effect_splits)

lemma effect_push: "logs_command m c m' \<Longrightarrow> simple_command c \<Longrightarrow> hd c \<in> {''lpush'', ''rpush''} \<Longrightarrow> changes_key m c m'"
  by (auto simp: effect_eval split: effect_splits)

lemma effect_pop: "logs_command m c m' \<Longrightarrow> simple_command c \<Longrightarrow> hd c \<in> {''lpop'', ''rpop''} \<Longrightarrow> changes_key m c m'"
  by (auto simp: effect_eval contents_def split: effect_splits)

lemma effect_lset: "logs_command m c m' \<Longrightarrow> simple_command c \<Longrightarrow> hd c = ''lsetindex'' \<Longrightarrow> changes_key m c m'"
proof -
  assume l: "logs_command m c m'" "simple_command c" "hd c = ''lsetindex''"
  then obtain k i x xs where c: "c = [''lsetindex'', k, std_to_string i, x]" "m k = Some (AList xs)" "length xs < 2 ^ 31"
    "hd (std_to_string i) \<noteq> CHR ''-''" "Key k = k"
    by (auto simp: effect_eval CanConvertToInt32_iff idx_of_def split: effect_splits)
  then have i: "0 \<le> i" by (auto simp: std_to_string_def split: if_splits)
  have "m' = m(k \<mapsto> AList (xs[nat i := x])) \<and> i < int (length xs)"
    using l c i by (auto simp: effect_eval CanConvertToInt32_iff idx_of_def split: effect_splits)
  then show "changes_key m c m'"
    using c i unfolding changes_key_def by (intro exI [of _ "Some (AList (xs[nat i := x]))"]) (auto intro!: exI [of _ "nat i"])
qed

lemma effect_hset: "logs_command m c m' \<Longrightarrow> simple_command c \<Longrightarrow> hd c = ''hset'' \<Longrightarrow> changes_key m c m'"
  by (auto simp: effect_eval split: effect_splits)

lemma effect_hdel: "logs_command m c m' \<Longrightarrow> simple_command c \<Longrightarrow> hd c = ''hdel'' \<Longrightarrow> changes_key m c m'"
  by (auto simp: effect_eval split: effect_splits)

lemma effect_sadd: "logs_command m c m' \<Longrightarrow> simple_command c \<Longrightarrow> hd c = ''sadd'' \<Longrightarrow> changes_key m c m'"
  by (auto simp: effect_eval split: effect_splits)

lemma effect_srem: "logs_command m c m' \<Longrightarrow> simple_command c \<Longrightarrow> hd c = ''srem'' \<Longrightarrow> changes_key m c m'"
  by (auto simp: effect_eval split: effect_splits)

lemma logged_effect:
  assumes "logs_command m c m'" "simple_command c" "good_value (m (c ! 1))"
  shows "changes_key m c m'"
  using logged_is_write [OF assms(1)] effect_del [OF assms(1,2)] effect_set [OF assms(1,2)] effect_incr [OF assms]
    effect_incrby [OF assms] effect_append [OF assms(1,2)] effect_push [OF assms(1,2)] effect_pop [OF assms(1,2)]
    effect_lset [OF assms(1,2)] effect_hset [OF assms(1,2)] effect_hdel [OF assms(1,2)] effect_sadd [OF assms(1,2)]
    effect_srem [OF assms(1,2)]
  by blast

section \<open>The local containers follow the key\<close>

definition holds :: "aux \<Rightarrow> string list \<times> (string \<rightharpoonup> string) \<times> string set \<Rightarrow> bool" where
  "holds ax p \<longleftrightarrow> aux_list ax = fst p \<and> map_of (aux_hash ax) = fst (snd p) \<and> distinct (map fst (aux_hash ax)) \<and>
     set (aux_uset ax) = snd (snd p) \<and> distinct (aux_uset ax)"

fun contents_of :: "avalue option \<Rightarrow> string list \<times> (string \<rightharpoonup> string) \<times> string set" where
  "contents_of (Some (AList xs)) = (xs, Map.empty, {})"
| "contents_of (Some (AHash h)) = ([], h, {})"
| "contents_of (Some (ASet A)) = ([], Map.empty, A)"
| "contents_of _ = ([], Map.empty, {})"

fun text_of :: "avalue option \<Rightarrow> aux \<Rightarrow> bool" where
  "text_of None ax \<longleftrightarrow> aux_string ax = [] \<and> aux_int64 ax = 0"
| "text_of (Some (AStr s)) ax \<longleftrightarrow> aux_string ax = s \<and> length s \<le> 2 ^ 31"
| "text_of (Some (AInt i)) ax \<longleftrightarrow> aux_string ax = std_to_string i \<and> in_int64 i"
| "text_of _ ax \<longleftrightarrow> True"

fun type_of :: "avalue option \<Rightarrow> op_type option \<Rightarrow> bool" where
  "type_of None t \<longleftrightarrow> t = Some OP_TYPE_HASH \<or> t = Some OP_TYPE_SET"
| "type_of (Some (AList xs)) t \<longleftrightarrow> t = Some OP_TYPE_LIST"
| "type_of (Some (AHash h)) t \<longleftrightarrow> t = Some OP_TYPE_HASH"
| "type_of (Some (ASet A)) t \<longleftrightarrow> t = Some OP_TYPE_SET"
| "type_of (Some (AStr s)) t \<longleftrightarrow> t = Some OP_TYPE_STRING"
| "type_of (Some (AInt i)) t \<longleftrightarrow> t = Some OP_TYPE_INTEGER"

definition aux_rep :: "avalue option \<Rightarrow> aux \<Rightarrow> bool" where
  "aux_rep v ax \<longleftrightarrow> holds ax (contents_of v) \<and> text_of v ax"

lemma fold_push_front: "fold (\<lambda>x l. x # l) vs xs = rev vs @ xs"
  by (induction vs arbitrary: xs) auto

lemma fold_push_back: "fold (\<lambda>x l. l @ [x]) vs xs = xs @ vs"
  by (induction vs arbitrary: xs) auto

lemma fold_insert: "distinct xs \<Longrightarrow> distinct (fold List.insert vs xs) \<and> set (fold List.insert vs xs) = set xs \<union> set vs"
  by (induction vs arbitrary: xs) auto

lemma fold_remove1: "distinct xs \<Longrightarrow> distinct (fold remove1 vs xs) \<and> set (fold remove1 vs xs) = set xs - set vs"
  by (induction vs arbitrary: xs) auto

lemma fold_delete: "distinct (map fst h) \<Longrightarrow> distinct (map fst (fold AList.delete fs h)) \<and> map_of (fold AList.delete fs h) = map_of h |` (- set fs)"
  by (induction fs arbitrary: h) (auto simp: distinct_delete delete_conv fun_eq_iff restrict_map_def)

lemma update_pairs_even:
  "even (length ps) \<Longrightarrow> distinct (map fst h) \<Longrightarrow>
    \<exists>h'. update_pairs ps h = Inr h' \<and> distinct (map fst h') \<and> map_of h' = (map_of h)(fst (split_pairs ps) [\<mapsto>] snd (split_pairs ps))"
  by (induction ps h rule: update_pairs.induct) (auto simp: distinct_update update_conv' split: prod.splits)

lemma std_stoull_to_string: "i < 2 ^ 31 \<Longrightarrow> std_stoull (std_to_string (int i)) = Inr (word_of_int (int i))"
  using strto_scan_to_string [of "[]" "int i"] by (simp add: std_stoull_def Let_def)


text \<open>The containers after one command, with their type.\<close>

definition aux_now :: "avalue option \<Rightarrow> rr_error + aux \<times> command_cache list \<Rightarrow> bool" where
  "aux_now v r \<longleftrightarrow> (\<exists>ax. r = Inr (ax, []) \<and> aux_rep v ax \<and> type_of v (aux_type ax))"

lemma aux_nowI: "r = Inr (ax, []) \<Longrightarrow> aux_rep v ax \<Longrightarrow> type_of v (aux_type ax) \<Longrightarrow> aux_now v r"
  unfolding aux_now_def by blast

lemma rep_list: "aux_rep (Some (AList xs)) ax \<longleftrightarrow> holds ax (xs, Map.empty, {})"
  by (simp add: aux_rep_def)

lemma list_op_step:
  assumes "list_op opn (opn # k # rest) (aux_list ax) = Inr ys" "opn \<in> {''lpush'', ''rpush'', ''lpop'', ''rpop'', ''lsetindex''}"
    and "holds ax (xs, Map.empty, {})"
  shows "aux_now (Some (AList ys)) (aux_step b (opn # k # rest) ax)"
proof (rule aux_nowI)
  show "aux_step b (opn # k # rest) ax = Inr (ax\<lparr>aux_list := ys, aux_type := Some OP_TYPE_LIST\<rparr>, [])"
    using assms(1,2) by (simp add: aux_step_def)
qed (use assms(3) in \<open>simp_all add: aux_rep_def holds_def\<close>)

lemma step_push:
  assumes "key_effect (opn # k # rest) v v'" "aux_rep v ax" "opn \<in> {''lpush'', ''rpush''}"
  shows "aux_now v' (aux_step b (opn # k # rest) ax)"
proof -
  obtain xs where v: "v = None \<and> xs = [] \<or> v = Some (AList xs)" "v' = Some (AList (if opn = ''lpush'' then rev rest @ xs else xs @ rest))"
    using assms(1,3) by auto
  then have h: "holds ax (xs, Map.empty, {})" using assms(2) by (auto simp: aux_rep_def)
  then have "list_op opn (opn # k # rest) (aux_list ax) = Inr (if opn = ''lpush'' then rev rest @ xs else xs @ rest)"
    using assms(3) by (auto simp: list_op_def fold_push_front fold_push_back holds_def)
  then show ?thesis unfolding v(2) by (rule list_op_step [OF _ _ h]) (use assms(3) in blast)
qed

lemma step_pop:
  assumes "key_effect (opn # k # rest) v v'" "aux_rep v ax" "opn \<in> {''lpop'', ''rpop''}"
  shows "aux_now v' (aux_step b (opn # k # rest) ax)"
proof -
  obtain xs where v: "v = Some (AList xs)" "xs \<noteq> []" "v' = Some (AList (if opn = ''lpop'' then tl xs else butlast xs))"
    using assms(1,3) by auto
  then have h: "holds ax (xs, Map.empty, {})" using assms(2) by (auto simp: aux_rep_def)
  then have "list_op opn (opn # k # rest) (aux_list ax) = Inr (if opn = ''lpop'' then tl xs else butlast xs)"
    using assms(3) v(2) by (auto simp: list_op_def holds_def)
  then show ?thesis unfolding v(3) by (rule list_op_step [OF _ _ h]) (use assms(3) in blast)
qed

lemma step_lset:
  assumes "key_effect (''lsetindex'' # k # rest) v v'" "aux_rep v ax"
  shows "aux_now v' (aux_step b (''lsetindex'' # k # rest) ax)"
proof -
  obtain xs i x where v: "v = Some (AList xs)" "rest = [std_to_string (int i), x]" "i < length xs" "i < 2 ^ 31" "v' = Some (AList (xs[i := x]))"
    using assms(1) by auto
  then have h: "holds ax (xs, Map.empty, {})" using assms(2) by (auto simp: aux_rep_def)
  have "unat (word_of_int (int i) :: u64) = i" using v(4) by (simp add: unat_of_nat)
  then have "list_op ''lsetindex'' (''lsetindex'' # k # rest) (aux_list ax) = Inr (xs[i := x])"
    using h v std_stoull_to_string [OF v(4)] by (simp add: list_op_def operand_def holds_def)
  then show ?thesis unfolding v(5) by (rule list_op_step [OF _ _ h]) simp
qed

lemma step_hset:
  assumes "key_effect (''hset'' # k # rest) v v'" "aux_rep v ax"
  shows "aux_now v' (aux_step b (''hset'' # k # rest) ax)"
proof -
  obtain h where h: "v = None \<and> h = Map.empty \<or> v = Some (AHash h)" "even (length rest)"
    "v' = Some (AHash (h(fst (split_pairs rest) [\<mapsto>] snd (split_pairs rest))))"
    using assms(1) by auto
  then have o: "holds ax ([], h, {})" using assms(2) by (auto simp: aux_rep_def)
  then obtain h' where h': "update_pairs rest (aux_hash ax) = Inr h'" "distinct (map fst h')" "map_of h' = h(fst (split_pairs rest) [\<mapsto>] snd (split_pairs rest))"
    using update_pairs_even [OF h(2), of "aux_hash ax"] by (auto simp: holds_def)
  show ?thesis unfolding h(3)
    by (rule aux_nowI [of _ "ax\<lparr>aux_hash := h', aux_type := Some OP_TYPE_HASH\<rparr>"]) (use o h' in \<open>simp_all add: aux_step_def aux_rep_def holds_def\<close>)
qed

lemma step_hdel:
  assumes "key_effect (''hdel'' # k # rest) v v'" "aux_rep v ax"
  shows "aux_now v' (aux_step b (''hdel'' # k # rest) ax)"
proof (rule aux_nowI)
  show "aux_step b (''hdel'' # k # rest) ax = Inr (ax\<lparr>aux_hash := fold AList.delete rest (aux_hash ax), aux_type := Some OP_TYPE_HASH\<rparr>, [])"
    by (simp add: aux_step_def)
  have v: "v = None \<and> v' = None \<or> (\<exists>h. v = Some (AHash h) \<and> v' = Some (AHash (h |` (- set rest))))" using assms(1) by simp
  show "aux_rep v' (ax\<lparr>aux_hash := fold AList.delete rest (aux_hash ax), aux_type := Some OP_TYPE_HASH\<rparr>)"
    using v assms(2) fold_delete [of "aux_hash ax" rest]
    by (elim disjE exE conjE) (simp_all add: aux_rep_def holds_def)
  show "type_of v' (aux_type (ax\<lparr>aux_hash := fold AList.delete rest (aux_hash ax), aux_type := Some OP_TYPE_HASH\<rparr>))" using v by auto
qed

lemma step_sadd:
  assumes "key_effect (''sadd'' # k # rest) v v'" "aux_rep v ax"
  shows "aux_now v' (aux_step b (''sadd'' # k # rest) ax)"
proof (rule aux_nowI)
  show "aux_step b (''sadd'' # k # rest) ax = Inr (ax\<lparr>aux_uset := fold List.insert rest (aux_uset ax), aux_type := Some OP_TYPE_SET\<rparr>, [])"
    by (simp add: aux_step_def)
  obtain A where v: "v = None \<and> A = {} \<or> v = Some (ASet A)" "v' = Some (ASet (A \<union> set rest))" using assms(1) by auto
  then show "aux_rep v' (ax\<lparr>aux_uset := fold List.insert rest (aux_uset ax), aux_type := Some OP_TYPE_SET\<rparr>)"
    using assms(2) fold_insert [of "aux_uset ax" rest] by (auto simp: aux_rep_def holds_def)
  show "type_of v' (aux_type (ax\<lparr>aux_uset := fold List.insert rest (aux_uset ax), aux_type := Some OP_TYPE_SET\<rparr>))" using v(2) by simp
qed

lemma step_srem:
  assumes "key_effect (''srem'' # k # rest) v v'" "aux_rep v ax"
  shows "aux_now v' (aux_step b (''srem'' # k # rest) ax)"
proof (rule aux_nowI)
  show "aux_step b (''srem'' # k # rest) ax = Inr (ax\<lparr>aux_uset := fold remove1 rest (aux_uset ax), aux_type := Some OP_TYPE_SET\<rparr>, [])"
    by (simp add: aux_step_def)
  have v: "v = None \<and> v' = None \<or> (\<exists>A. v = Some (ASet A) \<and> v' = Some (ASet (A - set rest)))" using assms(1) by simp
  show "aux_rep v' (ax\<lparr>aux_uset := fold remove1 rest (aux_uset ax), aux_type := Some OP_TYPE_SET\<rparr>)"
    using v assms(2) fold_remove1 [of "aux_uset ax" rest] by (auto simp: aux_rep_def holds_def)
  show "type_of v' (aux_type (ax\<lparr>aux_uset := fold remove1 rest (aux_uset ax), aux_type := Some OP_TYPE_SET\<rparr>))" using v by auto
qed

lemma step_append:
  assumes "key_effect (''append'' # k # rest) v v'" "aux_rep v ax"
  shows "aux_now v' (aux_step b (''append'' # k # rest) ax)"
proof -
  obtain s w where v: "rest = [s]" "v = None \<and> w = [] \<or> v = Some (AStr w) \<or> (\<exists>i. v = Some (AInt i) \<and> w = std_to_string i)"
    "length (w @ s) \<le> 2 ^ 31" "v' = Some (AStr (w @ s))"
    using assms(1) by auto
  have "holds ax ([], Map.empty, {})" "aux_string ax = w" using v(2) assms(2) by (auto simp: aux_rep_def)
  then show ?thesis unfolding v(4)
    by (intro aux_nowI [of _ "ax\<lparr>aux_string := w @ s, aux_type := Some OP_TYPE_STRING\<rparr>"])
      (use v(1,3) in \<open>simp_all add: aux_step_def operand_def aux_rep_def holds_def\<close>)
qed

lemma step_int:
  assumes "key_effect (opn # k # rest) v v'" "aux_rep v ax" "opn \<in> {''incr'', ''decr'', ''incrby'', ''decrby''}"
  shows "aux_now v' (aux_step b (opn # k # rest) ax)"
proof -
  obtain i d where v: "v = None \<and> i = 0 \<or> v = Some (AInt i)" "v' = Some (AInt (i + d))" "in_int64 (i + d)" and
    d: "opn = ''incr'' \<and> rest = [] \<and> d = 1 \<or> opn = ''decr'' \<and> rest = [] \<and> d = - 1 \<or>
      (\<exists>n. rest = [std_to_string n] \<and> in_int64 n \<and> (opn = ''incrby'' \<and> d = n \<or> opn = ''decrby'' \<and> d = - n))"
    using assms(1,3) by auto
  have h: "holds ax ([], Map.empty, {})" using v(1) assms(2) by (auto simp: aux_rep_def)
  have c: "CanConvertToInt64 (aux_string ax) = Some i \<or> CanConvertToInt64 (aux_string ax) = None \<and> aux_string ax = [] \<and> aux_int64 ax = i"
    using v(1) assms(2) by (auto simp: aux_rep_def CanConvertToInt64_iff CanConvertToInt64_def [of "[]"])
  have w: "wrap64 (i + d) = i + d" by (rule wrap64_id [OF v(3)])
  have "int_op opn (opn # k # rest) (ax\<lparr>aux_type := Some OP_TYPE_INTEGER\<rparr>) =
      Inr (ax\<lparr>aux_int64 := i, aux_string := std_to_string (i + d), aux_type := Some OP_TYPE_INTEGER\<rparr>)"
    using c d w by (elim disjE exE conjE) (simp_all add: int_op_def operand_def std_stoll_to_string Let_def)
  then have "aux_step b (opn # k # rest) ax = Inr (ax\<lparr>aux_int64 := i, aux_string := std_to_string (i + d), aux_type := Some OP_TYPE_INTEGER\<rparr>, [])"
    using assms(3) by (elim insertE emptyE) (simp_all add: aux_step_def)
  then show ?thesis unfolding v(2) by (rule aux_nowI) (use h v(3) in \<open>simp_all add: aux_rep_def holds_def\<close>)
qed

lemma key_effect_write:
  assumes "key_effect c v v'"
  obtains opn k rest where "c = opn # k # rest" "opn \<in> write_ops"
proof -
  obtain opn k rest where c: "c = opn # k # rest" using assms by (cases "(c, v, v')" rule: key_effect.cases) auto
  have "opn \<in> write_ops"
  proof (rule ccontr)
    assume "opn \<notin> write_ops"
    then show False using assms unfolding c by simp
  qed
  then show thesis by (rule that [OF c])
qed

lemma step_follows:
  assumes "key_effect c v v'" "aux_rep v ax" "hd c \<noteq> ''del''" "hd c \<noteq> ''set''"
  shows "aux_now v' (aux_step b c ax)"
proof -
  obtain opn k rest where c: "c = opn # k # rest" "opn \<in> write_ops" by (rule key_effect_write [OF assms(1)])
  have d: "opn \<noteq> ''del''" "opn \<noteq> ''set''" using assms(3,4) c(1) by simp_all
  note e = assms(1) [unfolded c(1)]
  consider "opn \<in> {''lpush'', ''rpush''}" | "opn \<in> {''lpop'', ''rpop''}" | "opn \<in> {''incr'', ''decr'', ''incrby'', ''decrby''}"
    | "opn = ''lsetindex''" | "opn = ''hset''" | "opn = ''hdel''" | "opn = ''sadd''" | "opn = ''srem''" | "opn = ''append''"
    using c(2) d by (elim insertE emptyE; simp)
  then show ?thesis unfolding c(1)
  proof cases
    case 1 then show "aux_now v' (aux_step b (opn # k # rest) ax)" by (rule step_push [OF e assms(2)])
  next
    case 2 then show "aux_now v' (aux_step b (opn # k # rest) ax)" by (rule step_pop [OF e assms(2)])
  next
    case 3 then show "aux_now v' (aux_step b (opn # k # rest) ax)" by (rule step_int [OF e assms(2)])
  next
    case 4 show "aux_now v' (aux_step b (opn # k # rest) ax)" unfolding 4 by (rule step_lset [OF e [unfolded 4] assms(2)])
  next
    case 5 show "aux_now v' (aux_step b (opn # k # rest) ax)" unfolding 5 by (rule step_hset [OF e [unfolded 5] assms(2)])
  next
    case 6 show "aux_now v' (aux_step b (opn # k # rest) ax)" unfolding 6 by (rule step_hdel [OF e [unfolded 6] assms(2)])
  next
    case 7 show "aux_now v' (aux_step b (opn # k # rest) ax)" unfolding 7 by (rule step_sadd [OF e [unfolded 7] assms(2)])
  next
    case 8 show "aux_now v' (aux_step b (opn # k # rest) ax)" unfolding 8 by (rule step_srem [OF e [unfolded 8] assms(2)])
  next
    case 9 show "aux_now v' (aux_step b (opn # k # rest) ax)" unfolding 9 by (rule step_append [OF e [unfolded 9] assms(2)])
  qed
qed

section \<open>The queue of a key\<close>

lemma aux_step_flag:
  assumes "aux_step b c ax = Inr (ax', out)" "aux_type ax' \<noteq> Some OP_TYPE_OTHER"
  shows "aux_step b' c ax = Inr (ax', out)"
proof (cases "c ! 0 = ''set''")
  case True
  then have "aux_type ax' = Some OP_TYPE_OTHER" using assms(1) by (auto simp: aux_step_def try_op_def split: if_splits sum.splits)
  then show ?thesis using assms(2) by blast
next
  case False
  then have "aux_step b' c ax = aux_step b c ax" by (simp only: aux_step_def Let_def not_False_eq_True if_True simp_thms)
  then show ?thesis using assms(1) by simp
qed

lemma aux_run_snoc:
  assumes "aux_run seq ax = Inr (ax', out)" "seq \<noteq> []" "aux_type ax' \<noteq> Some OP_TYPE_OTHER"
  shows "aux_run (seq @ [c]) ax = try_op (aux_step True c ax') (\<lambda>(ax2, out2). Inr (ax2, out @ out2))"
  using assms
proof (induction seq arbitrary: ax out)
  case (Cons d seq)
  obtain ax1 out1 out2 where d: "aux_step (seq = []) d ax = Inr (ax1, out1)" "aux_run seq ax1 = Inr (ax', out2)" "out = out1 @ out2"
    using Cons.prems(1) by (auto simp: try_op_def split: sum.splits prod.splits)
  show ?case
  proof (cases "seq = []")
    case True
    then show ?thesis using d aux_step_flag [OF d(1), of False] Cons.prems(3) by (auto simp: try_op_def split: sum.splits)
  next
    case False
    then show ?thesis using d Cons.IH [OF d(2) False Cons.prems(3)] by (auto simp: try_op_def split: sum.splits)
  qed
qed simp

definition queue_rep :: "string \<Rightarrow> avalue option \<Rightarrow> string list list \<Rightarrow> bool" where
  "queue_rep k v seq \<longleftrightarrow> seq = [] \<and> v = None \<or>
     (\<exists>s. seq = [[''set'', k, s]] \<and> length s \<le> 2 ^ 31 \<and> v = Some (reread (AStr s))) \<or>
     seq \<noteq> [] \<and> aux_now v (aux_run seq aux_new)"

lemma aux_rep_new: "aux_rep None aux_new"
  by (simp add: aux_rep_def holds_def aux_new_def)

lemma aux_rep_set:
  "length s \<le> 2 ^ 31 \<Longrightarrow> aux_rep (Some (reread (AStr s))) (aux_new\<lparr>aux_string := s, aux_type := Some OP_TYPE_OTHER\<rparr>)"
  by (auto simp: aux_rep_def holds_def aux_new_def reread_def CanConvertToInt64_iff split: option.splits)

lemma aux_run_one: "aux_run [c] ax = aux_step True c ax"
  by (cases "aux_step True c ax") auto

lemma aux_run_two: "aux_step False d ax = Inr (ax1, []) \<Longrightarrow> aux_run [d, c] ax = aux_step True c ax1"
  by (cases "aux_step True c ax1") auto

lemma queue_snoc:
  assumes "queue_rep k v seq" "key_effect c v v'" "hd c \<noteq> ''del''" "hd c \<noteq> ''set''"
  shows "aux_now v' (aux_run (seq @ [c]) aux_new)"
proof -
  consider "seq = []" "v = None" | s where "seq = [[''set'', k, s]]" "length s \<le> 2 ^ 31" "v = Some (reread (AStr s))"
    | ax where "seq \<noteq> []" "aux_run seq aux_new = Inr (ax, [])" "aux_rep v ax" "type_of v (aux_type ax)"
    using assms(1) unfolding queue_rep_def aux_now_def by blast
  then show ?thesis
  proof cases
    case 1
    then show ?thesis using step_follows [OF assms(2) _ assms(3,4)] aux_rep_new by (simp add: aux_run_one del: aux_run.simps)
  next
    case (2 s)
    have "aux_run (seq @ [c]) aux_new = aux_step True c (aux_new\<lparr>aux_string := s, aux_type := Some OP_TYPE_OTHER\<rparr>)"
      unfolding 2 append.simps by (rule aux_run_two) (simp add: aux_step_def operand_def)
    then show ?thesis using step_follows [OF assms(2) _ assms(3,4)] aux_rep_set [OF 2(2)] 2(3) by simp
  next
    case (3 ax)
    have "aux_type ax \<noteq> Some OP_TYPE_OTHER" using 3(4) by (cases "(v, aux_type ax)" rule: type_of.cases) auto
    then have "aux_run (seq @ [c]) aux_new = try_op (aux_step True c ax) (\<lambda>(ax2, out2). Inr (ax2, [] @ out2))"
      by (rule aux_run_snoc [OF 3(2,1)])
    then show ?thesis using step_follows [OF assms(2) 3(3) assms(3,4), of True] by (auto simp: aux_now_def)
  qed
qed

lemma queue_step:
  assumes "queue_rep k v seq" "key_effect c v v'" "c ! 1 = k"
  shows "\<exists>seq'. sequential_step now1 now2 c seq = Inr seq' \<and> queue_rep k v' seq'"
proof -
  obtain opn k' rest where c: "c = opn # k' # rest" and w: "opn \<in> write_ops" by (rule key_effect_write [OF assms(2)])
  have k: "k' = k" using assms(3) c by simp
  consider "opn = ''del''" | "opn = ''set''" | "opn \<noteq> ''del''" "opn \<noteq> ''set''" by blast
  then show ?thesis
  proof cases
    case 1
    then show ?thesis using assms(2) c by (simp add: sequential_step_def queue_rep_def)
  next
    case 2
    then obtain s where "rest = [s]" "length s \<le> 2 ^ 31" "v' = Some (reread (AStr s))" using assms(2) c by auto
    then show ?thesis using 2 c k by (simp add: sequential_step_def queue_rep_def)
  next
    case 3
    have "opn \<noteq> ''expireat''" using w by auto
    then have "sequential_step now1 now2 c seq = Inr (seq @ [c])" using 3 c by (simp add: sequential_step_def)
    then show ?thesis using queue_snoc [OF assms(1,2)] 3 c by (simp add: queue_rep_def)
  qed
qed

fun key_run :: "string list list \<Rightarrow> avalue option \<Rightarrow> avalue option \<Rightarrow> bool" where
  "key_run [] v v' \<longleftrightarrow> v' = v"
| "key_run (c # cs) v v'' \<longleftrightarrow> (\<exists>v'. key_effect c v v' \<and> key_run cs v' v'')"

lemma queue_run:
  assumes "queue_rep k v seq" "key_run cs v v'" "\<forall>c \<in> set cs. c ! 1 = k"
  shows "\<exists>seq'. sequential_commands sec i cs seq = Inr seq' \<and> queue_rep k v' seq'"
  using assms
proof (induction cs arbitrary: v seq i)
  case (Cons c cs)
  then obtain v1 where v1: "key_effect c v v1" "key_run cs v1 v'" by auto
  obtain seq1 where "sequential_step (sec (2 * i)) (sec (2 * i + 1)) c seq = Inr seq1" "queue_rep k v1 seq1"
    using queue_step [OF Cons.prems(1) v1(1), of "sec (2 * i)" "sec (2 * i + 1)"] Cons.prems(3) by auto
  then show ?case using Cons.IH [OF _ v1(2), of seq1 "Suc i"] Cons.prems(3) by auto
qed simp

section \<open>The new command of a key\<close>

text \<open>
  What is left of a value: an empty list, hash or set is dropped, and a string in decimal
  notation becomes the integer.
\<close>

definition compacted :: "avalue option \<Rightarrow> avalue option" where
  "compacted v = (case v of None \<Rightarrow> None | Some w \<Rightarrow> if empty_value w then None else Some (reread w))"

definition rebuilds :: "string \<Rightarrow> avalue option \<Rightarrow> string list \<Rightarrow> bool" where
  "rebuilds k v cmd \<longleftrightarrow> lower_op cmd = cmd \<and> cmd ! 1 = k \<and>
     (\<forall>m. m k = None \<longrightarrow> cmd_ok m cmd \<and> fst (cmd_spec m cmd) = m(k := compacted v))"

definition iterates :: "iteration \<Rightarrow> bool" where
  "iterates it \<longleftrightarrow> (\<forall>xs. mset (it_keys it xs) = mset xs) \<and> (\<forall>xs. mset (it_hash it xs) = mset xs) \<and> (\<forall>xs. mset (it_uset it xs) = mset xs)"

lemma lower_names:
  "lower_op (''set'' # r) = ''set'' # r" "lower_op (''rpush'' # r) = ''rpush'' # r"
  "lower_op (''hset'' # r) = ''hset'' # r" "lower_op (''sadd'' # r) = ''sadd'' # r"
proof -
  have "map c_tolower ''set'' = ''set''" "map c_tolower ''rpush'' = ''rpush''" "map c_tolower ''hset'' = ''hset''" "map c_tolower ''sadd'' = ''sadd''"
    by code_simp+
  then show "lower_op (''set'' # r) = ''set'' # r" "lower_op (''rpush'' # r) = ''rpush'' # r"
    "lower_op (''hset'' # r) = ''hset'' # r" "lower_op (''sadd'' # r) = ''sadd'' # r"
    by (simp_all add: lower_op_def)
qed

lemma rebuilds_value:
  assumes "recovers k v cmd" "\<not> empty_value v" "Key k = k" "lower_op cmd = cmd" "cmd ! 1 = k"
  shows "rebuilds k (Some v) cmd"
  using assms by (simp add: rebuilds_def recovers_def compacted_def)

lemma rebuilds_empty:
  "compacted v = None \<Longrightarrow> Key k = k \<Longrightarrow> rebuilds k v [''rpush'', k]"
  "compacted v = None \<Longrightarrow> Key k = k \<Longrightarrow> rebuilds k v [''hset'', k]"
  "compacted v = None \<Longrightarrow> Key k = k \<Longrightarrow> rebuilds k v [''sadd'', k]"
  by (simp_all add: rebuilds_def lower_names cmd_eval fun_eq_iff)

lemma reread_idem: "reread (reread v) = reread v"
  by (cases v) (auto simp: reread_def split: option.splits)

lemma not_empty_reread: "empty_value (reread v) = empty_value v"
  by (cases v) (auto simp: reread_def empty_value_def split: option.splits)

lemma rebuilds_set:
  assumes "length s \<le> 2 ^ 31" "Key k = k"
  shows "rebuilds k (Some (AStr s)) [''set'', k, s]" "rebuilds k (Some (reread (AStr s))) [''set'', k, s]"
proof -
  have "\<not> empty_value (AStr s)" by (simp add: empty_value_def)
  then show r: "rebuilds k (Some (AStr s)) [''set'', k, s]"
    using rebuilds_value [OF recovers_set(1)] assms by (simp add: short_value_def lower_names)
  have "compacted (Some (reread (AStr s))) = compacted (Some (AStr s))" by (simp add: compacted_def reread_idem not_empty_reread)
  then show "rebuilds k (Some (reread (AStr s))) [''set'', k, s]" using r by (simp add: rebuilds_def)
qed

lemma rebuilds_list: "Key k = k \<Longrightarrow> rebuilds k (Some (AList xs)) (''rpush'' # k # xs)"
  using rebuilds_value [OF recovers_rpush [of xs k]] rebuilds_empty(1) [of "Some (AList [])" k]
  by (cases "xs = []") (simp_all add: empty_value_def lower_names compacted_def)

lemma rebuilds_hash:
  assumes "Key k = k" "distinct (map fst es)"
  shows "rebuilds k (Some (AHash (map_of es))) (''hset'' # k # concat (map (\<lambda>e. [fst e, snd e]) es))"
proof (cases "es = []")
  case False
  then have "\<not> empty_value (AHash (map_of es))" by (cases es) (auto simp: empty_value_def)
  then show ?thesis using rebuilds_value [OF recovers_hset [OF False assms(2), of "map_of es" snd k]] assms(1) by (simp add: lower_names)
qed (use rebuilds_empty(2) [of "Some (AHash Map.empty)" k] assms in \<open>simp add: compacted_def empty_value_def\<close>)

lemma rebuilds_uset: "Key k = k \<Longrightarrow> rebuilds k (Some (ASet (set xs))) (''sadd'' # k # xs)"
  using rebuilds_value [OF recovers_sadd [of xs k]] rebuilds_empty(3) [of "Some (ASet {})" k]
  by (cases "xs = []") (simp_all add: empty_value_def lower_names compacted_def)

text \<open>The order of the walk does not change what is walked.\<close>

lemma iterated:
  assumes "iterates it" "holds ax p"
  shows "distinct (map fst (it_hash it (aux_hash ax)))" "map_of (it_hash it (aux_hash ax)) = fst (snd p)"
    "set (it_uset it (aux_uset ax)) = snd (snd p)"
proof -
  let ?es = "it_hash it (aux_hash ax)" and ?us = "it_uset it (aux_uset ax)"
  have m: "mset ?es = mset (aux_hash ax)" "mset ?us = mset (aux_uset ax)" using assms(1) by (simp_all add: iterates_def)
  have d: "distinct (map fst ?es) = distinct (map fst (aux_hash ax))" by (rule mset_eq_imp_distinct_iff) (simp add: m(1))
  have h: "distinct (map fst (aux_hash ax))" "map_of (aux_hash ax) = fst (snd p)" using assms(2) by (simp_all add: holds_def)
  show es: "distinct (map fst ?es)" using d h(1) by simp
  show "map_of ?es = fst (snd p)" using map_of_inject_set [OF es h(1)] mset_eq_setD [OF m(1)] h(2) by simp
  show "set ?us = snd (snd p)" using mset_eq_setD [OF m(2)] assms(2) by (simp add: holds_def)
qed

lemma restore_absent:
  assumes "aux_rep None ax" "aux_type ax = Some OP_TYPE_HASH \<or> aux_type ax = Some OP_TYPE_SET" "Key k = k" "iterates it"
  shows "\<exists>x. restore_command it k ax = [x] \<and> rebuilds k None (argv x) \<and> argc x = of_nat (length (argv x))"
proof -
  have hold: "holds ax ([], Map.empty, {})" using assms(1) by (simp add: aux_rep_def)
  have "it_hash it (aux_hash ax) = []" "it_uset it (aux_uset ax) = []" using iterated [OF assms(4) hold] by simp_all
  moreover have "compacted None = None" by (simp add: compacted_def)
  ultimately show ?thesis
    using assms(2) rebuilds_empty(2,3) [of None k, OF _ assms(3)] by (elim disjE) (simp_all add: restore_command_def built_cache_def)
qed

lemma restore_command_rebuilds:
  assumes "aux_rep v ax" "type_of v (aux_type ax)" "Key k = k" "iterates it"
  shows "\<exists>x. restore_command it k ax = [x] \<and> rebuilds k v (argv x) \<and> argc x = of_nat (length (argv x))"
proof (cases v)
  case None
  then show ?thesis using restore_absent assms by simp
next
  case (Some w)
  have hold: "holds ax (contents_of (Some w))" "text_of (Some w) ax" using assms(1) Some by (simp_all add: aux_rep_def)
  note it = iterated [OF assms(4) hold(1)] and ty = assms(2) [unfolded Some]
  show ?thesis
  proof (cases w)
    case (AInt i)
    then show ?thesis using hold(2) Some ty rebuilds_value [OF recovers_set(2)] assms(3)
      by (simp add: restore_command_def built_cache_def empty_value_def lower_names)
  next
    case (AStr t)
    then show ?thesis using Some ty hold(2) rebuilds_set(1) [OF _ assms(3)] by (simp add: restore_command_def built_cache_def)
  next
    case (AList xs)
    then show ?thesis using Some ty hold(1) rebuilds_list [OF assms(3)] by (simp add: restore_command_def built_cache_def holds_def)
  next
    case (AHash f)
    then show ?thesis using Some ty it rebuilds_hash [OF assms(3) it(1)] by (simp add: restore_command_def built_cache_def)
  next
    case (ASet A)
    then show ?thesis using Some ty it rebuilds_uset [OF assms(3), of "it_uset it (aux_uset ax)"] by (simp add: restore_command_def built_cache_def)
  qed
qed

definition new_commands :: "string \<Rightarrow> avalue option \<Rightarrow> command_cache list \<Rightarrow> bool" where
  "new_commands k v out \<longleftrightarrow> out = [] \<and> v = None \<or> (\<exists>x. out = [x] \<and> rebuilds k v (argv x) \<and> argc x = of_nat (length (argv x)))"

lemma process_key_correct:
  assumes "key_run cs None v" "\<forall>c \<in> set cs. c ! 1 = k" "cs \<noteq> []" "Key k = k" "iterates it"
  shows "\<exists>out. process_key it sec cs = Inr out \<and> new_commands k v out"
proof -
  have k: "hd cs ! 1 = k" using assms(2,3) by simp
  have q: "queue_rep k None []" by (simp add: queue_rep_def)
  obtain seq where s: "sequential_commands (sec k) 0 cs [] = Inr seq" "queue_rep k v seq"
    using queue_run [OF q assms(1,2), of "sec k" 0] by blast
  consider "seq = []" "v = None" | t where "seq = [[''set'', k, t]]" "length t \<le> 2 ^ 31" "v = Some (reread (AStr t))"
    | ax where "seq \<noteq> []" "aux_run seq aux_new = Inr (ax, [])" "aux_rep v ax" "type_of v (aux_type ax)"
    using s(2) unfolding queue_rep_def aux_now_def by blast
  then show ?thesis
  proof cases
    case 1
    then show ?thesis using s(1) k by (simp add: process_key_def new_commands_def)
  next
    case (2 t)
    have "aux_run seq aux_new = Inr (aux_new\<lparr>aux_type := Some OP_TYPE_OTHER\<rparr>, [cache_of [''set'', k, t]])"
      unfolding 2 by (simp add: aux_step_def)
    then have "process_key it sec cs = Inr [cache_of [''set'', k, t]]"
      using s(1) k 2(1) by (simp add: process_key_def restore_command_def del: aux_run.simps)
    then show ?thesis using rebuilds_set(2) [OF 2(2) assms(4)] 2(3) by (simp add: new_commands_def cache_of_def)
  next
    case (3 ax)
    then have "process_key it sec cs = Inr (restore_command it k ax)" using s(1) k by (simp add: process_key_def)
    then show ?thesis using restore_command_rebuilds [OF 3(3,4) assms(4,5)] by (auto simp: new_commands_def)
  qed
qed

section \<open>All keys\<close>

lemma process_keys_correct:
  assumes "\<forall>(k, cmds) \<in> set items. \<exists>out. process_key it sec cmds = Inr out \<and> new_commands k (m k) out"
    and "distinct (map fst items)" "\<forall>k \<in> fst ` set items. m0 k = None"
  shows "\<exists>outs. process_keys it sec items a = Inr (fold AppendableFile_Append outs a) \<and>
    (\<forall>x \<in> set outs. argc x = of_nat (length (argv x))) \<and> distinct (map (\<lambda>x. argv x ! 1) outs) \<and> (\<lambda>x. argv x ! 1) ` set outs \<subseteq> fst ` set items \<and>
    covered m0 (map argv outs) (\<lambda>k. if k \<in> fst ` set items then compacted (m k) else m0 k)"
  using assms
proof (induction items arbitrary: a m0)
  case (Cons item items)
  obtain k cmds where i: "item = (k, cmds)" by (cases item)
  obtain out where out: "process_key it sec cmds = Inr out" "new_commands k (m k) out" using Cons.prems(1) i by auto
  let ?m1 = "m0(k := compacted (m k))"
  have "k \<notin> fst ` set items" using Cons.prems(2) i by auto
  then have none: "\<forall>k \<in> fst ` set items. ?m1 k = None" using Cons.prems(3) by auto
  have items: "\<forall>(k, cmds) \<in> set items. \<exists>out. process_key it sec cmds = Inr out \<and> new_commands k (m k) out" "distinct (map fst items)"
    using Cons.prems(1,2) by simp_all
  obtain outs where o: "process_keys it sec items (fold AppendableFile_Append out a) = Inr (fold AppendableFile_Append outs (fold AppendableFile_Append out a))"
    "\<forall>x \<in> set outs. argc x = of_nat (length (argv x))" "distinct (map (\<lambda>x. argv x ! 1) outs)" "(\<lambda>x. argv x ! 1) ` set outs \<subseteq> fst ` set items"
    "covered ?m1 (map argv outs) (\<lambda>k. if k \<in> fst ` set items then compacted (m k) else ?m1 k)"
    using Cons.IH [OF items none, of "fold AppendableFile_Append out a"] by blast
  have fin: "(\<lambda>k. if k \<in> fst ` set items then compacted (m k) else ?m1 k) =
      (\<lambda>k. if k \<in> fst ` set (item # items) then compacted (m k) else m0 k)" using i by (auto simp: fun_eq_iff)
  have m0: "m0 k = None" using Cons.prems(3) i by simp
  have "covered m0 (map argv (out @ outs)) (\<lambda>k. if k \<in> fst ` set (item # items) then compacted (m k) else m0 k)"
    using out(2) o(5) m0 unfolding fin new_commands_def rebuilds_def by (auto simp: compacted_def fun_upd_idem)
  moreover have "\<forall>x \<in> set out. argc x = of_nat (length (argv x)) \<and> argv x ! 1 = k" "length out \<le> 1"
    using out(2) by (auto simp: new_commands_def rebuilds_def)
  moreover have fresh: "k \<notin> (\<lambda>x. argv x ! 1) ` set outs" using o(4) \<open>k \<notin> fst ` set items\<close> by blast
  have "distinct (map (\<lambda>x. argv x ! 1) (out @ outs))"
    using out(2) o(3) fresh by (auto simp: new_commands_def rebuilds_def)
  ultimately show ?case using o(1,2,4) out(1) i by (intro exI [of _ "out @ outs"]) auto
qed simp

definition grouped :: "(string \<rightharpoonup> string list list) \<Rightarrow> string list list \<Rightarrow> string \<rightharpoonup> string list list" where
  "grouped g cs k = (let l = filter (\<lambda>c. c ! 1 = k) cs in
     case g k of None \<Rightarrow> if l = [] then None else Some l | Some l0 \<Rightarrow> Some (l0 @ l))"

lemma populate_correct:
  assumes "\<forall>c \<in> set cs. 2 \<le> length c" "distinct (map fst cm)"
  shows "\<exists>cm'. populate cs cm = Inr cm' \<and> distinct (map fst cm') \<and> map_of cm' = grouped (map_of cm) cs"
  using assms
proof (induction cs arbitrary: cm)
  case (Cons c cs)
  let ?l = "(case map_of cm (c ! 1) of None \<Rightarrow> [] | Some l \<Rightarrow> l) @ [c]"
  have p: "populate_caches_func cm c = Inr (AList.update (c ! 1) ?l cm)" using Cons.prems(1) by (simp add: populate_caches_func_def operand_def)
  have d: "distinct (map fst (AList.update (c ! 1) ?l cm))" using Cons.prems(2) by (simp add: distinct_update)
  have "grouped (map_of (AList.update (c ! 1) ?l cm)) cs k = grouped (map_of cm) (c # cs) k" for k
    unfolding update_conv' by (cases "c ! 1 = k") (auto simp: grouped_def Let_def split: option.split)
  then have g: "grouped (map_of (AList.update (c ! 1) ?l cm)) cs = grouped (map_of cm) (c # cs)" by (rule ext)
  have cs: "\<forall>c \<in> set cs. 2 \<le> length c" using Cons.prems(1) by simp
  show ?case using Cons.IH [OF cs d] unfolding populate.simps p try_op_simps g .
qed (simp add: grouped_def fun_eq_iff split: option.splits)

section \<open>The log of a server\<close>

lemma key_effect_good: "key_effect c v v' \<Longrightarrow> good_value v \<Longrightarrow> good_value v'"
  by (auto simp: good_value_def reread_def CanConvertToInt64_iff elim!: key_effect.elims(2) split: if_splits option.splits)

lemma log_run_keys:
  assumes "log_run m cmds m'" "\<forall>c \<in> set cmds. simple_command c" "\<forall>k. good_value (m k)"
  shows "key_run (filter (\<lambda>c. c ! 1 = k) cmds) (m k) (m' k)" "\<forall>c \<in> set cmds. 2 \<le> length c"
proof -
  have "key_run (filter (\<lambda>c. c ! 1 = k) cmds) (m k) (m' k) \<and> (\<forall>c \<in> set cmds. 2 \<le> length c)"
    using assms
  proof (induction cmds arbitrary: m)
    case (Cons c cmds)
    then obtain m1 where m1: "logs_command m c m1" "log_run m1 cmds m'" by auto
    obtain v' where v: "m1 = m(c ! 1 := v')" "key_effect c (m (c ! 1)) v'"
      using logged_effect [OF m1(1)] Cons.prems(2,3) by (auto simp: changes_key_def)
    have "\<forall>k. good_value (m1 k)" using key_effect_good [OF v(2)] Cons.prems(3) v(1) by simp
    then have "key_run (filter (\<lambda>c. c ! 1 = k) cmds) (m1 k) (m' k)" "\<forall>c \<in> set cmds. 2 \<le> length c"
      using Cons.IH [OF m1(2)] Cons.prems(2) by auto
    moreover have "2 \<le> length c" by (rule key_effect_write [OF v(2)]) simp
    ultimately show ?case using v by auto
  qed simp
  then show "key_run (filter (\<lambda>c. c ! 1 = k) cmds) (m k) (m' k)" "\<forall>c \<in> set cmds. 2 \<le> length c" by blast+
qed

text \<open>The commands of a log sorted by key: each list of commands takes its key from nothing to its value.\<close>

lemma sorted_commands:
  assumes "log_run Map.empty cmds m" "\<forall>c \<in> set cmds. simple_command c"
  obtains cm where "populate cmds [] = Inr cm" "distinct (map fst cm)" "card (fst ` set cm) \<le> length cmds"
    "\<And>k cs. (k, cs) \<in> set cm \<Longrightarrow> cs \<noteq> [] \<and> (\<forall>c \<in> set cs. c ! 1 = k) \<and> key_run cs None (m k) \<and> Key k = k"
    "\<And>k. k \<notin> fst ` set cm \<Longrightarrow> m k = None"
proof -
  have good: "\<forall>k. good_value (Map.empty k)" by (simp add: good_value_def)
  note keys = log_run_keys [OF assms good]
  obtain cm where cm: "populate cmds [] = Inr cm" "distinct (map fst cm)" "map_of cm = grouped (map_of []) cmds"
    using populate_correct [OF keys(2), of "[]"] by auto
  have item: "cs = filter (\<lambda>c. c ! 1 = k) cmds" "cs \<noteq> []" if "(k, cs) \<in> set cm" for k cs
    using that cm(2,3) by (auto simp: grouped_def Let_def dest!: map_of_is_SomeI split: if_splits)
  have first: "hd cs \<in> set cmds" "hd cs ! 1 = k" if "(k, cs) \<in> set cm" for k cs
  proof -
    have "hd cs \<in> set cs" using item(2) [OF that] by simp
    then show "hd cs \<in> set cmds" "hd cs ! 1 = k" unfolding item(1) [OF that] by simp_all
  qed
  then have key: "Key k = k" if "(k, cs) \<in> set cm" for k cs using that assms(2) by (fastforce simp: simple_command_def)
  have each: "cs \<noteq> [] \<and> (\<forall>c \<in> set cs. c ! 1 = k) \<and> key_run cs None (m k) \<and> Key k = k" if "(k, cs) \<in> set cm" for k cs
    using keys(1) [of k] item [OF that] key [OF that] by simp
  have "fst ` set cm \<subseteq> (\<lambda>c. c ! 1) ` set cmds" using first by fastforce
  then have few: "card (fst ` set cm) \<le> length cmds"
    by (meson List.finite_set card_image_le card_length card_mono finite_imageI order_trans)
  have "m k = None" if "k \<notin> fst ` set cm" for k
  proof -
    have "map_of cm k = None" using that by (simp add: map_of_eq_None_iff)
    then have "filter (\<lambda>c. c ! 1 = k) cmds = []" using cm(3) by (auto simp: grouped_def Let_def split: if_splits)
    then show ?thesis using keys(1) [of k] by simp
  qed
  then show ?thesis using that [OF cm(1,2) few each] by blast
qed

lemma redundancy_rewrites:
  assumes "log_run Map.empty cmds m" "\<forall>c \<in> set cmds. simple_command c" "iterates it" "CommonOperation err bytes = Some cmds"
  shows "\<exists>outs. RemoveRedundancy it sec err (Some bytes) a = Inr (fold AppendableFile_Append outs a) \<and>
    (\<forall>x \<in> set outs. argc x = of_nat (length (argv x))) \<and> distinct (map (\<lambda>x. argv x ! 1) outs) \<and> length outs \<le> length cmds \<and>
    covered Map.empty (map argv outs) (\<lambda>k. compacted (m k))"
proof -
  obtain cm where cm: "populate cmds [] = Inr cm" "distinct (map fst cm)" "card (fst ` set cm) \<le> length cmds"
    "\<And>k cs. (k, cs) \<in> set cm \<Longrightarrow> cs \<noteq> [] \<and> (\<forall>c \<in> set cs. c ! 1 = k) \<and> key_run cs None (m k) \<and> Key k = k"
    "\<And>k. k \<notin> fst ` set cm \<Longrightarrow> m k = None"
    using sorted_commands [OF assms(1,2)] by blast
  let ?items = "it_keys it cm"
  have it: "mset ?items = mset cm" using assms(3) by (simp add: iterates_def)
  then have set: "set ?items = set cm" by (rule mset_eq_setD)
  have "distinct (map fst ?items) = distinct (map fst cm)" by (rule mset_eq_imp_distinct_iff) (simp add: it)
  then have dist: "distinct (map fst ?items)" using cm(2) by blast
  have each: "\<forall>(k, cs) \<in> set ?items. \<exists>out. process_key it sec cs = Inr out \<and> new_commands k (m k) out"
    unfolding set using cm(4) process_key_correct [OF _ _ _ _ assms(3)] by fast
  have fin: "(\<lambda>k. if k \<in> fst ` set ?items then compacted (m k) else Map.empty k) = (\<lambda>k. compacted (m k))"
    using set cm(5) by (auto simp: fun_eq_iff compacted_def)
  obtain outs where o: "process_keys it sec ?items a = Inr (fold AppendableFile_Append outs a)"
    "\<forall>x \<in> set outs. argc x = of_nat (length (argv x))" "distinct (map (\<lambda>x. argv x ! 1) outs)"
    "(\<lambda>x. argv x ! 1) ` set outs \<subseteq> fst ` set cm" "covered Map.empty (map argv outs) (\<lambda>k. compacted (m k))"
    using process_keys_correct [OF each dist, of Map.empty a] set unfolding fin by auto
  have "length outs = card (set (map (\<lambda>x. argv x ! 1) outs))" using distinct_card [OF o(3)] by simp
  also have "\<dots> \<le> card (fst ` set cm)" using o(4) by (intro card_mono) simp_all
  finally show ?thesis using cm(1,3) assms(4) o by (auto simp: RemoveRedundancy_def)
qed

section \<open>Properties\<close>

text \<open>
  C6. Rewriting the log is an equivalence. Take a server that starts empty and runs any synchronized
  data commands, whose log has only \<open>del\<close> with one key, keys without NUL bytes and no negative index, and fits one block of
  the reader. \<open>RemoveRedundancy\<close> on the bytes of this log, whatever the order in which it walks its hash containers and
  whatever the clock says, ends without a fault and appends at most one command for each key; an empty
  server that executes the new log ends, without a fault, with the map of the original server, except that
  empty lists, hashes and sets are gone and strings in decimal notation have become integers.
\<close>

theorem redundancy_equivalence:
  assumes "db_kv db0 = KVContainer_new" "db_log db0 = Some []"
    and "calls_ok replayable_call cmd_spec_step (Map.empty, Some []) qs"
    and "run_calls cmd_step db0 qs = (db, rs)" "db_log db = Some cmds"
    and "small_commands cmds" "bytes = concat (map (\<lambda>cmd. ToProtocolString (cache_of cmd)) cmds)"
    and "\<forall>c \<in> set cmds. simple_command c" "iterates it"
  shows "\<exists>outs. RemoveRedundancy it sec err (Some bytes) a = Inr (fold AppendableFile_Append outs a) \<and>
    distinct (map (\<lambda>x. argv x ! 1) outs) \<and>
    (\<forall>cs dbr. db_kv dbr = KVContainer_new \<and> length cs = length outs \<and> (\<forall>c \<in> set cs. \<not> c_evict c) \<longrightarrow>
      (\<exists>db'. handle_all cs (map argv outs) dbr = Some (Inr db') \<and> kv_inv (db_kv db') \<and>
         kv_abs (db_kv db') = (\<lambda>k. compacted (kv_abs (db_kv db) k))))"
proof -
  note log = log_of_run [OF assms(1-5)]
  have read: "CommonOperation err bytes = Some cmds" unfolding assms(7) by (rule read_log_file [OF assms(6)])
  obtain outs where o: "RemoveRedundancy it sec err (Some bytes) a = Inr (fold AppendableFile_Append outs a)"
    "distinct (map (\<lambda>x. argv x ! 1) outs)" "covered Map.empty (map argv outs) (\<lambda>k. compacted (kv_abs (db_kv db) k))"
    using redundancy_rewrites [OF log assms(8,9) read] by blast
  have "\<exists>db'. handle_all cs (map argv outs) dbr = Some (Inr db') \<and> kv_inv (db_kv db') \<and>
      kv_abs (db_kv db') = (\<lambda>k. compacted (kv_abs (db_kv db) k))"
    if dbr: "db_kv dbr = KVContainer_new" and cs: "length cs = length outs" "\<forall>c \<in> set cs. \<not> c_evict c" for cs dbr
  proof -
    let ?cs = "map (\<lambda>c. c\<lparr>c_sync := False\<rparr>) cs"
    have cs': "length ?cs = length (map argv outs)" "\<forall>c \<in> set ?cs. \<not> c_evict c" using cs by auto
    have d: "db_abs dbr = (Map.empty, db_log dbr)" "kv_inv (db_kv dbr)" using dbr kv_inv_new by (simp_all add: db_abs_def)
    note run = covered_run [OF o(3) cs', of "db_log dbr", folded d(1)]
    obtain db' rs' where r: "run_calls cmd_step dbr (zip ?cs (map argv outs)) = (db', rs')" by (cases "run_calls cmd_step dbr (zip ?cs (map argv outs))")
    have "kv_inv (db_kv db')" "kv_abs (db_kv db') = (\<lambda>k. compacted (kv_abs (db_kv db) k))"
      using server_calls.run_refines [OF d(2) run [THEN conjunct1] r] run [THEN conjunct2] by (auto simp: db_abs_def)
    moreover have "handle_all cs (map argv outs) dbr = Some (Inr db')"
      using handle_all_run [OF d(2) run [THEN conjunct1]] cs(1) r by simp
    ultimately show ?thesis by blast
  qed
  then show ?thesis using o(1,2) by blast
qed

theorem redundancy_equivalence_witness:
  "\<exists>cmds outs db'. RemoveRedundancy \<lparr>it_keys = id, it_hash = id, it_uset = id\<rparr> (\<lambda>k i. 0) False
       (Some (concat (map (\<lambda>cmd. ToProtocolString (cache_of cmd)) cmds))) (AppendableFile_new [] 4 False) =
       Inr (fold AppendableFile_Append outs (AppendableFile_new [] 4 False)) \<and> length cmds = 4 \<and>
     handle_all (replicate (length outs) (sample_ctx 9)) (map argv outs) sample_db = Some (Inr db') \<and>
     kv_abs (db_kv db') = [''n'' \<mapsto> AInt 42, ''l'' \<mapsto> AList [''a'']]"
proof -
  let ?cmds = "[[''set'', ''n'', ''41''], [''incr'', ''n''], [''lpush'', ''l'', ''a'', ''b''], [''lpop'', ''l'']]"
  let ?it = "\<lparr>it_keys = id, it_hash = id, it_uset = id\<rparr>"
  obtain db rs where run: "run_calls cmd_step sample_db sample_requests = (db, rs)"
    by (cases "run_calls cmd_step sample_db sample_requests")
  from server_calls.run_refines [OF sample_inv_abs(1) sample_call_ok run] sample_run
  have db: "kv_abs (db_kv db) = [''n'' \<mapsto> AInt 42, ''l'' \<mapsto> AList [''a'']]" "db_log db = Some ?cmds"
    unfolding sample_inv_abs(2) by (auto simp: db_abs_def)
  have start: "db_kv sample_db = KVContainer_new" "db_log sample_db = Some []" by (simp_all add: sample_db_def)
  have small: "small_commands ?cmds" by (simp add: small_commands_def request_def item_protocol_eq to_string_nat.simps)
  have simple: "\<forall>c \<in> set ?cmds. simple_command c" by (simp add: simple_command_def Key_def c_str_def)
  have it: "iterates ?it" by (simp add: iterates_def)
  have c: "(\<lambda>k. compacted (([''n'' \<mapsto> AInt 42, ''l'' \<mapsto> AList [''a'']]) k)) = [''n'' \<mapsto> AInt 42, ''l'' \<mapsto> AList [''a'']]"
    by (auto simp: fun_eq_iff compacted_def empty_value_def reread_def)
  have cs: "\<forall>c \<in> set (replicate n (sample_ctx 9)). \<not> c_evict c" for n by (simp add: sample_ctx_def)
  obtain outs where o: "RemoveRedundancy ?it (\<lambda>k i. 0) False (Some (concat (map (\<lambda>cmd. ToProtocolString (cache_of cmd)) ?cmds))) (AppendableFile_new [] 4 False) =
      Inr (fold AppendableFile_Append outs (AppendableFile_new [] 4 False))"
    "\<forall>cs (dbr :: unit db). db_kv dbr = KVContainer_new \<and> length cs = length outs \<and> (\<forall>c \<in> set cs. \<not> c_evict c) \<longrightarrow>
      (\<exists>db'. handle_all cs (map argv outs) dbr = Some (Inr db') \<and> kv_inv (db_kv db') \<and>
         kv_abs (db_kv db') = (\<lambda>k. compacted (kv_abs (db_kv db) k)))"
    using redundancy_equivalence [OF start sample_ok run db(2) small refl simple it, of "\<lambda>k i. 0" False "AppendableFile_new [] 4 False"] by blast
  obtain db' where "handle_all (replicate (length outs) (sample_ctx 9)) (map argv outs) sample_db = Some (Inr db')"
    "kv_abs (db_kv db') = [''n'' \<mapsto> AInt 42, ''l'' \<mapsto> AList [''a'']]"
    using o(2) [rule_format, of sample_db "replicate (length outs) (sample_ctx 9)"] start(1) cs unfolding db(1) c by auto
  then show ?thesis using o(1) by (intro exI [of _ ?cmds] exI [of _ outs] exI [of _ db']) simp
qed

text \<open>
  C40. Logs that rewriting does not handle. A \<open>del\<close> of two keys is filed under the first one, so the
  second key stays in the new log although the server deleted it. An \<open>expireat\<close> that is still in the future
  stays in the queue and fails the assertion, which ends the program. A negative index, which the
  server accepts, is converted to an unsigned number and writes outside the list.
\<close>

theorem redundancy_defects:
  assumes "Key k = k" "Key k' = k'" "k \<noteq> k'" "CanConvertToUInt64 t = Some d" "sec k 3 < d"
  shows "populate [[''set'', k, x], [''set'', k', y], [''del'', k, k']] [] =
      Inr [(k, [[''set'', k, x], [''del'', k, k']]), (k', [[''set'', k', y]])] \<and>
    process_key it sec [[''set'', k', y]] = Inr [cache_of [''set'', k', y]] \<and> fst (cmd_spec m [''del'', k, k']) k' = None \<and>
    process_key it sec [[''set'', k, x], [''expireat'', k, t]] = Inl AssertFailed \<and>
    process_key it sec [[''rpush'', k, x], [''lsetindex'', k, ''-1'', y]] = Inl OutsideContainer \<and>
    fst (cmd_spec [k \<mapsto> AList [x]] [''lsetindex'', k, ''-1'', y]) = [k \<mapsto> AList [y]]"
proof (intro conjI)
  show "populate [[''set'', k, x], [''set'', k', y], [''del'', k, k']] [] =
      Inr [(k, [[''set'', k, x], [''del'', k, k']]), (k', [[''set'', k', y]])]"
    using assms(3) by (simp add: populate_caches_func_def operand_def)
  show "process_key it sec [[''set'', k', y]] = Inr [cache_of [''set'', k', y]]"
    by (simp add: process_key_def sequential_step_def aux_step_def restore_command_def)
  show "fst (cmd_spec m [''del'', k, k']) k' = None" using assms(1,2) by (simp add: effect_eval restrict_map_def)
  show "process_key it sec [[''set'', k, x], [''expireat'', k, t]] = Inl AssertFailed"
    using assms(4,5) by (simp add: process_key_def sequential_step_def operand_def aux_step_def eval_nat_numeral)
  have "std_stoull ''-1'' = Inr (- 1)" by code_simp
  moreover have "unat (- 1 :: u64) \<noteq> 0" by (simp add: unsigned_eq_0_iff)
  ultimately show "process_key it sec [[''rpush'', k, x], [''lsetindex'', k, ''-1'', y]] = Inl OutsideContainer"
    by (simp add: process_key_def sequential_step_def operand_def aux_step_def aux_new_def list_op_def)
  have "CanConvertToInt32 ''-1'' = Some (- 1)" by code_simp
  then show "fst (cmd_spec [k \<mapsto> AList [x]] [''lsetindex'', k, ''-1'', y]) = [k \<mapsto> AList [y]]"
    using assms(1) by (simp add: effect_eval idx_of_def)
qed

theorem redundancy_defects_witness:
  "process_key \<lparr>it_keys = id, it_hash = id, it_uset = id\<rparr> (\<lambda>k i. 0) [[''set'', ''a'', ''1''], [''expireat'', ''a'', ''9'']] = Inl AssertFailed"
proof -
  have k: "Key ''a'' = ''a''" "Key ''b'' = ''b''" by (simp_all add: Key_def c_str_def)
  have t: "CanConvertToUInt64 ''9'' = Some 9" by code_simp
  show ?thesis using redundancy_defects [OF k _ t, of "\<lambda>k i. 0"] by simp
qed

end
