(* ===== verification/RewriteTool.thy ===== *)
theory RewriteTool
  imports Redundancy
begin

text \<open>
  \<open>src/tools/litekv-rewrite-dump.cpp\<close>: the tool that rewrites a log file. The file system is a map from names to contents; creating and
  opening the destination succeeds (the tool aborts otherwise). The worker thread of the destination wakes up for the last flush only; that other
  wake-ups change nothing is part of the theorem below. After a fault (\<open>Inl\<close>) the destination is not described.
\<close>

section \<open>The tool\<close>

definition rewrite_dump_main ::
    "iteration \<Rightarrow> (string \<Rightarrow> nat \<Rightarrow> u64) \<Rightarrow> bool \<Rightarrow> string list \<Rightarrow> (string \<rightharpoonup> string) \<Rightarrow> rr_error + (string \<rightharpoonup> string)" where
  "rewrite_dump_main it sec err args files =
     (if length args \<noteq> 2 then Inr files
      else let source = args ! 0; destination = args ! 1;
               content = (case files destination of None \<Rightarrow> [] | Some s \<Rightarrow> s);
               files1 = files(destination \<mapsto> content);
               file = AppendableFile_new content 4096 True
           in try_op (RemoveRedundancy it sec err (files1 source) file) (\<lambda>file'.
                Inr (files1(destination \<mapsto> fs_bytes (AppendableFile_close True True file')))))"

section \<open>Lemmas\<close>

lemma fold_EvAppend: "fold aof_step (map EvAppend cs) a = fold AppendableFile_Append cs a"
  by (induction cs arbitrary: a) simp_all

lemma appended_EvAppend [simp]: "appended (map EvAppend cs) = cs"
  by (induction cs) simp_all

lemma aof_step_size:
  "length (cur_caches (aof_step ev a)) + length (backup_caches (aof_step ev a)) \<le>
     length (cur_caches a) + length (backup_caches a) + length (appended [ev])"
  "cache_max_size (aof_step ev a) = cache_max_size a"
  by (cases ev; simp add: AppendableFile_Append_def Flush_def Switch_def SetAutoFlush_def Let_def)+

text \<open>A run that appends no more commands than one cache holds keeps up, whenever the worker wakes.\<close>

lemma keeps_up_few:
  "length (cur_caches a) + length (backup_caches a) + length (appended evs) \<le> cache_max_size a \<Longrightarrow> keeps_up evs a"
proof (induction evs arbitrary: a)
  case (Cons ev evs)
  have "length (cur_caches (aof_step ev a)) + length (backup_caches (aof_step ev a)) + length (appended evs) \<le> cache_max_size (aof_step ev a)"
    using Cons.prems aof_step_size [of ev a] by (simp add: appended_Cons [of ev evs])
  then have "keeps_up evs (aof_step ev a)" by (rule Cons.IH)
  moreover have "keeps_up [ev] a" using Cons.prems by (cases ev) simp_all
  ultimately show ?case by (subst keeps_up_Cons) blast
qed simp

lemma request_length_2:
  assumes "2 \<le> length c"
  shows "16 \<le> length (request c)"
proof -
  obtain x y zs where "c = x # y # zs" using assms by (cases c; cases "tl c") auto
  moreover have "1 \<le> length (to_string_nat n)" for n by (cases "to_string_nat n") simp_all
  from this [of "length c"] this [of "length x"] this [of "length y"] calculation
  show ?thesis by (simp add: request_def item_protocol_eq)
qed

lemma small_log_few:
  assumes "small_commands cmds" "\<forall>c \<in> set cmds. 2 \<le> length c"
  shows "length cmds \<le> 4096"
proof -
  have "16 * length cmds \<le> length (concat (map request cmds))"
    using assms(2) by (induction cmds) (use request_length_2 in force)+
  then show ?thesis using assms(1) by (simp add: small_commands_def)
qed

lemma log_bytes: "\<forall>x \<in> set outs. argc x = of_nat (length (argv x)) \<Longrightarrow>
  concat (map ToProtocolString outs) = concat (map (\<lambda>cmd. ToProtocolString (cache_of cmd)) (map argv outs))"
  by (induction outs) (auto simp: ToProtocolString_def cache_of_def)

lemma log_bytes_small:
  assumes "\<forall>x \<in> set outs. argc x = of_nat (length (argv x))" "length (concat (map ToProtocolString outs)) \<le> RESTORE_AOF_READ_BUF_SIZE"
  shows "small_commands (map argv outs)"
proof -
  have "ToProtocolString x = request (argv x)" if x: "x \<in> set outs" for x
  proof -
    have "length args \<le> length (concat (map item_protocol args))" for args by (induction args) (simp_all add: item_protocol_eq)
    then have "length (argv x) \<le> length (concat (map item_protocol (argv x)))" .
    also have "\<dots> \<le> length (ToProtocolString x)" by (simp add: ToProtocolString_def)
    also have "\<dots> \<le> length (concat (map ToProtocolString outs))" using x by (induction outs) auto
    finally have "length (argv x) < 2 ^ 64" using assms(2) by simp
    then show ?thesis using assms(1) x by (simp add: ToProtocolString_request)
  qed
  then have "concat (map request (map argv outs)) = concat (map ToProtocolString outs)" by (induction outs) simp_all
  then show ?thesis using assms(2) by (simp add: small_commands_def)
qed

section \<open>Properties\<close>

text \<open>
  C7. The rewriting tool from file to file. Given the log file of a server that ran any synchronized data commands (with the
  conditions of the rewriting: \<open>del\<close> with one key, keys without NUL bytes, no negative index, at most 64 KiB), the tool ends without a fault, changes no file
  but the destination, and appends to it one command for each of at most as many keys as the log has commands. The same bytes are
  written whenever the worker thread of the destination wakes up meanwhile. When the destination was absent or empty and the new log is at most
  64 KiB long too, a server that starts on it comes up with the map of the original one, up to empty collections and decimal strings.
\<close>

theorem rewritten_file_restores:
  assumes "db_kv db0 = KVContainer_new" "db_log db0 = Some []"
    and "calls_ok replayable_call cmd_spec_step (Map.empty, Some []) qs"
    and "run_calls cmd_step db0 qs = (db, rs)" "db_log db = Some cmds"
    and "small_commands cmds" "files source = Some (concat (map (\<lambda>cmd. ToProtocolString (cache_of cmd)) cmds))"
    and "\<forall>c \<in> set cmds. simple_command c" "iterates it"
    and "old = (case files destination of None \<Rightarrow> [] | Some s \<Rightarrow> s)"
  shows "\<exists>outs. rewrite_dump_main it sec err [source, destination] files =
      Inr (files(destination \<mapsto> old @ concat (map ToProtocolString outs))) \<and>
    distinct (map (\<lambda>x. argv x ! 1) outs) \<and> length outs \<le> length cmds \<and>
    (\<forall>evs. appended evs = outs \<longrightarrow>
      fs_bytes (AppendableFile_close True True (fold aof_step evs (AppendableFile_new old 4096 True))) = old @ concat (map ToProtocolString outs)) \<and>
    (\<forall>cs (dbr :: 'g db) err'. old = [] \<and> length (concat (map ToProtocolString outs)) \<le> RESTORE_AOF_READ_BUF_SIZE \<and> db_kv dbr = KVContainer_new \<and>
        length cs = length outs \<and> (\<forall>c \<in> set cs. \<not> c_evict c) \<longrightarrow>
      (\<exists>db'. ReadFromScratch cs err' (concat (map ToProtocolString outs)) dbr = Some (Inr db') \<and> kv_inv (db_kv db') \<and>
         kv_abs (db_kv db') = (\<lambda>k. compacted (kv_abs (db_kv db) k))))"
proof -
  let ?bytes = "concat (map (\<lambda>cmd. ToProtocolString (cache_of cmd)) cmds)" and ?a = "AppendableFile_new old 4096 True"
  note log = log_of_run [OF assms(1-5)]
  have read: "CommonOperation err ?bytes = Some cmds" by (rule read_log_file [OF assms(6)])
  obtain outs where o: "RemoveRedundancy it sec err (Some ?bytes) ?a = Inr (fold AppendableFile_Append outs ?a)"
    "\<forall>x \<in> set outs. argc x = of_nat (length (argv x))" "distinct (map (\<lambda>x. argv x ! 1) outs)" "length outs \<le> length cmds"
    "covered Map.empty (map argv outs) (\<lambda>k. compacted (kv_abs (db_kv db) k))"
    using redundancy_rewrites [OF log assms(8,9) read] by blast
  have "\<forall>c \<in> set cmds. 2 \<le> length c" by (rule log_run_keys(2) [OF log assms(8)]) (simp add: good_value_def)
  from small_log_few [OF assms(6) this] o(4) have few: "length outs \<le> 4096" by simp
  have inorder: "fs_bytes (AppendableFile_close True True (fold aof_step evs ?a)) = old @ concat (map ToProtocolString outs)"
    if "appended evs = outs" for evs
    using log_file_in_order [OF keeps_up_few, of old 4096 True evs] few that by (simp add: AppendableFile_new_def)
  have "(files(destination \<mapsto> old)) source = Some ?bytes" using assms(7,10) by auto
  then have "rewrite_dump_main it sec err [source, destination] files = Inr (files(destination \<mapsto> old @ concat (map ToProtocolString outs)))"
    using o(1) inorder [of "map EvAppend outs"] by (simp add: rewrite_dump_main_def assms(10) [symmetric] fold_EvAppend)
  moreover have "\<exists>db'. ReadFromScratch cs err' (concat (map ToProtocolString outs)) dbr = Some (Inr db') \<and> kv_inv (db_kv db') \<and>
      kv_abs (db_kv db') = (\<lambda>k. compacted (kv_abs (db_kv db) k))"
    if "length (concat (map ToProtocolString outs)) \<le> RESTORE_AOF_READ_BUF_SIZE" "db_kv dbr = KVContainer_new" "length cs = length outs" "\<forall>c \<in> set cs. \<not> c_evict c"
    for cs and dbr :: "'g db" and err'
    using ReadFromScratch_log [OF o(5) log_bytes_small [OF o(2) that(1)] that(2) _ that(4), of err'] that(3) unfolding log_bytes [OF o(2)] by auto
  ultimately show ?thesis using o(3,4) inorder by (intro exI [of _ outs]) blast
qed

lemma sample_rewrite:
  assumes "cmds = [[''set'', ''n'', ''41''], [''incr'', ''n''], [''lpush'', ''l'', ''a'', ''b''], [''lpop'', ''l'']]" "files ''in'' = Some bytes"
    and "CommonOperation False bytes = Some cmds" "files ''out'' = None"
  shows "rewrite_dump_main \<lparr>it_keys = id, it_hash = id, it_uset = id\<rparr> (\<lambda>k i. 0) False [''in'', ''out''] files =
    Inr (files(''out'' \<mapsto> request [''set'', ''n'', ''42''] @ request [''rpush'', ''l'', ''a'']))"
proof -
  let ?it = "\<lparr>it_keys = id, it_hash = id, it_uset = id\<rparr>"
  have "try_op (try_op (populate [[''set'', ''n'', ''41''], [''incr'', ''n''], [''lpush'', ''l'', ''a'', ''b''], [''lpop'', ''l'']] [])
      (\<lambda>cache_map. process_keys ?it (\<lambda>k i. 0) (it_keys ?it cache_map) (AppendableFile_new [] 4096 True)))
      (\<lambda>file. Inr (fs_bytes (AppendableFile_close True True file))) =
    Inr (request [''set'', ''n'', ''42''] @ request [''rpush'', ''l'', ''a''])" by code_simp
  then show ?thesis
    using assms by (auto simp: rewrite_dump_main_def RemoveRedundancy_def try_op_def split: sum.splits)
qed

theorem rewritten_file_restores_witness:
  "\<exists>cmds cs db'. rewrite_dump_main \<lparr>it_keys = id, it_hash = id, it_uset = id\<rparr> (\<lambda>k i. 0) False [''in'', ''out'']
       [''in'' \<mapsto> concat (map (\<lambda>cmd. ToProtocolString (cache_of cmd)) cmds)] =
     Inr [''in'' \<mapsto> concat (map (\<lambda>cmd. ToProtocolString (cache_of cmd)) cmds),
       ''out'' \<mapsto> request [''set'', ''n'', ''42''] @ request [''rpush'', ''l'', ''a'']] \<and>
     length cmds = 4 \<and>
     ReadFromScratch cs False (request [''set'', ''n'', ''42''] @ request [''rpush'', ''l'', ''a'']) sample_db = Some (Inr db') \<and>
     kv_abs (db_kv db') = [''n'' \<mapsto> AInt 42, ''l'' \<mapsto> AList [''a'']]"
proof -
  let ?cmds = "[[''set'', ''n'', ''41''], [''incr'', ''n''], [''lpush'', ''l'', ''a'', ''b''], [''lpop'', ''l'']]"
  let ?it = "\<lparr>it_keys = id, it_hash = id, it_uset = id\<rparr>"
  let ?bytes = "concat (map (\<lambda>cmd. ToProtocolString (cache_of cmd)) ?cmds)" and ?new = "request [''set'', ''n'', ''42''] @ request [''rpush'', ''l'', ''a'']"
  obtain db rs where run: "run_calls cmd_step sample_db sample_requests = (db, rs)"
    by (cases "run_calls cmd_step sample_db sample_requests")
  from server_calls.run_refines [OF sample_inv_abs(1) sample_call_ok run] sample_run
  have db: "kv_abs (db_kv db) = [''n'' \<mapsto> AInt 42, ''l'' \<mapsto> AList [''a'']]" "db_log db = Some ?cmds"
    unfolding sample_inv_abs(2) by (auto simp: db_abs_def)
  have start: "db_kv sample_db = KVContainer_new" "db_log sample_db = Some []" by (simp_all add: sample_db_def)
  have small: "small_commands ?cmds" by (simp add: small_commands_def request_def item_protocol_eq to_string_nat.simps)
  have simple: "\<forall>c \<in> set ?cmds. simple_command c" by (simp add: simple_command_def Key_def c_str_def)
  have it: "iterates ?it" by (simp add: iterates_def)
  have src: "[''in'' \<mapsto> ?bytes] ''in'' = Some ?bytes" by simp
  have dst: "[] = (case [''in'' \<mapsto> ?bytes] ''out'' of None \<Rightarrow> [] | Some s \<Rightarrow> s)" by simp
  have c: "(\<lambda>k. compacted (([''n'' \<mapsto> AInt 42, ''l'' \<mapsto> AList [''a'']]) k)) = [''n'' \<mapsto> AInt 42, ''l'' \<mapsto> AList [''a'']]"
    by (auto simp: fun_eq_iff compacted_def empty_value_def reread_def)
  have main: "rewrite_dump_main ?it (\<lambda>k i. 0) False [''in'', ''out''] [''in'' \<mapsto> ?bytes] = Inr ([''in'' \<mapsto> ?bytes](''out'' \<mapsto> ?new))"
    by (rule sample_rewrite [OF refl _ read_log_file [OF small]]) simp_all
  obtain outs where o: "rewrite_dump_main ?it (\<lambda>k i. 0) False [''in'', ''out''] [''in'' \<mapsto> ?bytes] =
      Inr ([''in'' \<mapsto> ?bytes](''out'' \<mapsto> [] @ concat (map ToProtocolString outs)))"
    "\<forall>cs (dbr :: unit db) err'. [] = ([] :: string) \<and> length (concat (map ToProtocolString outs)) \<le> RESTORE_AOF_READ_BUF_SIZE \<and>
        db_kv dbr = KVContainer_new \<and> length cs = length outs \<and> (\<forall>c \<in> set cs. \<not> c_evict c) \<longrightarrow>
      (\<exists>db'. ReadFromScratch cs err' (concat (map ToProtocolString outs)) dbr = Some (Inr db') \<and> kv_inv (db_kv db') \<and>
         kv_abs (db_kv db') = (\<lambda>k. compacted (kv_abs (db_kv db) k)))"
    using rewritten_file_restores [OF start sample_ok run db(2) small src simple it dst, of "\<lambda>k i. 0" False] by blast
  have "concat (map ToProtocolString outs) = ?new"
    using o(1) [unfolded main] by (metis Inr_inject append_Nil fun_upd_eqD option.inject)
  moreover have "length ?new \<le> RESTORE_AOF_READ_BUF_SIZE" by (simp add: request_def item_protocol_eq to_string_nat.simps)
  moreover have "\<forall>c \<in> set (replicate n (sample_ctx 9)). \<not> c_evict c" for n by (simp add: sample_ctx_def)
  ultimately obtain db' where "ReadFromScratch (replicate (length outs) (sample_ctx 9)) False ?new sample_db = Some (Inr db')"
    "kv_abs (db_kv db') = [''n'' \<mapsto> AInt 42, ''l'' \<mapsto> AList [''a'']]"
    using o(2) [rule_format, of sample_db "replicate (length outs) (sample_ctx 9)" False] start(1) unfolding db(1) c by auto
  then show ?thesis using main by (intro exI [of _ ?cmds] exI [of _ "replicate (length outs) (sample_ctx 9)"] exI [of _ db']) simp
qed

end
