(* ===== verification/Spec2Isabelle.thy ===== *)
theory Spec2Isabelle
  imports CommandTypes Lkvdb Sessions Skiplist Startup StrOrder StringKeys AuxParser Descriptors Memory Clock BenchTool PseudoData RewriteTool
begin

text \<open>
  A verification library of LiteKV, an in-memory key-value server: a main thread runs an
  event loop that reads requests from sockets, executes commands on one container of keys,
  fires timers and writes replies; a worker thread writes executed commands to a log file.

  \<^bold>\<open>The program and its theories.\<close> Each theory models the sources named with it; one definition
  stands for one function, class or constant of the source and keeps its name, with the class as a
  prefix where two classes share a method name. Objects are records passed through the operations,
  enumerations and tagged unions are datatypes, fixed-width integers are words or integers with
  the wrap-around written out, undefined behaviour and exceptions are values of an option or sum
  type, so that \<open>None\<close> or \<open>Inl\<close> as a result is a claim about a fault.

  \<^item> \<open>LKV_Prelude\<close>: type names, bytes, theorem collections, and the locale \<open>call_refinement\<close>: a step
    function on a concrete state with an invariant, an abstraction and a specification step gives,
    once and for all, that every run of calls is a run of the specification. The components below that
    promise a history theorem are interpretations of it.
  \<^item> \<open>CStd\<close>: what the program uses of the C and C++ libraries (decimal printing and scanning, byte
    comparison, copying, searching).
  \<^item> \<open>Encoding\<close> (\<open>src/src/encoding.*\<close>): the hash of keys, variable-length and fixed-width integers.
  \<^item> \<open>Str\<close> (\<open>src/src/str.*\<close>): \<open>DynamicString\<close> with its block, length and capacity, \<open>StaticString\<close>,
    and the conversions between strings and integers. The locale \<open>string_buffer\<close> states the contract of the buffer.
    \<open>StrOrder\<close>: the orders of both classes, the comparisons with C strings and the functors of the hash tables; the
    locales \<open>text_compare\<close> and \<open>text_order\<close> say what comparing texts means and are interpreted for each of them.
  \<^item> \<open>HashStruct\<close> (\<open>src/src/hash.h\<close>, \<open>src/src/rehashable.h\<close>): chained tables and incremental rehashing;
    the locale \<open>rehash_impl\<close> holds the laws a client of the two tables relies on, interpreted
    in \<open>HashDict\<close> (\<open>src/src/hashdict.*\<close>) and \<open>HashSet\<close> (\<open>src/src/hashset.*\<close>).
  \<^item> \<open>DList\<close> (\<open>src/src/dlist.*\<close>): the list value, a chain of blocks of 128 slots.
  \<^item> \<open>ValueObject\<close> (\<open>src/src/valueobject.*\<close>): the tagged value with its type, and the
    serialization of values.
  \<^item> \<open>Core\<close> (\<open>src/src/core.*\<close>): \<open>KVContainer\<close>, all its operations, the two evictions and the snapshot.
    \<open>CoreSpec\<close> states its contract (\<open>kv_spec\<close>, a step on a map from keys to abstract values, and the
    locale \<open>object_store\<close>), \<open>CoreCorrect\<close> proves it, \<open>CoreProps\<close> adds eviction, enumeration and statistics,
    \<open>StringKeys\<close> the overloads of \<open>src/src/core.h\<close> whose keys are a \<open>std::string\<close>.
  \<^item> \<open>Buffer\<close> (\<open>src/src/net/buffer.*\<close>), locale \<open>byte_queue\<close>; \<open>Protocol\<close> (\<open>src/src/net/protocol.*\<close> and \<open>CommandCache\<close>
    of \<open>src/src/net/net.h\<close>): the request parser; \<open>AuxParser\<close>: the incremental parser \<open>AuxiliaryReadProc\<close>.
  \<^item> \<open>TimeEvent\<close> (\<open>src/src/net/time_event.*\<close>): the timers; \<open>Clock\<close>: the readings of the clock in their units.
  \<^item> \<open>Commands\<close> (\<open>src/src/net/commands.*\<close>): the command table, every handler and \<open>Engine::HandleCommand\<close>
    on the state of the whole server (\<open>db\<close>: container, timers, \<open>sExpiresMap\<close>, log, sessions,
    subscriptions). \<open>CommandsSpec\<close> gives the plan of every data command (the container call it
    makes, the reply, whether it is logged), \<open>CommandsCorrect\<close> proves that the handlers follow
    their plans, \<open>CommandsProps\<close> derives the properties of histories of requests, \<open>CommandTypes\<close> the typing of keys.
  \<^item> \<open>Expiry\<close>, \<open>PubSub\<close> and \<open>Recover\<close>: the commands on expirations, on subscriptions, and the command
    recovered from a value (\<open>KVContainer::RecoverCommandFromValue\<close>).
  \<^item> \<open>Persistence\<close> (\<open>src/src/persistence.*\<close>): the append-only log with its two caches and its worker, and
    reading it back; \<open>Redundancy\<close>: the rewriting of a log file (\<open>AppendableFile::RemoveRedundancy\<close>). \<open>RewriteTool\<close>, \<open>PseudoData\<close> and
    \<open>BenchTool\<close> (\<open>src/tools\<close>): the tool that rewrites a log file, the generator of random logs, and the options of the benchmark client.
  \<^item> \<open>Sockets\<close> (\<open>ReadToBuf\<close> and \<open>WriteFromBuf\<close> of \<open>src/src/net/utils.cpp\<close>); \<open>Server\<close> (\<open>src/src/net/server.cpp\<close>,
    \<open>src/src/net/net.cpp\<close>, \<open>Session\<close> of \<open>src/src/net/net.h\<close>): accepting clients, reading and executing their
    requests, writing replies, and the event loop; the results of system calls are
    arguments. \<open>Sessions\<close>: the states the server can reach (\<open>sv_reachable\<close>) and the life of a session. \<open>Addr\<close> (\<open>src/src/net/addr.*\<close>, \<open>src/src/net/utils.h\<close>): addresses
    and byte order. \<open>Descriptors\<close>: the socket options, the event loop, the listening socket, accepting and shutting down as traces of
    system calls, whose results are an arbitrary function.
  \<^item> \<open>Skiplist\<close> (\<open>src/src/skiplist.*\<close>): the sorted set, with its nodes in an explicit heap.
  \<^item> \<open>Config\<close> (\<open>src/src/config.*\<close>): the configuration file; \<open>Startup\<close> (\<open>src/src/main.cpp\<close>): bringing up a
    server from its configuration and its log file. The theorem at the end of this theory composes all of them.
  \<^item> \<open>Lkvdb\<close> (\<open>src/src/lkvdb.*\<close>): saving and loading snapshot files.
  \<^item> \<open>Memory\<close> (\<open>src/src/mem.h\<close>, the watcher of \<open>Engine\<close>): the sizes read from \<open>/proc\<close> and the decision to evict, with the rounding of \<open>double\<close> as an
    argument.

  \<^bold>\<open>What the theorems show.\<close> Histories: any sequence of calls of \<open>DynamicString\<close>, \<open>DList\<close>, \<open>HashDict\<close>,
  \<open>HashSet\<close>, \<open>Skiplist\<close> and \<open>KVContainer\<close>, and any sequence of data commands of the server, returns what the
  abstract value (string, list, map, set, map of values) returns, keeps the invariant and
  never faults. The whole server: over any passes of the event loop that serve any clients in any order and with any partial
  writes, every client is sent exactly the replies of the abstract map to its own requests, in order
  (\<open>server_serves\<close>, which composes the socket loops, the buffers, the parser, the commands and the
  timers); in every reachable state the sessions and the subscriptions agree. Round trips: integer codecs, requests, \<open>SET\<close> and \<open>GET\<close>, addresses, the log
  replayed, the log file read after a restart, the log file rewritten by the tool, snapshots. System calls: the server listens where its configuration
  says, accepted sockets get their options, and the child of a background save does not touch the registrations of its parent. Rewriting: the rewritten
  log has at most one command for each key and rebuilds the same map (up to empty collections and strings in decimal
  notation). Configuration: a file in the documented syntax yields exactly the settings of its lines. Typing: keys
  keep their type and commands for another type are refused. Expiration: the map of expirations and the timers agree
  in every reachable state, a timer pass deletes exactly the keys that are due, and a
  deadline comes back from the log to within a second. Termination: rehashing and the
  eviction loop end. Errors: theorems also pin down calls that do not do what their callers
  expect (a request split between arguments is lost, two full caches reorder the log, an empty list
  cannot be loaded, rewriting a log with a future
  expiration aborts, random eviction names another key, the socket loops misplace a third transfer, removing the last
  element of a skip list reads outside an array, descriptors are closed twice).

  \<^bold>\<open>Bounds and hypotheses.\<close> Strings have at most \<open>2 ^ 31\<close> bytes and lists fewer than \<open>2 ^ 31\<close> elements, where the
  program's \<open>int\<close> and \<open>size_t\<close> conversions stop being exact; \<open>restart_restores\<close> is for a log of one read
  block (65536 bytes), because a request that straddles two blocks is lost as the error theorem on
  split requests shows. Clock readings are arguments of the steps and may be arbitrary unless a
  theorem says otherwise. Iteration over \<open>std::unordered_map\<close> and \<open>std::unordered_set\<close> goes through an order given as an argument,
  only assumed to be a permutation. The history theorems for commands assume that the memory
  watcher asks for no eviction during the call. Loops whose end is not structural carry fuel that the
  termination theorems show to suffice, or are defined with a termination proof.

  \<^bold>\<open>Not modelled.\<close> The registration of signal handlers (\<open>src/src/main.cpp\<close>, \<open>src/src/net/server.h\<close>); console output, with \<open>ProcessVmSizeAsString\<close>, the
  printing of a skip list and progress messages; allocation failure; the destructors that only free memory, and the wrappers of
  files and mappings of \<open>src/src/lkvdb.h\<close>; races between the two threads inside one call (the calls of the log are atomic steps).
\<close>

section \<open>Properties of the whole server\<close>


text \<open>The sample server of the theory \<open>Server\<close>, shut down and started again.\<close>

lemma sample_config: "Config_new id (\<lambda>s. None) (Some ''appendonly 1'') = Inr (Config_default\<lparr>cf_appendonly_enabled := True\<rparr>)"
proof -
  have "fold config_line (split_on CHR 0x0A ''appendonly 1'') \<lparr>rd_unread = [], rd_first = [], rd_second = [], rd_configs = []\<rparr> =
      \<lparr>rd_unread = [], rd_first = ''appendonly'', rd_second = ''1'', rd_configs = [(''appendonly'', ''1'')]\<rparr>" "int_or 0 ''1'' = 1"
    by code_simp+
  then show ?thesis by (simp only: Config_new_def option.case Let_def) (simp add: Init_item_def)
qed

lemma sample_start:
  "main_start id (\<lambda>s. None) (Some ''appendonly 1'') (\<lambda>f. None) [] False () =
     Inr (Some (Inr (Server_new sample_db, Some (AppendableFile_new [] 1024 True))))"
proof -
  have "CommonOperation False [] = Some []" using CommonOperation_small [of "[]" False] by (simp add: small_commands_def)
  moreover have "Server_new ((main_db ())\<lparr>db_log := Some []\<rparr>) = Server_new sample_db" by (simp add: Server_new_def main_db_def sample_db_def)
  ultimately show ?thesis
    by (simp add: main_start_def sample_config RestoreFromAppendableFile_def ReadFromScratch_def Config_default_def SetAutoFlush_new)
qed

lemma sample_rounds_replayable: "calls_ok replayable_call cmd_spec_step (Map.empty, Some []) (round_requests sample_rounds)"
  by (simp add: round_requests_def round_events_def sample_rounds_def request_ctx_def sample_eval)


end
